(* ===== verification/Xv6_Prelude.thy ===== *)
theory Xv6_Prelude
  imports Main "HOL-Library.Word"
begin

text \<open>
  Shared vocabulary of the development: the machine integers of the kernel
  (\<^verbatim>\<open>xv6/types.h\<close>), the ways a C function can fail to return, sequencing of fallible
  calls, and the generic lemmas on lists and words that the component theories use.
\<close>

section \<open>Machine integers and addresses\<close>

text \<open>
  \<^verbatim>\<open>uint\<close>, pointers and \<^verbatim>\<open>int\<close> are 32 bits wide, \<^verbatim>\<open>uchar\<close> and \<^verbatim>\<open>char\<close> are 8 bits wide.
  Arithmetic on \<open>u32\<close> wraps around as the compiled code does.
\<close>

type_synonym u32 = "32 word"
type_synonym u16 = "16 word"
type_synonym u8 = "8 word"

named_theorems xv6_defs
named_theorems xv6_inv

section \<open>Calls that do not return normally\<close>

text \<open>
  A kernel function either returns a value, or stops: \<open>Panic\<close> is a call of
  \<^verbatim>\<open>panic()\<close> with its message (\<^verbatim>\<open>console.c\<close>: the machine freezes), \<open>Exited\<close> is a call of
  \<^verbatim>\<open>exit()\<close> (never returns to its caller), \<open>Sleeps\<close> is a call of \<^verbatim>\<open>sleep()\<close> at a
  place where the caller has to be woken by another process, \<open>Fault\<close> is an access
  through an invalid pointer.
\<close>

datatype halt = Panic string | Exited | Sleeps string | Fault string

type_synonym 'a res = "halt + 'a"

definition bindE :: "'a res \<Rightarrow> ('a \<Rightarrow> 'b res) \<Rightarrow> 'b res" where
  "bindE m f = (case m of Inl h \<Rightarrow> Inl h | Inr x \<Rightarrow> f x)"

definition returns :: "'a res \<Rightarrow> bool" where
  "returns m \<longleftrightarrow> (\<exists>x. m = Inr x)"

lemma bindE_Inr [simp]: "bindE (Inr x) f = f x"
  by (simp add: bindE_def)

lemma bindE_Inl [simp]: "bindE (Inl h) f = Inl h"
  by (simp add: bindE_def)

lemma bindE_eq_Inr_iff:
  "bindE m f = Inr y \<longleftrightarrow> (\<exists>x. m = Inr x \<and> f x = Inr y)"
  by (cases m) auto

lemma bindE_InrE:
  assumes "bindE m f = Inr y"
  obtains x where "m = Inr x" "f x = Inr y"
  using assms by (auto simp: bindE_eq_Inr_iff)

lemma bindE_assoc: "bindE (bindE m f) g = bindE m (\<lambda>x. bindE (f x) g)"
  by (cases m) auto

lemma returns_Inr [simp]: "returns (Inr x)"
  by (simp add: returns_def)

lemma returns_Inl [simp]: "\<not> returns (Inl h)"
  by (simp add: returns_def)

text \<open>
  Operations that thread a state through fallible calls. \<open>bnd\<close> runs one operation and hands its result
  and state to the next.
\<close>

type_synonym ('s, 'a) op = "'s \<Rightarrow> ('a \<times> 's) res"

definition ret :: "'a \<Rightarrow> ('s, 'a) op" where
  "ret x s = Inr (x, s)"

definition bnd :: "('s, 'a) op \<Rightarrow> ('a \<Rightarrow> ('s, 'b) op) \<Rightarrow> ('s, 'b) op" where
  "bnd m f s = (case m s of Inl h \<Rightarrow> Inl h | Inr (x, s') \<Rightarrow> f x s')"

definition stop :: "halt \<Rightarrow> ('s, 'a) op" where
  "stop h s = Inl h"

definition gets :: "('s \<Rightarrow> 'a) \<Rightarrow> ('s, 'a) op" where
  "gets f s = Inr (f s, s)"

definition modify :: "('s \<Rightarrow> 's) \<Rightarrow> ('s, unit) op" where
  "modify f s = Inr ((), f s)"

lemma op_simps [simp]:
  "ret x s = Inr (x, s)" "stop h s = Inl h" "gets f s = Inr (f s, s)" "modify u s = Inr ((), u s)"
  by (simp_all add: ret_def stop_def gets_def modify_def)

lemma bnd_eq_Inr_iff:
  "bnd m f s = Inr (y, t) \<longleftrightarrow> (\<exists>x s'. m s = Inr (x, s') \<and> f x s' = Inr (y, t))"
  by (auto simp: bnd_def split: sum.splits)

lemma bnd_Inr [simp]: "m s = Inr (x, s') \<Longrightarrow> bnd m f s = f x s'"
  by (simp add: bnd_def)

lemma bnd_Inl [simp]: "m s = Inl h \<Longrightarrow> bnd m f s = Inl h"
  by (simp add: bnd_def)

lemma bnd_ret [simp]: "bnd (ret x) f = f x" "bnd m ret = m"
  by (auto simp: bnd_def fun_eq_iff split: sum.splits)

lemma bnd_assoc: "bnd (bnd m f) g = bnd m (\<lambda>x. bnd (f x) g)"
  by (auto simp: bnd_def fun_eq_iff split: sum.splits)

section \<open>Lists indexed like arrays\<close>

lemma find_index_Some:
  "List.find P [0..<n] = Some i \<longleftrightarrow> i < n \<and> P i \<and> (\<forall>j<i. \<not> P j)"
proof
  assume "List.find P [0..<n] = Some i"
  then show "i < n \<and> P i \<and> (\<forall>j<i. \<not> P j)"
    by (auto simp: find_Some_iff)
next
  assume "i < n \<and> P i \<and> (\<forall>j<i. \<not> P j)"
  then show "List.find P [0..<n] = Some i"
    by (auto simp: find_Some_iff intro!: exI [where x = i])
qed

lemma find_index_None:
  "List.find P [0..<n] = None \<longleftrightarrow> (\<forall>i<n. \<not> P i)"
  by (auto simp: find_None_iff)

text \<open>
  The allocation idiom of the code: scan a table from index 0 and take the first entry that
  qualifies. Every scheduler and every slot allocator of the program is an instance.
\<close>

locale first_fit =
  fixes pick :: "'s \<Rightarrow> nat option"
    and ready :: "'s \<Rightarrow> nat \<Rightarrow> bool"
    and slots :: nat
  assumes pick_find: "pick s = List.find (ready s) [0..<slots]"
begin

lemma pick_Some_iff: "pick s = Some i \<longleftrightarrow> i < slots \<and> ready s i \<and> (\<forall>j<i. \<not> ready s j)"
  by (simp add: pick_find find_index_Some)

lemma pick_None_iff: "pick s = None \<longleftrightarrow> (\<forall>i < slots. \<not> ready s i)"
  by (simp add: pick_find find_index_None)

lemma pick_ready: "pick s = Some i \<Longrightarrow> i < slots \<and> ready s i"
  by (simp add: pick_Some_iff)

lemma pick_total: "i < slots \<Longrightarrow> ready s i \<Longrightarrow> \<exists>j\<le>i. pick s = Some j"
  by (cases "pick s") (auto simp: pick_None_iff pick_Some_iff intro: leI)

lemma lower_index_wins: "i < slots \<Longrightarrow> ready s i \<Longrightarrow> i < j \<Longrightarrow> pick s \<noteq> Some j"
  by (auto simp: pick_Some_iff)

lemma pick_cong: "(\<And>i. i < slots \<Longrightarrow> ready s i = ready s' i) \<Longrightarrow> pick s = pick s'"
  unfolding pick_find by (rule find_cong) auto

end

lemma small_sint: "unat (w :: u32) < 2 ^ 31 \<Longrightarrow> sint w = int (unat w)"
proof -
  assume "unat w < 2 ^ 31"
  then have "uint w < 2 ^ 31" by (metis of_nat_less_iff of_nat_numeral of_nat_power of_nat_unat)
  moreover have "0 \<le> uint w" by simp
  ultimately have "signed_take_bit 31 (uint w) = uint w" by (intro signed_take_bit_int_eq_self) linarith+
  then show ?thesis by (simp add: sint_uint)
qed

lemma fun_upd_id_outside: "a \<notin> A \<Longrightarrow> b \<in> A \<Longrightarrow> (f(a := v)) b = f b"
  by auto

end
