(* ===== verification/Uthread.thy ===== *)
theory Uthread
  imports Xv6_Prelude
begin

text \<open>
  The user-level thread package (\<^verbatim>\<open>xv6/uthread1.c\<close>, \<^verbatim>\<open>xv6/uthread_switch.S\<close>): the thread
  table, the scheduler, thread creation and exit, the assembly context switch on a machine
  state with registers and stack memory, and the program's \<^verbatim>\<open>main\<close>.

  A \<^verbatim>\<open>thread_p\<close> is an index into \<^verbatim>\<open>all_thread\<close>, \<open>None\<close> for the null pointer. The stack memory
  is a map from (4-aligned) addresses to 32-bit words; the \<^verbatim>\<open>sp\<close> and \<^verbatim>\<open>state\<close> members of a
  thread are record fields. Lines printed by the package are appended to \<open>ulog\<close>.
\<close>

section \<open>State\<close>

text \<open>\<^verbatim>\<open>FREE\<close>, \<^verbatim>\<open>RUNNING\<close> and \<^verbatim>\<open>RUNNABLE\<close> of \<^verbatim>\<open>uthread1.c\<close>, with the numbers it prints.\<close>

datatype tstate = T_FREE | T_RUNNING | T_RUNNABLE

primrec tstate_num :: "tstate \<Rightarrow> int" where
  "tstate_num T_FREE = 0"
| "tstate_num T_RUNNING = 1"
| "tstate_num T_RUNNABLE = 2"

definition MAX_THREAD :: nat where "MAX_THREAD = 4"

definition STACK_SIZE :: u32 where "STACK_SIZE = 8192"

record thread =
  t_sp :: u32
  t_state :: tstate

datatype uevent =
    SchedStart u32 int | SchedCheck nat u32 int | SchedFound nat u32
  | SchedSwitch u32 u32 | SchedWarn u32 int | SchedNoSwitch u32
  | SchedNoRunnable | SchedEnd | CreateTooMany | ExitReturned
  | MyThreadLoop u32 nat | MyThreadExit | MainReturned

text \<open>
  \<open>tbase\<close> is the address of \<^verbatim>\<open>all_thread\<close>; \<open>registered\<close> is what the system call
  \<^verbatim>\<open>uthread_init\<close> has told the kernel.
\<close>

record uthreads =
  tbase :: u32
  all_thread :: "thread list"
  current_thread :: "nat option"
  next_thread :: "nat option"
  registered :: u32
  umem :: "u32 \<Rightarrow> u32"
  esp :: u32
  ebp :: u32
  ebx :: u32
  esi :: u32
  edi :: u32
  eip :: u32
  ulog :: "uevent list"

text \<open>
  How a call ends: it returns to its caller, it has switched stacks (execution goes on at
  \<open>eip\<close> of the new state), or the process has called \<^verbatim>\<open>exit()\<close>.
\<close>

datatype uflow = Returned uthreads | Switched uthreads | UExit uthreads

text \<open>\<^verbatim>\<open>sizeof(struct thread)\<close> is 4 + 8192 + 4; the stack starts after the \<^verbatim>\<open>sp\<close> member.\<close>

definition thread_addr :: "uthreads \<Rightarrow> nat \<Rightarrow> u32" where
  "thread_addr s i = tbase s + 8200 * of_nat i"

definition stack_top :: "uthreads \<Rightarrow> nat \<Rightarrow> u32" where
  "stack_top s i = thread_addr s i + 4 + STACK_SIZE"

definition ptr :: "uthreads \<Rightarrow> nat option \<Rightarrow> u32" where
  "ptr s p = (case p of None \<Rightarrow> 0 | Some i \<Rightarrow> thread_addr s i)"

definition ulog_add :: "uevent \<Rightarrow> uthreads \<Rightarrow> uthreads" where
  "ulog_add e s = s\<lparr>ulog := ulog s @ [e]\<rparr>"

definition set_tstate :: "nat \<Rightarrow> tstate \<Rightarrow> uthreads \<Rightarrow> uthreads" where
  "set_tstate i st s =
     s\<lparr>all_thread := (all_thread s)[i := (all_thread s ! i)\<lparr>t_state := st\<rparr>]\<rparr>"

definition state_of :: "uthreads \<Rightarrow> nat \<Rightarrow> tstate" where
  "state_of s i = t_state (all_thread s ! i)"

section \<open>The context switch\<close>

definition push :: "u32 \<Rightarrow> uthreads \<Rightarrow> uthreads" where
  "push v s = s\<lparr>esp := esp s - 4, umem := (umem s)(esp s - 4 := v)\<rparr>"

definition pop :: "uthreads \<Rightarrow> u32 \<times> uthreads" where
  "pop s = (umem s (esp s), s\<lparr>esp := esp s + 4\<rparr>)"

text \<open>
  \<^verbatim>\<open>movl current_thread, %eax; movl %esp, (%eax)\<close>: the first member of the structure is
  \<^verbatim>\<open>sp\<close>; through a null pointer the store goes to address 0.
\<close>

definition save_esp :: "uthreads \<Rightarrow> uthreads" where
  "save_esp s =
     (case current_thread s of
        None \<Rightarrow> s\<lparr>umem := (umem s)(0 := esp s)\<rparr>
      | Some i \<Rightarrow>
          s\<lparr>all_thread := (all_thread s)[i := (all_thread s ! i)\<lparr>t_sp := esp s\<rparr>]\<rparr>)"

definition load_esp :: "uthreads \<Rightarrow> uthreads" where
  "load_esp s =
     (case current_thread s of
        None \<Rightarrow> s\<lparr>esp := umem s 0\<rparr>
      | Some i \<Rightarrow> s\<lparr>esp := t_sp (all_thread s ! i)\<rparr>)"

definition save_context :: "u32 \<Rightarrow> uthreads \<Rightarrow> uthreads" where
  "save_context ra s =
     (let s = push ra s;
          s = push (ebp s) s;
          s = push (ebx s) s;
          s = push (esi s) s;
          s = push (edi s) s
      in save_esp s)"

definition restore_context :: "uthreads \<Rightarrow> uthreads" where
  "restore_context s =
     (let s = load_esp s;
          (v, s) = pop s; s = s\<lparr>edi := v\<rparr>;
          (v, s) = pop s; s = s\<lparr>esi := v\<rparr>;
          (v, s) = pop s; s = s\<lparr>ebx := v\<rparr>;
          (v, s) = pop s; s = s\<lparr>ebp := v\<rparr>;
          (v, s) = pop s
      in s\<lparr>eip := v\<rparr>)"

text \<open>
  \<^verbatim>\<open>thread_switch\<close>, entered by a \<^verbatim>\<open>call\<close> that pushed the return address \<open>ra\<close>: save the
  callee-saved registers and \<^verbatim>\<open>%esp\<close>, make \<^verbatim>\<open>next_thread\<close> current, restore its registers and
  return on its stack.
\<close>

definition thread_switch :: "u32 \<Rightarrow> uthreads \<Rightarrow> uthreads" where
  "thread_switch ra s =
     (let s = save_context ra s;
          s = s\<lparr>current_thread := next_thread s\<rparr>
      in restore_context s)"

section \<open>The scheduler, creation, exit and main\<close>

text \<open>The search loop of \<^verbatim>\<open>thread_schedule\<close>, over the indices still to be examined.\<close>

fun sched_scan :: "nat list \<Rightarrow> uthreads \<Rightarrow> nat option \<times> uthreads" where
  "sched_scan [] s = (None, s)"
| "sched_scan (i # is) s =
     (let s' = (if state_of s i \<noteq> T_FREE
                then ulog_add (SchedCheck i (thread_addr s i) (tstate_num (state_of s i))) s
                else s)
      in if state_of s i = T_RUNNABLE \<and> Some i \<noteq> current_thread s
         then (Some i, ulog_add (SchedFound i (thread_addr s i)) s')
         else sched_scan is s')"

text \<open>
  The code after the loop when a thread was found, up to the call of \<^verbatim>\<open>thread_switch\<close>, whose
  return address is \<open>ra\<close>.
\<close>

definition sched_mark :: "nat \<Rightarrow> uthreads \<Rightarrow> uthreads" where
  "sched_mark n s =
     (let c = current_thread s;
          s = ulog_add (SchedSwitch (ptr s c) (thread_addr s n)) s;
          s = s\<lparr>next_thread := Some n\<rparr>;
          s = set_tstate n T_RUNNING s
      in case c of
           None \<Rightarrow> s
         | Some i \<Rightarrow>
             if state_of s i = T_RUNNING then set_tstate i T_RUNNABLE s
             else ulog_add (SchedWarn (thread_addr s i) (tstate_num (state_of s i))) s)"

definition thread_schedule :: "u32 \<Rightarrow> uthreads \<Rightarrow> uflow" where
  "thread_schedule ra s =
     (let s = ulog_add (SchedStart (ptr s (current_thread s))
                (case current_thread s of None \<Rightarrow> -1 | Some i \<Rightarrow> tstate_num (state_of s i))) s;
          (found, s) = sched_scan [0..<MAX_THREAD] s
      in case found of
           Some n \<Rightarrow> Switched (thread_switch ra (sched_mark n s))
         | None \<Rightarrow>
             (let s = ulog_add (SchedNoSwitch (ptr s (current_thread s))) s
              in if (case current_thread s of None \<Rightarrow> True | Some i \<Rightarrow> state_of s i = T_FREE)
                 then UExit (ulog_add SchedNoRunnable s)
                 else Returned (ulog_add SchedEnd s)))"

text \<open>
  \<^verbatim>\<open>thread_schedule\<close> up to its call of \<^verbatim>\<open>thread_switch\<close>, if it gets there: the thread found, and the state
  with the marks set.
\<close>

definition sched_begin :: "uthreads \<Rightarrow> (nat \<times> uthreads) option" where
  "sched_begin s =
     (let s = ulog_add (SchedStart (ptr s (current_thread s))
                (case current_thread s of None \<Rightarrow> -1 | Some i \<Rightarrow> tstate_num (state_of s i))) s;
          (found, s) = sched_scan [0..<MAX_THREAD] s
      in map_option (\<lambda>n. (n, sched_mark n s)) found)"

text \<open>
  Resuming inside \<^verbatim>\<open>thread_schedule\<close> after \<^verbatim>\<open>thread_switch()\<close> prints the last line and
  returns.
\<close>

definition sched_resume :: "uthreads \<Rightarrow> uflow" where
  "sched_resume s = Returned (ulog_add SchedEnd s)"

definition thread_exit :: "u32 \<Rightarrow> uthreads \<Rightarrow> uflow" where
  "thread_exit ra s =
     (let s = (case current_thread s of
                 None \<Rightarrow> s\<lparr>umem := (umem s)(8196 := 0)\<rparr>
               | Some i \<Rightarrow> set_tstate i T_FREE s)
      in case thread_schedule ra s of
           Returned s' \<Rightarrow> UExit (ulog_add ExitReturned s')
         | flow \<Rightarrow> flow)"

definition thread_init :: "u32 \<Rightarrow> uthreads \<Rightarrow> uthreads" where
  "thread_init sched s =
     (let s = s\<lparr>registered := sched\<rparr>;
          s = s\<lparr>current_thread := Some 0\<rparr>;
          s = set_tstate 0 T_RUNNING s
      in fold (\<lambda>i. set_tstate i T_FREE) [1..<MAX_THREAD] s)"

text \<open>\<^verbatim>\<open>thread_create\<close>: the first free slot gets a stack whose top holds \<open>func\<close>.\<close>

definition thread_create :: "u32 \<Rightarrow> uthreads \<Rightarrow> uthreads" where
  "thread_create func s =
     (case List.find (\<lambda>i. state_of s i = T_FREE) [0..<MAX_THREAD] of
        None \<Rightarrow> ulog_add CreateTooMany s
      | Some i \<Rightarrow>
          (let sp = stack_top s i - 4;
               s = s\<lparr>umem := (umem s)(sp := func)\<rparr>
           in s\<lparr>all_thread := (all_thread s)[i := \<lparr>t_sp = sp - 16, t_state = T_RUNNABLE\<rparr>]\<rparr>))"

definition mythread :: "u32 \<Rightarrow> uthreads \<Rightarrow> uflow" where
  "mythread ra s =
     (let s = fold (\<lambda>i s. ulog_add (MyThreadLoop (ptr s (current_thread s)) i) s) [0..<100] s
      in thread_exit ra (ulog_add MyThreadExit s))"

text \<open>
  \<^verbatim>\<open>main\<close>; \<open>umain_rest\<close> is what follows its call of \<^verbatim>\<open>thread_schedule\<close>, with the value it
  returns. It runs at once if the scheduler returns, and otherwise when the main thread is
  resumed.
\<close>

definition umain_rest :: "uthreads \<Rightarrow> int \<times> uthreads" where
  "umain_rest s = (-1, ulog_add MainReturned s)"

definition umain :: "u32 \<Rightarrow> u32 \<Rightarrow> u32 \<Rightarrow> uthreads \<Rightarrow> uflow" where
  "umain sched func ra s =
     (case thread_schedule ra (thread_create func (thread_create func (thread_init sched s))) of
        Returned s' \<Rightarrow> Returned (snd (umain_rest s'))
      | flow \<Rightarrow> flow)"

section \<open>Lemmas\<close>

lemma ulog_add_fields [simp]:
  "tbase (ulog_add e s) = tbase s" "all_thread (ulog_add e s) = all_thread s"
  "current_thread (ulog_add e s) = current_thread s" "next_thread (ulog_add e s) = next_thread s"
  "umem (ulog_add e s) = umem s" "esp (ulog_add e s) = esp s" "eip (ulog_add e s) = eip s"
  "ebp (ulog_add e s) = ebp s" "ebx (ulog_add e s) = ebx s" "esi (ulog_add e s) = esi s"
  "edi (ulog_add e s) = edi s" "state_of (ulog_add e s) = state_of s"
  "thread_addr (ulog_add e s) = thread_addr s" "stack_top (ulog_add e s) = stack_top s"
  "ptr (ulog_add e s) = ptr s"
  by (simp_all add: ulog_add_def state_of_def thread_addr_def stack_top_def ptr_def fun_eq_iff
      split: option.splits)

lemma set_tstate_fields [simp]:
  "tbase (set_tstate i v s) = tbase s" "length (all_thread (set_tstate i v s)) = length (all_thread s)"
  "current_thread (set_tstate i v s) = current_thread s"
  "next_thread (set_tstate i v s) = next_thread s"
  "umem (set_tstate i v s) = umem s" "esp (set_tstate i v s) = esp s"
  "ebp (set_tstate i v s) = ebp s" "ebx (set_tstate i v s) = ebx s" "esi (set_tstate i v s) = esi s"
  "edi (set_tstate i v s) = edi s" "thread_addr (set_tstate i v s) = thread_addr s"
  "stack_top (set_tstate i v s) = stack_top s"
  by (simp_all add: set_tstate_def thread_addr_def stack_top_def fun_eq_iff)

lemma t_sp_set_tstate [simp]:
  "t_sp (all_thread (set_tstate i v s) ! j) = t_sp (all_thread s ! j)"
  by (cases "i < length (all_thread s)"; cases "i = j") (auto simp: set_tstate_def list_update_beyond)

lemma state_of_set_tstate:
  "i < length (all_thread s) \<Longrightarrow> state_of (set_tstate i v s) = (state_of s)(i := v)"
  by (auto simp: state_of_def set_tstate_def fun_eq_iff nth_list_update)

lemma sched_scan_fst:
  "fst (sched_scan is s)
   = List.find (\<lambda>i. state_of s i = T_RUNNABLE \<and> Some i \<noteq> current_thread s) is"
  by (induction "is" arbitrary: s) (auto simp: Let_def)

lemma sched_scan_snd:
  "\<exists>l. snd (sched_scan is s) = s\<lparr>ulog := l\<rparr>"
proof (induction "is" arbitrary: s)
  case Nil
  show ?case by (rule exI [where x = "ulog s"]) simp
next
  case (Cons i "is")
  show ?case
    using Cons.IH [of s] Cons.IH [of "ulog_add e s" for e]
    by (auto simp: Let_def ulog_add_def)
qed

lemma load_esp_fields [simp]:
  "umem (load_esp s) = umem s" "all_thread (load_esp s) = all_thread s"
  "current_thread (load_esp s) = current_thread s" "next_thread (load_esp s) = next_thread s"
  "tbase (load_esp s) = tbase s"
  by (simp_all add: load_esp_def split: option.splits)

definition saved_sp :: "uthreads \<Rightarrow> u32" where
  "saved_sp s = esp (load_esp s)"

lemma restore_context_fields [simp]:
  "umem (restore_context s) = umem s" "all_thread (restore_context s) = all_thread s"
  "current_thread (restore_context s) = current_thread s"
  "next_thread (restore_context s) = next_thread s" "tbase (restore_context s) = tbase s"
  "esp (restore_context s) = saved_sp s + 20"
  "edi (restore_context s) = umem s (saved_sp s)"
  "esi (restore_context s) = umem s (saved_sp s + 4)"
  "ebx (restore_context s) = umem s (saved_sp s + 8)"
  "ebp (restore_context s) = umem s (saved_sp s + 12)"
  "eip (restore_context s) = umem s (saved_sp s + 16)"
  by (simp_all add: restore_context_def Let_def pop_def saved_sp_def add.commute)

lemma save_esp_fields [simp]:
  "current_thread (save_esp s) = current_thread s" "next_thread (save_esp s) = next_thread s"
  "tbase (save_esp s) = tbase s" "esp (save_esp s) = esp s"
  "length (all_thread (save_esp s)) = length (all_thread s)"
  by (simp_all add: save_esp_def split: option.splits)

lemma state_of_save_esp [simp]: "state_of (save_esp s) = state_of s"
proof
  fix j
  show "state_of (save_esp s) j = state_of s j"
    by (cases "current_thread s"; cases "the (current_thread s) < length (all_thread s)")
      (auto simp: save_esp_def state_of_def nth_list_update list_update_beyond)
qed

lemma push_fields [simp]:
  "tbase (push v s) = tbase s" "all_thread (push v s) = all_thread s"
  "current_thread (push v s) = current_thread s" "next_thread (push v s) = next_thread s"
  "esp (push v s) = esp s - 4" "umem (push v s) = (umem s)(esp s - 4 := v)"
  "ebp (push v s) = ebp s" "ebx (push v s) = ebx s" "esi (push v s) = esi s" "edi (push v s) = edi s"
  "state_of (push v s) = state_of s"
  by (simp_all add: push_def state_of_def fun_eq_iff)

lemma save_context_fields [simp]:
  "tbase (save_context r s) = tbase s" "state_of (save_context r s) = state_of s"
  "length (all_thread (save_context r s)) = length (all_thread s)"
  "current_thread (save_context r s) = current_thread s"
  "next_thread (save_context r s) = next_thread s"
  by (simp_all add: save_context_def Let_def)

text \<open>The five words a switched-out thread leaves on its stack, from its saved \<^verbatim>\<open>sp\<close> upwards.\<close>

definition frame :: "(u32 \<Rightarrow> u32) \<Rightarrow> u32 \<Rightarrow> u32 list" where
  "frame m p = [m p, m (p + 4), m (p + 8), m (p + 12), m (p + 16)]"

lemma save_context_Some:
  assumes "current_thread s = Some i" and "i < length (all_thread s)"
  shows "t_sp (all_thread (save_context r s) ! i) = esp s - 20"
    and "j \<noteq> i \<Longrightarrow> all_thread (save_context r s) ! j = all_thread s ! j"
    and "umem (save_context r s)
         = (umem s)(esp s - 4 := r, esp s - 8 := ebp s, esp s - 12 := ebx s,
                    esp s - 16 := esi s, esp s - 20 := edi s)"
  using assms by (simp_all add: save_context_def Let_def save_esp_def)

lemma save_context_frame:
  assumes "current_thread s = Some i" and "i < length (all_thread s)"
  shows "frame (umem (save_context r s)) (esp s - 20) = [edi s, esi s, ebx s, ebp s, r]"
  using assms by (simp add: save_context_Some frame_def)

lemma thread_switch_fields [simp]:
  "tbase (thread_switch r s) = tbase s" "state_of (thread_switch r s) = state_of s"
  "length (all_thread (thread_switch r s)) = length (all_thread s)"
  "current_thread (thread_switch r s) = next_thread s"
  "next_thread (thread_switch r s) = next_thread s"
  by (simp_all add: thread_switch_def Let_def state_of_def fun_eq_iff)
     (simp add: fun_cong [OF save_context_fields(2), unfolded state_of_def])

text \<open>What the thread that is switched to finds: its registers come from its own frame.\<close>

lemma thread_switch_restores:
  assumes cur: "current_thread s = Some b" "b < length (all_thread s)"
    and nxt: "next_thread s = Some a" "a \<noteq> b"
    and fr: "frame (umem (save_context r s)) (t_sp (all_thread s ! a)) = [v1, v2, v3, v4, v5]"
  shows "edi (thread_switch r s) = v1" "esi (thread_switch r s) = v2"
    "ebx (thread_switch r s) = v3" "ebp (thread_switch r s) = v4" "eip (thread_switch r s) = v5"
    "esp (thread_switch r s) = t_sp (all_thread s ! a) + 20"
proof -
  have sp: "saved_sp ((save_context r s)\<lparr>current_thread := Some a\<rparr>) = t_sp (all_thread s ! a)"
    using cur nxt by (simp add: saved_sp_def load_esp_def save_context_Some)
  show "edi (thread_switch r s) = v1" "esi (thread_switch r s) = v2"
    "ebx (thread_switch r s) = v3" "ebp (thread_switch r s) = v4" "eip (thread_switch r s) = v5"
    "esp (thread_switch r s) = t_sp (all_thread s ! a) + 20"
    using fr nxt by (simp_all add: thread_switch_def Let_def sp frame_def)
qed

definition pushed :: "uthreads \<Rightarrow> u32 set" where
  "pushed s = {esp s - 4, esp s - 8, esp s - 12, esp s - 16, esp s - 20}"

definition frame_addrs :: "u32 \<Rightarrow> u32 set" where
  "frame_addrs p = {p, p + 4, p + 8, p + 12, p + 16}"

lemma save_context_umem_other:
  assumes "current_thread s = Some i" "i < length (all_thread s)" "q \<notin> pushed s"
  shows "umem (save_context r s) q = umem s q"
  using assms by (simp add: save_context_Some pushed_def)

lemma frame_cong: "(\<And>q. q \<in> frame_addrs p \<Longrightarrow> m q = m' q) \<Longrightarrow> frame m p = frame m' p"
  by (simp add: frame_def frame_addrs_def)

text \<open>
  Claim C2. A thread that is switched out and later switched back to continues where it left:
  all callee-saved registers, the stack pointer and the return address are the ones it
  had, provided that in between nobody wrote to the five words of its saved frame and the
  other thread's own frame does not overlap them.
\<close>

theorem switch_roundtrip:
  assumes away: "current_thread s = Some a" "a < length (all_thread s)"
    and again: "current_thread s2 = Some b" "b < length (all_thread s2)"
      "next_thread s2 = Some a" "a \<noteq> b"
    and sp_kept: "t_sp (all_thread s2 ! a) = t_sp (all_thread (save_context r s) ! a)"
    and frame_kept: "frame (umem s2) (esp s - 20) = frame (umem (save_context r s)) (esp s - 20)"
    and apart: "frame_addrs (esp s - 20) \<inter> pushed s2 = {}"
  shows "current_thread (thread_switch r2 s2) = Some a \<and> eip (thread_switch r2 s2) = r
    \<and> esp (thread_switch r2 s2) = esp s \<and> ebp (thread_switch r2 s2) = ebp s
    \<and> ebx (thread_switch r2 s2) = ebx s \<and> esi (thread_switch r2 s2) = esi s
    \<and> edi (thread_switch r2 s2) = edi s"
proof -
  have sp: "t_sp (all_thread s2 ! a) = esp s - 20"
    using away sp_kept by (simp add: save_context_Some)
  have "frame (umem (save_context r2 s2)) (esp s - 20) = frame (umem s2) (esp s - 20)"
    by (rule frame_cong) (use again apart in \<open>auto intro: save_context_umem_other\<close>)
  then have "frame (umem (save_context r2 s2)) (t_sp (all_thread s2 ! a))
      = [edi s, esi s, ebx s, ebp s, r]"
    using frame_kept away by (simp add: sp save_context_frame)
  from thread_switch_restores [OF again this] show ?thesis
    using again by (simp add: sp)
qed

section \<open>The one-running-thread invariant\<close>

definition uinv :: "uthreads \<Rightarrow> bool" where
  "uinv s \<longleftrightarrow> length (all_thread s) = MAX_THREAD
     \<and> (\<exists>c<MAX_THREAD. current_thread s = Some c
          \<and> (\<forall>i<MAX_THREAD. state_of s i = T_RUNNING \<longleftrightarrow> i = c))"

definition candidate :: "uthreads \<Rightarrow> nat \<Rightarrow> bool" where
  "candidate s i \<longleftrightarrow> state_of s i = T_RUNNABLE \<and> Some i \<noteq> current_thread s"

definition sched_pick :: "uthreads \<Rightarrow> nat option" where
  "sched_pick s = fst (sched_scan [0..<MAX_THREAD] s)"

interpretation usched: first_fit sched_pick candidate MAX_THREAD
  by unfold_locales (simp add: sched_pick_def sched_scan_fst candidate_def [abs_def])

interpretation ualloc: first_fit
  "\<lambda>s. List.find (\<lambda>i. state_of s i = T_FREE) [0..<MAX_THREAD]"
  "\<lambda>s i. state_of s i = T_FREE" MAX_THREAD
  by unfold_locales simp

lemma sched_scan_state:
  obtains l where "sched_scan [0..<MAX_THREAD] s = (sched_pick s, s\<lparr>ulog := l\<rparr>)"
  using sched_scan_snd [of "[0..<MAX_THREAD]" s]
  by (metis prod.collapse sched_pick_def)

lemma ulog_upd_fields [simp]:
  "state_of (s\<lparr>ulog := l\<rparr>) = state_of s" "thread_addr (s\<lparr>ulog := l\<rparr>) = thread_addr s"
  "ptr (s\<lparr>ulog := l\<rparr>) = ptr s" "stack_top (s\<lparr>ulog := l\<rparr>) = stack_top s"
  "candidate (s\<lparr>ulog := l\<rparr>) = candidate s" "candidate (ulog_add e s) = candidate s"
  by (simp_all add: state_of_def thread_addr_def ptr_def stack_top_def candidate_def fun_eq_iff
      split: option.splits)

lemma sched_pick_ulog [simp]: "sched_pick (ulog_add e s) = sched_pick s"
  by (rule usched.pick_cong) simp

lemma sched_mark_fields [simp]:
  "tbase (sched_mark n s) = tbase s" "umem (sched_mark n s) = umem s" "esp (sched_mark n s) = esp s"
  "current_thread (sched_mark n s) = current_thread s" "next_thread (sched_mark n s) = Some n"
  "length (all_thread (sched_mark n s)) = length (all_thread s)"
  "t_sp (all_thread (sched_mark n s) ! j) = t_sp (all_thread s ! j)"
  "edi (sched_mark n s) = edi s" "esi (sched_mark n s) = esi s" "ebx (sched_mark n s) = ebx s"
  "ebp (sched_mark n s) = ebp s"
  by (simp_all add: sched_mark_def Let_def split: option.splits)

lemma state_of_next_upd [simp]: "state_of (s\<lparr>next_thread := x\<rparr>) = state_of s"
  by (simp add: state_of_def fun_eq_iff)

lemma state_of_sched_mark:
  assumes "current_thread s = Some c" "c < length (all_thread s)" "n < length (all_thread s)" "n \<noteq> c"
  shows "state_of (sched_mark n s)
    = (state_of s)(n := T_RUNNING, c := (if state_of s c = T_RUNNING then T_RUNNABLE else state_of s c))"
  using assms by (auto simp: sched_mark_def Let_def state_of_set_tstate fun_eq_iff)

text \<open>The three ways \<^verbatim>\<open>thread_schedule\<close> ends, for a current thread.\<close>

lemma thread_schedule_cases:
  assumes "current_thread s = Some c"
  obtains (switch) n s' where "sched_pick s = Some n" "thread_schedule r s = Switched (thread_switch r (sched_mark n s'))"
      "\<exists>l. s' = s\<lparr>ulog := l\<rparr>"
    | (none) s' where "sched_pick s = None" "state_of s c \<noteq> T_FREE" "thread_schedule r s = Returned s'"
      "\<exists>l. s' = s\<lparr>ulog := l\<rparr>"
    | (exit) s' where "sched_pick s = None" "state_of s c = T_FREE" "thread_schedule r s = UExit s'"
proof -
  let ?s0 = "ulog_add (SchedStart (ptr s (current_thread s)) (tstate_num (state_of s c))) s"
  obtain l where scan: "sched_scan [0..<MAX_THREAD] ?s0 = (sched_pick s, ?s0\<lparr>ulog := l\<rparr>)"
    using sched_scan_state [of ?s0] by auto
  show thesis
  proof (cases "sched_pick s")
    case (Some n)
    then have "thread_schedule r s = Switched (thread_switch r (sched_mark n (s\<lparr>ulog := l\<rparr>)))"
      using scan assms by (simp add: thread_schedule_def Let_def ulog_add_def)
    with Some show thesis using switch by blast
  next
    case None
    show thesis
    proof (cases "state_of s c = T_FREE")
      case True
      with None scan assms have "\<exists>s'. thread_schedule r s = UExit s'"
        by (simp add: thread_schedule_def Let_def)
      then show thesis using exit [OF None True] by blast
    next
      case False
      with None scan assms have "\<exists>l'. thread_schedule r s = Returned (s\<lparr>ulog := l'\<rparr>)"
        by (auto simp: thread_schedule_def Let_def ulog_add_def)
      then show thesis using none [OF None False] by blast
    qed
  qed
qed

lemma uinv_current:
  assumes "uinv s"
  obtains c where "current_thread s = Some c" "c < MAX_THREAD" "length (all_thread s) = MAX_THREAD"
    "\<forall>i<MAX_THREAD. state_of s i = T_RUNNING \<longleftrightarrow> i = c"
  using assms by (auto simp: uinv_def)

lemma uinv_cong:
  "all_thread s' = all_thread s \<Longrightarrow> current_thread s' = current_thread s \<Longrightarrow> uinv s \<Longrightarrow> uinv s'"
  by (simp add: uinv_def state_of_def)

text \<open>
  The precondition of the scheduler: the current thread is the only one that may be running
  (in \<^verbatim>\<open>thread_exit\<close> it has just been freed).
\<close>

definition uready :: "uthreads \<Rightarrow> bool" where
  "uready s \<longleftrightarrow> length (all_thread s) = MAX_THREAD
     \<and> (\<exists>c<MAX_THREAD. current_thread s = Some c
          \<and> (\<forall>i<MAX_THREAD. state_of s i = T_RUNNING \<longrightarrow> i = c))"

lemma uinv_uready: "uinv s \<Longrightarrow> uready s"
  by (auto simp: uinv_def uready_def)

lemma schedule_switch_uinv:
  assumes "uready s" and sw: "thread_schedule r s = Switched s'"
  shows "uinv s'"
proof -
  from assms(1) obtain c where c: "current_thread s = Some c" "c < MAX_THREAD"
    "length (all_thread s) = MAX_THREAD"
    and only: "\<And>i. i < MAX_THREAD \<Longrightarrow> state_of s i = T_RUNNING \<Longrightarrow> i = c"
    by (auto simp: uready_def)
  from c(1) show ?thesis
  proof (cases rule: thread_schedule_cases [of s c r])
    case (switch n t)
    then obtain l where t: "t = s\<lparr>ulog := l\<rparr>" by blast
    have n: "n < MAX_THREAD" "candidate s n"
      using usched.pick_ready [OF switch(1)] by simp_all
    then have "n \<noteq> c" using c by (auto simp: candidate_def)
    have st: "state_of s' = (state_of s)(n := T_RUNNING,
        c := (if state_of s c = T_RUNNING then T_RUNNABLE else state_of s c))"
      using switch(2) sw n c \<open>n \<noteq> c\<close> t by (simp add: state_of_sched_mark)
    have "current_thread s' = Some n" "length (all_thread s') = MAX_THREAD"
      using switch(2) sw c t by auto
    moreover have "state_of s' i = T_RUNNING \<longleftrightarrow> i = n" if "i < MAX_THREAD" for i
      using only [OF that] \<open>n \<noteq> c\<close> by (auto simp: st)
    ultimately show ?thesis
      using n(1) by (simp add: uinv_def)
  qed (use sw in simp_all)
qed

lemma schedule_return_uinv:
  assumes "uinv s" and "thread_schedule r s = Returned s'"
  shows "uinv s'"
proof -
  from assms(1) obtain c where c: "current_thread s = Some c" by (auto simp: uinv_def)
  from c show ?thesis
    by (cases rule: thread_schedule_cases [of s c r]) (use assms in \<open>auto intro: uinv_cong\<close>)
qed

lemma thread_create_uinv:
  assumes "uinv s"
  shows "uinv (thread_create f s)"
proof (cases "List.find (\<lambda>i. state_of s i = T_FREE) [0..<MAX_THREAD]")
  case None
  then show ?thesis using assms by (auto simp: thread_create_def intro: uinv_cong)
next
  case (Some i)
  then have i: "i < MAX_THREAD" "state_of s i = T_FREE"
    using ualloc.pick_ready [of s i] by simp_all
  from assms obtain c where c: "current_thread s = Some c" "c < MAX_THREAD"
    "length (all_thread s) = MAX_THREAD"
    "\<forall>i<MAX_THREAD. state_of s i = T_RUNNING \<longleftrightarrow> i = c"
    by (rule uinv_current)
  have "state_of (thread_create f s) = (state_of s)(i := T_RUNNABLE)"
    using Some i c by (auto simp: thread_create_def Let_def state_of_def nth_list_update fun_eq_iff)
  moreover have "i \<noteq> c" using c i by auto
  ultimately show ?thesis
    using c Some by (auto simp: uinv_def thread_create_def Let_def)
qed

lemma thread_exit_switch_uinv:
  assumes "uinv s" and "thread_exit r s = Switched s'"
  shows "uinv s'"
proof -
  from assms(1) obtain c where c: "current_thread s = Some c" "c < MAX_THREAD"
    "length (all_thread s) = MAX_THREAD"
    "\<forall>i<MAX_THREAD. state_of s i = T_RUNNING \<longleftrightarrow> i = c"
    by (rule uinv_current)
  have "uready (set_tstate c T_FREE s)"
    using c by (auto simp: uready_def state_of_set_tstate)
  moreover have "thread_schedule r (set_tstate c T_FREE s) = Switched s'"
    using assms(2) c by (auto simp: thread_exit_def split: uflow.splits)
  ultimately show ?thesis by (rule schedule_switch_uinv)
qed

lemma set_tstate_fold_fields:
  "length (all_thread (fold (\<lambda>i. set_tstate i v) is s)) = length (all_thread s)"
  "current_thread (fold (\<lambda>i. set_tstate i v) is s) = current_thread s"
  by (induction "is" arbitrary: s) auto

lemma state_of_fold_set_tstate:
  "(\<And>i. i \<in> set is \<Longrightarrow> i < length (all_thread s)) \<Longrightarrow>
   state_of (fold (\<lambda>i. set_tstate i v) is s) j = (if j \<in> set is then v else state_of s j)"
  by (induction "is" arbitrary: s) (auto simp: state_of_set_tstate)

lemma thread_init_uinv:
  assumes "length (all_thread s) = MAX_THREAD"
  shows "uinv (thread_init f s)"
proof -
  let ?s = "set_tstate 0 T_RUNNING (s\<lparr>registered := f, current_thread := Some 0\<rparr>)"
  have len: "length (all_thread ?s) = MAX_THREAD" using assms by simp
  have "state_of (thread_init f s) j = (if j \<in> {1..<MAX_THREAD} then T_FREE else state_of ?s j)" for j
    using state_of_fold_set_tstate [of "[1..<MAX_THREAD]" ?s T_FREE j] len
    by (simp add: thread_init_def Let_def)
  moreover have "state_of ?s 0 = T_RUNNING"
    using assms by (simp add: state_of_set_tstate MAX_THREAD_def)
  ultimately have "state_of (thread_init f s) i = T_RUNNING \<longleftrightarrow> i = 0" if "i < MAX_THREAD" for i
    using that by (cases "i = 0") auto
  moreover have "current_thread (thread_init f s) = Some 0"
    "length (all_thread (thread_init f s)) = MAX_THREAD" "0 < MAX_THREAD"
    using assms by (simp_all add: thread_init_def Let_def set_tstate_fold_fields MAX_THREAD_def)
  ultimately show ?thesis
    by (auto simp: uinv_def)
qed

section \<open>Runs of the package\<close>

text \<open>
  The calls of the package in any order, with timer upcalls. An upcall continues the program in
  \<^verbatim>\<open>thread_schedule\<close> wherever it is. \<open>inner\<close> has the activations of \<^verbatim>\<open>thread_schedule\<close> on the running
  stack that have set their marks and not yet called \<^verbatim>\<open>thread_switch\<close>, with the thread each has found, the innermost
  first; \<open>parked\<close> has those on the stacks of the other threads. \<^verbatim>\<open>trap.c\<close> does not look where the program is.
  \<open>ustep g x\<close> has the runs in which an upcall may arrive between the marks and \<^verbatim>\<open>thread_switch\<close> only if \<open>g\<close> does not
  hold, and a thread may exit only if \<open>x\<close> holds. Other than at that point, a call of the package runs to its end.
\<close>

record urun =
  us :: uthreads
  inner :: "nat list"
  parked :: "nat \<Rightarrow> nat list"

definition switch_run :: "uthreads \<Rightarrow> nat list \<Rightarrow> urun \<Rightarrow> urun" where
  "switch_run s' fs m =
     (let pk = (case current_thread (us m) of None \<Rightarrow> parked m | Some c \<Rightarrow> (parked m)(c := fs))
      in \<lparr>us = s', inner = (case current_thread s' of None \<Rightarrow> [] | Some k \<Rightarrow> pk k), parked = pk\<rparr>)"

inductive ustep :: "bool \<Rightarrow> bool \<Rightarrow> urun \<Rightarrow> urun \<Rightarrow> bool" for g x :: bool where
  create: "inner m = [] \<Longrightarrow> ustep g x m (m\<lparr>us := thread_create f (us m),
     parked := (\<lambda>i. if state_of (us m) i = T_FREE then [] else parked m i)\<rparr>)"
| compute: "inner m = [] \<Longrightarrow> all_thread s' = all_thread (us m) \<Longrightarrow> current_thread s' = current_thread (us m)
    \<Longrightarrow> ustep g x m (m\<lparr>us := s'\<rparr>)"
| enter: "inner m = [] \<or> \<not> g \<Longrightarrow> sched_begin (us m) = Some (n, s') \<Longrightarrow> ustep g x m (m\<lparr>us := s', inner := n # inner m\<rparr>)"
| stay: "inner m = [] \<or> \<not> g \<Longrightarrow> thread_schedule r (us m) = Returned s' \<Longrightarrow> ustep g x m (m\<lparr>us := s'\<rparr>)"
| leave: "inner m = n # fs \<Longrightarrow> ustep g x m (switch_run (thread_switch r (us m)) fs m)"
| exit: "x \<Longrightarrow> inner m = [] \<Longrightarrow> thread_exit r (us m) = Switched s' \<Longrightarrow> ustep g x m (switch_run s' [] m)"

definition ustart :: "u32 \<Rightarrow> uthreads \<Rightarrow> urun" where
  "ustart f s = \<lparr>us = thread_init f s, inner = [], parked = (\<lambda>_. [])\<rparr>"

definition ureachable :: "bool \<Rightarrow> urun \<Rightarrow> bool" where
  "ureachable g m \<longleftrightarrow> (\<exists>f s. length (all_thread s) = MAX_THREAD \<and> (ustep g True)\<^sup>*\<^sup>* (ustart f s) m)"

text \<open>The call of \<^verbatim>\<open>thread_switch\<close> completes \<^verbatim>\<open>thread_schedule\<close>.\<close>

lemma sched_begin_Some:
  assumes "sched_begin s = Some (n, s')"
  shows "thread_schedule r s = Switched (thread_switch r s')" "sched_pick s = Some n"
    "\<exists>l. s' = sched_mark n (s\<lparr>ulog := l\<rparr>)"
proof -
  let ?s0 = "ulog_add (SchedStart (ptr s (current_thread s))
    (case current_thread s of None \<Rightarrow> -1 | Some i \<Rightarrow> tstate_num (state_of s i))) s"
  obtain l where scan: "sched_scan [0..<MAX_THREAD] ?s0 = (sched_pick s, ?s0\<lparr>ulog := l\<rparr>)"
    using sched_scan_state [of ?s0] by auto
  then show "sched_pick s = Some n" "\<exists>l. s' = sched_mark n (s\<lparr>ulog := l\<rparr>)"
    "thread_schedule r s = Switched (thread_switch r s')"
    using assms by (auto simp: sched_begin_def thread_schedule_def Let_def ulog_add_def)
qed

lemma sched_begin_pick:
  assumes "sched_pick s = Some n"
  obtains l where "sched_begin s = Some (n, sched_mark n (s\<lparr>ulog := l\<rparr>))"
proof -
  let ?s0 = "ulog_add (SchedStart (ptr s (current_thread s))
    (case current_thread s of None \<Rightarrow> -1 | Some i \<Rightarrow> tstate_num (state_of s i))) s"
  obtain l where "sched_scan [0..<MAX_THREAD] ?s0 = (sched_pick s, ?s0\<lparr>ulog := l\<rparr>)"
    using sched_scan_state [of ?s0] by auto
  then show thesis using assms by (intro that [of l]) (simp add: sched_begin_def Let_def ulog_add_def)
qed

text \<open>
  Without upcalls inside the scheduler: no stack has an interrupted activation, and the running one has
  at most the activation that is about to switch.
\<close>

definition guarded_inv :: "(uthreads \<Rightarrow> bool) \<Rightarrow> urun \<Rightarrow> bool" where
  "guarded_inv P m \<longleftrightarrow> (\<forall>k. parked m k = [])
     \<and> (inner m = [] \<and> P (us m) \<or> (\<exists>n s. inner m = [n] \<and> P s \<and> sched_begin s = Some (n, us m)))"

lemma guarded_step:
  assumes step: "ustep True x m m'" and inv: "guarded_inv P m"
    and create: "\<And>f s. P s \<Longrightarrow> P (thread_create f s)"
    and compute: "\<And>s s'. P s \<Longrightarrow> all_thread s' = all_thread s \<Longrightarrow> current_thread s' = current_thread s \<Longrightarrow> P s'"
    and switch: "\<And>r s s'. P s \<Longrightarrow> thread_schedule r s = Switched s' \<Longrightarrow> P s'"
    and stay: "\<And>r s s'. P s \<Longrightarrow> thread_schedule r s = Returned s' \<Longrightarrow> P s'"
    and exit: "\<And>r s s'. x \<Longrightarrow> P s \<Longrightarrow> thread_exit r s = Switched s' \<Longrightarrow> P s'"
  shows "guarded_inv P m'"
  using step
proof cases
  case (leave n fs r)
  then obtain s where s: "P s" "sched_begin s = Some (n, us m)" "fs = []" "\<forall>k. parked m k = []"
    using inv by (auto simp: guarded_inv_def)
  then have "P (thread_switch r (us m))" using switch [OF s(1) sched_begin_Some(1) [OF s(2)]] by simp
  then show ?thesis
    using leave s(3,4) by (auto simp: guarded_inv_def switch_run_def Let_def split: option.splits)
next
  case (create f)
  then have "P (us m)" "\<forall>k. parked m k = []" using inv by (auto simp: guarded_inv_def)
  then show ?thesis using create assms(3) by (simp add: guarded_inv_def)
next
  case (compute s')
  then have "P (us m)" "\<forall>k. parked m k = []" using inv by (auto simp: guarded_inv_def)
  then show ?thesis using compute assms(4) [of "us m" s'] by (simp add: guarded_inv_def)
next
  case (enter n s')
  then have "P (us m)" "\<forall>k. parked m k = []" "inner m = []" using inv by (auto simp: guarded_inv_def)
  then show ?thesis using enter by (auto simp: guarded_inv_def)
next
  case (stay r s')
  then have "P (us m)" "\<forall>k. parked m k = []" "inner m = []" using inv by (auto simp: guarded_inv_def)
  then show ?thesis using stay assms(6) [of "us m" r s'] by (simp add: guarded_inv_def)
next
  case (exit r s')
  then have "P (us m)" "\<forall>k. parked m k = []" using inv by (auto simp: guarded_inv_def)
  then show ?thesis
    using exit assms(7) [of "us m" r s'] by (auto simp: guarded_inv_def switch_run_def Let_def split: option.splits)
qed

lemma guarded_uinv:
  assumes "(ustep True x)\<^sup>*\<^sup>* m m'" "guarded_inv uinv m"
  shows "guarded_inv uinv m'"
  using assms
proof (induction rule: rtranclp_induct)
  case (step m m')
  show ?case
    by (rule guarded_step [OF step(2) step(3) [OF step(4)]])
      (auto intro: thread_create_uinv schedule_switch_uinv uinv_uready schedule_return_uinv
        thread_exit_switch_uinv uinv_cong)
qed

text \<open>
  Claim C1. In every run in which timer upcalls arrive outside the functions of the package only (the code has no guard that
  would ensure it, and \<^verbatim>\<open>thread_schedule\<close> needs one), exactly one thread of the table is in state \<^verbatim>\<open>RUNNING\<close> at every point from
  \<^verbatim>\<open>thread_init\<close> on: the one \<^verbatim>\<open>current_thread\<close> points to, and between the marks of the scheduler and its
  \<^verbatim>\<open>thread_switch\<close> the one \<^verbatim>\<open>next_thread\<close> points to.
\<close>

theorem uthread_one_running:
  assumes "ureachable True m"
  shows "\<exists>c<MAX_THREAD. (if inner m = [] then current_thread (us m) else next_thread (us m)) = Some c
    \<and> (\<forall>i<MAX_THREAD. state_of (us m) i = T_RUNNING \<longleftrightarrow> i = c)"
proof -
  obtain f s where s: "length (all_thread s) = MAX_THREAD" "(ustep True True)\<^sup>*\<^sup>* (ustart f s) m"
    using assms by (auto simp: ureachable_def)
  have "guarded_inv uinv (ustart f s)" using thread_init_uinv [OF s(1)] by (simp add: guarded_inv_def ustart_def)
  then have "guarded_inv uinv m" by (rule guarded_uinv [OF s(2)])
  then consider "inner m = []" "uinv (us m)" | n s where "inner m = [n]" "uinv s" "sched_begin s = Some (n, us m)"
    by (auto simp: guarded_inv_def)
  then show ?thesis
  proof cases
    case 2
    have "uinv (thread_switch 0 (us m))"
      using schedule_switch_uinv [OF uinv_uready [OF 2(2)] sched_begin_Some(1) [OF 2(3)]] .
    then show ?thesis using 2(1) by (simp add: uinv_def)
  qed (simp add: uinv_def)
qed

text \<open>A concrete machine to evaluate the model on.\<close>

definition uboot :: uthreads where
  "uboot = \<lparr>tbase = 0x1000, all_thread = replicate 4 \<lparr>t_sp = 0, t_state = T_FREE\<rparr>,
     current_thread = None, next_thread = None, registered = 0, umem = (\<lambda>_. 0),
     esp = 0xB000, ebp = 1, ebx = 2, esi = 3, edi = 4, eip = 0, ulog = []\<rparr>"

lemma uboot_length: "length (all_thread uboot) = MAX_THREAD"
  by (simp add: uboot_def MAX_THREAD_def)

lemma uboot_created: "ureachable g \<lparr>us = thread_create 0x77 (thread_init 0x55 uboot), inner = [], parked = (\<lambda>_. [])\<rparr>"
proof -
  have "ustep g True (ustart 0x55 uboot) \<lparr>us = thread_create 0x77 (thread_init 0x55 uboot), inner = [], parked = (\<lambda>_. [])\<rparr>"
    using ustep.create [of "ustart 0x55 uboot" g True "0x77"] by (simp add: ustart_def cong: if_cong)
  then show ?thesis using uboot_length unfolding ureachable_def by (meson r_into_rtranclp)
qed

theorem uthread_one_running_witness:
  "\<exists>c<MAX_THREAD. current_thread (thread_create 0x77 (thread_init 0x55 uboot)) = Some c
    \<and> (\<forall>i<MAX_THREAD. state_of (thread_create 0x77 (thread_init 0x55 uboot)) i = T_RUNNING
         \<longleftrightarrow> i = c)"
  using uthread_one_running [OF uboot_created] by simp

text \<open>
  Claim C38. \<^verbatim>\<open>thread_schedule\<close> switches to thread \<open>n\<close> exactly when \<open>n\<close> is the lowest-numbered
  thread other than the current one that is \<^verbatim>\<open>RUNNABLE\<close>; if there is none it returns to a
  live current thread and exits the process when the current thread is free. The main thread, number 0, is searched like
  the others: the comment beside the test says that it is left out, but the test excludes only the current thread.
\<close>

theorem thread_schedule_spec:
  assumes "current_thread s = Some c"
  shows "(\<exists>n<MAX_THREAD. candidate s n \<and> (\<forall>j<n. \<not> candidate s j)
            \<and> (\<exists>s'. thread_schedule r s = Switched s' \<and> current_thread s' = Some n))
       \<or> ((\<forall>n<MAX_THREAD. \<not> candidate s n) \<and> state_of s c \<noteq> T_FREE
            \<and> (\<exists>s'. thread_schedule r s = Returned s' \<and> current_thread s' = Some c))
       \<or> ((\<forall>n<MAX_THREAD. \<not> candidate s n) \<and> state_of s c = T_FREE
            \<and> (\<exists>s'. thread_schedule r s = UExit s'))"
  using assms
proof (cases rule: thread_schedule_cases [of s c r])
  case (switch n t)
  then have "n < MAX_THREAD" "candidate s n" "\<forall>j<n. \<not> candidate s j"
    using usched.pick_Some_iff by blast+
  moreover from switch have "thread_schedule r s = Switched (thread_switch r (sched_mark n t))"
    "current_thread (thread_switch r (sched_mark n t)) = Some n" by simp_all
  ultimately show ?thesis by blast
next
  case (none t)
  then show ?thesis using assms usched.pick_None_iff [of s] by auto
next
  case (exit t)
  then show ?thesis using usched.pick_None_iff [of s] by blast
qed

theorem thread_schedule_spec_witness:
  "\<exists>s'. thread_schedule 0x99 (thread_create 0x77 (thread_init 0x55 uboot)) = Switched s'
     \<and> current_thread s' = Some 1"
proof -
  let ?s = "thread_create 0x77 (thread_init 0x55 uboot)"
  have cur: "current_thread ?s = Some 0" and st: "map (state_of ?s) [0..<4]
      = [T_RUNNING, T_RUNNABLE, T_FREE, T_FREE]"
    by code_simp+
  have "candidate ?s 1" "\<not> candidate ?s 0"
    using st cur by (auto simp: candidate_def upt_rec)
  with thread_schedule_spec [OF cur, of "0x99"] show ?thesis
    by (metis One_nat_def less_one linorder_neqE_nat one_less_numeral_iff semiring_norm(76)
        MAX_THREAD_def)
qed

theorem switch_roundtrip_witness:
  "current_thread (thread_switch 0x88 (thread_switch 0x99
      (uboot\<lparr>current_thread := Some 0, next_thread := Some 1,
        all_thread := (all_thread uboot)[1 := \<lparr>t_sp = 0x5000, t_state = T_RUNNABLE\<rparr>]\<rparr>)
      \<lparr>next_thread := Some 0\<rparr>)) = Some 0"
proof -
  let ?s = "uboot\<lparr>current_thread := Some 0, next_thread := Some 1,
        all_thread := (all_thread uboot)[1 := \<lparr>t_sp = 0x5000, t_state = T_RUNNABLE\<rparr>]\<rparr>"
  let ?s2 = "thread_switch 0x99 ?s\<lparr>next_thread := Some 0\<rparr>"
  have "current_thread ?s = Some 0" "0 < length (all_thread ?s)" by (simp_all add: uboot_def)
  moreover have "current_thread ?s2 = Some 1" "1 < length (all_thread ?s2)"
      "next_thread ?s2 = Some 0" "(0::nat) \<noteq> 1" by (simp_all add: uboot_def)
  moreover have "t_sp (all_thread ?s2 ! 0) = t_sp (all_thread (save_context 0x99 ?s) ! 0)"
    by (simp add: thread_switch_def Let_def)
  moreover have "frame (umem ?s2) (esp ?s - 20) = frame (umem (save_context 0x99 ?s)) (esp ?s - 20)"
    by (simp add: thread_switch_def Let_def)
  moreover have "frame_addrs (esp ?s - 20) \<inter> pushed ?s2 = {}"
    by code_simp
  ultimately have "current_thread (thread_switch 0x88 ?s2) = Some 0
    \<and> eip (thread_switch 0x88 ?s2) = 0x99 \<and> esp (thread_switch 0x88 ?s2) = esp ?s
    \<and> ebp (thread_switch 0x88 ?s2) = ebp ?s \<and> ebx (thread_switch 0x88 ?s2) = ebx ?s
    \<and> esi (thread_switch 0x88 ?s2) = esi ?s \<and> edi (thread_switch 0x88 ?s2) = edi ?s"
    by (rule switch_roundtrip)
  then show ?thesis by simp
qed

lemma thread_create_Some:
  assumes "List.find (\<lambda>i. state_of s i = T_FREE) [0..<MAX_THREAD] = Some i"
    and "length (all_thread s) = MAX_THREAD"
  shows "all_thread (thread_create f s) ! i = \<lparr>t_sp = stack_top s i - 20, t_state = T_RUNNABLE\<rparr>"
    and "umem (thread_create f s) = (umem s)(stack_top s i - 4 := f)"
    and "current_thread (thread_create f s) = current_thread s"
    and "tbase (thread_create f s) = tbase s"
    and "state_of (thread_create f s) = (state_of s)(i := T_RUNNABLE)"
    and "length (all_thread (thread_create f s)) = MAX_THREAD"
  using assms ualloc.pick_ready [OF assms(1)]
  by (auto simp: thread_create_def Let_def state_of_def nth_list_update fun_eq_iff)

lemma thread_create_None:
  "List.find (\<lambda>i. state_of s i = T_FREE) [0..<MAX_THREAD] = None \<Longrightarrow>
   thread_create f s = ulog_add CreateTooMany s"
  by (simp add: thread_create_def)

text \<open>
  The first time a thread made by \<^verbatim>\<open>thread_create(func)\<close> is switched to, it starts at
  \<open>func\<close> with an empty stack: \<^verbatim>\<open>%esp\<close> is one past the end of its own stack array. This needs
  the slot's \<^verbatim>\<open>sp\<close> and the word at the top of its stack to be as \<^verbatim>\<open>thread_create\<close> left them.
\<close>

theorem created_thread_starts:
  assumes slot: "List.find (\<lambda>i. state_of s i = T_FREE) [0..<MAX_THREAD] = Some i"
      "length (all_thread s) = MAX_THREAD"
    and cur: "current_thread s2 = Some b" "b < length (all_thread s2)"
      "next_thread s2 = Some i" "i \<noteq> b"
    and kept: "t_sp (all_thread s2 ! i) = t_sp (all_thread (thread_create func s) ! i)"
      "umem s2 (stack_top s i - 4) = umem (thread_create func s) (stack_top s i - 4)"
    and apart: "stack_top s i - 4 \<notin> pushed s2"
  shows "eip (thread_switch r s2) = func \<and> esp (thread_switch r s2) = stack_top s i
    \<and> current_thread (thread_switch r s2) = Some i"
proof -
  have sp: "t_sp (all_thread s2 ! i) = stack_top s i - 20"
    using kept thread_create_Some(1) [OF slot] by simp
  have "umem (save_context r s2) (stack_top s i - 4) = func"
    using kept save_context_umem_other [OF cur(1,2) apart] by (simp add: thread_create_Some [OF slot])
  then obtain v1 v2 v3 v4 where "frame (umem (save_context r s2)) (t_sp (all_thread s2 ! i))
      = [v1, v2, v3, v4, func]"
    by (simp add: sp frame_def)
  from thread_switch_restores [OF cur this] show ?thesis
    using cur by (simp add: sp)
qed

theorem created_thread_starts_witness:
  "eip (thread_switch 0x99 ((thread_create 0x77 (thread_init 0x55 uboot))\<lparr>next_thread := Some 1\<rparr>))
     = 0x77"
proof -
  let ?s = "thread_init 0x55 uboot"
  let ?s2 = "(thread_create 0x77 ?s)\<lparr>next_thread := Some 1\<rparr>"
  have slot: "List.find (\<lambda>i. state_of ?s i = T_FREE) [0..<MAX_THREAD] = Some 1"
    "length (all_thread ?s) = MAX_THREAD" by code_simp+
  moreover have "current_thread ?s2 = Some 0" "0 < length (all_thread ?s2)"
    "next_thread ?s2 = Some 1" "(1::nat) \<noteq> 0"
    by (code_simp, code_simp, code_simp, simp)
  moreover have "t_sp (all_thread ?s2 ! 1) = t_sp (all_thread (thread_create 0x77 ?s) ! 1)"
    "umem ?s2 (stack_top ?s 1 - 4) = umem (thread_create 0x77 ?s) (stack_top ?s 1 - 4)" by simp_all
  moreover have "stack_top ?s 1 - 4 \<notin> pushed ?s2" by code_simp
  ultimately have "eip (thread_switch 0x99 ?s2) = 0x77
      \<and> esp (thread_switch 0x99 ?s2) = stack_top ?s 1
      \<and> current_thread (thread_switch 0x99 ?s2) = Some 1"
    by (rule created_thread_starts)
  then show ?thesis by simp
qed

section \<open>Scheduling order\<close>

text \<open>Threads 0 and 1 are both alive, and one of them is current.\<close>

definition low_pair_alive :: "uthreads \<Rightarrow> bool" where
  "low_pair_alive s \<longleftrightarrow> uinv s \<and> state_of s 0 \<noteq> T_FREE \<and> state_of s 1 \<noteq> T_FREE
     \<and> current_thread s \<in> {Some 0, Some 1}"

lemma low_pair_switch:
  assumes "low_pair_alive s" and sw: "thread_schedule r s = Switched s'"
  shows "low_pair_alive s'"
proof -
  from assms(1) obtain c where c: "current_thread s = Some c" "c < MAX_THREAD"
    "length (all_thread s) = MAX_THREAD"
    "\<forall>i<MAX_THREAD. state_of s i = T_RUNNING \<longleftrightarrow> i = c" and c01: "c = 0 \<or> c = 1"
    unfolding low_pair_alive_def by (auto elim!: uinv_current)
  define d where "d = 1 - c"
  have d: "d < MAX_THREAD" "d \<noteq> c" "d \<le> 1" using c01 by (auto simp: d_def MAX_THREAD_def)
  have "state_of s d \<noteq> T_FREE" "state_of s d \<noteq> T_RUNNING"
    using assms(1) c d c01 by (auto simp: low_pair_alive_def d_def)
  then have cand: "candidate s d"
    using c d by (cases "state_of s d") (auto simp: candidate_def)
  from c(1) show ?thesis
  proof (cases rule: thread_schedule_cases [of s c r])
    case (switch n t)
    then obtain l where t: "t = s\<lparr>ulog := l\<rparr>" by blast
    have "n \<noteq> c" "n \<le> d"
      using usched.pick_ready [OF switch(1)] usched.lower_index_wins [OF d(1) cand] switch(1) c
      by (auto simp: candidate_def not_less [symmetric])
    with d c01 have "n = d" by auto
    have "uinv s'"
      using assms(1) sw by (auto simp: low_pair_alive_def intro: schedule_switch_uinv uinv_uready)
    moreover have "state_of s' = (state_of s)(d := T_RUNNING, c := T_RUNNABLE)"
      using switch(2) sw t c d \<open>n = d\<close> by (simp add: state_of_sched_mark)
    moreover have "current_thread s' = Some d"
      using switch(2) sw \<open>n = d\<close> by auto
    ultimately show ?thesis
      using assms(1) c01 d by (auto simp: low_pair_alive_def)
  qed (use sw in simp_all)
qed

lemma low_pair_create: "low_pair_alive s \<Longrightarrow> low_pair_alive (thread_create f s)"
proof -
  assume s: "low_pair_alive s"
  then have "uinv (thread_create f s)" by (simp add: low_pair_alive_def thread_create_uinv)
  moreover have "length (all_thread s) = MAX_THREAD" using s by (auto simp: low_pair_alive_def uinv_def)
  ultimately show ?thesis
    using s by (cases "List.find (\<lambda>i. state_of s i = T_FREE) [0..<MAX_THREAD]")
      (auto simp: low_pair_alive_def thread_create_Some thread_create_None)
qed

lemma low_pair_cong:
  "low_pair_alive s \<Longrightarrow> all_thread s' = all_thread s \<Longrightarrow> current_thread s' = current_thread s \<Longrightarrow> low_pair_alive s'"
  by (auto simp: low_pair_alive_def state_of_def intro: uinv_cong)

lemma low_pair_return:
  assumes "low_pair_alive s" "thread_schedule r s = Returned s'"
  shows "low_pair_alive s'"
proof -
  obtain c where c: "current_thread s = Some c" using assms(1) by (auto simp: low_pair_alive_def)
  then show ?thesis
    by (cases rule: thread_schedule_cases [of s c r])
      (use assms in \<open>auto simp: low_pair_alive_def state_of_def intro: uinv_cong\<close>)
qed

text \<open>
  Claim C39. As long as threads 0 (the main thread) and 1 are alive, they alternate and no other thread ever
  runs: in any run without a thread exit and without an upcall inside a function of the package, whatever is created and
  wherever else upcalls arrive, the current thread stays thread 0 or thread 1. The scheduler is not fair.
\<close>

theorem low_pair_starves_others:
  assumes "low_pair_alive (us m)" "inner m = []" "\<And>k. parked m k = []" and "(ustep True False)\<^sup>*\<^sup>* m m'"
  shows "current_thread (us m') \<in> {Some 0, Some 1}"
proof -
  from assms(4) have "guarded_inv low_pair_alive m'"
  proof (induction rule: rtranclp_induct)
    case base
    then show ?case using assms(1-3) by (simp add: guarded_inv_def)
  next
    case (step m1 m2)
    show ?case
      by (rule guarded_step [OF step(2,3)])
        (auto intro: low_pair_create low_pair_switch low_pair_return low_pair_cong)
  qed
  then show ?thesis by (auto simp: guarded_inv_def low_pair_alive_def dest!: sched_begin_Some(3))
qed

lemma thread_init_states:
  assumes "length (all_thread s) = MAX_THREAD" and "i < MAX_THREAD"
  shows "state_of (thread_init f s) i = (if i = 0 then T_RUNNING else T_FREE)"
proof -
  let ?s = "set_tstate 0 T_RUNNING (s\<lparr>registered := f, current_thread := Some 0\<rparr>)"
  have "length (all_thread ?s) = MAX_THREAD" using assms by simp
  then show ?thesis
    using assms state_of_fold_set_tstate [of "[1..<MAX_THREAD]" ?s T_FREE i]
    by (auto simp: thread_init_def Let_def state_of_set_tstate)
qed

lemma thread_init_fields:
  "length (all_thread (thread_init f s)) = length (all_thread s)"
  "current_thread (thread_init f s) = Some 0"
  by (simp_all add: thread_init_def Let_def set_tstate_fold_fields)

text \<open>The table as \<^verbatim>\<open>main\<close> has it when it calls the scheduler.\<close>

lemma umain_table:
  assumes len: "length (all_thread s) = MAX_THREAD"
    and t_def: "t = thread_create f (thread_create f (thread_init sched s))"
  shows "length (all_thread t) = MAX_THREAD" "current_thread t = Some 0"
    "i < MAX_THREAD \<Longrightarrow> state_of t i = (if i = 0 then T_RUNNING else if i < 3 then T_RUNNABLE else T_FREE)"
proof -
  let ?a = "thread_init sched s"
  have a: "length (all_thread ?a) = MAX_THREAD" using len by (simp add: thread_init_fields)
  have fa: "List.find (\<lambda>i. state_of ?a i = T_FREE) [0..<MAX_THREAD] = Some 1"
    using len by (subst ualloc.pick_Some_iff) (auto simp: thread_init_states MAX_THREAD_def)
  note b = thread_create_Some [OF fa a, of f]
  have fb: "List.find (\<lambda>i. state_of (thread_create f ?a) i = T_FREE) [0..<MAX_THREAD] = Some 2"
    using len by (subst ualloc.pick_Some_iff) (auto simp: b thread_init_states MAX_THREAD_def less_2_cases_iff)
  note c = thread_create_Some [OF fb b(6), of f]
  show "length (all_thread t) = MAX_THREAD" "current_thread t = Some 0"
    by (simp_all add: t_def c b thread_init_fields)
  show "state_of t i = (if i = 0 then T_RUNNING else if i < 3 then T_RUNNABLE else T_FREE)"
    if "i < MAX_THREAD"
    using that len by (auto simp: t_def c b thread_init_states)
qed

text \<open>One scheduling decision, given the table.\<close>

lemma thread_schedule_to:
  assumes c: "current_thread s = Some c" "c < length (all_thread s)" "length (all_thread s) = MAX_THREAD"
    and n: "n < MAX_THREAD" "candidate s n" "\<And>j. j < n \<Longrightarrow> \<not> candidate s j"
  obtains s' where "thread_schedule r s = Switched s'" "current_thread s' = Some n"
    "length (all_thread s') = MAX_THREAD"
    "state_of s' = (state_of s)(n := T_RUNNING,
       c := (if state_of s c = T_RUNNING then T_RUNNABLE else state_of s c))"
proof -
  have pick: "sched_pick s = Some n" using n by (simp add: usched.pick_Some_iff)
  have "n \<noteq> c" using n c by (auto simp: candidate_def)
  from c(1) show thesis
  proof (cases rule: thread_schedule_cases [of s c r])
    case (switch m t)
    then obtain l where t: "t = s\<lparr>ulog := l\<rparr>" "m = n" using pick by auto
    show thesis
      by (rule that [of "thread_switch r (sched_mark n t)"])
        (use switch(2) t c n \<open>n \<noteq> c\<close> in \<open>simp_all add: state_of_sched_mark\<close>)
  qed (use pick in simp_all)
qed

theorem low_pair_starves_others_witness:
  "\<exists>m'. (ustep True False)\<^sup>*\<^sup>* \<lparr>us = thread_create 0x77 (thread_create 0x77 (thread_init 0x55 uboot)), inner = [], parked = (\<lambda>_. [])\<rparr> m'
     \<and> inner m' = [1] \<and> current_thread (us m') \<in> {Some 0, Some 1}"
proof -
  let ?s = "thread_create 0x77 (thread_create 0x77 (thread_init 0x55 uboot))"
  let ?m = "\<lparr>us = ?s, inner = [], parked = (\<lambda>_. [])\<rparr>"
  have "uinv ?s" by (intro thread_create_uinv thread_init_uinv uboot_length)
  moreover have cur: "state_of ?s 0 \<noteq> T_FREE" "state_of ?s 1 \<noteq> T_FREE" "current_thread ?s = Some 0"
    by code_simp+
  ultimately have alive: "low_pair_alive (us ?m)" by (simp add: low_pair_alive_def)
  have "candidate ?s 1" "\<not> candidate ?s 0" by code_simp+
  then have "sched_pick ?s = Some 1" by (simp add: usched.pick_Some_iff MAX_THREAD_def)
  then obtain l where "sched_begin ?s = Some (1, sched_mark 1 (?s\<lparr>ulog := l\<rparr>))" by (rule sched_begin_pick)
  then have "ustep True False ?m (?m\<lparr>us := sched_mark 1 (?s\<lparr>ulog := l\<rparr>), inner := [1]\<rparr>)"
    using ustep.enter [of ?m True 1] by simp
  then have "(ustep True False)\<^sup>*\<^sup>* ?m (?m\<lparr>us := sched_mark 1 (?s\<lparr>ulog := l\<rparr>), inner := [1]\<rparr>)" by (rule r_into_rtranclp)
  with low_pair_starves_others [OF alive _ _ this] show ?thesis by auto
qed

text \<open>
  Claim C40. The guard is needed: from any start, \<^verbatim>\<open>main\<close> creates its two threads and calls \<^verbatim>\<open>thread_schedule\<close>; a timer
  upcall that arrives between the marks and \<^verbatim>\<open>thread_switch\<close> enters \<^verbatim>\<open>thread_schedule\<close> again with thread 0
  still current and thread 1 already \<^verbatim>\<open>RUNNING\<close>, and switches to thread 2. Thread 2 then runs while
  thread 1 is \<^verbatim>\<open>RUNNING\<close> as well.
\<close>

theorem upcall_inside_scheduler:
  assumes len: "length (all_thread s) = MAX_THREAD"
  shows "\<exists>m. (ustep False True)\<^sup>*\<^sup>* (ustart sched s) m \<and> inner m = [] \<and> current_thread (us m) = Some 2
    \<and> state_of (us m) 1 = T_RUNNING \<and> state_of (us m) 2 = T_RUNNING"
proof -
  let ?t = "thread_create f (thread_create f (thread_init sched s))"
  note t = umain_table [where f = f and sched = sched, OF len refl]
  define m0 where "m0 = \<lparr>us = ?t, inner = [], parked = (\<lambda>_. [])\<rparr>"
  have "(ustep False True)\<^sup>*\<^sup>* (ustart sched s) m0"
    using ustep.create [of "ustart sched s" False True f]
      ustep.create [of "\<lparr>us = thread_create f (thread_init sched s), inner = [], parked = (\<lambda>_. [])\<rparr>" False True f]
    by (simp add: ustart_def m0_def cong: if_cong)
  moreover have "candidate ?t 1" "\<not> candidate ?t 0"
    using t(3) [of 0] t(3) [of 1] by (simp_all add: candidate_def t(2) MAX_THREAD_def)
  then have "sched_pick ?t = Some 1" by (simp add: usched.pick_Some_iff MAX_THREAD_def)
  then obtain l1 where b1: "sched_begin ?t = Some (1, sched_mark 1 (?t\<lparr>ulog := l1\<rparr>))" by (rule sched_begin_pick)
  define s1 where "s1 = sched_mark 1 (?t\<lparr>ulog := l1\<rparr>)"
  have st1: "state_of s1 = (state_of ?t)(1 := T_RUNNING, 0 := T_RUNNABLE)" "current_thread s1 = Some 0"
    "length (all_thread s1) = MAX_THREAD"
    using t(1,2) t(3) [of 0] by (simp_all add: s1_def state_of_sched_mark MAX_THREAD_def)
  have "candidate s1 2" "\<not> candidate s1 0" "\<not> candidate s1 1"
    using t(3) [of 2] by (simp_all add: candidate_def st1 MAX_THREAD_def)
  then have "sched_pick s1 = Some 2" by (auto simp: usched.pick_Some_iff MAX_THREAD_def less_2_cases_iff)
  then obtain l2 where b2: "sched_begin s1 = Some (2, sched_mark 2 (s1\<lparr>ulog := l2\<rparr>))" by (rule sched_begin_pick)
  define s2 where "s2 = sched_mark 2 (s1\<lparr>ulog := l2\<rparr>)"
  have st2: "state_of s2 = (state_of s1)(2 := T_RUNNING, 0 := T_RUNNABLE)" "next_thread s2 = Some 2" "current_thread s2 = Some 0"
    using st1 by (simp_all add: s2_def state_of_sched_mark MAX_THREAD_def)
  have "ustep False True m0 (m0\<lparr>us := s1, inner := [1]\<rparr>)"
    using ustep.enter [of m0 False 1 s1] b1 by (simp add: m0_def s1_def)
  moreover have "ustep False True (m0\<lparr>us := s1, inner := [1]\<rparr>) (m0\<lparr>us := s2, inner := [2, 1]\<rparr>)"
    using ustep.enter [of "m0\<lparr>us := s1, inner := [1]\<rparr>" False 2 s2] b2 by (simp add: m0_def s2_def)
  moreover define m where "m = switch_run (thread_switch 0 s2) [1] (m0\<lparr>us := s2, inner := [2, 1]\<rparr>)"
  have "ustep False True (m0\<lparr>us := s2, inner := [2, 1]\<rparr>) m"
    unfolding m_def using ustep.leave [of "m0\<lparr>us := s2, inner := [2, 1]\<rparr>" 2 "[1]" False True 0] by simp
  ultimately have "(ustep False True)\<^sup>*\<^sup>* (ustart sched s) m" by (meson rtranclp.rtrancl_into_rtrancl)
  moreover have "inner m = []" "current_thread (us m) = Some 2" "state_of (us m) 1 = T_RUNNING" "state_of (us m) 2 = T_RUNNING"
    using st1 st2 by (simp_all add: m_def switch_run_def m0_def)
  ultimately show ?thesis by blast
qed

theorem upcall_inside_scheduler_witness:
  "\<exists>m. (ustep False True)\<^sup>*\<^sup>* (ustart 0x55 uboot) m \<and> state_of (us m) 1 = T_RUNNING \<and> state_of (us m) 2 = T_RUNNING"
  using upcall_inside_scheduler [OF uboot_length, of "0x55"] by blast

lemma mythread_prints:
  obtains l where
    "fold (\<lambda>i s. ulog_add (MyThreadLoop (ptr s (current_thread s)) i) s) is s = s\<lparr>ulog := l\<rparr>"
proof -
  have "\<exists>l. fold (\<lambda>i s. ulog_add (MyThreadLoop (ptr s (current_thread s)) i) s) is s = s\<lparr>ulog := l\<rparr>"
  proof (induction "is" arbitrary: s)
    case Nil
    show ?case by (rule exI [where x = "ulog s"]) simp
  next
    case (Cons i "is")
    obtain l where "fold (\<lambda>i s. ulog_add (MyThreadLoop (ptr s (current_thread s)) i) s) is
        (ulog_add (MyThreadLoop (ptr s (current_thread s)) i) s)
      = (ulog_add (MyThreadLoop (ptr s (current_thread s)) i) s)\<lparr>ulog := l\<rparr>"
      using Cons.IH by blast
    then show ?case by (intro exI [where x = l]) (simp add: ulog_add_def)
  qed
  then show thesis using that by blast
qed

text \<open>
  The scheduler does pick the main thread again: run without preemption, the program
  goes from \<^verbatim>\<open>main\<close> to thread 1, and when thread 1 finishes \<^verbatim>\<open>mythread\<close> it goes back to thread 0,
  which continues in \<^verbatim>\<open>main\<close> after its call of \<^verbatim>\<open>thread_schedule\<close>, although thread 2 is
  \<^verbatim>\<open>RUNNABLE\<close> and has never run.
\<close>

theorem exiting_thread_resumes_main:
  assumes len: "length (all_thread s) = MAX_THREAD"
  shows "\<exists>s1 s2. umain sched func r s = Switched s1 \<and> current_thread s1 = Some 1
    \<and> mythread r1 s1 = Switched s2 \<and> current_thread s2 = Some 0
    \<and> state_of s2 1 = T_FREE \<and> state_of s2 2 = T_RUNNABLE"
proof -
  let ?t = "thread_create func (thread_create func (thread_init sched s))"
  note t = umain_table [where f = func and sched = sched, OF len refl]
  have cand_t: "candidate ?t 1" "\<And>j. j < 1 \<Longrightarrow> \<not> candidate ?t j"
    using t(3) [of 0] t(3) [of 1] by (auto simp: candidate_def t(2) MAX_THREAD_def)
  obtain s1 where s1: "thread_schedule r ?t = Switched s1" "current_thread s1 = Some 1"
      "length (all_thread s1) = MAX_THREAD"
      "state_of s1 = (state_of ?t)(1 := T_RUNNING,
         0 := (if state_of ?t 0 = T_RUNNING then T_RUNNABLE else state_of ?t 0))"
    by (rule thread_schedule_to [of ?t 0 1 r])
      (use t(1,2) cand_t in \<open>simp_all add: MAX_THREAD_def\<close>)
  obtain l where l: "fold (\<lambda>i s. ulog_add (MyThreadLoop (ptr s (current_thread s)) i) s) [0..<100] s1
      = s1\<lparr>ulog := l\<rparr>" by (rule mythread_prints)
  let ?u = "set_tstate 1 T_FREE (ulog_add MyThreadExit (s1\<lparr>ulog := l\<rparr>))"
  have su: "state_of ?u = (state_of s1)(1 := T_FREE)"
    using s1(3) by (simp add: state_of_set_tstate MAX_THREAD_def)
  have cand_u: "candidate ?u 0"
    using t(3) [of 0] s1(2) unfolding candidate_def su s1(4) by (simp add: MAX_THREAD_def)
  obtain s2 where s2: "thread_schedule r1 ?u = Switched s2" "current_thread s2 = Some 0"
      "length (all_thread s2) = MAX_THREAD"
      "state_of s2 = (state_of ?u)(0 := T_RUNNING,
         1 := (if state_of ?u 1 = T_RUNNING then T_RUNNABLE else state_of ?u 1))"
    by (rule thread_schedule_to [of ?u 1 0 r1])
      (use s1(2,3) cand_u in \<open>simp_all add: MAX_THREAD_def\<close>)
  have "umain sched func r s = Switched s1" using s1(1) by (simp add: umain_def)
  moreover have "mythread r1 s1 = Switched s2"
    using s2(1) s1(2) by (simp add: mythread_def thread_exit_def l)
  moreover have "state_of s2 2 = T_RUNNABLE" "state_of s2 1 = T_FREE"
    using t(3) [of 2] unfolding s2(4) su s1(4) by (simp_all add: MAX_THREAD_def)
  ultimately show ?thesis using s1(2) s2(2) by blast
qed

theorem exiting_thread_resumes_main_witness:
  "\<exists>s1 s2. umain 0x55 0x77 0x99 uboot = Switched s1 \<and> current_thread s1 = Some 1
    \<and> mythread 0x88 s1 = Switched s2 \<and> current_thread s2 = Some 0
    \<and> state_of s2 1 = T_FREE \<and> state_of s2 2 = T_RUNNABLE"
  by (rule exiting_thread_resumes_main [OF uboot_length])

end
