(* ===== verification/Memory.thy ===== *)
theory Memory
  imports Xv6_Prelude
begin

text \<open>
  Byte-addressed memory and the routines of \<^verbatim>\<open>xv6/string.c\<close> on it. A memory is a total map from
  32-bit addresses to bytes; pointer arithmetic wraps. \<open>load32\<close> and \<open>store32\<close> are the x86's
  little-endian 4-byte accesses.
\<close>

unbundle bit_operations_syntax

type_synonym mem = "u32 \<Rightarrow> u8"

definition load32 :: "mem \<Rightarrow> u32 \<Rightarrow> u32" where
  "load32 m a =
     ucast (m a) OR push_bit 8 (ucast (m (a + 1))) OR push_bit 16 (ucast (m (a + 2)))
       OR push_bit 24 (ucast (m (a + 3)))"

definition store32 :: "mem \<Rightarrow> u32 \<Rightarrow> u32 \<Rightarrow> mem" where
  "store32 m a v =
     m(a := ucast v, a + 1 := ucast (drop_bit 8 v), a + 2 := ucast (drop_bit 16 v),
       a + 3 := ucast (drop_bit 24 v))"

definition store16 :: "mem \<Rightarrow> u32 \<Rightarrow> u16 \<Rightarrow> mem" where
  "store16 m a v = m(a := ucast v, a + 1 := ucast (drop_bit 8 v))"

definition load16 :: "mem \<Rightarrow> u32 \<Rightarrow> u16" where
  "load16 m a = ucast (m a) OR push_bit 8 (ucast (m (a + 1)))"

section \<open>The routines\<close>

text \<open>\<^verbatim>\<open>rep stosb\<close> and \<^verbatim>\<open>rep stosl\<close> (\<^verbatim>\<open>x86.h\<close>) store a byte or a 4-byte word \<open>n\<close> times.\<close>

primrec stosb :: "nat \<Rightarrow> u32 \<Rightarrow> u8 \<Rightarrow> mem \<Rightarrow> mem" where
  "stosb 0 a c m = m"
| "stosb (Suc n) a c m = stosb n (a + 1) c (m(a := c))"

primrec stosl :: "nat \<Rightarrow> u32 \<Rightarrow> u32 \<Rightarrow> mem \<Rightarrow> mem" where
  "stosl 0 a v m = m"
| "stosl (Suc n) a v m = stosl n (a + 4) v (store32 m a v)"

definition memset :: "u32 \<Rightarrow> u32 \<Rightarrow> u32 \<Rightarrow> mem \<Rightarrow> mem" where
  "memset dst c n m =
     (if dst mod 4 = 0 \<and> n mod 4 = 0
      then (let c = c AND 0xFF
            in stosl (unat (n div 4)) dst
                 (push_bit 24 c OR push_bit 16 c OR push_bit 8 c OR c) m)
      else stosb (unat n) dst (ucast c) m)"

text \<open>\<^verbatim>\<open>memcmp\<close>, on the number of bytes still to compare.\<close>

primrec memcmp :: "nat \<Rightarrow> u32 \<Rightarrow> u32 \<Rightarrow> mem \<Rightarrow> int" where
  "memcmp 0 s1 s2 m = 0"
| "memcmp (Suc n) s1 s2 m =
     (if m s1 \<noteq> m s2 then uint (m s1) - uint (m s2) else memcmp n (s1 + 1) (s2 + 1) m)"

primrec copy_forward :: "nat \<Rightarrow> u32 \<Rightarrow> u32 \<Rightarrow> mem \<Rightarrow> mem" where
  "copy_forward 0 d s m = m"
| "copy_forward (Suc n) d s m = copy_forward n (d + 1) (s + 1) (m(d := m s))"

primrec copy_backward :: "nat \<Rightarrow> u32 \<Rightarrow> u32 \<Rightarrow> mem \<Rightarrow> mem" where
  "copy_backward 0 d s m = m"
| "copy_backward (Suc n) d s m = copy_backward n (d - 1) (s - 1) (m(d - 1 := m (s - 1)))"

definition memmove :: "u32 \<Rightarrow> u32 \<Rightarrow> u32 \<Rightarrow> mem \<Rightarrow> mem" where
  "memmove dst src n m =
     (if src < dst \<and> src + n > dst
      then copy_backward (unat n) (dst + n) (src + n) m
      else copy_forward (unat n) dst src m)"

definition memcpy :: "u32 \<Rightarrow> u32 \<Rightarrow> u32 \<Rightarrow> mem \<Rightarrow> mem" where
  "memcpy dst src n m = memmove dst src n m"

text \<open>\<^verbatim>\<open>strncmp\<close>, on the number of characters still allowed.\<close>

primrec strncmp :: "nat \<Rightarrow> u32 \<Rightarrow> u32 \<Rightarrow> mem \<Rightarrow> int" where
  "strncmp 0 p q m = 0"
| "strncmp (Suc n) p q m =
     (if m p \<noteq> 0 \<and> m p = m q then strncmp n (p + 1) (q + 1) m
      else uint (m p) - uint (m q))"

text \<open>The two loops of \<^verbatim>\<open>strncpy\<close>; a negative count copies nothing.\<close>

primrec strncpy_loop :: "nat \<Rightarrow> u32 \<Rightarrow> u32 \<Rightarrow> mem \<Rightarrow> mem" where
  "strncpy_loop 0 s t m = m"
| "strncpy_loop (Suc n) s t m =
     (if m t \<noteq> 0 then strncpy_loop n (s + 1) (t + 1) (m(s := m t))
      else stosb n (s + 1) 0 (m(s := m t)))"

definition strncpy :: "u32 \<Rightarrow> u32 \<Rightarrow> int \<Rightarrow> mem \<Rightarrow> mem" where
  "strncpy s t n m = strncpy_loop (nat n) s t m"

text \<open>
  The loop of \<^verbatim>\<open>safestrcpy\<close> after the first decrement, and the final store of the terminator.
\<close>

primrec safestrcpy_loop :: "nat \<Rightarrow> u32 \<Rightarrow> u32 \<Rightarrow> mem \<Rightarrow> mem" where
  "safestrcpy_loop 0 s t m = m(s := 0)"
| "safestrcpy_loop (Suc n) s t m =
     (if m t \<noteq> 0 then safestrcpy_loop n (s + 1) (t + 1) (m(s := m t))
      else (m(s := m t))(s + 1 := 0))"

definition safestrcpy :: "u32 \<Rightarrow> u32 \<Rightarrow> int \<Rightarrow> mem \<Rightarrow> mem" where
  "safestrcpy s t n m = (if n \<le> 0 then m else safestrcpy_loop (nat n - 1) s t m)"

text \<open>\<^verbatim>\<open>strlen\<close>: \<open>None\<close> when there is no terminator.\<close>

partial_function (option) strlen_from :: "mem \<Rightarrow> u32 \<Rightarrow> nat \<Rightarrow> nat option" where
  "strlen_from m s n = (if m (s + of_nat n) = 0 then Some n else strlen_from m s (Suc n))"

definition strlen :: "u32 \<Rightarrow> mem \<Rightarrow> nat option" where
  "strlen s m = strlen_from m s 0"

lemma of_nat_u32_inj:
  assumes "i < 2 ^ 32" "j < 2 ^ 32"
  shows "(of_nat i :: u32) = of_nat j \<longleftrightarrow> i = j"
proof
  assume "(of_nat i :: u32) = of_nat j"
  then have "unat (of_nat i :: u32) = unat (of_nat j :: u32)" by simp
  then show "i = j" using assms by (simp add: unat_of_nat take_bit_eq_mod)
qed simp

definition block_at :: "u32 \<Rightarrow> nat \<Rightarrow> u32 set" where
  "block_at a n = (\<lambda>k. a + of_nat k) ` {..<n}"

lemma block_at_0 [simp]: "block_at a 0 = {}"
  by (simp add: block_at_def)

lemma block_at_Suc: "block_at a (Suc n) = insert a (block_at (a + 1) n)"
  by (simp add: block_at_def lessThan_Suc_eq_insert_0 image_image add.assoc)

lemma block_at_Suc_last: "block_at a (Suc n) = insert (a + of_nat n) (block_at a n)"
  by (simp add: block_at_def lessThan_Suc)

lemma block_atI [intro]: "k < n \<Longrightarrow> a + of_nat k \<in> block_at a n"
  by (simp add: block_at_def)

lemma block_at_start_notin: "n < 2 ^ 32 \<Longrightarrow> a \<notin> block_at (a + 1) n"
proof
  assume n: "n < 2 ^ 32" and "a \<in> block_at (a + 1) n"
  then obtain k where k: "k < n" "a = a + 1 + of_nat k" by (auto simp: block_at_def)
  then have "(0 :: u32) = of_nat (Suc k)" by (simp add: add.assoc)
  then have "(of_nat 0 :: u32) = of_nat (Suc k)" by simp
  then show False using k(1) n by (subst (asm) of_nat_u32_inj) auto
qed

lemma block_at_last_notin: "n < 2 ^ 32 \<Longrightarrow> a + of_nat n \<notin> block_at a n"
  by (auto simp: block_at_def of_nat_u32_inj)

lemma block_at_wordI: "x - a < of_nat n \<Longrightarrow> n < 2 ^ 32 \<Longrightarrow> x \<in> block_at a n"
proof -
  assume "x - a < of_nat n" and n: "n < 2 ^ 32"
  then have "unat (x - a) < n" by (simp add: word_less_nat_alt unat_of_nat take_bit_eq_mod)
  then have "a + of_nat (unat (x - a)) \<in> block_at a n" by (rule block_atI)
  then show ?thesis by simp
qed

lemma block_at_word_iff: "n < 2 ^ 32 \<Longrightarrow> x \<in> block_at a n \<longleftrightarrow> x - a < of_nat n"
proof
  show "x - a < of_nat n" if "n < 2 ^ 32" "x \<in> block_at a n"
    using that by (auto simp: block_at_def word_less_nat_alt unat_of_nat take_bit_eq_mod)
qed (rule block_at_wordI)

subsection \<open>Words in memory\<close>


lemma bytes_of_word:
  fixes v :: u32
  shows "ucast (ucast v :: u8) OR push_bit 8 (ucast (ucast (drop_bit 8 v) :: u8))
      OR push_bit 16 (ucast (ucast (drop_bit 16 v) :: u8))
      OR push_bit 24 (ucast (ucast (drop_bit 24 v) :: u8)) = v" (is "?w = v")
proof (rule bit_word_eqI)
  fix n :: nat
  assume "n < LENGTH(32)"
  then consider "n < 8" | "8 \<le> n" "n < 16" | "16 \<le> n" "n < 24" | "24 \<le> n" "n < 32"
    by force
  then show "bit ?w n = bit v n"
    by cases (auto simp: bit_simps)
qed

lemma load32_store32_same [simp]: "load32 (store32 m a v) a = v"
  by (simp add: load32_def store32_def bytes_of_word)

definition cell :: "u32 \<Rightarrow> u32 set" where
  "cell a = {a, a + 1, a + 2, a + 3}"

lemma store32_outside: "x \<notin> cell a \<Longrightarrow> store32 m a v x = m x"
  by (simp add: store32_def cell_def)

lemma load32_cong: "(\<And>x. x \<in> cell a \<Longrightarrow> m x = m' x) \<Longrightarrow> load32 m a = load32 m' a"
  by (simp add: load32_def cell_def)

lemma load32_store32_other: "cell a \<inter> cell b = {} \<Longrightarrow> load32 (store32 m b v) a = load32 m a"
  by (rule load32_cong) (blast intro: store32_outside)

lemma stosb_eq:
  "n \<le> 2 ^ 32 \<Longrightarrow> stosb n a c m x = (if x \<in> block_at a n then c else m x)"
  by (induction n arbitrary: a m) (auto simp: block_at_Suc)

subsection \<open>memset\<close>

definition spread :: "u8 \<Rightarrow> u32" where
  "spread c = (let c = ucast c in push_bit 24 c OR push_bit 16 c OR push_bit 8 c OR c)"

lemma cell_block: "cell a = block_at a 4"
  by (simp add: cell_def block_at_def eval_nat_numeral lessThan_Suc insert_commute)

lemma block_at_add: "block_at a (m + n) = block_at a m \<union> block_at (a + of_nat m) n"
proof (induction n)
  case (Suc n)
  then show ?case by (simp add: block_at_Suc_last add.assoc)
qed simp

lemma spread_bytes:
  "ucast (spread c) = c" "ucast (drop_bit 8 (spread c)) = c" "ucast (drop_bit 16 (spread c)) = c"
  "ucast (drop_bit 24 (spread c)) = c"
  by (rule bit_word_eqI; auto simp: spread_def Let_def bit_simps dest: bit_imp_le_length)+

lemma store32_spread: "store32 m a (spread c) x = (if x \<in> cell a then c else m x)"
  by (simp add: store32_def spread_bytes cell_def)

lemma stosl_spread:
  "stosl n a (spread c) m x = (if x \<in> block_at a (4 * n) then c else m x)"
proof (induction n arbitrary: a m)
  case (Suc n)
  have "block_at a (4 * Suc n) = cell a \<union> block_at (a + 4) (4 * n)"
    using block_at_add [of a 4 "4 * n"] by (simp add: cell_block)
  with Suc show ?case by (simp add: store32_spread)
qed simp

lemma stosb_fill: "stosb n a c m x = (if x \<in> block_at a n then c else m x)"
  by (induction n arbitrary: a m) (auto simp: block_at_Suc)

lemma mask_spread: "(c :: u32) AND 0xFF = ucast (ucast c :: u8)"
proof -
  have "(0xFF :: u32) = mask 8" by (simp add: mask_eq_decr_exp)
  then show ?thesis by (simp add: bit_eq_iff bit_simps conj_commute)
qed

text \<open>
  \<^verbatim>\<open>memset(dst, c, n)\<close> stores the low byte of \<open>c\<close> at exactly the \<open>n\<close> bytes from
  \<open>dst\<close> on, also when it takes the fast path of storing 4-byte words.
\<close>

lemma memset_fills:
  "memset dst c n m x = (if x - dst < n then ucast c else m x)"
proof -
  have in_block: "x \<in> block_at dst (unat n) \<longleftrightarrow> x - dst < n"
    using block_at_word_iff [of "unat n" x dst] unsigned_less [of n] by simp
  show ?thesis
  proof (cases "dst mod 4 = 0 \<and> n mod 4 = 0")
    case True
    have "unat (n mod 4) = unat n mod 4" by (simp add: unat_mod)
    with True have "unat n mod 4 = 0" by simp
    then have "4 * unat (n div 4) = unat n"
      by (simp add: unat_div) presburger
    then show ?thesis
      using True in_block stosl_spread [of "unat (n div 4)" dst "ucast c" m x]
      by (simp add: memset_def Let_def mask_spread spread_def)
  next
    case False
    then have "memset dst c n m = stosb (unat n) dst (ucast c) m"
      unfolding memset_def by (rule if_not_P)
    then show ?thesis using in_block by (simp add: stosb_fill)
  qed
qed


subsection \<open>memmove\<close>

lemma copy_forward_outside: "x \<notin> block_at d n \<Longrightarrow> copy_forward n d s m x = m x"
  by (induction n arbitrary: d s m) (auto simp: block_at_Suc)

text \<open>Forward copying is right when no byte is overwritten before it is read.\<close>

lemma copy_forward_eq:
  assumes "n < 2 ^ 32" and "\<And>i j. i < j \<Longrightarrow> j < n \<Longrightarrow> s + of_nat j \<noteq> d + of_nat i" and "k < n"
  shows "copy_forward n d s m (d + of_nat k) = m (s + of_nat k)"
  using assms
proof (induction n arbitrary: d s m k)
  case (Suc n)
  show ?case
  proof (cases k)
    case 0
    have "d \<notin> block_at (d + 1) n" using Suc.prems(1) by (intro block_at_start_notin) simp
    with 0 show ?thesis by (simp add: copy_forward_outside)
  next
    case (Suc k')
    have "copy_forward n (d + 1) (s + 1) (m(d := m s)) (d + 1 + of_nat k')
        = (m(d := m s)) (s + 1 + of_nat k')"
    proof (rule Suc.IH)
      show "s + 1 + of_nat j \<noteq> d + 1 + of_nat i" if "i < j" "j < n" for i j
        using Suc.prems(2) [of "Suc i" "Suc j"] that by (simp add: add.assoc)
    qed (use Suc Suc.prems in simp_all)
    moreover have "s + of_nat (Suc k') \<noteq> d + of_nat 0"
      using Suc Suc.prems by (intro Suc.prems(2)) simp_all
    ultimately show ?thesis using Suc by (simp add: add.assoc)
  qed
qed simp

lemma copy_backward_outside: "x \<notin> block_at (d - of_nat n) n \<Longrightarrow> copy_backward n d s m x = m x"
proof (induction n arbitrary: d s m)
  case (Suc n)
  have "block_at (d - of_nat (Suc n)) (Suc n) = insert (d - 1) (block_at (d - 1 - of_nat n) n)"
    by (simp add: block_at_Suc_last diff_diff_eq)
  with Suc show ?case by simp
qed simp

lemma copy_backward_eq:
  assumes "n < 2 ^ 32" and "\<And>i j. i < j \<Longrightarrow> j < n \<Longrightarrow> s + of_nat i \<noteq> d + of_nat j" and "k < n"
  shows "copy_backward n (d + of_nat n) (s + of_nat n) m (d + of_nat k) = m (s + of_nat k)"
  using assms
proof (induction n arbitrary: m k)
  case (Suc n)
  have step: "copy_backward (Suc n) (d + of_nat (Suc n)) (s + of_nat (Suc n)) m
      = copy_backward n (d + of_nat n) (s + of_nat n) (m(d + of_nat n := m (s + of_nat n)))"
    by (simp add: add.assoc [symmetric] add_diff_eq [symmetric])
  show ?case
  proof (cases "k = n")
    case True
    have "d + of_nat n \<notin> block_at d n"
      using Suc.prems(1) by (intro block_at_last_notin) simp
    then show ?thesis unfolding step True by (subst copy_backward_outside) simp_all
  next
    case False
    with Suc.prems have k: "k < n" by simp
    have "copy_backward n (d + of_nat n) (s + of_nat n) (m(d + of_nat n := m (s + of_nat n))) (d + of_nat k)
        = (m(d + of_nat n := m (s + of_nat n))) (s + of_nat k)"
      by (rule Suc.IH) (use Suc.prems k in auto)
    moreover have "s + of_nat k \<noteq> d + of_nat n"
      using Suc.prems(2) [of k n] k by simp
    ultimately show ?thesis unfolding step by simp
  qed
qed simp

lemma unat_add_of_nat:
  "unat (a :: u32) + k < 2 ^ 32 \<Longrightarrow> unat (a + of_nat k) = unat a + k"
  by (simp add: unat_word_ariths unat_of_nat take_bit_eq_mod mod_add_right_eq)

lemma u32_offset_eq_iff:
  assumes "unat (a :: u32) + i < 2 ^ 32" "unat b + j < 2 ^ 32"
  shows "a + of_nat i = b + of_nat j \<longleftrightarrow> unat a + i = unat b + j"
  using assms unat_add_of_nat by (metis word_unat_eq_iff)

lemma memmove_outside:
  assumes "\<not> x - dst < n"
  shows "memmove dst src n m x = m x"
proof -
  have "x \<notin> block_at dst (unat n)" using assms block_at_word_iff [of "unat n" x dst] unsigned_less [of n] by simp
  then show ?thesis
    using copy_forward_outside copy_backward_outside [of x "dst + n" "unat n"] by (simp add: memmove_def)
qed

lemma memmove_block:
  assumes "unat src + unat n < 2 ^ 32" "unat dst + unat n < 2 ^ 32"
  shows "memmove dst src n m x = (if x - dst < n then m (src + (x - dst)) else m x)"
proof -
  let ?n = "unat n"
  have lt: "?n < 2 ^ 32" using unsigned_less [of n] by simp
  have n: "of_nat ?n = n" by simp
  have srcn: "unat (src + n) = unat src + ?n"
    using unat_add_of_nat [OF assms(1)] by simp
  show ?thesis
  proof (cases "x - dst < n")
    case True
    define k where "k = unat (x - dst)"
    have k: "k < ?n" using True by (simp add: k_def word_less_nat_alt)
    have x: "x = dst + of_nat k" by (simp add: k_def)
    have eq_iff: "src + of_nat i = dst + of_nat j \<longleftrightarrow> unat src + i = unat dst + j"
      if "i < ?n" "j < ?n" for i j
      by (rule u32_offset_eq_iff) (use that assms in auto)
    have "memmove dst src n m (dst + of_nat k) = m (src + of_nat k)"
    proof (cases "src < dst \<and> src + n > dst")
      case True
      have "copy_backward ?n (dst + of_nat ?n) (src + of_nat ?n) m (dst + of_nat k) = m (src + of_nat k)"
        by (rule copy_backward_eq) (use True lt k eq_iff in \<open>auto simp: word_less_nat_alt\<close>)
      with True show ?thesis by (simp add: memmove_def)
    next
      case False
      have "copy_forward ?n dst src m (dst + of_nat k) = m (src + of_nat k)"
      proof (rule copy_forward_eq)
        fix i j assume "i < j" "j < ?n"
        with False srcn show "src + of_nat j \<noteq> dst + of_nat i"
          by (subst eq_iff) (auto simp: word_less_nat_alt not_less)
      qed (use lt k in auto)
      with False show ?thesis by (auto simp: memmove_def)
    qed
    with True x show ?thesis by simp
  next
    case False
    then have "x \<notin> block_at dst ?n" using block_at_word_iff [OF lt, of x dst] by simp
    then show ?thesis
      using False by (simp add: memmove_def copy_forward_outside copy_backward_outside)
  qed
qed

text \<open>
  Claim C17. \<^verbatim>\<open>memmove(dst, src, n)\<close> copies the \<open>n\<close> bytes that were at \<open>src\<close> to \<open>dst\<close> and changes
  nothing else, for any overlap of the two blocks, as long as neither block wraps around
  the end of the address space.
\<close>

theorem memmove_copies:
  assumes "unat src + unat n < 2 ^ 32" "unat dst + unat n < 2 ^ 32"
  shows "memmove dst src n m x = (if x - dst < n then m (src + (x - dst)) else m x)"
  by (rule memmove_block [OF assms])

theorem memmove_copies_witness:
  "memmove 0x1002 0x1000 4 (\<lambda>a. ucast a) 0x1003 = 1"
  using memmove_copies [of "0x1000" 4 "0x1002" "\<lambda>a. ucast a" "0x1003"] by simp


subsection \<open>Strings\<close>

text \<open>The \<^verbatim>\<open>n\<close>-bounded string at an address: the bytes before the first NUL, at most \<open>n\<close>.\<close>

primrec cstr :: "nat \<Rightarrow> u32 \<Rightarrow> mem \<Rightarrow> u8 list" where
  "cstr 0 p m = []"
| "cstr (Suc n) p m = (if m p = 0 then [] else m p # cstr n (p + 1) m)"

lemma cstr_length: "length (cstr n p m) \<le> n"
  by (induction n arbitrary: p) auto

lemma cstr_cong:
  "(\<And>x. x \<in> block_at p n \<Longrightarrow> m x = m' x) \<Longrightarrow> cstr n p m = cstr n p m'"
  by (induction n arbitrary: p) (auto simp: block_at_Suc)

text \<open>
  \<^verbatim>\<open>strncmp(p, q, n)\<close> is zero exactly when the two strings, cut off after \<open>n\<close>
  characters, are equal.
\<close>

theorem strncmp_zero_iff: "strncmp n p q m = 0 \<longleftrightarrow> cstr n p m = cstr n q m"
  by (induction n arbitrary: p q) (auto simp: uint_0_iff word_uint_eq_iff [symmetric])

lemma strncpy_outside: "x \<notin> block_at s n \<Longrightarrow> strncpy_loop n s t m x = m x"
  by (induction n arbitrary: s t m) (auto simp: block_at_Suc stosb_fill)

lemma safestrcpy_outside: "x \<notin> block_at s (Suc n) \<Longrightarrow> safestrcpy_loop n s t m x = m x"
  by (induction n arbitrary: s t m) (auto simp: block_at_Suc)

lemma strncpy_bytes:
  assumes "n < 2 ^ 32" and "block_at s n \<inter> block_at t n = {}" and "k < n"
  shows "strncpy_loop n s t m (s + of_nat k)
    = (if k < length (cstr n t m) then cstr n t m ! k else 0)"
  using assms
proof (induction n arbitrary: s t m k)
  case (Suc n)
  have start: "s \<notin> block_at (s + 1) n" using Suc.prems(1) by (intro block_at_start_notin) simp
  have disj: "block_at (s + 1) n \<inter> block_at (t + 1) n = {}" "s \<notin> block_at (t + 1) n"
    using Suc.prems(2) by (auto simp: block_at_Suc)
  show ?case
  proof (cases "m t = 0")
    case True
    have "s + of_nat k \<in> block_at s (Suc n)" using Suc.prems(3) by blast
    then show ?thesis using True by (auto simp: block_at_Suc stosb_fill)
  next
    case nz: False
    have same: "cstr n (t + 1) (m(s := m t)) = cstr n (t + 1) m"
      using disj by (intro cstr_cong) auto
    show ?thesis
    proof (cases k)
      case 0
      then show ?thesis using nz start by (simp add: strncpy_outside)
    next
      case (Suc k')
      have "strncpy_loop n (s + 1) (t + 1) (m(s := m t)) (s + 1 + of_nat k')
        = (if k' < length (cstr n (t + 1) (m(s := m t))) then cstr n (t + 1) (m(s := m t)) ! k' else 0)"
        by (rule Suc.IH) (use Suc.prems Suc disj in simp_all)
      then have "strncpy_loop n (s + 1) (t + 1) (m(s := m t)) (s + 1 + of_nat k')
        = (if k' < length (cstr n (t + 1) m) then cstr n (t + 1) m ! k' else 0)"
        unfolding same .
      then show ?thesis using nz Suc by (simp add: add.assoc)
    qed
  qed
qed simp

text \<open>
  \<^verbatim>\<open>strncpy(s, t, n)\<close> copies the string at \<open>t\<close>, cut off after \<open>n\<close> characters, and pads
  the rest of the \<open>n\<close> bytes with NULs; nothing outside the \<open>n\<close> bytes changes.
\<close>

theorem strncpy_copies:
  assumes "0 \<le> n" "n < 2 ^ 31" and "block_at s (nat n) \<inter> block_at t (nat n) = {}"
  shows "(\<forall>k < nat n. strncpy s t n m (s + of_nat k)
           = (if k < length (cstr (nat n) t m) then cstr (nat n) t m ! k else 0))
    \<and> (\<forall>x. x \<notin> block_at s (nat n) \<longrightarrow> strncpy s t n m x = m x)"
  using assms by (auto simp: strncpy_def strncpy_outside intro!: strncpy_bytes [THEN trans])

theorem strncpy_copies_witness:
  "strncpy 0x100 0x200 4 ((\<lambda>_. 9)(0x200 := 7, 0x201 := 8, 0x202 := 0)) (0x100 + of_nat 3) = 0"
proof -
  define m :: mem where "m = (\<lambda>_. 9 :: u8)(0x200 := 7, 0x201 := 8, 0x202 := 0 :: u8)"
  have disj: "block_at 0x100 (nat 4) \<inter> block_at 0x200 (nat 4) = {}" by code_simp
  have str: "cstr (nat 4) 0x200 m = [7, 8]" unfolding m_def by code_simp
  have "\<forall>k < nat 4. strncpy 0x100 0x200 4 m (0x100 + of_nat k)
      = (if k < length (cstr (nat 4) 0x200 m) then cstr (nat 4) 0x200 m ! k else 0)"
    using strncpy_copies [OF _ _ disj, of m] by simp
  then have "strncpy 0x100 0x200 4 m (0x100 + of_nat 3)
      = (if 3 < length [7, 8 :: u8] then [7, 8] ! 3 else 0)"
    unfolding str by (rule allE [where x = 3]) simp
  then have "strncpy 0x100 0x200 4 m (0x100 + of_nat 3) = 0" by simp
  then show ?thesis unfolding m_def .
qed

lemma safestrcpy_string:
  assumes "n < 2 ^ 32 - 1" and "block_at s (Suc n) \<inter> block_at t n = {}"
  shows "cstr (Suc n) s (safestrcpy_loop n s t m) = cstr n t m"
  using assms
proof (induction n arbitrary: s t m)
  case (Suc n)
  have start: "s \<notin> block_at (s + 1) (Suc n)" using Suc.prems(1) by (intro block_at_start_notin) simp
  have disj: "block_at (s + 1) (Suc n) \<inter> block_at (t + 1) n = {}" "s \<notin> block_at (t + 1) n"
    using Suc.prems(2) by (auto simp: block_at_Suc)
  show ?case
  proof (cases "m t = 0")
    case True
    then show ?thesis using start by (simp add: block_at_Suc)
  next
    case nz: False
    have "cstr (Suc n) (s + 1) (safestrcpy_loop n (s + 1) (t + 1) (m(s := m t)))
        = cstr n (t + 1) (m(s := m t))"
      by (rule Suc.IH) (use Suc.prems(1) disj in simp_all)
    also have "\<dots> = cstr n (t + 1) m" using disj by (intro cstr_cong) auto
    finally have tail: "cstr (Suc n) (s + 1) (safestrcpy_loop n (s + 1) (t + 1) (m(s := m t)))
        = cstr n (t + 1) m" .
    have "safestrcpy_loop n (s + 1) (t + 1) (m(s := m t)) s = m t"
      using start by (simp add: safestrcpy_outside)
    then show ?thesis using nz tail by (simp del: cstr.simps add: cstr.simps(2) [of "Suc n"] cstr.simps(2) [of n t])
  qed
qed simp

text \<open>
  \<^verbatim>\<open>safestrcpy(s, t, n)\<close> with a positive \<open>n\<close> leaves at \<open>s\<close> a NUL-terminated string within
  the \<open>n\<close> bytes: the string at \<open>t\<close> cut off after \<open>n - 1\<close> characters.
\<close>

theorem safestrcpy_terminates_string:
  assumes "0 < n" "n < 2 ^ 31" and "block_at s (nat n) \<inter> block_at t (nat n - 1) = {}"
  shows "cstr (nat n) s (safestrcpy s t n m) = cstr (nat n - 1) t m
    \<and> length (cstr (nat n) s (safestrcpy s t n m)) < nat n"
proof -
  have "cstr (nat n) s (safestrcpy s t n m) = cstr (nat n - 1) t m"
    using safestrcpy_string [of "nat n - 1" s t m] assms by (simp add: safestrcpy_def)
  then show ?thesis using cstr_length [of "nat n - 1" t m] assms by simp
qed

theorem safestrcpy_terminates_string_witness:
  "cstr (nat 3) 0x100 (safestrcpy 0x100 0x200 3 (\<lambda>_. 9)) = [9, 9]"
proof -
  have disj: "block_at 0x100 (nat 3) \<inter> block_at 0x200 (nat 3 - 1) = {}" by code_simp
  have "cstr (nat 3 - 1) 0x200 (\<lambda>_. 9) = [9, 9]" by code_simp
  then show ?thesis using safestrcpy_terminates_string [of 3 "0x100" "0x200" "\<lambda>_. 9"] disj by simp
qed

lemma strlen_from_eq:
  assumes "n \<le> k" "m (s + of_nat k) = 0" "\<And>i. n \<le> i \<Longrightarrow> i < k \<Longrightarrow> m (s + of_nat i) \<noteq> 0"
  shows "strlen_from m s n = Some k"
  using assms
proof (induction "k - n" arbitrary: n)
  case 0
  then show ?case by (simp add: strlen_from.simps)
next
  case (Suc d)
  then have "strlen_from m s (Suc n) = Some k" by (intro Suc.hyps) auto
  with Suc show ?case by (simp add: strlen_from.simps [of m s n])
qed

lemma strlen_first_nul:
  assumes "m (s + of_nat k) = 0" "\<And>i. i < k \<Longrightarrow> m (s + of_nat i) \<noteq> 0"
  shows "strlen s m = Some k"
  using assms by (auto simp: strlen_def intro: strlen_from_eq)

end
