(* ===== verification/Userlib.thy ===== *)
theory Userlib
  imports Memory
begin

text \<open>
  The user library: \<^verbatim>\<open>xv6/ulib.c\<close> and \<^verbatim>\<open>xv6/printf.c\<close>, and the formatted printing of the kernel, \<^verbatim>\<open>cprintf\<close> of
  \<^verbatim>\<open>xv6/console.c\<close>. A C string that is only read is the list of its characters before the terminating NUL;
  routines that write work on the byte memory. What \<^verbatim>\<open>putc\<close> and \<^verbatim>\<open>consputc\<close> receive is the output.
\<close>

section \<open>Strings\<close>

text \<open>\<^verbatim>\<open>strcpy\<close> of a string to address \<open>s\<close>, the terminator included.\<close>

primrec strcpy :: "u32 \<Rightarrow> string \<Rightarrow> mem \<Rightarrow> mem" where
  "strcpy s [] m = m(s := 0)"
| "strcpy s (c # t) m = strcpy (s + 1) t (m(s := of_char c))"

fun strcmp :: "string \<Rightarrow> string \<Rightarrow> int" where
  "strcmp (x # xs) (y # ys) = (if x = y then strcmp xs ys else of_char x - of_char y)"
| "strcmp (x # xs) [] = of_char x"
| "strcmp [] (y # ys) = - of_char y"
| "strcmp [] [] = 0"

text \<open>\<^verbatim>\<open>strchr\<close> returns what is left from the first occurrence on. It may be given a buffer that holds NULs.\<close>

fun strchr :: "string \<Rightarrow> char \<Rightarrow> string option" where
  "strchr [] c = None"
| "strchr (x # s) c = (if x = CHR 0x00 then None else if x = c then Some (x # s) else strchr s c)"

text \<open>The loop of \<^verbatim>\<open>gets\<close>: \<open>k\<close> is the room left, \<open>inp\<close> the input. The string read and the input left.\<close>

primrec gets_loop :: "nat \<Rightarrow> string \<Rightarrow> string \<times> string" where
  "gets_loop 0 inp = ([], inp)"
| "gets_loop (Suc k) inp =
     (case inp of
        [] \<Rightarrow> ([], [])
      | c # rest \<Rightarrow>
          if c = CHR ''\<newline>'' \<or> c = CHR 0x0D then ([c], rest)
          else let (l, r) = gets_loop k rest in (c # l, r))"

definition gets_line :: "int \<Rightarrow> string \<Rightarrow> string \<times> string" where
  "gets_line limit inp = gets_loop (nat (limit - 1)) inp"

definition is_digit :: "char \<Rightarrow> bool" where
  "is_digit c \<longleftrightarrow> (48::nat) \<le> of_char c \<and> of_char c \<le> (57::nat)"

primrec atoi_loop :: "string \<Rightarrow> u32 \<Rightarrow> u32" where
  "atoi_loop [] n = n"
| "atoi_loop (c # s) n =
     (if is_digit c then atoi_loop s (n * 10 + of_char c - of_char CHR ''0'') else n)"

definition atoi :: "string \<Rightarrow> int" where
  "atoi s = sint (atoi_loop s 0)"

text \<open>\<^verbatim>\<open>memmove\<close> of the user library copies upwards, whatever the overlap.\<close>

definition umemmove :: "u32 \<Rightarrow> u32 \<Rightarrow> int \<Rightarrow> mem \<Rightarrow> mem" where
  "umemmove dst src n m = copy_forward (nat n) dst src m"


section \<open>Formatted printing\<close>

text \<open>
  The digit loop of \<^verbatim>\<open>printint\<close> from index \<open>i\<close> of its 16-byte buffer on, least significant digit first. A digit
  index past the table and an index past the buffer are faults of the model.
\<close>

function digit_loop :: "string \<Rightarrow> nat \<Rightarrow> u32 \<Rightarrow> u32 \<Rightarrow> string res" where
  "digit_loop digits i x base =
     (if base = 0 then Inl (Fault ''divide'')
      else if i \<ge> 16 then Inl (Fault ''buf'')
      else if unat (x mod base) \<ge> length digits then Inl (Fault ''digits'')
      else let d = digits ! unat (x mod base); x' = x div base
           in if x' \<noteq> 0 then bindE (digit_loop digits (i + 1) x' base) (\<lambda>ds. Inr (d # ds)) else Inr [d])"
  by pat_completeness auto
termination
  by (relation "measure (\<lambda>(digits, i, x, base). 16 - i)") auto

declare digit_loop.simps [simp del]

definition printint :: "string \<Rightarrow> u32 \<Rightarrow> u32 \<Rightarrow> bool \<Rightarrow> string res" where
  "printint digits xx base sg =
     (let neg = (sg \<and> sint xx < 0); x = (if neg then - xx else xx)
      in bindE (digit_loop digits 0 x base) (\<lambda>ds.
           if neg \<and> length ds \<ge> 16 then Inl (Fault ''buf'')
           else Inr (rev (if neg then ds @ ''-'' else ds))))"

definition udigits :: string where "udigits = ''0123456789ABCDEF''"
definition cdigits :: string where "cdigits = ''0123456789abcdef''"

text \<open>
  \<^verbatim>\<open>printf\<close>: the characters written, for the format still to be read. \<open>pct\<close> is \<^verbatim>\<open>state == '%'\<close>, \<open>ap\<close> are the argument words
  on the stack with \<open>j\<close> the next, and \<open>str\<close> the string at an address.
\<close>

fun printf_loop :: "(u32 \<Rightarrow> string) \<Rightarrow> (nat \<Rightarrow> u32) \<Rightarrow> string \<Rightarrow> bool \<Rightarrow> nat \<Rightarrow> string res" where
  "printf_loop str ap [] pct j = Inr []"
| "printf_loop str ap (c # fmt) pct j =
     (if \<not> pct
      then if c = CHR ''%'' then printf_loop str ap fmt True j
           else bindE (printf_loop str ap fmt False j) (\<lambda>r. Inr (c # r))
      else bindE
        (if c = CHR ''d'' then bindE (printint udigits (ap j) 10 True) (\<lambda>s. Inr (s, j + 1))
         else if c = CHR ''x'' \<or> c = CHR ''p'' then bindE (printint udigits (ap j) 16 False) (\<lambda>s. Inr (s, j + 1))
         else if c = CHR ''s'' then Inr (if ap j = 0 then ''(null)'' else str (ap j), j + 1)
         else if c = CHR ''c'' then Inr ([char_of (unat (ap j))], j + 1)
         else if c = CHR ''%'' then Inr ([c], j)
         else Inr ([CHR ''%'', c], j))
        (\<lambda>(s, j). bindE (printf_loop str ap fmt False j) (\<lambda>r. Inr (s @ r))))"

definition printf :: "(u32 \<Rightarrow> string) \<Rightarrow> string \<Rightarrow> (nat \<Rightarrow> u32) \<Rightarrow> string res" where
  "printf str fmt ap = printf_loop str ap fmt False 0"

text \<open>\<^verbatim>\<open>cprintf\<close> of the kernel: no \<^verbatim>\<open>%c\<close>, and a \<^verbatim>\<open>%\<close> at the end of the format ends the loop.\<close>

fun cprintf_loop :: "(u32 \<Rightarrow> string) \<Rightarrow> (nat \<Rightarrow> u32) \<Rightarrow> string \<Rightarrow> nat \<Rightarrow> string res" where
  "cprintf_loop str ap [] j = Inr []"
| "cprintf_loop str ap (c # fmt) j =
     (if c \<noteq> CHR ''%'' then bindE (cprintf_loop str ap fmt j) (\<lambda>r. Inr (c # r))
      else case fmt of
        [] \<Rightarrow> Inr []
      | d # fmt \<Rightarrow> bindE
          (if d = CHR ''d'' then bindE (printint cdigits (ap j) 10 True) (\<lambda>s. Inr (s, j + 1))
           else if d = CHR ''x'' \<or> d = CHR ''p'' then bindE (printint cdigits (ap j) 16 False) (\<lambda>s. Inr (s, j + 1))
           else if d = CHR ''s'' then Inr (if ap j = 0 then ''(null)'' else str (ap j), j + 1)
           else if d = CHR ''%'' then Inr (''%'', j)
           else Inr ([CHR ''%'', d], j))
          (\<lambda>(s, j). bindE (cprintf_loop str ap fmt j) (\<lambda>r. Inr (s @ r))))"

text \<open>\<open>None\<close> is the null format.\<close>

definition cprintf :: "(u32 \<Rightarrow> string) \<Rightarrow> string option \<Rightarrow> (nat \<Rightarrow> u32) \<Rightarrow> string res" where
  "cprintf str fmt ap =
     (case fmt of None \<Rightarrow> Inl (Panic ''null fmt'') | Some f \<Rightarrow> cprintf_loop str ap f 0)"

section \<open>Printing and reading numbers\<close>

text \<open>The digits of a number below \<open>10 ^ k\<close> in a base of at least ten are at most \<open>k\<close> many.\<close>

lemma digit_loop_returns:
  assumes "10 \<le> base" "base \<le> 16" "unat x < 10 ^ k" "0 < k" "i + k \<le> 16" "length digits = 16"
  shows "\<exists>ds. digit_loop digits i x base = Inr ds \<and> length ds \<le> k"
  using assms
proof (induction k arbitrary: i x)
  case (Suc k)
  have b: "10 \<le> unat base" "unat base \<le> 16" using Suc.prems(1,2) by (simp_all add: word_le_nat_alt)
  have "unat x mod unat base < unat base" using b by simp
  then have md: "unat (x mod base) < 16" using b(2) by (simp add: unat_mod_distrib)
  have "unat x div unat base < 10 ^ k"
  proof (rule div_less_iff_less_mult [THEN iffD2])
    show "unat x < 10 ^ k * unat base"
      using Suc.prems(3) b(1) by (simp add: less_le_trans mult.commute)
  qed (use b in simp)
  then have dv: "unat (x div base) < 10 ^ k" by (simp add: unat_div_distrib)
  have bnz: "base \<noteq> 0" using b by auto
  show ?case
  proof (cases "x div base = 0")
    case True
    then show ?thesis using md bnz Suc.prems by (simp add: digit_loop.simps [of digits i])
  next
    case False
    then have "0 < k" using dv by (cases k) (auto simp: unat_eq_zero)
    then obtain ds where "digit_loop digits (i + 1) (x div base) base = Inr ds" "length ds \<le> k"
      using Suc.IH [of "x div base" "i + 1"] Suc.prems dv by auto
    then show ?thesis using md bnz False Suc.prems by (simp add: digit_loop.simps [of digits i])
  qed
qed simp

definition decimal :: "string \<Rightarrow> bool" where
  "decimal digits \<longleftrightarrow> length digits = 16 \<and> take 10 digits = ''0123456789''"

lemma decimal_table:
  "list_all (\<lambda>k. is_digit (''0123456789'' ! k)
      \<and> of_char (''0123456789'' ! k) = (of_nat k + of_char CHR ''0'' :: u32)) [0..<10]"
  by code_simp

lemma decimal_digit:
  assumes "decimal digits" "k < 10"
  shows "is_digit (digits ! k)" "of_char (digits ! k) = (of_nat k + of_char CHR ''0'' :: u32)"
proof -
  have "digits ! k = ''0123456789'' ! k" using assms unfolding decimal_def by (metis nth_take)
  moreover have "k \<in> set [0..<10]" using assms(2) by simp
  ultimately show "is_digit (digits ! k)" "of_char (digits ! k) = (of_nat k + of_char CHR ''0'' :: u32)"
    using decimal_table [unfolded list_all_iff] by auto
qed

lemma digit_loop_atoi:
  assumes "decimal digits"
  shows "digit_loop digits i x 10 = Inr ds \<Longrightarrow>
    atoi_loop (rev ds @ rest) n = atoi_loop rest (n * 10 ^ length ds + x)"
proof (induction "16 - i" arbitrary: i x ds rest rule: less_induct)
  case less
  let ?d = "digits ! unat (x mod 10)"
  have lt: "i < 16" using less.prems by (simp add: digit_loop.simps [of digits i] split: if_splits)
  have small: "unat (x mod 10) < 10" by (simp add: unat_mod_distrib)
  have d: "is_digit ?d" "of_char ?d = x mod 10 + of_char CHR ''0''"
    using decimal_digit [OF assms, of "unat (x mod 10)"] small by simp_all
  have step: "atoi_loop (?d # rest) m = atoi_loop rest (m * 10 + x mod 10)" for m
    using d by simp
  have x: "x div 10 * 10 + x mod 10 = x" by (rule div_mult_mod_eq)
  show ?case
  proof (cases "x div 10 = 0")
    case True
    then have "ds = [?d]"
      using less.prems by (simp add: digit_loop.simps [of digits i] split: if_splits)
    moreover have "x mod 10 = x" using x True by simp
    ultimately show ?thesis using step [of n] by simp
  next
    case False
    then obtain es where es: "digit_loop digits (i + 1) (x div 10) 10 = Inr es" "ds = ?d # es"
      using less.prems by (auto simp: digit_loop.simps [of digits i] bindE_eq_Inr_iff split: if_splits)
    have "atoi_loop (rev ds @ rest) n = atoi_loop (?d # rest) (n * 10 ^ length es + x div 10)"
      using less.hyps [OF _ es(1)] lt es(2) by simp
    also have "\<dots> = atoi_loop rest (n * 10 ^ length ds + (x div 10 * 10 + x mod 10))"
      unfolding step es(2) by (simp add: algebra_simps)
    finally show ?thesis by (simp only: x)
  qed
qed

text \<open>
  Claim C37. Printing a 32-bit value with \<^verbatim>\<open>%d\<close> or \<^verbatim>\<open>%x\<close> never overruns the 16-byte buffer. A number that is not negative is read back by
  \<^verbatim>\<open>atoi\<close> from what \<^verbatim>\<open>%d\<close> printed. A negative one is printed as a minus sign and the digits of its magnitude, and \<^verbatim>\<open>atoi\<close>, which
  does not know signs, reads 0 from the whole and the magnitude from the digits (as a 32-bit value: the most negative number is
  its own magnitude).
\<close>

theorem printint_atoi_roundtrip:
  assumes "digits = udigits \<or> digits = cdigits"
  shows "\<exists>ds. printint digits x 10 True = Inr (if sint x < 0 then CHR ''-'' # ds else ds)
    \<and> length ds \<le> 10 \<and> atoi ds = (if sint x < 0 then sint (- x) else sint x) \<and> atoi (CHR ''-'' # ds) = 0
    \<and> (\<exists>hs. printint digits x 16 False = Inr hs \<and> length hs \<le> 10)"
proof -
  let ?y = "if sint x < 0 then - x else x"
  have dec: "decimal digits" using assms by (auto simp: decimal_def udigits_def cdigits_def)
  have less: "unat y < 10 ^ 10" for y :: u32
  proof -
    have "unat y < 2 ^ 32" using unsigned_less [of y] by simp
    then show ?thesis by simp
  qed
  then obtain ds where ds: "digit_loop digits 0 ?y 10 = Inr ds" "length ds \<le> 10"
    using digit_loop_returns [of 10 ?y 10 0 digits] dec less [of ?y] by (auto simp: decimal_def)
  have "atoi (rev ds) = sint ?y"
    using digit_loop_atoi [OF dec ds(1), of "[]" 0] by (simp add: atoi_def)
  moreover have "atoi (CHR ''-'' # rev ds) = 0" by (simp add: atoi_def is_digit_def)
  moreover have "\<exists>hs. printint digits x 16 False = Inr hs \<and> length hs \<le> 10"
  proof -
    obtain hs where "digit_loop digits 0 x 16 = Inr hs" "length hs \<le> 10"
      using digit_loop_returns [of 16 x 10 0 digits] dec less [of x] by (auto simp: decimal_def)
    then show ?thesis by (simp add: printint_def)
  qed
  ultimately show ?thesis using ds by (intro exI [of _ "rev ds"]) (auto simp: printint_def Let_def)
qed

theorem printint_atoi_roundtrip_witness:
  "\<exists>ds. printint udigits (- 2147483648) 10 True = Inr (CHR ''-'' # ds)
    \<and> length ds \<le> 10 \<and> atoi ds = - 2147483648"
  using printint_atoi_roundtrip [of udigits "- 2147483648"] by auto

end
