(* ===== verification/Grep.thy ===== *)
theory Grep
  imports Userlib
begin

text \<open>
  The pattern matcher and the line loop of \<^verbatim>\<open>xv6/grep.c\<close>. A C string is the list of its characters before the
  terminating NUL; \<^verbatim>\<open>re[0]\<close>, \<^verbatim>\<open>re[1]\<close> and \<^verbatim>\<open>*text\<close> are the first characters of what is left, and NUL at the end.
\<close>

section \<open>The matcher\<close>

fun matchhere :: "string \<Rightarrow> string \<Rightarrow> bool"
  and matchstar :: "char \<Rightarrow> string \<Rightarrow> string \<Rightarrow> bool" where
  "matchhere [] text = True"
| "matchhere (r # re) text =
     (if re \<noteq> [] \<and> hd re = CHR ''*'' then matchstar r (tl re) text
      else if r = CHR ''$'' \<and> re = [] then text = []
      else case text of
             [] \<Rightarrow> False
           | t # ts \<Rightarrow> (r = CHR ''.'' \<or> r = t) \<and> matchhere re ts)"
| "matchstar c re text =
     (matchhere re text \<or>
      (case text of [] \<Rightarrow> False | t # ts \<Rightarrow> (t = c \<or> c = CHR ''.'') \<and> matchstar c re ts))"

text \<open>The search of \<^verbatim>\<open>match\<close> over the suffixes of the text, the empty one included.\<close>

fun match_from :: "string \<Rightarrow> string \<Rightarrow> bool" where
  "match_from re text = (matchhere re text \<or> (case text of [] \<Rightarrow> False | t # ts \<Rightarrow> match_from re ts))"

definition match :: "string \<Rightarrow> string \<Rightarrow> bool" where
  "match re text =
     (case re of [] \<Rightarrow> match_from re text
      | r # rs \<Rightarrow> if r = CHR ''^'' then matchhere rs text else match_from re text)"

declare matchhere.simps(2) [simp del] matchstar.simps [simp del] match_from.simps [simp del]

section \<open>What a pattern means\<close>

datatype item = One char | Many char

fun items :: "string \<Rightarrow> item list" where
  "items [] = []"
| "items (r # re) =
     (if re \<noteq> [] \<and> hd re = CHR ''*'' then Many r # items (tl re)
      else if r = CHR ''$'' \<and> re = [] then []
      else One r # items re)"

fun to_end :: "string \<Rightarrow> bool" where
  "to_end [] = False"
| "to_end (r # re) =
     (if re \<noteq> [] \<and> hd re = CHR ''*'' then to_end (tl re)
      else (r = CHR ''$'' \<and> re = []) \<or> to_end re)"

definition sym :: "char \<Rightarrow> string set" where
  "sym c = {[x] | x. c = CHR ''.'' \<or> x = c}"

definition many :: "char \<Rightarrow> string set" where
  "many c = {xs. \<forall>x \<in> set xs. c = CHR ''.'' \<or> x = c}"

definition conc :: "string set \<Rightarrow> string set \<Rightarrow> string set" where
  "conc A B = {xs @ ys | xs ys. xs \<in> A \<and> ys \<in> B}"

primrec lang :: "item list \<Rightarrow> string set" where
  "lang [] = {[]}"
| "lang (i # is) = (case i of One c \<Rightarrow> conc (sym c) (lang is) | Many c \<Rightarrow> conc (many c) (lang is))"

text \<open>A prefix of the text, or all of it, is in the language.\<close>

definition prefix_in :: "string set \<Rightarrow> bool \<Rightarrow> string \<Rightarrow> bool" where
  "prefix_in A whole text \<longleftrightarrow> (\<exists>u v. text = u @ v \<and> u \<in> A \<and> (whole \<longrightarrow> v = []))"

lemma conc_sym: "xs \<in> conc (sym c) A \<longleftrightarrow> (\<exists>x ys. xs = x # ys \<and> (c = CHR ''.'' \<or> x = c) \<and> ys \<in> A)"
proof
  assume "\<exists>x ys. xs = x # ys \<and> (c = CHR ''.'' \<or> x = c) \<and> ys \<in> A"
  then obtain x ys where "xs = [x] @ ys" "[x] \<in> sym c" "ys \<in> A" by (auto simp: sym_def)
  then show "xs \<in> conc (sym c) A" unfolding conc_def by blast
qed (auto simp: conc_def sym_def)

lemma conc_many:
  "xs \<in> conc (many c) A \<longleftrightarrow>
     xs \<in> A \<or> (\<exists>x ys. xs = x # ys \<and> (x = c \<or> c = CHR ''.'') \<and> ys \<in> conc (many c) A)"
proof
  assume "xs \<in> conc (many c) A"
  then obtain us vs where xs: "xs = us @ vs" "us \<in> many c" "vs \<in> A" by (auto simp: conc_def)
  then show "xs \<in> A \<or> (\<exists>x ys. xs = x # ys \<and> (x = c \<or> c = CHR ''.'') \<and> ys \<in> conc (many c) A)"
    by (cases us) (auto simp: many_def conc_def)
next
  assume "xs \<in> A \<or> (\<exists>x ys. xs = x # ys \<and> (x = c \<or> c = CHR ''.'') \<and> ys \<in> conc (many c) A)"
  then show "xs \<in> conc (many c) A"
  proof
    assume "xs \<in> A"
    moreover have "[] \<in> many c" "xs = [] @ xs" by (simp_all add: many_def)
    ultimately show ?thesis unfolding conc_def by blast
  next
    assume "\<exists>x ys. xs = x # ys \<and> (x = c \<or> c = CHR ''.'') \<and> ys \<in> conc (many c) A"
    then obtain x us vs where "xs = (x # us) @ vs" "x # us \<in> many c" "vs \<in> A"
      by (auto simp: conc_def many_def)
    then show ?thesis unfolding conc_def by blast
  qed
qed

lemma prefix_in_sym:
  "prefix_in (conc (sym c) A) w t \<longleftrightarrow> (\<exists>x ts. t = x # ts \<and> (c = CHR ''.'' \<or> c = x) \<and> prefix_in A w ts)"
  (is "?l \<longleftrightarrow> ?r")
proof
  assume ?l
  then obtain u v where uv: "t = u @ v" "u \<in> conc (sym c) A" "w \<longrightarrow> v = []" by (auto simp: prefix_in_def)
  then obtain x ys where x: "u = x # ys" "c = CHR ''.'' \<or> x = c" "ys \<in> A" by (auto simp: conc_sym)
  then have "prefix_in A w (ys @ v)" using uv unfolding prefix_in_def by blast
  then show ?r using uv(1) x(1,2) by auto
next
  assume ?r
  then obtain x u v where "t = (x # u) @ v" "x # u \<in> conc (sym c) A" "w \<longrightarrow> v = []"
    by (auto simp: prefix_in_def conc_sym)
  then show ?l unfolding prefix_in_def by blast
qed

lemma prefix_in_many:
  "prefix_in (conc (many c) A) w t \<longleftrightarrow>
     prefix_in A w t \<or> (\<exists>x ts. t = x # ts \<and> (x = c \<or> c = CHR ''.'') \<and> prefix_in (conc (many c) A) w ts)"
  (is "?l \<longleftrightarrow> ?a \<or> ?r")
proof
  assume ?l
  then obtain u v where uv: "t = u @ v" "u \<in> conc (many c) A" "w \<longrightarrow> v = []" by (auto simp: prefix_in_def)
  from uv(2) [unfolded conc_many [of u]] show "?a \<or> ?r"
  proof
    assume "u \<in> A"
    then have ?a using uv(1,3) unfolding prefix_in_def by blast
    then show ?thesis ..
  next
    assume "\<exists>x ys. u = x # ys \<and> (x = c \<or> c = CHR ''.'') \<and> ys \<in> conc (many c) A"
    then obtain x ys where x: "u = x # ys" "x = c \<or> c = CHR ''.''" "ys \<in> conc (many c) A" by blast
    then have "prefix_in (conc (many c) A) w (ys @ v)" using uv(3) unfolding prefix_in_def by blast
    then have ?r using uv(1) x(1,2) by auto
    then show ?thesis ..
  qed
next
  assume "?a \<or> ?r"
  then show ?l
  proof
    assume ?a
    then show ?l unfolding prefix_in_def by (subst conc_many) blast
  next
    assume ?r
    then obtain x u v where "t = (x # u) @ v" "x = c \<or> c = CHR ''.''" "u \<in> conc (many c) A" "w \<longrightarrow> v = []"
      by (auto simp: prefix_in_def)
    moreover from this have "x # u \<in> conc (many c) A" by (subst conc_many) blast
    ultimately show ?l unfolding prefix_in_def by blast
  qed
qed

lemma matchhere_prefix:
  "matchhere re t = prefix_in (lang (items re)) (to_end re) t"
  "matchstar c re t = prefix_in (conc (many c) (lang (items re))) (to_end re) t"
proof (induction re t and c re t rule: matchhere_matchstar.induct)
  case (1 t)
  then show ?case by (simp add: prefix_in_def)
next
  case (2 r re t)
  show ?case
  proof (cases "re \<noteq> [] \<and> hd re = CHR ''*''")
    case True
    then show ?thesis using 2 by (simp add: matchhere.simps(2))
  next
    case star: False
    show ?thesis
    proof (cases "r = CHR ''$'' \<and> re = []")
      case True
      then show ?thesis by (simp add: matchhere.simps(2) prefix_in_def)
    next
      case False
      have "items (r # re) = One r # items re" "to_end (r # re) = to_end re"
        using star False by auto
      then show ?thesis
        using 2(2) [OF star False] star False
        by (cases t) (auto simp: matchhere.simps(2) prefix_in_sym simp del: items.simps to_end.simps)
    qed
  qed
next
  case (3 c re t)
  then show ?case
    by (subst prefix_in_many, subst matchstar.simps) (cases t; auto)
qed

lemma match_from_suffix: "match_from re text \<longleftrightarrow> (\<exists>a b. text = a @ b \<and> matchhere re b)"
proof (induction "text")
  case Nil
  then show ?case by (simp add: match_from.simps)
next
  case (Cons t ts)
  have "(\<exists>a b. t # ts = a @ b \<and> matchhere re b) \<longleftrightarrow> matchhere re (t # ts) \<or> (\<exists>a b. ts = a @ b \<and> matchhere re b)"
    by (auto simp: Cons_eq_append_conv)
  then show ?case using Cons by (simp add: match_from.simps [of re "t # ts"])
qed

text \<open>
  Claim C35. \<^verbatim>\<open>match\<close> of \<^verbatim>\<open>grep\<close> returns true exactly when the text has a substring in the language of the pattern:
  a \<^verbatim>\<open>*\<close> repeats the character before it, \<^verbatim>\<open>.\<close> stands for any character, a leading \<^verbatim>\<open>^\<close> ties the substring to the
  start of the text and a final \<^verbatim>\<open>$\<close> to its end.
\<close>

theorem match_is_language_search:
  "match re text \<longleftrightarrow>
     (let anchored = (re \<noteq> [] \<and> hd re = CHR ''^''); body = (if anchored then tl re else re)
      in \<exists>a u v. text = a @ u @ v \<and> u \<in> lang (items body) \<and> (anchored \<longrightarrow> a = []) \<and> (to_end body \<longrightarrow> v = []))"
proof (cases "re \<noteq> [] \<and> hd re = CHR ''^''")
  case True
  then obtain rs where "re = CHR ''^'' # rs" by (cases re) auto
  then show ?thesis by (simp add: match_def matchhere_prefix prefix_in_def)
next
  case False
  then have "match re text = match_from re text" by (cases re) (auto simp: match_def)
  with False show ?thesis by (simp add: match_from_suffix matchhere_prefix prefix_in_def) blast
qed

theorem match_is_language_search_witness:
  "match ''ab*c$'' ''xabbc'' \<and> (\<exists>a u. ''xabbc'' = a @ u \<and> u \<in> lang (items ''ab*c$''))
    \<and> \<not> match ''^b'' ''ab'' \<and> \<not> (\<exists>u v. ''ab'' = u @ v \<and> u \<in> lang (items ''b''))"
proof -
  have m: "match ''ab*c$'' ''xabbc''" "\<not> match ''^b'' ''ab''" by code_simp+
  have e: "to_end ''ab*c$''" "\<not> to_end ''b''" by code_simp+
  show ?thesis
    using m e match_is_language_search [of "''ab*c$''" "''xabbc''"] match_is_language_search [of "''^b''" "''ab''"]
    by (simp add: Let_def)
qed

section \<open>The line loop\<close>

text \<open>
  The inner loop of \<^verbatim>\<open>grep\<close> on the buffer from \<^verbatim>\<open>p\<close> on: the lines written, and what is left when no newline
  follows.
\<close>

lemma strchr_length: "strchr s c = Some q \<Longrightarrow> q \<noteq> [] \<and> length q \<le> length s"
  by (induction s c rule: strchr.induct) (auto split: if_splits)

function grep_lines :: "string \<Rightarrow> string \<Rightarrow> string list \<times> string" where
  "grep_lines pattern p =
     (case strchr p CHR ''\<newline>'' of
        None \<Rightarrow> ([], p)
      | Some q \<Rightarrow>
          (let line = take (length p - length q) p;
               (out, r) = grep_lines pattern (tl q)
           in ((if match pattern line then [line @ ''\<newline>''] else []) @ out, r)))"
  by pat_completeness auto
termination
proof (relation "measure (\<lambda>(pattern, p). length p)")
  fix pattern p q assume "strchr p CHR ''\<newline>'' = Some q"
  then have "q \<noteq> []" "length q \<le> length p" using strchr_length by auto
  then show "((pattern, tl q), (pattern, p)) \<in> measure (\<lambda>(pattern, p). length p)" by (cases q) auto
qed simp

declare grep_lines.simps [simp del]

text \<open>
  One pass of the outer loop on the buffer, \<open>carry\<close> (\<^verbatim>\<open>m\<close> bytes) followed by what was read. When no line was
  found, \<^verbatim>\<open>p == buf\<close>, the buffer is emptied.
\<close>

definition BUFSZ :: nat where "BUFSZ = 1024"

definition grep_pass :: "string \<Rightarrow> string \<Rightarrow> string list \<times> string" where
  "grep_pass pattern b =
     (let (out, p) = grep_lines pattern b
      in (out, if length p = length b then [] else p))"

text \<open>
  \<^verbatim>\<open>grep\<close>. The file offers at most \<open>k\<close> bytes in each call of \<^verbatim>\<open>read\<close>, for the \<open>k\<close> of a list; the loop ends when a
  read returns nothing.
\<close>

primrec grep :: "string \<Rightarrow> nat list \<Rightarrow> string \<Rightarrow> string \<Rightarrow> string list" where
  "grep pattern [] carry inp = []"
| "grep pattern (k # ks) carry inp =
     (let n = min k (BUFSZ - length carry - 1); chunk = take n inp
      in if chunk = [] then []
         else let (out, c) = grep_pass pattern (carry @ chunk)
              in out @ grep pattern ks c (drop n inp))"

text \<open>The lines of a text that end in a newline.\<close>

function whole_lines :: "string \<Rightarrow> string list" where
  "whole_lines t =
     (let r = dropWhile (\<lambda>c. c \<noteq> CHR ''\<newline>'') t
      in if r = [] then [] else takeWhile (\<lambda>c. c \<noteq> CHR ''\<newline>'') t # whole_lines (tl r))"
  by pat_completeness auto
termination
proof (relation "measure length")
  fix t r assume r: "r = dropWhile (\<lambda>c. c \<noteq> CHR ''\<newline>'') (t :: string)" "r \<noteq> []"
  then have "length r \<le> length t" by (simp add: length_dropWhile_le)
  then show "(tl r, t) \<in> measure length" using r(2) by (cases r) auto
qed simp

declare whole_lines.simps [simp del]

definition matching :: "string \<Rightarrow> string list \<Rightarrow> string list" where
  "matching pattern ls = map (\<lambda>l. l @ ''\<newline>'') (filter (match pattern) ls)"

definition unlines :: "string list \<Rightarrow> string" where
  "unlines ls = concat (map (\<lambda>l. l @ ''\<newline>'') ls)"

lemma matching_simps [simp]:
  "matching pattern [] = []"
  "matching pattern (l # ls) = (if match pattern l then [l @ ''\<newline>''] else []) @ matching pattern ls"
  "matching pattern (xs @ ys) = matching pattern xs @ matching pattern ys"
  by (simp_all add: matching_def)

lemma unlines_simps [simp]:
  "unlines [] = []" "unlines (l # ls) = l @ CHR ''\<newline>'' # unlines ls"
  by (simp_all add: unlines_def)

lemma whole_lines_none [simp]: "CHR ''\<newline>'' \<notin> set r \<Longrightarrow> whole_lines r = []"
  by (auto simp: whole_lines.simps [of r] Let_def)

lemma whole_lines_one [simp]:
  assumes "CHR ''\<newline>'' \<notin> set l"
  shows "whole_lines (l @ CHR ''\<newline>'' # t) = l # whole_lines t"
proof -
  have "\<And>x. x \<in> set l \<Longrightarrow> x \<noteq> CHR ''\<newline>''" using assms by auto
  then show ?thesis
    by (simp add: whole_lines.simps [of "l @ CHR ''\<newline>'' # t"] dropWhile_append2 takeWhile_append2)
qed

lemma whole_lines_unlines:
  "\<forall>l \<in> set ls. CHR ''\<newline>'' \<notin> set l \<Longrightarrow> whole_lines (unlines ls @ t) = ls @ whole_lines t"
  by (induction ls) auto

lemma strchr_newline:
  "CHR 0x00 \<notin> set p \<Longrightarrow> CHR ''\<newline>'' \<notin> set l \<Longrightarrow> p = l @ CHR ''\<newline>'' # t \<Longrightarrow>
    strchr p CHR ''\<newline>'' = Some (CHR ''\<newline>'' # t)"
  by (induction l arbitrary: p) auto

lemma strchr_none: "c \<notin> set p \<Longrightarrow> strchr p c = None"
  by (induction p) auto

lemma grep_lines_spec:
  assumes "CHR 0x00 \<notin> set p"
  shows "\<exists>ls r. p = unlines ls @ r \<and> (\<forall>l \<in> set ls. CHR ''\<newline>'' \<notin> set l) \<and> CHR ''\<newline>'' \<notin> set r
    \<and> grep_lines pattern p = (matching pattern ls, r)"
  using assms
proof (induction p rule: length_induct)
  case (1 p)
  show ?case
  proof (cases "CHR ''\<newline>'' \<in> set p")
    case False
    then show ?thesis
      by (intro exI [of _ "[]"] exI [of _ p]) (simp add: grep_lines.simps [of _ p] strchr_none)
  next
    case True
    then obtain l t where p: "p = l @ CHR ''\<newline>'' # t" "CHR ''\<newline>'' \<notin> set l"
      by (meson split_list_first)
    then obtain ls r where t: "t = unlines ls @ r" "\<forall>l \<in> set ls. CHR ''\<newline>'' \<notin> set l"
        "CHR ''\<newline>'' \<notin> set r" "grep_lines pattern t = (matching pattern ls, r)"
      using 1(1) [rule_format, of t] 1(2) by auto
    have "grep_lines pattern p = (matching pattern (l # ls), r)"
      by (subst grep_lines.simps, subst strchr_newline [OF 1(2) p(2,1)]) (simp add: p(1) t(4))
    then show ?thesis using p t
      by (intro exI [of _ "l # ls"] exI [of _ r]) simp
  qed
qed

text \<open>A text without whole lines but with one more newline has a first line that holds it all.\<close>

lemma no_short_line:
  assumes "CHR ''\<newline>'' \<notin> set b" "\<forall>l \<in> set (whole_lines (b @ t)). length l < length b"
  shows "CHR ''\<newline>'' \<notin> set t"
proof
  assume "CHR ''\<newline>'' \<in> set t"
  then obtain l u where t: "t = l @ CHR ''\<newline>'' # u" "CHR ''\<newline>'' \<notin> set l" by (meson split_list_first)
  have "whole_lines ((b @ l) @ CHR ''\<newline>'' # u) = (b @ l) # whole_lines u"
    using assms(1) t(2) by (intro whole_lines_one) simp
  then show False using assms(2) t(1) by simp
qed

lemma grep_loop_lines:
  assumes "CHR 0x00 \<notin> set (carry @ inp)" "CHR ''\<newline>'' \<notin> set carry" "length carry < BUFSZ - 1"
    "\<forall>l \<in> set (whole_lines (carry @ inp)). length l < BUFSZ - 1"
    "\<forall>k \<in> set ks. BUFSZ \<le> k" "length inp < length ks"
  shows "grep pattern ks carry inp = matching pattern (whole_lines (carry @ inp))"
  using assms
proof (induction ks arbitrary: carry inp)
  case (Cons k ks)
  define n where "n = BUFSZ - length carry - 1"
  have n: "min k n = n" "0 < n" using Cons.prems(3,5) by (auto simp: n_def)
  show ?case
  proof (cases "inp = []")
    case True
    then show ?thesis using Cons.prems by simp
  next
    case False
    let ?b = "carry @ take n inp" and ?t = "drop n inp"
    have chunk: "take n inp \<noteq> []" using False n by simp
    have split: "carry @ inp = ?b @ ?t" by simp
    have shorter: "length ?t < length ks" using Cons.prems(6) False n(2) by (cases inp) auto
    have nul: "CHR 0x00 \<notin> set ?b" "CHR 0x00 \<notin> set ?t"
      using Cons.prems(1) by (auto dest: in_set_takeD in_set_dropD)
    obtain ls r where ls: "?b = unlines ls @ r" "\<forall>l \<in> set ls. CHR ''\<newline>'' \<notin> set l"
        "CHR ''\<newline>'' \<notin> set r" "grep_lines pattern ?b = (matching pattern ls, r)"
      using grep_lines_spec [OF nul(1)] by blast
    have whole: "whole_lines (carry @ inp) = ls @ whole_lines (r @ ?t)"
      unfolding split ls(1) using whole_lines_unlines [OF ls(2)] by simp
    define c where "c = (if length r = length ?b then [] else r)"
    have run: "grep pattern (k # ks) carry inp = matching pattern ls @ grep pattern ks c ?t"
      unfolding grep.simps n_def [symmetric] n(1) Let_def grep_pass_def ls(4) c_def
      using chunk by (simp only: if_False split_conv)
    have rest: "whole_lines (c @ ?t) = whole_lines (r @ ?t)"
    proof (cases "length r = length ?b")
      case True
      then have r: "r = ?b" using ls(1) by auto
      show ?thesis
      proof (cases "?t = []")
        case True
        then show ?thesis using ls(3) by (simp add: c_def)
      next
        case False
        then have "length ?b = BUFSZ - 1" using Cons.prems(3) by (simp add: n_def)
        then have "CHR ''\<newline>'' \<notin> set ?t"
          using no_short_line [of ?b ?t] Cons.prems(4) ls(3) r unfolding split by auto
        then show ?thesis using True ls(3) by (simp add: c_def)
      qed
    qed (simp add: c_def)
    have "length r \<le> length ?b" using arg_cong [OF ls(1), of length] by simp
    moreover have "length ?b \<le> BUFSZ - 1" using Cons.prems(3) by (simp add: n_def)
    ultimately have "length c < BUFSZ - 1" using Cons.prems(3) by (auto simp: c_def)
    then have "grep pattern ks c ?t = matching pattern (whole_lines (c @ ?t))"
      using nul ls(1,3) Cons.prems(4,5) shorter unfolding whole rest [symmetric]
      by (intro Cons.IH) (auto simp: c_def)
    then show ?thesis using run rest whole by simp
  qed
qed simp

text \<open>
  Claim C36. On a regular file, where every call of \<^verbatim>\<open>read\<close> fills the buffer or reaches the end, \<^verbatim>\<open>grep\<close> writes
  exactly the newline-terminated lines that match, in order, provided the file holds no NUL and no line has
  1023 characters or more; a last line without a newline is not looked at.
\<close>

theorem grep_prints_matching_lines:
  assumes "CHR 0x00 \<notin> set inp" "\<forall>l \<in> set (whole_lines inp). length l < BUFSZ - 1"
    "\<forall>k \<in> set ks. BUFSZ \<le> k" "length inp < length ks"
  shows "grep pattern ks [] inp =
    map (\<lambda>l. l @ ''\<newline>'') (filter (match pattern) (whole_lines inp))"
  using grep_loop_lines [of "[]" inp ks pattern] assms by (simp add: BUFSZ_def matching_def)

theorem grep_prints_matching_lines_witness:
  "grep ''b*c$'' (replicate 9 1024) [] ''abc\<newline>de\<newline>f'' = [''abc\<newline>'']"
proof -
  have "whole_lines ''abc\<newline>de\<newline>f'' = [''abc'', ''de'']" by code_simp
  moreover have "filter (match ''b*c$'') [''abc'', ''de''] = [''abc'']" by code_simp
  ultimately show ?thesis
    using grep_prints_matching_lines [of "''abc\<newline>de\<newline>f''" "replicate 9 1024" "''b*c$''"]
    by (simp add: BUFSZ_def)
qed

text \<open>
  Bytes that arrive in a read without a newline are dropped when nothing is carried over: the rest of
  the input is then searched as if they had not been there, so that a line that arrives in pieces (from
  a pipe, or the console) is matched without its beginning.
\<close>

theorem grep_drops_partial_reads:
  assumes "0 < k" "k < BUFSZ" "CHR ''\<newline>'' \<notin> set (take k inp)" "inp \<noteq> []"
  shows "grep pattern (k # ks) [] inp = grep pattern ks [] (drop k inp)"
proof -
  have "min k (BUFSZ - 1) = k" using assms(2) by (simp add: min_def)
  then show ?thesis
    using assms by (simp add: grep_pass_def grep_lines.simps [of _ "take k inp"] strchr_none)
qed

theorem grep_drops_partial_reads_witness:
  "grep ''ab'' [1, 1, 1, 1] [] ''ab\<newline>'' = [] \<and> grep ''ab'' [1024, 1024] [] ''ab\<newline>'' = [''ab\<newline>'']"
proof -
  have "grep ''ab'' [1, 1, 1, 1] [] ''ab\<newline>'' = grep ''ab'' [1, 1, 1] [] ''b\<newline>''"
    using grep_drops_partial_reads [of 1 "''ab\<newline>''" "''ab''" "[1, 1, 1]"] by (simp add: BUFSZ_def)
  moreover have "grep ''ab'' [1, 1, 1] [] ''b\<newline>'' = []" by code_simp
  moreover have "grep ''ab'' [1024, 1024] [] ''ab\<newline>'' = [''ab\<newline>'']" by code_simp
  ultimately show ?thesis by simp
qed

end
