(* ===== verification/Spinlock.thy ===== *)
theory Spinlock
  imports Memory
begin

text \<open>
  Spin locks and sleep locks (\<^verbatim>\<open>xv6/spinlock.c\<close>, \<^verbatim>\<open>xv6/sleeplock.c\<close>, and \<^verbatim>\<open>mycpu\<close>, \<^verbatim>\<open>cpuid\<close>, \<^verbatim>\<open>myproc\<close> of
  \<^verbatim>\<open>xv6/proc.c\<close>). Every operation runs on a processor that is named by its local APIC id, the
  value \<^verbatim>\<open>lapicid()\<close> reads there; each processor has its own interrupt flag. The operations are cut
  where another processor can observe or change the lock word, and the cuts are interleaved freely
  by the step relation \<open>lstep\<close>.
\<close>

unbundle bit_operations_syntax

section \<open>State\<close>

record cpu =
  apicid :: u8
  ncli :: int
  intena :: bool
  cproc :: "nat option"

record spinlock =
  locked :: u32
  name :: string
  lcpu :: "nat option"
  pcs :: "u32 list"

text \<open>
  \<open>iflag a\<close> is \<^verbatim>\<open>FL_IF\<close> of the flags register of processor \<open>a\<close>; \<open>stack\<close> is the memory that
  \<^verbatim>\<open>getcallerpcs\<close> reads.
\<close>

record machine =
  ncpu :: nat
  cpus :: "cpu list"
  iflag :: "u8 \<Rightarrow> bool"
  lk :: "nat \<Rightarrow> spinlock"
  stack :: mem

section \<open>The processor and its interrupt flag\<close>

definition cli :: "u8 \<Rightarrow> 'a machine_scheme \<Rightarrow> 'a machine_scheme" where
  "cli a s = s\<lparr>iflag := (iflag s)(a := False)\<rparr>"

definition sti :: "u8 \<Rightarrow> 'a machine_scheme \<Rightarrow> 'a machine_scheme" where
  "sti a s = s\<lparr>iflag := (iflag s)(a := True)\<rparr>"

definition mycpu :: "u8 \<Rightarrow> 'a machine_scheme \<Rightarrow> nat res" where
  "mycpu a s =
     (if iflag s a then Inl (Panic (''mycpu called with interrupts enabled'' @ [CHR 0x0A]))
      else case List.find (\<lambda>i. apicid (cpus s ! i) = a) [0..<ncpu s] of
             Some i \<Rightarrow> Inr i
           | None \<Rightarrow> Inl (Panic (''unknown apicid'' @ [CHR 0x0A])))"

definition cpuid :: "u8 \<Rightarrow> 'a machine_scheme \<Rightarrow> nat res" where
  "cpuid a s = mycpu a s"

definition upd_cpu :: "nat \<Rightarrow> (cpu \<Rightarrow> cpu) \<Rightarrow> 'a machine_scheme \<Rightarrow> 'a machine_scheme" where
  "upd_cpu i f s = s\<lparr>cpus := (cpus s)[i := f (cpus s ! i)]\<rparr>"

definition pushcli :: "u8 \<Rightarrow> 'a machine_scheme \<Rightarrow> 'a machine_scheme res" where
  "pushcli a s =
     (let eflags = iflag s a; s = cli a s
      in bindE (mycpu a s) (\<lambda>i.
           let s = (if ncli (cpus s ! i) = 0 then upd_cpu i (\<lambda>c. c\<lparr>intena := eflags\<rparr>) s else s)
           in Inr (upd_cpu i (\<lambda>c. c\<lparr>ncli := ncli c + 1\<rparr>) s)))"

definition popcli :: "u8 \<Rightarrow> 'a machine_scheme \<Rightarrow> 'a machine_scheme res" where
  "popcli a s =
     (if iflag s a then Inl (Panic ''popcli - interruptible'')
      else bindE (mycpu a s) (\<lambda>i.
        let s = upd_cpu i (\<lambda>c. c\<lparr>ncli := ncli c - 1\<rparr>) s
        in if ncli (cpus s ! i) < 0 then Inl (Panic ''popcli'')
           else if ncli (cpus s ! i) = 0 \<and> intena (cpus s ! i) then Inr (sti a s)
           else Inr s))"

definition myproc :: "u8 \<Rightarrow> 'a machine_scheme \<Rightarrow> (nat option \<times> 'a machine_scheme) res" where
  "myproc a s =
     bindE (pushcli a s) (\<lambda>s.
     bindE (mycpu a s) (\<lambda>i.
       let p = cproc (cpus s ! i)
       in bindE (popcli a s) (\<lambda>s. Inr (p, s))))"

section \<open>Spin locks\<close>

definition initlock :: "nat \<Rightarrow> string \<Rightarrow> 'a machine_scheme \<Rightarrow> 'a machine_scheme" where
  "initlock l nm s =
     s\<lparr>lk := (lk s)(l := (lk s l)\<lparr>name := nm, locked := 0, lcpu := None\<rparr>)\<rparr>"

text \<open>
  The two loops of \<^verbatim>\<open>getcallerpcs\<close>: follow the frame pointers while they lie in the kernel, then
  fill up with zeros. \<open>n\<close> is the number of entries still to write.
\<close>

primrec callerpcs :: "mem \<Rightarrow> nat \<Rightarrow> u32 \<Rightarrow> u32 list" where
  "callerpcs m 0 ebp = []"
| "callerpcs m (Suc n) ebp =
     (if ebp = 0 \<or> ebp < 0x80000000 \<or> ebp = 0xffffffff then replicate (Suc n) 0
      else load32 m (ebp + 4) # callerpcs m n (load32 m ebp))"

definition getcallerpcs :: "mem \<Rightarrow> u32 \<Rightarrow> u32 list" where
  "getcallerpcs m v = callerpcs m 10 (v - 8)"

definition holding :: "u8 \<Rightarrow> nat \<Rightarrow> 'a machine_scheme \<Rightarrow> bool res" where
  "holding a l s =
     (if locked (lk s l) = 0 then Inr False
      else bindE (mycpu a s) (\<lambda>i. Inr (lcpu (lk s l) = Some i)))"

text \<open>\<^verbatim>\<open>acquire\<close> up to its loop.\<close>

definition acquire_enter :: "u8 \<Rightarrow> nat \<Rightarrow> 'a machine_scheme \<Rightarrow> 'a machine_scheme res" where
  "acquire_enter a l s =
     bindE (pushcli a s) (\<lambda>s.
     bindE (holding a l s) (\<lambda>h.
       if h then Inl (Panic ''acquire'') else Inr s))"

text \<open>The atomic exchange of the lock word: its old value and the new state.\<close>

definition xchg_locked :: "nat \<Rightarrow> u32 \<Rightarrow> 'a machine_scheme \<Rightarrow> u32 \<times> 'a machine_scheme" where
  "xchg_locked l v s = (locked (lk s l), s\<lparr>lk := (lk s)(l := (lk s l)\<lparr>locked := v\<rparr>)\<rparr>)"

text \<open>\<^verbatim>\<open>acquire\<close> after its loop; \<open>v\<close> is the address of its argument on the stack.\<close>

definition acquire_record :: "u8 \<Rightarrow> nat \<Rightarrow> u32 \<Rightarrow> 'a machine_scheme \<Rightarrow> 'a machine_scheme res" where
  "acquire_record a l v s =
     bindE (mycpu a s) (\<lambda>i.
       Inr (s\<lparr>lk := (lk s)(l := (lk s l)\<lparr>lcpu := Some i, pcs := getcallerpcs (stack s) v\<rparr>)\<rparr>))"

text \<open>
  The whole \<^verbatim>\<open>acquire\<close> when no other processor interferes; \<open>Sleeps\<close> stands for spinning on a lock
  that another processor holds.
\<close>

definition acquire :: "u8 \<Rightarrow> nat \<Rightarrow> u32 \<Rightarrow> 'a machine_scheme \<Rightarrow> 'a machine_scheme res" where
  "acquire a l v s =
     bindE (acquire_enter a l s) (\<lambda>s.
       let (old, s) = xchg_locked l 1 s
       in if old \<noteq> 0 then Inl (Sleeps ''spinning'') else acquire_record a l v s)"

text \<open>\<^verbatim>\<open>release\<close> up to the barrier, and from the barrier on.\<close>

definition release_clear :: "u8 \<Rightarrow> nat \<Rightarrow> 'a machine_scheme \<Rightarrow> 'a machine_scheme res" where
  "release_clear a l s =
     bindE (holding a l s) (\<lambda>h.
       if \<not> h then Inl (Panic ''release'')
       else Inr (s\<lparr>lk := (lk s)(l := (lk s l)\<lparr>pcs := (pcs (lk s l))[0 := 0], lcpu := None\<rparr>)\<rparr>))"

definition release_unlock :: "u8 \<Rightarrow> nat \<Rightarrow> 'a machine_scheme \<Rightarrow> 'a machine_scheme res" where
  "release_unlock a l s = popcli a (s\<lparr>lk := (lk s)(l := (lk s l)\<lparr>locked := 0\<rparr>)\<rparr>)"

definition release :: "u8 \<Rightarrow> nat \<Rightarrow> 'a machine_scheme \<Rightarrow> 'a machine_scheme res" where
  "release a l s = bindE (release_clear a l s) (release_unlock a l)"

section \<open>Processors running concurrently\<close>

text \<open>
  Where a processor is inside \<^verbatim>\<open>acquire\<close> or \<^verbatim>\<open>release\<close>: \<open>Spinning\<close> before a successful exchange, \<open>Won\<close>
  after it, \<open>Clearing\<close> between the two writes of \<^verbatim>\<open>release\<close>. \<open>held\<close> is the list of locks whose
  \<^verbatim>\<open>acquire\<close> has returned and whose \<^verbatim>\<open>release\<close> has not begun.
\<close>

datatype lpc = Running | Spinning nat | Won nat | Clearing nat

record lsys =
  mach :: machine
  lpc :: "u8 \<Rightarrow> lpc"
  held :: "u8 \<Rightarrow> nat list"

text \<open>
  Besides the lock operations a processor may ask for its process, turn interrupts off, or turn them
  on where the kernel does (\<^verbatim>\<open>scheduler\<close> and the return from a trap, with no lock held).
\<close>

inductive lstep :: "lsys \<Rightarrow> lsys \<Rightarrow> bool" where
  enter: "lpc x a = Running \<Longrightarrow> acquire_enter a l (mach x) = Inr m
    \<Longrightarrow> lstep x (x\<lparr>mach := m, lpc := (lpc x)(a := Spinning l)\<rparr>)"
| spin: "lpc x a = Spinning l \<Longrightarrow> xchg_locked l 1 (mach x) = (old, m)
    \<Longrightarrow> lstep x (x\<lparr>mach := m, lpc := (lpc x)(a := if old = 0 then Won l else Spinning l)\<rparr>)"
| record_owner: "lpc x a = Won l \<Longrightarrow> acquire_record a l v (mach x) = Inr m
    \<Longrightarrow> lstep x (x\<lparr>mach := m, lpc := (lpc x)(a := Running), held := (held x)(a := l # held x a)\<rparr>)"
| clear: "lpc x a = Running \<Longrightarrow> release_clear a l (mach x) = Inr m
    \<Longrightarrow> lstep x (x\<lparr>mach := m, lpc := (lpc x)(a := Clearing l),
          held := (held x)(a := remove1 l (held x a))\<rparr>)"
| unlock: "lpc x a = Clearing l \<Longrightarrow> release_unlock a l (mach x) = Inr m
    \<Longrightarrow> lstep x (x\<lparr>mach := m, lpc := (lpc x)(a := Running)\<rparr>)"
| myproc: "lpc x a = Running \<Longrightarrow> myproc a (mach x) = Inr (p, m)
    \<Longrightarrow> lstep x (x\<lparr>mach := m\<rparr>)"
| disable: "lpc x a = Running \<Longrightarrow> lstep x (x\<lparr>mach := cli a (mach x)\<rparr>)"
| enable: "lpc x a = Running \<Longrightarrow> held x a = [] \<Longrightarrow> lstep x (x\<lparr>mach := sti a (mach x)\<rparr>)"

text \<open>Start: every processor known by a distinct id, no lock taken, no \<^verbatim>\<open>pushcli\<close> pending.\<close>

definition cpus_ok :: "'a machine_scheme \<Rightarrow> bool" where
  "cpus_ok m \<longleftrightarrow> ncpu m \<le> length (cpus m) \<and> distinct (map apicid (take (ncpu m) (cpus m)))"

definition lsys_boot :: "lsys \<Rightarrow> bool" where
  "lsys_boot x \<longleftrightarrow> cpus_ok (mach x) \<and> (\<forall>i < ncpu (mach x). ncli (cpus (mach x) ! i) = 0)
     \<and> (\<forall>l. locked (lk (mach x) l) = 0 \<and> lcpu (lk (mach x) l) = None)
     \<and> (\<forall>a. lpc x a = Running \<and> held x a = [])"

definition lreachable :: "lsys \<Rightarrow> bool" where
  "lreachable x \<longleftrightarrow> (\<exists>x0. lsys_boot x0 \<and> lstep\<^sup>*\<^sup>* x0 x)"

section \<open>What the operations do on a known processor\<close>

lemma cpus_ok_inj:
  assumes "cpus_ok m" "i < ncpu m" "j < ncpu m" "apicid (cpus m ! i) = apicid (cpus m ! j)"
  shows "i = j"
proof -
  have "i < length (take (ncpu m) (cpus m))" "j < length (take (ncpu m) (cpus m))"
    using assms by (auto simp: cpus_ok_def)
  then show ?thesis
    using assms nth_eq_iff_index_eq [of "map apicid (take (ncpu m) (cpus m))" i j]
    by (simp add: cpus_ok_def)
qed

lemma mycpu_known:
  assumes "cpus_ok m" "i < ncpu m" "apicid (cpus m ! i) = a" "\<not> iflag m a"
  shows "mycpu a m = Inr i"
proof -
  have "List.find (\<lambda>i. apicid (cpus m ! i) = a) [0..<ncpu m] = Some i"
    using assms cpus_ok_inj [OF assms(1)] less_trans unfolding find_index_Some by blast
  then show ?thesis using assms by (simp add: mycpu_def)
qed

lemma mycpu_InrD: "mycpu a m = Inr i \<Longrightarrow> i < ncpu m \<and> apicid (cpus m ! i) = a \<and> \<not> iflag m a"
  by (auto simp: mycpu_def find_index_Some split: if_splits option.splits)

lemma mycpu_only_reads:
  "mycpu a (m\<lparr>lk := y\<rparr>) = mycpu a m" "mycpu a (cli b m) = (if b = a then mycpu a (cli a m) else mycpu a m)"
  by (auto simp: mycpu_def cli_def)

definition cpu_pushed :: "bool \<Rightarrow> cpu \<Rightarrow> cpu" where
  "cpu_pushed f c = c\<lparr>intena := (if ncli c = 0 then f else intena c), ncli := ncli c + 1\<rparr>"

lemma upd_cpu_known:
  assumes "cpus_ok m" "i < ncpu m"
  shows "cpus (upd_cpu i f m) ! j = (if j = i then f (cpus m ! i) else cpus m ! j)"
    "(\<And>c. apicid (f c) = apicid c) \<Longrightarrow> cpus_ok (upd_cpu i f m)"
proof -
  have i: "i < length (cpus m)" using assms by (simp add: cpus_ok_def)
  then show "cpus (upd_cpu i f m) ! j = (if j = i then f (cpus m ! i) else cpus m ! j)"
    by (simp add: upd_cpu_def nth_list_update)
  assume f: "\<And>c. apicid (f c) = apicid c"
  have "map apicid ((cpus m)[i := f (cpus m ! i)]) = map apicid (cpus m)"
    using i by (simp add: map_update f list_update_same_conv)
  then show "cpus_ok (upd_cpu i f m)"
    using assms(1) by (simp add: cpus_ok_def upd_cpu_def take_map [symmetric])
qed

lemma upd_cpu_sel [simp]:
  "ncpu (upd_cpu i f m) = ncpu m" "iflag (upd_cpu i f m) = iflag m" "lk (upd_cpu i f m) = lk m"
  "ncpu (cli a m) = ncpu m" "cpus (cli a m) = cpus m" "lk (cli a m) = lk m"
  "iflag (cli a m) = (iflag m)(a := False)"
  "ncpu (sti a m) = ncpu m" "cpus (sti a m) = cpus m" "lk (sti a m) = lk m"
  "iflag (sti a m) = (iflag m)(a := True)"
  "cpus_ok (cli a m) = cpus_ok m" "cpus_ok (sti a m) = cpus_ok m"
  by (simp_all add: upd_cpu_def cli_def sti_def cpus_ok_def)

lemma pushcli_known:
  assumes "cpus_ok m" "i < ncpu m" "apicid (cpus m ! i) = a"
  shows "pushcli a m = Inr (upd_cpu i (cpu_pushed (iflag m a)) (cli a m))"
proof -
  have "mycpu a (cli a m) = Inr i" using assms by (intro mycpu_known) auto
  moreover have "i < length (cpus m)" using assms by (simp add: cpus_ok_def)
  ultimately show ?thesis
    by (auto simp: pushcli_def Let_def upd_cpu_def cli_def cpu_pushed_def)
qed

lemma pushcli_InrD: "pushcli a m = Inr m' \<Longrightarrow> \<exists>i < ncpu m. apicid (cpus m ! i) = a"
  by (auto simp: pushcli_def Let_def bindE_eq_Inr_iff dest!: mycpu_InrD)

definition cpu_popped :: "cpu \<Rightarrow> cpu" where
  "cpu_popped c = c\<lparr>ncli := ncli c - 1\<rparr>"

lemma popcli_known:
  assumes "cpus_ok m" "i < ncpu m" "apicid (cpus m ! i) = a" "\<not> iflag m a" "0 < ncli (cpus m ! i)"
  shows "popcli a m =
    (if ncli (cpus m ! i) = 1 \<and> intena (cpus m ! i) then Inr (sti a (upd_cpu i cpu_popped m))
     else Inr (upd_cpu i cpu_popped m))"
proof -
  have "mycpu a m = Inr i" using assms by (intro mycpu_known) auto
  moreover have "i < length (cpus m)" using assms by (simp add: cpus_ok_def)
  ultimately show ?thesis
    using assms by (auto simp: popcli_def Let_def upd_cpu_def cpu_popped_def)
qed

lemma popcli_InrD: "popcli a m = Inr m' \<Longrightarrow> \<exists>i < ncpu m. apicid (cpus m ! i) = a \<and> \<not> iflag m a"
  by (auto simp: popcli_def Let_def bindE_eq_Inr_iff split: if_splits dest!: mycpu_InrD)

lemma pushed_sel [simp]:
  "apicid (cpu_pushed f c) = apicid c" "ncli (cpu_pushed f c) = ncli c + 1"
  "intena (cpu_pushed f c) = (if ncli c = 0 then f else intena c)" "cproc (cpu_pushed f c) = cproc c"
  "apicid (cpu_popped c) = apicid c" "ncli (cpu_popped c) = ncli c - 1"
  "intena (cpu_popped c) = intena c" "cproc (cpu_popped c) = cproc c"
  by (simp_all add: cpu_pushed_def cpu_popped_def)

section \<open>The invariant\<close>

definition claims :: "lsys \<Rightarrow> u8 \<Rightarrow> nat set" where
  "claims x a = set (held x a) \<union> (case lpc x a of Won l \<Rightarrow> {l} | Clearing l \<Rightarrow> {l} | _ \<Rightarrow> {})"

definition cli_inv :: "lsys \<Rightarrow> bool" where
  "cli_inv x \<longleftrightarrow> (\<forall>i < ncpu (mach x). let a = apicid (cpus (mach x) ! i); n = ncli (cpus (mach x) ! i)
     in n = int (length (held x a)) + (if lpc x a = Running then 0 else 1)
        \<and> (0 < n \<longrightarrow> \<not> iflag (mach x) a))"

definition offline_inv :: "lsys \<Rightarrow> bool" where
  "offline_inv x \<longleftrightarrow> (\<forall>a. (\<forall>i < ncpu (mach x). apicid (cpus (mach x) ! i) \<noteq> a)
     \<longrightarrow> lpc x a = Running \<and> held x a = [])"

definition owner_inv :: "lsys \<Rightarrow> bool" where
  "owner_inv x \<longleftrightarrow> (\<forall>l i. lcpu (lk (mach x) l) = Some i \<longleftrightarrow>
     i < ncpu (mach x) \<and> l \<in> set (held x (apicid (cpus (mach x) ! i))))"

definition word_inv :: "lsys \<Rightarrow> bool" where
  "word_inv x \<longleftrightarrow> (\<forall>l. locked (lk (mach x) l) = 0 \<longleftrightarrow> (\<forall>a. l \<notin> claims x a))"

definition excl_inv :: "lsys \<Rightarrow> bool" where
  "excl_inv x \<longleftrightarrow> (\<forall>a b l. l \<in> claims x a \<and> l \<in> claims x b \<longrightarrow> a = b)
     \<and> (\<forall>a. distinct (held x a)) \<and> (\<forall>a l. lpc x a = Won l \<or> lpc x a = Clearing l \<longrightarrow> l \<notin> set (held x a))"

definition linv :: "lsys \<Rightarrow> bool" where
  "linv x \<longleftrightarrow> cpus_ok (mach x) \<and> cli_inv x \<and> offline_inv x \<and> owner_inv x \<and> word_inv x \<and> excl_inv x"

lemma linv_boot: "lsys_boot x \<Longrightarrow> linv x"
  by (auto simp: lsys_boot_def linv_def cli_inv_def offline_inv_def owner_inv_def word_inv_def
      excl_inv_def claims_def Let_def)

lemma linv_apic_unique:
  assumes "linv x" "i < ncpu (mach x)" "j < ncpu (mach x)"
  shows "apicid (cpus (mach x) ! i) = apicid (cpus (mach x) ! j) \<longleftrightarrow> i = j"
  using assms cpus_ok_inj [of "mach x" i j] by (auto simp: linv_def)

lemma acquire_enter_InrD:
  assumes "cpus_ok m" "acquire_enter a l m = Inr m'"
  shows "\<exists>i < ncpu m. apicid (cpus m ! i) = a \<and> m' = upd_cpu i (cpu_pushed (iflag m a)) (cli a m)
    \<and> (locked (lk m l) = 0 \<or> lcpu (lk m l) \<noteq> Some i)"
proof -
  obtain i where i: "i < ncpu m" "apicid (cpus m ! i) = a"
    using assms(2) pushcli_InrD [of a m] by (auto simp: acquire_enter_def bindE_eq_Inr_iff)
  define m1 where "m1 = upd_cpu i (cpu_pushed (iflag m a)) (cli a m)"
  have "cpus_ok m1" unfolding m1_def
    by (rule upd_cpu_known) (use assms i in auto)
  moreover have "apicid (cpus m1 ! i) = a"
    using assms i by (simp add: m1_def upd_cpu_known)
  ultimately have "mycpu a m1 = Inr i"
    using i by (intro mycpu_known) (auto simp: m1_def)
  then show ?thesis
    using assms(2) i pushcli_known [OF assms(1) i]
    by (auto simp: acquire_enter_def holding_def m1_def [symmetric] split: if_splits)
      (auto simp: m1_def)
qed

lemma acquire_record_InrD:
  "acquire_record a l v m = Inr m' \<Longrightarrow> \<exists>i < ncpu m. apicid (cpus m ! i) = a
    \<and> m' = m\<lparr>lk := (lk m)(l := (lk m l)\<lparr>lcpu := Some i, pcs := getcallerpcs (stack m) v\<rparr>)\<rparr>"
  by (auto simp: acquire_record_def bindE_eq_Inr_iff dest!: mycpu_InrD)

lemma release_clear_InrD:
  "release_clear a l m = Inr m' \<Longrightarrow> \<exists>i < ncpu m. apicid (cpus m ! i) = a
    \<and> locked (lk m l) \<noteq> 0 \<and> lcpu (lk m l) = Some i
    \<and> m' = m\<lparr>lk := (lk m)(l := (lk m l)\<lparr>pcs := (pcs (lk m l))[0 := 0], lcpu := None\<rparr>)\<rparr>"
  by (auto simp: release_clear_def holding_def bindE_eq_Inr_iff split: if_splits dest!: mycpu_InrD)

lemma linv_enter:
  assumes "linv x" "lpc x a = Running" "acquire_enter a l (mach x) = Inr m"
  shows "linv (x\<lparr>mach := m, lpc := (lpc x)(a := Spinning l)\<rparr>)" (is "linv ?y")
proof -
  have ok: "cpus_ok (mach x)" using assms(1) by (simp add: linv_def)
  obtain i where i: "i < ncpu (mach x)" "apicid (cpus (mach x) ! i) = a"
    "m = upd_cpu i (cpu_pushed (iflag (mach x) a)) (cli a (mach x))"
    using acquire_enter_InrD [OF ok assms(3)] by auto
  have n: "cpus m ! j = (if j = i then cpu_pushed (iflag (mach x) a) (cpus (mach x) ! i) else cpus (mach x) ! j)"
    for j using ok i by (simp add: upd_cpu_known)
  have ap: "apicid (cpus m ! j) = apicid (cpus (mach x) ! j)" for j by (simp add: n)
  have s: "ncpu m = ncpu (mach x)" "lk m = lk (mach x)" "iflag m = (iflag (mach x))(a := False)"
    by (simp_all add: i)
  have c: "claims ?y b = claims x b" for b using assms(2) by (auto simp: claims_def)
  have "cpus_ok m" using ok i(1) unfolding i(3) by (intro upd_cpu_known) auto
  moreover have "cli_inv ?y"
    using assms(1,2) i(1,2) linv_apic_unique [OF assms(1)]
    unfolding linv_def cli_inv_def Let_def
    by (auto simp: s n ap)
  moreover have "offline_inv ?y"
    using assms(1) i(1,2) by (auto simp: linv_def offline_inv_def s ap)
  moreover have "owner_inv ?y" using assms(1) by (auto simp: linv_def owner_inv_def s ap)
  moreover have "word_inv ?y" using assms(1) by (auto simp: linv_def word_inv_def s c)
  moreover have "excl_inv ?y" using assms(1) by (auto simp: linv_def excl_inv_def c)
  ultimately show ?thesis by (simp add: linv_def)
qed

lemma linv_spin:
  assumes "linv x" "lpc x a = Spinning l" "xchg_locked l 1 (mach x) = (old, m)"
  shows "linv (x\<lparr>mach := m, lpc := (lpc x)(a := if old = 0 then Won l else Spinning l)\<rparr>)"
    (is "linv ?y")
proof -
  have m: "old = locked (lk (mach x) l)"
    "m = (mach x)\<lparr>lk := (lk (mach x))(l := (lk (mach x) l)\<lparr>locked := 1\<rparr>)\<rparr>"
    using assms(3) by (auto simp: xchg_locked_def)
  have c: "claims ?y b = (if b = a \<and> old = 0 then insert l (claims x b) else claims x b)" for b
    using assms(2) by (auto simp: claims_def)
  have w: "old = 0 \<longleftrightarrow> (\<forall>b. l \<notin> claims x b)" using assms(1) by (simp add: m linv_def word_inv_def)
  have "cpus_ok m" using assms(1) by (simp add: linv_def m cpus_ok_def)
  moreover have "cli_inv ?y"
    using assms(1,2) by (auto simp: linv_def cli_inv_def Let_def m)
  moreover have "offline_inv ?y"
    using assms(1,2) by (auto simp: linv_def offline_inv_def m)
  moreover have "owner_inv ?y" using assms(1) by (auto simp: linv_def owner_inv_def m)
  moreover have "word_inv ?y"
    using assms(1) w unfolding linv_def word_inv_def c by (auto simp: m)
  moreover have "excl_inv ?y"
  proof -
    have ex: "b1 = b2" if "k \<in> claims x b1" "k \<in> claims x b2" for b1 b2 k
      using assms(1) that unfolding linv_def excl_inv_def by blast
    have "b1 = b2" if "k \<in> claims ?y b1" "k \<in> claims ?y b2" for b1 b2 k
      using that w ex [of k b1 b2] unfolding c by (auto split: if_splits)
    moreover have "l \<notin> set (held x a)" if "old = 0" using w that by (auto simp: claims_def)
    ultimately show ?thesis
      using assms(1) unfolding linv_def excl_inv_def by auto
  qed
  ultimately show ?thesis by (simp add: linv_def)
qed

lemma linv_record:
  assumes "linv x" "lpc x a = Won l" "acquire_record a l v (mach x) = Inr m"
  shows "linv (x\<lparr>mach := m, lpc := (lpc x)(a := Running), held := (held x)(a := l # held x a)\<rparr>)"
    (is "linv ?y")
proof -
  obtain i where i: "i < ncpu (mach x)" "apicid (cpus (mach x) ! i) = a"
    and m: "m = (mach x)\<lparr>lk := (lk (mach x))(l := (lk (mach x) l)\<lparr>lcpu := Some i,
      pcs := getcallerpcs (stack (mach x)) v\<rparr>)\<rparr>"
    using acquire_record_InrD [OF assms(3)] by auto
  have c: "claims ?y b = claims x b" for b using assms(2) by (auto simp: claims_def)
  have notheld: "l \<notin> set (held x b)" for b
  proof
    assume "l \<in> set (held x b)"
    moreover have "l \<in> claims x a" using assms(2) by (simp add: claims_def)
    ultimately have "b = a" using assms(1) by (auto simp: linv_def excl_inv_def claims_def)
    then show False using assms \<open>l \<in> set (held x b)\<close> by (auto simp: linv_def excl_inv_def)
  qed
  have "cpus_ok m" using assms(1) by (simp add: linv_def m cpus_ok_def)
  moreover have "cli_inv ?y"
    using assms(1,2) by (auto simp: linv_def cli_inv_def Let_def m)
  moreover have "offline_inv ?y"
    using assms(1) i by (auto simp: linv_def offline_inv_def m)
  moreover have "owner_inv ?y"
    using assms(1) i notheld linv_apic_unique [OF assms(1)]
    unfolding linv_def owner_inv_def by (auto simp: m)
  moreover have "word_inv ?y" using assms(1) unfolding linv_def word_inv_def c by (auto simp: m)
  moreover have "excl_inv ?y"
    using assms(1) notheld unfolding linv_def excl_inv_def c by auto
  ultimately show ?thesis by (simp add: linv_def)
qed

lemma linv_clear:
  assumes "linv x" "lpc x a = Running" "release_clear a l (mach x) = Inr m"
  shows "linv (x\<lparr>mach := m, lpc := (lpc x)(a := Clearing l),
          held := (held x)(a := remove1 l (held x a))\<rparr>)"
    (is "linv ?y")
proof -
  obtain i where i: "i < ncpu (mach x)" "apicid (cpus (mach x) ! i) = a"
      "lcpu (lk (mach x) l) = Some i"
    and m: "m = (mach x)\<lparr>lk := (lk (mach x))(l := (lk (mach x) l)\<lparr>pcs := (pcs (lk (mach x) l))[0 := 0], lcpu := None\<rparr>)\<rparr>"
    using release_clear_InrD [OF assms(3)] by auto
  have h: "l \<in> set (held x a)" "distinct (held x b)" for b
    using assms(1) i by (auto simp: linv_def owner_inv_def excl_inv_def)
  have others: "l \<in> set (held x b) \<Longrightarrow> b = a" for b
    using assms(1) h(1) unfolding linv_def excl_inv_def claims_def by blast
  have c: "claims ?y b = claims x b" for b using assms(2) h by (auto simp: claims_def)
  have n: "length (held x a) = Suc (length (remove1 l (held x a)))"
    using h(1) length_pos_if_in_set [OF h(1)] by (simp add: length_remove1)
  have "cpus_ok m" using assms(1) by (simp add: linv_def m cpus_ok_def)
  moreover have "cli_inv ?y"
    using assms(1,2) n by (auto simp: linv_def cli_inv_def Let_def m)
  moreover have "offline_inv ?y"
    using assms(1) i by (auto simp: linv_def offline_inv_def m)
  moreover have "owner_inv ?y"
    unfolding owner_inv_def
  proof (intro allI)
    fix k j
    have old: "lcpu (lk (mach x) k) = Some j \<longleftrightarrow>
        j < ncpu (mach x) \<and> k \<in> set (held x (apicid (cpus (mach x) ! j)))"
      using assms(1) by (auto simp: linv_def owner_inv_def)
    show "lcpu (lk (mach ?y) k) = Some j \<longleftrightarrow>
        j < ncpu (mach ?y) \<and> k \<in> set (held ?y (apicid (cpus (mach ?y) ! j)))"
      using old h(2) others by (cases "k = l") (auto simp: m)
  qed
  moreover have "word_inv ?y" using assms(1) unfolding linv_def word_inv_def c by (auto simp: m)
  moreover have "excl_inv ?y"
    using assms(1,2) h unfolding linv_def excl_inv_def c by auto
  ultimately show ?thesis by (simp add: linv_def)
qed

text \<open>What the end of a \<^verbatim>\<open>release\<close> does to the machine: the lock word is cleared, and the
  processor's nesting depth falls by one, with interrupts back on at depth zero.\<close>

lemma unlock_machine:
  assumes "linv x" "lpc x a = Clearing l" "release_unlock a l (mach x) = Inr m"
  obtains i where "i < ncpu (mach x)" "apicid (cpus (mach x) ! i) = a"
    "ncli (cpus (mach x) ! i) = int (length (held x a)) + 1"
    "cpus_ok m" "ncpu m = ncpu (mach x)" "lk m = (lk (mach x))(l := (lk (mach x) l)\<lparr>locked := 0\<rparr>)"
    "\<And>j. cpus m ! j = (if j = i then cpu_popped (cpus (mach x) ! i) else cpus (mach x) ! j)"
    "\<And>b. b \<noteq> a \<Longrightarrow> iflag m b = iflag (mach x) b" "held x a \<noteq> [] \<Longrightarrow> \<not> iflag m a"
proof -
  define m1 where "m1 = (mach x)\<lparr>lk := (lk (mach x))(l := (lk (mach x) l)\<lparr>locked := 0\<rparr>)\<rparr>"
  have p: "popcli a m1 = Inr m" using assms(3) by (simp add: release_unlock_def m1_def)
  have m1: "cpus m1 = cpus (mach x)" "ncpu m1 = ncpu (mach x)" "iflag m1 = iflag (mach x)"
    "lk m1 = (lk (mach x))(l := (lk (mach x) l)\<lparr>locked := 0\<rparr>)"
    by (simp_all add: m1_def)
  have ok: "cpus_ok m1" using assms(1) by (simp add: linv_def m1_def cpus_ok_def)
  obtain i where i: "i < ncpu m1" "apicid (cpus m1 ! i) = a" "\<not> iflag m1 a"
    using popcli_InrD [OF p] by auto
  have n: "ncli (cpus m1 ! i) = int (length (held x a)) + 1"
    using assms(1,2) i(1,2) by (auto simp: linv_def cli_inv_def Let_def m1)
  define m2 where "m2 = upd_cpu i cpu_popped m1"
  have m: "m = (if ncli (cpus m1 ! i) = 1 \<and> intena (cpus m1 ! i) then sti a m2 else m2)"
    using popcli_known [OF ok i] n p by (auto simp: m2_def split: if_splits)
  have "cpus_ok m2" unfolding m2_def by (rule upd_cpu_known) (use ok i in auto)
  then have "cpus_ok m" by (simp add: m)
  moreover have "cpus m ! j = (if j = i then cpu_popped (cpus (mach x) ! i) else cpus (mach x) ! j)" for j
    using ok i(1) by (simp add: m m2_def upd_cpu_known m1)
  moreover have "b \<noteq> a \<Longrightarrow> iflag m b = iflag (mach x) b" "held x a \<noteq> [] \<Longrightarrow> \<not> iflag m a" for b
    using n i by (auto simp: m m2_def m1)
  ultimately show thesis using i n by (intro that) (simp_all add: m m2_def m1)
qed

lemma linv_unlock:
  assumes "linv x" "lpc x a = Clearing l" "release_unlock a l (mach x) = Inr m"
  shows "linv (x\<lparr>mach := m, lpc := (lpc x)(a := Running)\<rparr>)" (is "linv ?y")
proof -
  obtain i where i: "i < ncpu (mach x)" "apicid (cpus (mach x) ! i) = a"
    and n: "ncli (cpus (mach x) ! i) = int (length (held x a)) + 1" and ok: "cpus_ok m"
    and s: "ncpu m = ncpu (mach x)" "lk m = (lk (mach x))(l := (lk (mach x) l)\<lparr>locked := 0\<rparr>)"
    and cn: "\<And>j. cpus m ! j = (if j = i then cpu_popped (cpus (mach x) ! i) else cpus (mach x) ! j)"
    and f: "\<And>b. b \<noteq> a \<Longrightarrow> iflag m b = iflag (mach x) b" "held x a \<noteq> [] \<Longrightarrow> \<not> iflag m a"
    by (rule unlock_machine [OF assms]) blast
  have ap: "apicid (cpus m ! j) = apicid (cpus (mach x) ! j)" for j by (simp add: cn)
  have cl: "claims ?y b = (if b = a then claims x a - {l} else claims x b)" for b
    using assms(1,2) by (auto simp: claims_def linv_def excl_inv_def)
  have la: "l \<in> claims x a" using assms(2) by (simp add: claims_def)
  have lb: "l \<in> claims x b \<Longrightarrow> b = a" for b
    using assms(1) la unfolding linv_def excl_inv_def by blast
  have "cli_inv ?y"
    unfolding cli_inv_def Let_def
  proof (intro allI impI)
    fix j assume "j < ncpu (mach ?y)"
    then have j: "j < ncpu (mach x)" by (simp add: s)
    then have "apicid (cpus (mach x) ! j) = a \<longleftrightarrow> j = i"
      using linv_apic_unique [OF assms(1), of j i] i by simp
    moreover have "ncli (cpus (mach x) ! j) = int (length (held x (apicid (cpus (mach x) ! j))))
        + (if lpc x (apicid (cpus (mach x) ! j)) = Running then 0 else 1)"
      "0 < ncli (cpus (mach x) ! j) \<longrightarrow> \<not> iflag (mach x) (apicid (cpus (mach x) ! j))"
      using assms(1) j by (auto simp: linv_def cli_inv_def Let_def)
    ultimately show "ncli (cpus (mach ?y) ! j) = int (length (held ?y (apicid (cpus (mach ?y) ! j))))
          + (if lpc ?y (apicid (cpus (mach ?y) ! j)) = Running then 0 else 1) \<and>
        (0 < ncli (cpus (mach ?y) ! j) \<longrightarrow> \<not> iflag (mach ?y) (apicid (cpus (mach ?y) ! j)))"
      using n f i by (cases "j = i") (auto simp: cn)
  qed
  moreover have "offline_inv ?y" "owner_inv ?y"
    using assms(1) by (auto simp: linv_def offline_inv_def owner_inv_def s ap)
  moreover have "word_inv ?y" using assms(1) lb by (auto simp: linv_def word_inv_def s cl)
  moreover have "excl_inv ?y"
    using assms(1) unfolding linv_def excl_inv_def cl by auto
  ultimately show ?thesis using ok by (simp add: linv_def)
qed

text \<open>\<^verbatim>\<open>myproc\<close> leaves everything but the saved \<^verbatim>\<open>intena\<close> as it was.\<close>

lemma myproc_InrD:
  assumes "cpus_ok m" "myproc a m = Inr (p, m')"
    "\<And>i. i < ncpu m \<Longrightarrow> 0 \<le> ncli (cpus m ! i) \<and> (0 < ncli (cpus m ! i) \<longrightarrow> \<not> iflag m (apicid (cpus m ! i)))"
  shows "cpus_ok m'" "ncpu m' = ncpu m" "lk m' = lk m" "iflag m' = iflag m"
    "\<And>j. apicid (cpus m' ! j) = apicid (cpus m ! j)" "\<And>j. ncli (cpus m' ! j) = ncli (cpus m ! j)"
    "\<exists>i < ncpu m. apicid (cpus m ! i) = a \<and> p = cproc (cpus m ! i)"
proof -
  obtain i where i: "i < ncpu m" "apicid (cpus m ! i) = a"
    using assms(2) pushcli_InrD [of a m] by (auto simp: myproc_def bindE_eq_Inr_iff)
  define m1 where "m1 = upd_cpu i (cpu_pushed (iflag m a)) (cli a m)"
  have ok: "cpus_ok m1" unfolding m1_def by (rule upd_cpu_known) (use assms(1) i in auto)
  have n: "cpus m1 ! j = (if j = i then cpu_pushed (iflag m a) (cpus m ! i) else cpus m ! j)" for j
    using assms(1) i by (simp add: m1_def upd_cpu_known)
  have i1: "i < ncpu m1" "apicid (cpus m1 ! i) = a" "\<not> iflag m1 a"
    using i by (simp_all add: n) (simp_all add: m1_def)
  define m2 where "m2 = upd_cpu i cpu_popped m1"
  have n2: "cpus m2 ! j = (if j = i then cpu_popped (cpus m1 ! i) else cpus m1 ! j)" for j
    using ok i1 by (simp add: m2_def upd_cpu_known)
  have nn: "0 \<le> ncli (cpus m ! i)" "0 < ncli (cpus m ! i) \<Longrightarrow> \<not> iflag m a"
    using assms(3) [OF i(1)] i(2) by auto
  have res: "p = cproc (cpus m1 ! i)"
    "m' = (if ncli (cpus m ! i) = 0 \<and> iflag m a then sti a m2 else m2)"
    using assms(2) pushcli_known [OF assms(1) i] mycpu_known [OF ok i1] popcli_known [OF ok i1] nn
    by (auto simp: myproc_def m1_def [symmetric] m2_def [symmetric] n split: if_splits)
  have "cpus_ok m2" unfolding m2_def by (rule upd_cpu_known) (use ok i1 in auto)
  then show "cpus_ok m'" by (simp add: res)
  show "ncpu m' = ncpu m" "lk m' = lk m" by (simp_all add: res m2_def m1_def)
  show "iflag m' = iflag m" using nn by (cases "iflag m a") (force simp: res m2_def m1_def fun_eq_iff)+
  show "apicid (cpus m' ! j) = apicid (cpus m ! j)" "ncli (cpus m' ! j) = ncli (cpus m ! j)" for j
    by (simp_all add: res n2 n)
  show "\<exists>i < ncpu m. apicid (cpus m ! i) = a \<and> p = cproc (cpus m ! i)"
    using i by (auto simp: res n)
qed

lemma linv_same_view:
  assumes "linv x" "cpus_ok m" "ncpu m = ncpu (mach x)" "lk m = lk (mach x)"
    "\<And>j. apicid (cpus m ! j) = apicid (cpus (mach x) ! j)"
    "\<And>j. ncli (cpus m ! j) = ncli (cpus (mach x) ! j)"
    "\<And>j. j < ncpu m \<Longrightarrow> 0 < ncli (cpus m ! j) \<Longrightarrow> \<not> iflag m (apicid (cpus m ! j))"
  shows "linv (x\<lparr>mach := m\<rparr>)"
proof -
  have c: "claims (x\<lparr>mach := m\<rparr>) a = claims x a" for a by (simp add: claims_def)
  then show ?thesis
    using assms(1,7) unfolding linv_def cli_inv_def offline_inv_def owner_inv_def word_inv_def
      excl_inv_def Let_def c
    by (simp add: assms)
qed

lemma linv_cliD:
  "linv x \<Longrightarrow> i < ncpu (mach x) \<Longrightarrow> 0 \<le> ncli (cpus (mach x) ! i)
    \<and> (0 < ncli (cpus (mach x) ! i) \<longrightarrow> \<not> iflag (mach x) (apicid (cpus (mach x) ! i)))"
  by (auto simp: linv_def cli_inv_def Let_def)

lemma linv_step: "lstep x y \<Longrightarrow> linv x \<Longrightarrow> linv y"
proof (induction rule: lstep.induct)
  case (enter x a l m) then show ?case by (intro linv_enter)
next
  case (spin x a l old m) then show ?case by (intro linv_spin)
next
  case (record_owner x a l v m) then show ?case by (intro linv_record)
next
  case (clear x a l m) then show ?case by (intro linv_clear)
next
  case (unlock x a l m) then show ?case by (intro linv_unlock)
next
  case (myproc x a p m)
  have "cpus_ok (mach x)" using myproc by (simp add: linv_def)
  note r = myproc_InrD [OF this myproc(2) linv_cliD [OF myproc(3)]]
  show ?case using linv_cliD [OF myproc(3)] by (intro linv_same_view [OF myproc(3)]) (auto simp: r)
next
  case (disable x a)
  show ?case using linv_cliD [OF disable(2)] disable(2)
    by (intro linv_same_view [OF disable(2)]) (auto simp: linv_def)
next
  case (enable x a)
  have "ncli (cpus (mach x) ! j) = 0" if "j < ncpu (mach x)" "apicid (cpus (mach x) ! j) = a" for j
    using enable that by (auto simp: linv_def cli_inv_def Let_def)
  then show ?case using linv_cliD [OF enable(3)] enable(3)
    by (intro linv_same_view [OF enable(3)]) (auto simp: linv_def)
qed

lemma linv_reachable: "lreachable x \<Longrightarrow> linv x"
proof -
  have "lstep\<^sup>*\<^sup>* x0 x \<Longrightarrow> linv x0 \<Longrightarrow> linv x" for x0
    by (induction rule: rtranclp_induct) (auto intro: linv_step)
  then show "lreachable x \<Longrightarrow> linv x" using linv_boot by (auto simp: lreachable_def)
qed

text \<open>
  Claim C11. Spin locks exclude each other: in every state that any interleaving of \<^verbatim>\<open>acquire\<close>,
  \<^verbatim>\<open>release\<close>, \<^verbatim>\<open>myproc\<close> and interrupt-flag changes on any number of processors can reach, a lock is held
  by at most one processor, its lock word is set, its owner field names that processor,
  and interrupts are off on a processor that holds a lock or spins for one.
\<close>

theorem spinlock_mutual_exclusion:
  assumes "lreachable x"
  shows "(l \<in> set (held x a) \<and> l \<in> set (held x b) \<longrightarrow> a = b)
    \<and> (l \<in> set (held x a) \<longrightarrow> locked (lk (mach x) l) \<noteq> 0
      \<and> (\<exists>i < ncpu (mach x). apicid (cpus (mach x) ! i) = a \<and> lcpu (lk (mach x) l) = Some i))
    \<and> (held x a \<noteq> [] \<or> lpc x a \<noteq> Running \<longrightarrow> \<not> iflag (mach x) a)"
proof (intro conjI [OF _ conjI] impI)
  have inv: "linv x" using assms by (rule linv_reachable)
  show "a = b" if "l \<in> set (held x a) \<and> l \<in> set (held x b)"
    using inv that by (auto simp: linv_def excl_inv_def claims_def)
  have on: "\<exists>i < ncpu (mach x). apicid (cpus (mach x) ! i) = a" if "held x a \<noteq> [] \<or> lpc x a \<noteq> Running"
    using inv that by (auto simp: linv_def offline_inv_def)
  show "locked (lk (mach x) l) \<noteq> 0
      \<and> (\<exists>i < ncpu (mach x). apicid (cpus (mach x) ! i) = a \<and> lcpu (lk (mach x) l) = Some i)"
    if "l \<in> set (held x a)"
  proof -
    have "l \<in> claims x a" using that by (simp add: claims_def)
    then have "locked (lk (mach x) l) \<noteq> 0" using inv by (auto simp: linv_def word_inv_def)
    moreover have "held x a \<noteq> []" using that by auto
    then obtain i where "i < ncpu (mach x)" "apicid (cpus (mach x) ! i) = a"
      using on by auto
    moreover from this have "lcpu (lk (mach x) l) = Some i"
      using inv that by (auto simp: linv_def owner_inv_def)
    ultimately show ?thesis by blast
  qed
  show "\<not> iflag (mach x) a" if h: "held x a \<noteq> [] \<or> lpc x a \<noteq> Running"
  proof -
    obtain i where i: "i < ncpu (mach x)" "apicid (cpus (mach x) ! i) = a"
      using on [OF h] by auto
    then have "0 < ncli (cpus (mach x) ! i)"
      using inv h by (auto simp: linv_def cli_inv_def Let_def)
    then show ?thesis using linv_cliD [OF inv i(1)] i(2) by simp
  qed
qed

text \<open>Two processors; processor 7 has taken lock 0.\<close>

definition lboot :: lsys where
  "lboot = \<lparr>mach = \<lparr>ncpu = 2, cpus = [\<lparr>apicid = 7, ncli = 0, intena = False, cproc = None\<rparr>,
       \<lparr>apicid = 3, ncli = 0, intena = False, cproc = None\<rparr>],
     iflag = (\<lambda>_. True), lk = (\<lambda>_. \<lparr>locked = 0, name = ''l'', lcpu = None, pcs = []\<rparr>), stack = (\<lambda>_. 0)\<rparr>,
     lpc = (\<lambda>_. Running), held = (\<lambda>_. [])\<rparr>"

definition llocked :: lsys where
  "llocked = lboot\<lparr>mach := projr (acquire 7 0 0 (mach lboot)), held := (\<lambda>_. [])(7 := [0])\<rparr>"

lemma llocked_reachable: "lreachable llocked"
proof -
  have b: "lsys_boot lboot"
    by (auto simp: lsys_boot_def lboot_def cpus_ok_def less_2_cases_iff)
  note e = lboot_def acquire_def acquire_enter_def pushcli_def holding_def mycpu_def cli_def
    upd_cpu_def xchg_locked_def acquire_record_def Let_def
  define m1 where "m1 = projr (acquire_enter 7 0 (mach lboot))"
  define m2 where "m2 = snd (xchg_locked 0 1 m1)"
  have 1: "acquire_enter 7 0 (mach lboot) = Inr m1" by (simp add: m1_def e upt_rec)
  have 2: "xchg_locked 0 1 m1 = (0, m2)" by (simp add: m1_def m2_def e upt_rec)
  obtain m3 where 3: "acquire_record 7 0 0 m2 = Inr m3"
    by (simp add: m1_def m2_def e upt_rec)
  have x: "lstep\<^sup>*\<^sup>* lboot (lboot\<lparr>mach := m3, lpc := ((\<lambda>_. Running)(7 := Spinning 0, 7 := Won 0, 7 := Running)),
      held := (\<lambda>_. [])(7 := [0])\<rparr>)"
  proof -
    have "lstep lboot (lboot\<lparr>mach := m1, lpc := (lpc lboot)(7 := Spinning 0)\<rparr>)"
      by (rule enter [OF _ 1]) (simp add: lboot_def)
    moreover have "lstep (lboot\<lparr>mach := m1, lpc := (lpc lboot)(7 := Spinning 0)\<rparr>)
        (lboot\<lparr>mach := m2, lpc := (lpc lboot)(7 := Won 0)\<rparr>)"
      using spin [of "lboot\<lparr>mach := m1, lpc := (lpc lboot)(7 := Spinning 0)\<rparr>" 7 0 0 m2] 2 by simp
    moreover have "lstep (lboot\<lparr>mach := m2, lpc := (lpc lboot)(7 := Won 0)\<rparr>)
        (lboot\<lparr>mach := m3, lpc := (lpc lboot)(7 := Running), held := (held lboot)(7 := [0])\<rparr>)"
      using record_owner [of "lboot\<lparr>mach := m2, lpc := (lpc lboot)(7 := Won 0)\<rparr>" 7 0 0 m3] 3
      by (simp add: lboot_def)
    ultimately have "lstep\<^sup>*\<^sup>* lboot (lboot\<lparr>mach := m3, lpc := (lpc lboot)(7 := Running), held := (held lboot)(7 := [0])\<rparr>)"
      by (meson converse_rtranclp_into_rtranclp r_into_rtranclp)
    then show ?thesis by (simp add: lboot_def)
  qed
  have "acquire 7 0 0 (mach lboot) = Inr m3"
    using 1 2 3 by (simp add: acquire_def)
  then have "llocked = lboot\<lparr>mach := m3, lpc := ((\<lambda>_. Running)(7 := Spinning 0, 7 := Won 0, 7 := Running)),
      held := (\<lambda>_. [])(7 := [0])\<rparr>"
    by (simp add: llocked_def) (simp add: lboot_def fun_upd_idem)
  then show ?thesis using x b by (auto simp: lreachable_def)
qed

theorem spinlock_mutual_exclusion_witness:
  "lreachable llocked \<and> 0 \<in> set (held llocked 7) \<and> 0 \<notin> set (held llocked 3)
    \<and> locked (lk (mach llocked) 0) \<noteq> 0 \<and> \<not> iflag (mach llocked) 7"
proof -
  have h: "held llocked 7 = [0]" by (simp add: llocked_def)
  note r = spinlock_mutual_exclusion [OF llocked_reachable]
  show ?thesis using llocked_reachable h r [of 0 7 3] by auto
qed

lemma holding_known:
  assumes "linv x" "i < ncpu (mach x)" "apicid (cpus (mach x) ! i) = a" "\<not> iflag (mach x) a"
  shows "holding a l (mach x) = Inr (l \<in> set (held x a))"
proof -
  have "mycpu a (mach x) = Inr i" using assms by (intro mycpu_known) (auto simp: linv_def)
  moreover have "lcpu (lk (mach x) l) = Some i \<longleftrightarrow> l \<in> set (held x a)"
    using assms by (auto simp: linv_def owner_inv_def)
  moreover have "l \<in> set (held x a) \<Longrightarrow> locked (lk (mach x) l) \<noteq> 0"
    using assms by (auto simp: linv_def word_inv_def claims_def)
  ultimately show ?thesis by (auto simp: holding_def)
qed

lemma acquire_enter_known:
  assumes "linv x" "i < ncpu (mach x)" "apicid (cpus (mach x) ! i) = a"
  shows "acquire_enter a l (mach x) =
    (if l \<in> set (held x a) then Inl (Panic ''acquire'')
     else Inr (upd_cpu i (cpu_pushed (iflag (mach x) a)) (cli a (mach x))))"
proof -
  have ok: "cpus_ok (mach x)" using assms(1) by (simp add: linv_def)
  define m1 where "m1 = upd_cpu i (cpu_pushed (iflag (mach x) a)) (cli a (mach x))"
  have "cpus_ok m1" unfolding m1_def by (rule upd_cpu_known) (use ok assms(2) in auto)
  moreover have "apicid (cpus m1 ! i) = a" using ok assms by (simp add: m1_def upd_cpu_known)
  ultimately have my: "mycpu a m1 = Inr i" using assms by (intro mycpu_known) (auto simp: m1_def)
  have "lk m1 = lk (mach x)" by (simp add: m1_def)
  moreover have "lcpu (lk (mach x) l) = Some i \<longleftrightarrow> l \<in> set (held x a)"
    using assms by (auto simp: linv_def owner_inv_def)
  moreover have "l \<in> set (held x a) \<Longrightarrow> locked (lk (mach x) l) \<noteq> 0"
    using assms by (auto simp: linv_def word_inv_def claims_def)
  ultimately have "holding a l m1 = Inr (l \<in> set (held x a))" using my by (auto simp: holding_def)
  then show ?thesis
    using pushcli_known [OF ok assms(2,3)] by (simp add: acquire_enter_def m1_def)
qed

text \<open>
  Claim C18. The panics of the lock operations are exactly the misuses they are meant to catch: in a
  reachable state a processor panics in \<^verbatim>\<open>acquire\<close> exactly on a lock it holds already; in \<^verbatim>\<open>release\<close>,
  with interrupts off, exactly on a lock it does not hold; the parts of both operations after the
  check never panic.
\<close>

theorem lock_ops_panic_iff:
  assumes "lreachable x" "i < ncpu (mach x)" "apicid (cpus (mach x) ! i) = a"
  shows "(acquire_enter a l (mach x) = Inl (Panic ''acquire'') \<longleftrightarrow> l \<in> set (held x a))
    \<and> (l \<notin> set (held x a) \<longrightarrow> returns (acquire_enter a l (mach x)))
    \<and> (\<not> iflag (mach x) a \<longrightarrow> (returns (release_clear a l (mach x)) \<longleftrightarrow> l \<in> set (held x a))
        \<and> (release_clear a l (mach x) = Inl (Panic ''release'') \<longleftrightarrow> l \<notin> set (held x a)))
    \<and> (lpc x a = Won l \<longrightarrow> returns (acquire_record a l v (mach x)))
    \<and> (lpc x a = Clearing l \<longrightarrow> returns (release_unlock a l (mach x)))"
proof -
  have inv: "linv x" using assms(1) by (rule linv_reachable)
  then have ok: "cpus_ok (mach x)" by (simp add: linv_def)
  have off: "\<not> iflag (mach x) a \<and> 0 < ncli (cpus (mach x) ! i)" if "lpc x a \<noteq> Running"
  proof -
    have "0 < ncli (cpus (mach x) ! i)" using inv that assms by (auto simp: linv_def cli_inv_def Let_def)
    then show ?thesis using linv_cliD [OF inv assms(2)] assms(3) by simp
  qed
  have "returns (release_unlock a l (mach x))" if "lpc x a = Clearing l"
    unfolding release_unlock_def
    by (subst popcli_known) (use ok assms off that in \<open>auto simp: cpus_ok_def\<close>)
  moreover have "returns (acquire_record a l v (mach x))" if "lpc x a = Won l"
    using mycpu_known [OF ok assms(2,3)] off that by (simp add: acquire_record_def)
  moreover have "\<not> iflag (mach x) a \<longrightarrow> (returns (release_clear a l (mach x)) \<longleftrightarrow> l \<in> set (held x a))
        \<and> (release_clear a l (mach x) = Inl (Panic ''release'') \<longleftrightarrow> l \<notin> set (held x a))"
    using holding_known [OF inv assms(2,3)] by (simp add: release_clear_def)
  ultimately show ?thesis using acquire_enter_known [OF inv assms(2,3)] by simp
qed

theorem lock_ops_panic_iff_witness:
  "apicid (cpus (mach llocked) ! 0) = 7 \<and> acquire_enter 7 0 (mach llocked) = Inl (Panic ''acquire'')
    \<and> returns (acquire_enter 7 1 (mach llocked)) \<and> held llocked 7 = [0]"
proof -
  have h: "held llocked 7 = [0]" by (simp add: llocked_def)
  have c: "ncpu (mach llocked) = 2" "apicid (cpus (mach llocked) ! 0) = 7"
    by (simp_all add: llocked_def lboot_def acquire_def acquire_enter_def pushcli_def holding_def mycpu_def
        cli_def upd_cpu_def xchg_locked_def acquire_record_def Let_def upt_rec)
  show ?thesis
    using c h lock_ops_panic_iff [OF llocked_reachable, of 0 7 0]
      lock_ops_panic_iff [OF llocked_reachable, of 0 7 1] by simp
qed

section \<open>Sleep locks\<close>

record sleeplock =
  slocked :: u32
  sname :: string
  spid :: int

definition initsleeplock :: "string \<Rightarrow> sleeplock" where
  "initsleeplock nm = \<lparr>slocked = 0, sname = nm, spid = 0\<rparr>"

text \<open>
  The inner spin lock makes each of these one step. One pass of the loop of \<^verbatim>\<open>acquiresleep\<close> by
  process \<open>p\<close>: it goes to sleep while the lock is taken, else takes it.
\<close>

definition acquiresleep :: "int \<Rightarrow> sleeplock \<Rightarrow> sleeplock res" where
  "acquiresleep p k =
     (if slocked k \<noteq> 0 then Inl (Sleeps ''sleeplock'') else Inr (k\<lparr>slocked := 1, spid := p\<rparr>))"

definition releasesleep :: "sleeplock \<Rightarrow> sleeplock" where
  "releasesleep k = k\<lparr>slocked := 0, spid := 0\<rparr>"

definition holdingsleep :: "sleeplock \<Rightarrow> u32" where
  "holdingsleep k = slocked k"

text \<open>
  Any number of processes around one sleep lock. \<^verbatim>\<open>wakeup\<close> in \<^verbatim>\<open>releasesleep\<close> makes every sleeper runnable,
  \<^verbatim>\<open>kill\<close> wakes a single one; both then run the loop of \<^verbatim>\<open>acquiresleep\<close> again.
\<close>

datatype spc = Outside | Asleep | Woken | Inside

record ssys =
  slk :: sleeplock
  spc :: "int \<Rightarrow> spc"

inductive sstep :: "ssys \<Rightarrow> ssys \<Rightarrow> bool" where
  take_lock: "spc y p = Outside \<or> spc y p = Woken \<Longrightarrow> acquiresleep p (slk y) = Inr k
    \<Longrightarrow> sstep y (y\<lparr>slk := k, spc := (spc y)(p := Inside)\<rparr>)"
| wait_lock: "spc y p = Outside \<or> spc y p = Woken \<Longrightarrow> acquiresleep p (slk y) = Inl (Sleeps w)
    \<Longrightarrow> sstep y (y\<lparr>spc := (spc y)(p := Asleep)\<rparr>)"
| free_lock: "spc y p = Inside
    \<Longrightarrow> sstep y (y\<lparr>slk := releasesleep (slk y),
          spc := (\<lambda>q. if q = p then Outside else if spc y q = Asleep then Woken else spc y q)\<rparr>)"
| killed: "spc y p = Asleep \<Longrightarrow> sstep y (y\<lparr>spc := (spc y)(p := Woken)\<rparr>)"

definition sreachable :: "ssys \<Rightarrow> bool" where
  "sreachable y \<longleftrightarrow> (\<exists>nm. sstep\<^sup>*\<^sup>* \<lparr>slk = initsleeplock nm, spc = (\<lambda>_. Outside)\<rparr> y)"

definition sinv :: "ssys \<Rightarrow> bool" where
  "sinv y \<longleftrightarrow> (\<forall>p q. spc y p = Inside \<and> spc y q = Inside \<longrightarrow> p = q)
     \<and> (slocked (slk y) \<noteq> 0 \<longleftrightarrow> (\<exists>p. spc y p = Inside))
     \<and> (\<forall>p. spc y p = Inside \<longrightarrow> spid (slk y) = p)
     \<and> (\<forall>p. spc y p = Asleep \<longrightarrow> slocked (slk y) \<noteq> 0)"

lemma sinv_step: "sstep y z \<Longrightarrow> sinv y \<Longrightarrow> sinv z"
proof (induction rule: sstep.induct)
  case (take_lock y p k)
  then have "slocked (slk y) = 0" "k = (slk y)\<lparr>slocked := 1, spid := p\<rparr>"
    by (auto simp: acquiresleep_def split: if_splits)
  moreover from this have "spc y q \<noteq> Inside" for q using take_lock by (auto simp: sinv_def)
  ultimately show ?case by (auto simp: sinv_def)
next
  case (wait_lock y p w)
  then have "slocked (slk y) \<noteq> 0" by (auto simp: acquiresleep_def split: if_splits)
  then obtain r where "spc y r = Inside" using wait_lock by (auto simp: sinv_def)
  moreover from this have "r \<noteq> p" using wait_lock by auto
  ultimately show ?case using wait_lock by (auto simp: sinv_def)
next
  case (free_lock y p)
  then have "spc y q = Inside \<Longrightarrow> q = p" for q by (auto simp: sinv_def)
  then show ?case using free_lock by (auto simp: sinv_def releasesleep_def)
next
  case (killed y p)
  then obtain r where "spc y r = Inside" by (auto simp: sinv_def)
  moreover from this have "r \<noteq> p" using killed by auto
  ultimately show ?case using killed by (auto simp: sinv_def)
qed

text \<open>
  Claim C19. Sleep locks exclude each other and lose no wakeup: in every reachable state at most one
  process is past \<^verbatim>\<open>acquiresleep\<close>, the lock then carries its pid, and a process asleep in
  \<^verbatim>\<open>acquiresleep\<close> waits for a lock that some other process holds, so that the holder's
  \<^verbatim>\<open>releasesleep\<close> is still to come.
\<close>

theorem sleeplock_no_lost_wakeup:
  assumes "sreachable y"
  shows "(spc y p = Inside \<longrightarrow> holdingsleep (slk y) \<noteq> 0 \<and> spid (slk y) = p
      \<and> (spc y q = Inside \<longrightarrow> q = p))
    \<and> (spc y q = Asleep \<longrightarrow> (\<exists>p. p \<noteq> q \<and> spc y p = Inside))"
proof -
  obtain nm where r: "sstep\<^sup>*\<^sup>* \<lparr>slk = initsleeplock nm, spc = (\<lambda>_. Outside)\<rparr> y"
    using assms by (auto simp: sreachable_def)
  have "sinv \<lparr>slk = initsleeplock nm, spc = (\<lambda>_. Outside)\<rparr>" by (simp add: sinv_def initsleeplock_def)
  with r have "sinv y" by (induction rule: rtranclp_induct) (auto intro: sinv_step)
  then show ?thesis unfolding sinv_def holdingsleep_def by (metis spc.distinct(9))
qed

definition sboot :: ssys where
  "sboot = \<lparr>slk = \<lparr>slocked = 1, sname = ''b'', spid = 5\<rparr>, spc = (\<lambda>_. Outside)(5 := Inside, 6 := Asleep)\<rparr>"

theorem sleeplock_no_lost_wakeup_witness:
  "sreachable sboot \<and> spc sboot 5 = Inside \<and> spc sboot 6 = Asleep \<and> holdingsleep (slk sboot) \<noteq> 0"
proof -
  let ?s0 = "\<lparr>slk = initsleeplock ''b'', spc = (\<lambda>_. Outside)\<rparr>"
  let ?s1 = "\<lparr>slk = \<lparr>slocked = 1, sname = ''b'', spid = 5\<rparr>, spc = (\<lambda>_. Outside)(5 := Inside)\<rparr>"
  have "sstep ?s0 ?s1"
    using take_lock [of ?s0 5 "slk ?s1"] by (simp add: acquiresleep_def initsleeplock_def)
  moreover have "sstep ?s1 sboot"
    using wait_lock [of ?s1 6 "''sleeplock''"] by (simp add: acquiresleep_def sboot_def)
  ultimately have r: "sreachable sboot"
    unfolding sreachable_def by (meson converse_rtranclp_into_rtranclp r_into_rtranclp)
  have "spc sboot 5 = Inside" "spc sboot 6 = Asleep" by (simp_all add: sboot_def)
  then show ?thesis using sleeplock_no_lost_wakeup [OF r, of 5 6] r by auto
qed

end
