(* ===== verification/Bio.thy ===== *)
theory Bio
  imports Spinlock
begin

text \<open>
  The buffer cache (\<^verbatim>\<open>xv6/bio.c\<close>) over the memory disk (\<^verbatim>\<open>xv6/memide.c\<close>). The \<^verbatim>\<open>NBUF\<close> buffers are the
  first entries of \<open>bufs\<close>; the last one is the list head. Pointers are indices, and the doubly linked
  list is in the \<open>bprev\<close> and \<open>bnext\<close> fields as in the code. \<open>writes\<close> records the blocks in the order in
  which the disk received them, so that a crash between two of them can be described.
\<close>

unbundle bit_operations_syntax

type_synonym block = "u8 list"

definition BSIZE :: nat where "BSIZE = 512"
definition NBUF :: nat where "NBUF = 30"
definition B_VALID :: u32 where "B_VALID = 2"
definition B_DIRTY :: u32 where "B_DIRTY = 4"

record buf =
  bflags :: u32
  bdev :: u32
  blockno :: u32
  block_lk :: sleeplock
  refcnt :: u32
  bprev :: nat
  bnext :: nat
  bdata :: block

record bcache =
  bufs :: "buf list"
  memdisk :: "u32 \<Rightarrow> block"
  disksize :: u32
  writes :: "(u32 \<times> block) list"
  curpid :: int

definition head :: nat where "head = NBUF"

definition buf_at :: "nat \<Rightarrow> 'a bcache_scheme \<Rightarrow> buf" where
  "buf_at b s = bufs s ! b"

definition upd_buf :: "nat \<Rightarrow> (buf \<Rightarrow> buf) \<Rightarrow> 'a bcache_scheme \<Rightarrow> 'a bcache_scheme" where
  "upd_buf b f s = s\<lparr>bufs := (bufs s)[b := f (bufs s ! b)]\<rparr>"

text \<open>Linking a buffer in right behind the head, and taking one out of the list.\<close>

definition link_front :: "nat \<Rightarrow> 'a bcache_scheme \<Rightarrow> 'a bcache_scheme" where
  "link_front b s =
     (let s = upd_buf b (\<lambda>x. x\<lparr>bnext := bnext (buf_at head s)\<rparr>) s;
          s = upd_buf b (\<lambda>x. x\<lparr>bprev := head\<rparr>) s;
          s = upd_buf (bnext (buf_at head s)) (\<lambda>x. x\<lparr>bprev := b\<rparr>) s
      in upd_buf head (\<lambda>x. x\<lparr>bnext := b\<rparr>) s)"

definition unlink :: "nat \<Rightarrow> 'a bcache_scheme \<Rightarrow> 'a bcache_scheme" where
  "unlink b s =
     (let s = upd_buf (bnext (buf_at b s)) (\<lambda>x. x\<lparr>bprev := bprev (buf_at b s)\<rparr>) s
      in upd_buf (bprev (buf_at b s)) (\<lambda>x. x\<lparr>bnext := bnext (buf_at b s)\<rparr>) s)"

definition binit :: "'a bcache_scheme \<Rightarrow> 'a bcache_scheme" where
  "binit s =
     (let s = upd_buf head (\<lambda>x. x\<lparr>bprev := head, bnext := head\<rparr>) s
      in foldl (\<lambda>s b. link_front b (upd_buf b (\<lambda>x. x\<lparr>block_lk := initsleeplock ''buffer''\<rparr>) s)) s [0..<NBUF])"

section \<open>The memory disk\<close>

text \<open>\<^verbatim>\<open>ideinit\<close>; \<open>img\<close> and \<open>len\<close> are the linked-in image and its size in bytes.\<close>

definition ideinit :: "(u32 \<Rightarrow> block) \<Rightarrow> u32 \<Rightarrow> 'a bcache_scheme \<Rightarrow> 'a bcache_scheme" where
  "ideinit img len s = s\<lparr>memdisk := img, disksize := len div of_nat BSIZE\<rparr>"

definition iderw :: "nat \<Rightarrow> ('a bcache_scheme, unit) op" where
  "iderw b s =
     (let x = buf_at b s
      in if holdingsleep (block_lk x) = 0 then Inl (Panic ''iderw: buf not locked'')
         else if bflags x AND (B_VALID OR B_DIRTY) = B_VALID then Inl (Panic ''iderw: nothing to do'')
         else if bdev x \<noteq> 1 then Inl (Panic ''iderw: request not for disk 1'')
         else if blockno x \<ge> disksize s then Inl (Panic ''iderw: block out of range'')
         else if bflags x AND B_DIRTY \<noteq> 0
         then (let s = upd_buf b (\<lambda>x. x\<lparr>bflags := bflags x AND NOT B_DIRTY\<rparr>) s;
                   s = s\<lparr>memdisk := (memdisk s)(blockno x := bdata x), writes := writes s @ [(blockno x, bdata x)]\<rparr>
               in Inr ((), upd_buf b (\<lambda>x. x\<lparr>bflags := bflags x OR B_VALID\<rparr>) s))
         else (let s = upd_buf b (\<lambda>y. y\<lparr>bdata := memdisk s (blockno x)\<rparr>) s
               in Inr ((), upd_buf b (\<lambda>x. x\<lparr>bflags := bflags x OR B_VALID\<rparr>) s)))"

section \<open>The cache\<close>

text \<open>
  Walking the list in one direction until the head comes back. A well-formed list of \<^verbatim>\<open>NBUF\<close> buffers is
  left after \<open>NBUF + 1\<close> steps; a walk that is still inside then is in a corrupted list.
\<close>

primrec scan :: "nat \<Rightarrow> (buf \<Rightarrow> nat) \<Rightarrow> (buf \<Rightarrow> bool) \<Rightarrow> nat \<Rightarrow> buf list \<Rightarrow> nat option res" where
  "scan 0 step P b bs = Inl (Fault ''bcache list'')"
| "scan (Suc k) step P b bs =
     (if b = head then Inr None
      else if P (bs ! b) then Inr (Some b)
      else scan k step P (step (bs ! b)) bs)"

definition lock_buf :: "nat \<Rightarrow> ('a bcache_scheme, nat) op" where
  "lock_buf b s =
     bindE (acquiresleep (curpid s) (block_lk (buf_at b s))) (\<lambda>k.
       Inr (b, upd_buf b (\<lambda>x. x\<lparr>block_lk := k\<rparr>) s))"

definition bget :: "u32 \<Rightarrow> u32 \<Rightarrow> ('a bcache_scheme, nat) op" where
  "bget dev bn s =
     bindE (scan (NBUF + 1) bnext (\<lambda>x. bdev x = dev \<and> blockno x = bn) (bnext (buf_at head s)) (bufs s))
       (\<lambda>hit. case hit of
          Some b \<Rightarrow> lock_buf b (upd_buf b (\<lambda>x. x\<lparr>refcnt := refcnt x + 1\<rparr>) s)
        | None \<Rightarrow>
            bindE (scan (NBUF + 1) bprev (\<lambda>x. refcnt x = 0 \<and> bflags x AND B_DIRTY = 0)
                     (bprev (buf_at head s)) (bufs s))
              (\<lambda>free. case free of
                 Some b \<Rightarrow> lock_buf b (upd_buf b (\<lambda>x. x\<lparr>bdev := dev, blockno := bn, bflags := 0, refcnt := 1\<rparr>) s)
               | None \<Rightarrow> Inl (Panic ''bget: no buffers'')))"

definition bread :: "u32 \<Rightarrow> u32 \<Rightarrow> ('a bcache_scheme, nat) op" where
  "bread dev bn =
     bnd (bget dev bn) (\<lambda>b.
     bnd (gets (\<lambda>s. bflags (buf_at b s) AND B_VALID = 0)) (\<lambda>invalid.
     bnd (if invalid then iderw b else ret ()) (\<lambda>_. ret b)))"

definition bwrite :: "nat \<Rightarrow> ('a bcache_scheme, unit) op" where
  "bwrite b s =
     (if holdingsleep (block_lk (buf_at b s)) = 0 then Inl (Panic ''bwrite'')
      else iderw b (upd_buf b (\<lambda>x. x\<lparr>bflags := bflags x OR B_DIRTY\<rparr>) s))"

definition brelse :: "nat \<Rightarrow> ('a bcache_scheme, unit) op" where
  "brelse b s =
     (if holdingsleep (block_lk (buf_at b s)) = 0 then Inl (Panic ''brelse'')
      else let s = upd_buf b (\<lambda>x. x\<lparr>block_lk := releasesleep (block_lk x)\<rparr>) s;
               s = upd_buf b (\<lambda>x. x\<lparr>refcnt := refcnt x - 1\<rparr>) s
           in Inr ((), if refcnt (buf_at b s) = 0 then link_front b (unlink b s) else s))"

section \<open>The list of buffers\<close>

text \<open>
  A doubly linked segment from \<open>a\<close> through \<open>xs\<close> to \<open>z\<close>, given the next and previous pointers. The cache list
  is a segment from the head through all buffers back to the head.
\<close>

primrec segment :: "(nat \<Rightarrow> nat) \<Rightarrow> (nat \<Rightarrow> nat) \<Rightarrow> nat \<Rightarrow> nat list \<Rightarrow> nat \<Rightarrow> bool" where
  "segment nx pv a [] z \<longleftrightarrow> nx a = z \<and> pv z = a"
| "segment nx pv a (x # xs) z \<longleftrightarrow> nx a = x \<and> pv x = a \<and> segment nx pv x xs z"

lemma segment_append:
  "segment nx pv a (xs @ y # ys) z \<longleftrightarrow> segment nx pv a xs y \<and> segment nx pv y ys z"
  by (induction xs arbitrary: a) auto

lemma segment_cong:
  "segment nx pv a xs z \<Longrightarrow> (\<And>i. i \<in> set (a # xs) \<Longrightarrow> nx' i = nx i) \<Longrightarrow>
    (\<And>i. i \<in> set (z # xs) \<Longrightarrow> pv' i = pv i) \<Longrightarrow> segment nx' pv' a xs z"
  by (induction xs arbitrary: a) auto

lemma segment_first: "segment nx pv a xs z \<Longrightarrow> nx a = hd (xs @ [z])"
  by (cases xs) auto

lemma segment_last: "segment nx pv a xs z \<Longrightarrow> pv z = last (a # xs)"
  by (induction xs arbitrary: a) auto

lemma segment_unlink:
  "segment nx pv a (us @ b # vs) z \<Longrightarrow> distinct (a # us @ b # vs) \<Longrightarrow> z \<notin> set (us @ b # vs) \<Longrightarrow>
    segment (nx(pv b := nx b)) (pv(nx b := pv b)) a (us @ vs) z"
proof (induction us arbitrary: a)
  case Nil
  then show ?case
  proof (cases vs)
    case (Cons y ys)
    then have "segment nx pv y ys z" using Nil.prems(1) by simp
    then have "segment (nx(a := y)) (pv(y := a)) y ys z"
      by (rule segment_cong) (use Nil.prems(2,3) Cons in auto)
    moreover have "nx b = y" "pv b = a" using Nil.prems(1) Cons by simp_all
    ultimately show ?thesis using Cons by (simp del: fun_upd_apply add: fun_upd_same)
  qed simp
next
  case (Cons u us)
  have seg: "segment nx pv u us b" "segment nx pv b vs z"
    using Cons.prems(1) by (simp_all add: segment_append)
  have "pv b \<in> set (u # us)" using segment_last [OF seg(1)] last_in_set [of "u # us"] by simp
  moreover have "nx b \<in> set (vs @ [z])" using segment_first [OF seg(2)] hd_in_set [of "vs @ [z]"] by simp
  ultimately have "pv b \<noteq> a" "nx b \<noteq> u" using Cons.prems(2,3) by auto
  then show ?case using Cons by auto
qed

lemma segment_insert:
  assumes "segment nx pv h ws h" "b \<noteq> h" "b \<notin> set ws" "h \<notin> set ws" "distinct ws"
  shows "segment (nx(b := nx h, h := b)) (pv(b := h, nx h := b)) h (b # ws) h"
proof (cases ws)
  case Nil
  then show ?thesis using assms by auto
next
  case (Cons y ys)
  have "segment nx pv y ys h" using assms(1) Cons by simp
  then have "segment (nx(b := y, h := b)) (pv(b := h, y := b)) y ys h"
    by (rule segment_cong) (use assms(2-) Cons in auto)
  then show ?thesis using assms Cons by auto
qed

definition nx_of :: "buf list \<Rightarrow> nat \<Rightarrow> nat" where "nx_of bs i = bnext (bs ! i)"
definition pv_of :: "buf list \<Rightarrow> nat \<Rightarrow> nat" where "pv_of bs i = bprev (bs ! i)"

definition ring :: "buf list \<Rightarrow> nat list \<Rightarrow> bool" where
  "ring bs xs \<longleftrightarrow> length bs = NBUF + 1 \<and> distinct xs \<and> set xs = {..<NBUF}
     \<and> segment (nx_of bs) (pv_of bs) head xs head"

lemma head_eq [simp]: "head = NBUF"
  by (simp add: head_def)

lemma ring_mem: "ring bs xs \<Longrightarrow> head \<notin> set xs"
  by (simp add: ring_def)

lemma scan_forward:
  "segment (nx_of bs) (pv_of bs) a xs head \<Longrightarrow> head \<notin> set xs \<Longrightarrow> length xs < k \<Longrightarrow>
    scan k bnext P (nx_of bs a) bs = Inr (List.find (\<lambda>i. P (bs ! i)) xs)"
proof (induction xs arbitrary: a k)
  case Nil
  then show ?case by (cases k) auto
next
  case (Cons x xs)
  then obtain j where k: "k = Suc j" "length xs < j" by (cases k) auto
  show ?case using Cons.prems(1,2) Cons.IH [of x j] k by (auto simp: nx_of_def)
qed

lemma scan_backward:
  "segment (nx_of bs) (pv_of bs) head xs z \<Longrightarrow> head \<notin> set xs \<Longrightarrow> length xs < k \<Longrightarrow>
    scan k bprev P (pv_of bs z) bs = Inr (List.find (\<lambda>i. P (bs ! i)) (rev xs))"
proof (induction xs arbitrary: z k rule: rev_induct)
  case Nil
  then show ?case by (cases k) auto
next
  case (snoc x xs)
  then obtain j where k: "k = Suc j" "length xs < j" by (cases k) auto
  have "segment (nx_of bs) (pv_of bs) head xs x" "pv_of bs z = x"
    using snoc.prems(1) by (simp_all add: segment_append)
  moreover from this(1) have "scan j bprev P (pv_of bs x) bs = Inr (List.find (\<lambda>i. P (bs ! i)) (rev xs))"
    using snoc.prems(2) k(2) by (intro snoc.IH) auto
  ultimately show ?case using snoc.prems(2) k(1) by (simp add: pv_of_def)
qed

lemma ring_length: "ring bs xs \<Longrightarrow> length xs = NBUF"
  unfolding ring_def by (metis card_lessThan distinct_card)

lemma ring_scan:
  assumes "ring bs xs"
  shows "scan (NBUF + 1) bnext P (bnext (bs ! head)) bs = Inr (List.find (\<lambda>i. P (bs ! i)) xs)"
    "scan (NBUF + 1) bprev P (bprev (bs ! head)) bs = Inr (List.find (\<lambda>i. P (bs ! i)) (rev xs))"
proof -
  have seg: "segment (nx_of bs) (pv_of bs) head xs head" using assms by (simp add: ring_def)
  have len: "length xs < NBUF + 1" using ring_length [OF assms] by simp
  show "scan (NBUF + 1) bnext P (bnext (bs ! head)) bs = Inr (List.find (\<lambda>i. P (bs ! i)) xs)"
    using scan_forward [OF seg ring_mem [OF assms] len] by (simp only: nx_of_def)
  show "scan (NBUF + 1) bprev P (bprev (bs ! head)) bs = Inr (List.find (\<lambda>i. P (bs ! i)) (rev xs))"
    using scan_backward [OF seg ring_mem [OF assms] len] by (simp only: pv_of_def)
qed

text \<open>Only the link fields matter.\<close>

lemma ring_links:
  assumes "ring bs xs" "length cs = length bs"
    "\<And>i. i \<le> NBUF \<Longrightarrow> bnext (cs ! i) = bnext (bs ! i) \<and> bprev (cs ! i) = bprev (bs ! i)"
  shows "ring cs xs"
proof -
  have "segment (nx_of bs) (pv_of bs) head xs head" using assms(1) by (simp add: ring_def)
  then have "segment (nx_of cs) (pv_of cs) head xs head"
    by (rule segment_cong) (use assms in \<open>auto simp: ring_def nx_of_def pv_of_def\<close>)
  then show ?thesis using assms by (simp add: ring_def)
qed

text \<open>Everything of a buffer but its links.\<close>

definition core :: "buf \<Rightarrow> buf" where
  "core x = x\<lparr>bnext := 0, bprev := 0\<rparr>"

lemma core_fields:
  assumes "core x = core y"
  shows "bflags x = bflags y" "bdev x = bdev y" "blockno x = blockno y" "block_lk x = block_lk y"
    "refcnt x = refcnt y" "bdata x = bdata y"
  using assms by (cases x; cases y; simp add: core_def)+

lemma core_links [simp]: "core (x\<lparr>bnext := n\<rparr>) = core x" "core (x\<lparr>bprev := n\<rparr>) = core x"
  by (simp_all add: core_def)

lemma bufs_upd_buf [simp]: "bufs (upd_buf b f s) = (bufs s)[b := f (bufs s ! b)]"
  by (simp add: upd_buf_def)

lemma upd_buf_bufs: "upd_buf b f s = s\<lparr>bufs := (bufs s)[b := f (bufs s ! b)]\<rparr>"
  by (simp add: upd_buf_def)

lemma upd_buf_core: "(\<And>x. core (f x) = core x) \<Longrightarrow> core (bufs (upd_buf b f s) ! i) = core (bufs s ! i)"
  by (cases "b < length (bufs s)") (auto simp: nth_list_update list_update_beyond not_less)

lemma links_frame:
  "unlink b s = s\<lparr>bufs := bufs (unlink b s)\<rparr>" "link_front b s = s\<lparr>bufs := bufs (link_front b s)\<rparr>"
  "length (bufs (unlink b s)) = length (bufs s)" "length (bufs (link_front b s)) = length (bufs s)"
  by (simp_all add: unlink_def link_front_def Let_def upd_buf_bufs)

lemma links_core:
  "core (bufs (unlink b s) ! i) = core (bufs s ! i)" "core (bufs (link_front b s) ! i) = core (bufs s ! i)"
  by (simp_all add: unlink_def link_front_def Let_def upd_buf_core del: bufs_upd_buf)

lemma links_unlink:
  assumes "b < length (bufs s)" "bnext (bufs s ! b) < length (bufs s)" "bprev (bufs s ! b) < length (bufs s)"
    "bnext (bufs s ! b) \<noteq> b" "bprev (bufs s ! b) \<noteq> b"
  shows "nx_of (bufs (unlink b s)) = (nx_of (bufs s))(pv_of (bufs s) b := nx_of (bufs s) b)"
    "pv_of (bufs (unlink b s)) = (pv_of (bufs s))(nx_of (bufs s) b := pv_of (bufs s) b)"
  using assms by (auto simp: unlink_def Let_def nx_of_def pv_of_def fun_eq_iff nth_list_update buf_at_def)

lemma links_front:
  assumes "b < length (bufs s)" "head < length (bufs s)" "bnext (bufs s ! head) < length (bufs s)" "b \<noteq> head"
    "bnext (bufs s ! head) \<noteq> b"
  shows "nx_of (bufs (link_front b s)) = (nx_of (bufs s))(b := nx_of (bufs s) head, head := b)"
    "pv_of (bufs (link_front b s)) = (pv_of (bufs s))(b := head, nx_of (bufs s) head := b)"
  using assms by (auto simp: link_front_def Let_def nx_of_def pv_of_def fun_eq_iff nth_list_update buf_at_def)

lemma segment_target: "segment nx pv a (us @ b # vs) z \<Longrightarrow> nx b \<in> set (z # vs) \<and> pv b \<in> set (a # us)"
proof -
  assume "segment nx pv a (us @ b # vs) z"
  then have s: "segment nx pv a us b" "segment nx pv b vs z" by (simp_all add: segment_append)
  have "nx b \<in> set (vs @ [z])" unfolding segment_first [OF s(2)] by (rule hd_in_set) simp
  moreover have "pv b \<in> set (a # us)" unfolding segment_last [OF s(1)] by (rule last_in_set) simp
  ultimately show ?thesis by auto
qed

lemma ring_move_front:
  assumes "ring (bufs s) xs" "b < NBUF"
  shows "ring (bufs (link_front b (unlink b s))) (b # remove1 b xs)"
proof -
  let ?u = "unlink b s"
  have len: "length (bufs s) = NBUF + 1" and xs: "distinct xs" "set xs = {..<NBUF}"
    and seg: "segment (nx_of (bufs s)) (pv_of (bufs s)) head xs head"
    using assms(1) by (auto simp: ring_def)
  obtain us vs where split: "xs = us @ b # vs" using assms(2) xs by (metis lessThan_iff split_list)
  have parts: "distinct (head # us @ b # vs)" "head \<notin> set (us @ b # vs)" "remove1 b xs = us @ vs"
    using xs split by (auto simp: remove1_append)
  have tgt: "nx_of (bufs s) b \<in> set (head # vs)" "pv_of (bufs s) b \<in> set (head # us)"
    using segment_target [of _ _ head us b vs head] seg split by auto
  have bound: "\<forall>i \<in> set (head # xs). i < length (bufs s)" using len xs by auto
  have side: "b < length (bufs s)" "nx_of (bufs s) b < length (bufs s)" "pv_of (bufs s) b < length (bufs s)"
    "nx_of (bufs s) b \<noteq> b" "pv_of (bufs s) b \<noteq> b"
    using tgt bound parts(1) split by auto
  have u: "nx_of (bufs ?u) = (nx_of (bufs s))(pv_of (bufs s) b := nx_of (bufs s) b)"
    "pv_of (bufs ?u) = (pv_of (bufs s))(nx_of (bufs s) b := pv_of (bufs s) b)"
    using links_unlink [of b s] side unfolding nx_of_def pv_of_def by simp_all
  have segu: "segment (nx_of (bufs ?u)) (pv_of (bufs ?u)) head (us @ vs) head"
    unfolding u using segment_unlink [of _ _ head us b vs head] seg parts split by simp
  have "nx_of (bufs ?u) head \<in> set (us @ vs @ [head])"
    using segment_first [OF segu] hd_in_set [of "(us @ vs) @ [head]"] by simp
  then have tgu: "nx_of (bufs ?u) head < length (bufs ?u)" "nx_of (bufs ?u) head \<noteq> b"
    using parts(1) bound split by (auto simp: links_frame(3))
  have "segment (nx_of (bufs (link_front b ?u))) (pv_of (bufs (link_front b ?u))) head (b # us @ vs) head"
    using links_front [of b ?u] segment_insert [OF segu, of b] tgu parts len assms(2)
    by (simp add: links_frame(3) nx_of_def)
  then have "segment (nx_of (bufs (link_front b ?u))) (pv_of (bufs (link_front b ?u))) head (b # remove1 b xs) head"
    by (simp only: parts(3))
  moreover have "distinct (b # remove1 b xs)" "set (b # remove1 b xs) = {..<NBUF}"
    using xs assms(2) by auto
  ultimately show ?thesis using len by (simp add: ring_def links_frame(3,4))
qed

section \<open>What the cache promises\<close>

text \<open>
  \<open>cached s bn i\<close>: buffer \<open>i\<close> stands for block \<open>bn\<close> of the disk. The invariant is for a set \<open>H\<close> of buffers that one
  caller holds (locked, one reference) while all others are free: the list is a ring, a block has at most one
  buffer, a buffer that is neither held nor dirty agrees with the disk.
\<close>

definition cached :: "'a bcache_scheme \<Rightarrow> u32 \<Rightarrow> nat \<Rightarrow> bool" where
  "cached s bn i \<longleftrightarrow> i < NBUF \<and> bdev (bufs s ! i) = 1 \<and> blockno (bufs s ! i) = bn"

definition lock_ok :: "bool \<Rightarrow> buf \<Rightarrow> bool" where
  "lock_ok h x \<longleftrightarrow> (if h then slocked (block_lk x) \<noteq> 0 \<and> refcnt x = 1 else slocked (block_lk x) = 0 \<and> refcnt x = 0)"

definition B_BOTH :: u32 where "B_BOTH = 6"

lemma flag_simps [simp]:
  "B_VALID AND B_VALID \<noteq> 0" "B_BOTH AND B_VALID \<noteq> 0" "0 AND B_VALID = 0"
  "B_VALID AND B_DIRTY = 0" "B_BOTH AND B_DIRTY \<noteq> 0" "0 AND B_DIRTY = 0"
  "B_VALID OR B_DIRTY = B_BOTH" "B_BOTH OR B_DIRTY = B_BOTH" "B_BOTH AND NOT B_DIRTY = B_VALID"
  "B_VALID OR B_VALID = B_VALID" "0 OR B_VALID = B_VALID" "B_BOTH \<noteq> B_VALID" "B_VALID \<noteq> B_BOTH" "B_VALID \<noteq> 0" "B_BOTH \<noteq> 0"
  "B_BOTH AND B_BOTH = B_BOTH" "B_VALID AND B_BOTH = B_VALID" "0 AND B_BOTH = 0" "0 \<noteq> B_VALID" "0 \<noteq> B_BOTH"
  by (simp_all add: B_VALID_def B_DIRTY_def B_BOTH_def)

definition unique_blocks :: "'a bcache_scheme \<Rightarrow> bool" where
  "unique_blocks s \<longleftrightarrow> (\<forall>bn i j. cached s bn i \<longrightarrow> cached s bn j \<longrightarrow> i = j)"

definition states_ok :: "nat set \<Rightarrow> 'a bcache_scheme \<Rightarrow> bool" where
  "states_ok H s \<longleftrightarrow>
     (\<forall>i<NBUF. bflags (bufs s ! i) \<in> {0, B_VALID, B_BOTH} \<and> lock_ok (i \<in> H) (bufs s ! i))"

definition coherent :: "nat set \<Rightarrow> 'a bcache_scheme \<Rightarrow> bool" where
  "coherent H s \<longleftrightarrow>
     (\<forall>bn i. cached s bn i \<longrightarrow> i \<notin> H \<longrightarrow> bflags (bufs s ! i) = B_VALID \<longrightarrow> bdata (bufs s ! i) = memdisk s bn)"

definition cache_ok :: "nat set \<Rightarrow> 'a bcache_scheme \<Rightarrow> bool" where
  "cache_ok H s \<longleftrightarrow> (\<exists>xs. ring (bufs s) xs) \<and> unique_blocks s \<and> states_ok H s \<and> coherent H s"

text \<open>The contents of a block as a caller sees it, and the blocks that are pinned.\<close>

definition content :: "'a bcache_scheme \<Rightarrow> u32 \<Rightarrow> block" where
  "content s bn =
     (case List.find (\<lambda>i. cached s bn i \<and> bflags (bufs s ! i) \<noteq> 0) [0..<NBUF] of
        Some i \<Rightarrow> bdata (bufs s ! i) | None \<Rightarrow> memdisk s bn)"

definition pinned :: "'a bcache_scheme \<Rightarrow> u32 set" where
  "pinned s = {bn. \<exists>i. cached s bn i \<and> bflags (bufs s ! i) = B_BOTH}"

text \<open>A buffer that \<^verbatim>\<open>bget\<close> may take for another block.\<close>

definition reusable :: "nat set \<Rightarrow> 'a bcache_scheme \<Rightarrow> nat \<Rightarrow> bool" where
  "reusable H s i \<longleftrightarrow> i < NBUF \<and> i \<notin> H \<and> bflags (bufs s ! i) \<in> {0, B_VALID}"

lemma cache_okD:
  assumes "cache_ok H s"
  shows "length (bufs s) = NBUF + 1" "cached s bn i \<Longrightarrow> cached s bn j \<Longrightarrow> i = j"
    "i < NBUF \<Longrightarrow> bflags (bufs s ! i) \<in> {0, B_VALID, B_BOTH}" "i < NBUF \<Longrightarrow> lock_ok (i \<in> H) (bufs s ! i)"
    "cached s bn i \<Longrightarrow> i \<notin> H \<Longrightarrow> bflags (bufs s ! i) = B_VALID \<Longrightarrow> bdata (bufs s ! i) = memdisk s bn"
proof -
  have ok: "\<exists>xs. ring (bufs s) xs" "unique_blocks s" "states_ok H s" "coherent H s"
    using assms by (simp_all add: cache_ok_def)
  from ok(1) show "length (bufs s) = NBUF + 1" by (auto simp: ring_def)
  from ok(2) show "i = j" if "cached s bn i" "cached s bn j"
    using that unfolding unique_blocks_def by (elim allE impE)
  from ok(3) show "i < NBUF \<Longrightarrow> bflags (bufs s ! i) \<in> {0, B_VALID, B_BOTH}"
    "i < NBUF \<Longrightarrow> lock_ok (i \<in> H) (bufs s ! i)" by (simp_all add: states_ok_def)
  from ok(4) show "cached s bn i \<Longrightarrow> i \<notin> H \<Longrightarrow> bflags (bufs s ! i) = B_VALID \<Longrightarrow> bdata (bufs s ! i) = memdisk s bn"
    by (simp add: coherent_def)
qed

lemma content_hit:
  assumes "cache_ok H s" "cached s bn i" "bflags (bufs s ! i) \<noteq> 0"
  shows "content s bn = bdata (bufs s ! i)"
proof -
  have other: "\<forall>j<i. \<not> cached s bn j" using cache_okD(2) [OF assms(1,2)] by (metis less_irrefl)
  have "List.find (\<lambda>i. cached s bn i \<and> bflags (bufs s ! i) \<noteq> 0) [0..<NBUF] = Some i"
    using assms(2,3) other unfolding find_index_Some by (auto simp: cached_def)
  then show ?thesis by (simp add: content_def)
qed

lemma content_miss:
  assumes "\<And>i. cached s bn i \<Longrightarrow> bflags (bufs s ! i) = 0"
  shows "content s bn = memdisk s bn"
proof -
  have "List.find (\<lambda>i. cached s bn i \<and> bflags (bufs s ! i) \<noteq> 0) [0..<NBUF] = None"
    using assms by (auto simp: find_index_None)
  then show ?thesis by (simp add: content_def)
qed

definition taken :: "int \<Rightarrow> buf \<Rightarrow> buf" where
  "taken p x = x\<lparr>refcnt := 1, block_lk := (block_lk x)\<lparr>slocked := 1, spid := p\<rparr>\<rparr>"

lemma lock_buf_free:
  assumes "b < length (bufs s)" "slocked (block_lk (bufs s ! b)) = 0"
  shows "lock_buf b s = Inr (b, s\<lparr>bufs := (bufs s)[b := (bufs s ! b)\<lparr>block_lk := (block_lk (bufs s ! b))\<lparr>slocked := 1, spid := curpid s\<rparr>\<rparr>]\<rparr>)"
  using assms by (simp add: lock_buf_def buf_at_def acquiresleep_def upd_buf_def)

lemma find_SomeD: "List.find P xs = Some x \<Longrightarrow> x \<in> set xs \<and> P x"
  by (auto simp: find_Some_iff)

lemma bget_hit:
  assumes ok: "cache_ok H s" and c: "cached s bn b" and b: "b \<notin> H"
  shows "bget 1 bn s = Inr (b, s\<lparr>bufs := (bufs s)[b := taken (curpid s) (bufs s ! b)]\<rparr>)"
proof -
  obtain xs where ring: "ring (bufs s) xs" using ok by (auto simp: cache_ok_def)
  have lt: "b < NBUF" and len: "length (bufs s) = NBUF + 1" using c cache_okD(1) [OF ok] by (auto simp: cached_def)
  have "List.find (\<lambda>i. bdev (bufs s ! i) = 1 \<and> blockno (bufs s ! i) = bn) xs = Some b"
  proof -
    have mem: "b \<in> set xs" "\<forall>i \<in> set xs. i < NBUF" using ring lt by (auto simp: ring_def)
    have "\<exists>i \<in> set xs. bdev (bufs s ! i) = 1 \<and> blockno (bufs s ! i) = bn" using c mem by (auto simp: cached_def)
    then obtain i where i: "List.find (\<lambda>i. bdev (bufs s ! i) = 1 \<and> blockno (bufs s ! i) = bn) xs = Some i"
      by (cases "List.find (\<lambda>i. bdev (bufs s ! i) = 1 \<and> blockno (bufs s ! i) = bn) xs") (auto simp: find_None_iff)
    then have "cached s bn i" using mem(2) by (auto simp: find_Some_iff cached_def)
    then show ?thesis using i cache_okD(2) [OF ok c] by auto
  qed
  moreover have "lock_ok False (bufs s ! b)" using cache_okD(4) [OF ok lt] b by simp
  ultimately show ?thesis
    using lt len ring_scan(1) [OF ring, of "\<lambda>x. bdev x = 1 \<and> blockno x = bn"]
    by (simp add: bget_def buf_at_def lock_buf_free lock_ok_def taken_def upd_buf_def)
qed

lemma bget_miss:
  assumes ok: "cache_ok H s" and c: "\<And>i. \<not> cached s bn i" and r: "\<exists>i. reusable H s i"
  shows "\<exists>b. reusable H s b \<and>
    bget 1 bn s = Inr (b, s\<lparr>bufs := (bufs s)[b := taken (curpid s) ((bufs s ! b)\<lparr>bdev := 1, blockno := bn, bflags := 0\<rparr>)]\<rparr>)"
proof -
  obtain xs where ring: "ring (bufs s) xs" using ok by (auto simp: cache_ok_def)
  then have xs: "set xs = {..<NBUF}" and len: "length (bufs s) = NBUF + 1" by (auto simp: ring_def)
  let ?P = "\<lambda>x. refcnt x = 0 \<and> bflags x AND B_DIRTY = 0"
  have none: "List.find (\<lambda>i. bdev (bufs s ! i) = 1 \<and> blockno (bufs s ! i) = bn) xs = None"
    using c xs by (auto simp: find_None_iff cached_def)
  have free: "?P (bufs s ! i) \<longleftrightarrow> reusable H s i" if "i < NBUF" for i
    using cache_okD(3,4) [OF ok that] that by (auto simp: reusable_def lock_ok_def)
  obtain b where find: "List.find (\<lambda>i. ?P (bufs s ! i)) (rev xs) = Some b"
    using r free xs by (cases "List.find (\<lambda>i. ?P (bufs s ! i)) (rev xs)") (auto simp: find_None_iff reusable_def)
  then have "b \<in> set xs" "?P (bufs s ! b)" using find_SomeD [OF find] by auto
  then have b: "reusable H s b" "b < NBUF" using free xs by auto
  then have "lock_ok False (bufs s ! b)" using cache_okD(4) [OF ok b(2)] by (simp add: reusable_def)
  then have "bget 1 bn s = Inr (b, s\<lparr>bufs := (bufs s)[b := taken (curpid s) ((bufs s ! b)\<lparr>bdev := 1, blockno := bn, bflags := 0\<rparr>)]\<rparr>)"
    using b(2) len none find ring_scan(1) [OF ring, of "\<lambda>x. bdev x = 1 \<and> blockno x = bn"] ring_scan(2) [OF ring, of ?P]
    by (simp add: bget_def buf_at_def lock_buf_free lock_ok_def taken_def upd_buf_def)
  then show ?thesis using b(1) by blast
qed

text \<open>Reading a block that is in the cache, or for which a buffer can be found.\<close>

definition obtainable :: "nat set \<Rightarrow> 'a bcache_scheme \<Rightarrow> u32 \<Rightarrow> bool" where
  "obtainable H s bn \<longleftrightarrow> bn < disksize s \<and>
     ((\<exists>i. cached s bn i \<and> i \<notin> H) \<or> ((\<forall>i. \<not> cached s bn i) \<and> (\<exists>i. reusable H s i)))"

lemma iderw_read:
  assumes "b < length (bufs s)" "bflags (bufs s ! b) = 0" "slocked (block_lk (bufs s ! b)) \<noteq> 0"
    "bdev (bufs s ! b) = 1" "blockno (bufs s ! b) < disksize s"
  shows "iderw b s = Inr ((), s\<lparr>bufs := (bufs s)[b := (bufs s ! b)\<lparr>bdata := memdisk s (blockno (bufs s ! b)), bflags := B_VALID\<rparr>]\<rparr>)"
  using assms by (simp add: iderw_def buf_at_def holdingsleep_def upd_buf_def Let_def not_le)

definition read_into :: "nat set \<Rightarrow> 'a bcache_scheme \<Rightarrow> u32 \<Rightarrow> nat \<Rightarrow> buf \<Rightarrow> bool" where
  "read_into H s bn b x \<longleftrightarrow> b < NBUF \<and> b \<notin> H \<and> (cached s bn b \<or> (\<forall>i. \<not> cached s bn i) \<and> reusable H s b)
     \<and> bdev x = 1 \<and> blockno x = bn \<and> lock_ok True x \<and> bdata x = content s bn
     \<and> bflags x = (if cached s bn b \<and> bflags (bufs s ! b) = B_BOTH then B_BOTH else B_VALID)
     \<and> bnext x = bnext (bufs s ! b) \<and> bprev x = bprev (bufs s ! b)"

lemma bread_hit:
  assumes ok: "cache_ok H s" and c: "cached s bn b" "b \<notin> H" and lt: "bn < disksize s"
  shows "\<exists>x. bread 1 bn s = Inr (b, s\<lparr>bufs := (bufs s)[b := x]\<rparr>) \<and> read_into H s bn b x"
proof -
  have b: "b < NBUF" "b < length (bufs s)" "bdev (bufs s ! b) = 1" "blockno (bufs s ! b) = bn"
    using c cache_okD(1) [OF ok] by (auto simp: cached_def)
  note get = bget_hit [OF ok c]
  show ?thesis
  proof (cases "bflags (bufs s ! b) = 0")
    case True
    have "content s bn = memdisk s bn" using True cache_okD(2) [OF ok c(1)] by (intro content_miss) auto
    then show ?thesis using True b c lt
      by (intro exI [of _ "(taken (curpid s) (bufs s ! b))\<lparr>bdata := memdisk s bn, bflags := B_VALID\<rparr>"])
         (simp add: bread_def get buf_at_def taken_def iderw_read read_into_def lock_ok_def)
  next
    case False
    then have "content s bn = bdata (bufs s ! b)" using content_hit [OF ok c(1)] by simp
    moreover have "bflags (bufs s ! b) = B_VALID \<or> bflags (bufs s ! b) = B_BOTH"
      using False cache_okD(3) [OF ok b(1)] by auto
    ultimately show ?thesis using b c
      by (intro exI [of _ "taken (curpid s) (bufs s ! b)"])
         (auto simp add: bread_def get buf_at_def taken_def read_into_def lock_ok_def)
  qed
qed

lemma bread_miss:
  assumes ok: "cache_ok H s" and c: "\<And>i. \<not> cached s bn i" and r: "\<exists>i. reusable H s i" and lt: "bn < disksize s"
  shows "\<exists>b x. bread 1 bn s = Inr (b, s\<lparr>bufs := (bufs s)[b := x]\<rparr>) \<and> read_into H s bn b x"
proof -
  obtain b where b: "reusable H s b" and get: "bget 1 bn s = Inr (b, s\<lparr>bufs := (bufs s)[b :=
      taken (curpid s) ((bufs s ! b)\<lparr>bdev := 1, blockno := bn, bflags := 0\<rparr>)]\<rparr>)"
    using bget_miss [OF ok c r] by auto
  have "b < length (bufs s)" using b cache_okD(1) [OF ok] by (simp add: reusable_def)
  moreover have "content s bn = memdisk s bn" using c by (intro content_miss) auto
  ultimately show ?thesis using b c lt
    by (intro exI [of _ b] exI [of _ "(taken (curpid s) ((bufs s ! b)\<lparr>bdev := 1, blockno := bn\<rparr>))\<lparr>bdata := memdisk s bn, bflags := B_VALID\<rparr>"])
       (auto simp: bread_def get buf_at_def taken_def iderw_read read_into_def lock_ok_def reusable_def)
qed

lemma bread_returns:
  assumes "cache_ok H s" "obtainable H s bn"
  shows "\<exists>b x. bread 1 bn s = Inr (b, s\<lparr>bufs := (bufs s)[b := x]\<rparr>) \<and> read_into H s bn b x"
  using assms bread_hit [OF assms(1)] bread_miss [OF assms(1)] unfolding obtainable_def by metis

lemma ring_upd:
  assumes "\<exists>xs. ring (bufs s) xs" "bnext x = bnext (bufs s ! b)" "bprev x = bprev (bufs s ! b)"
  shows "\<exists>xs. ring ((bufs s)[b := x]) xs"
proof -
  obtain xs where r: "ring (bufs s) xs" using assms(1) by blast
  have "bnext ((bufs s)[b := x] ! i) = bnext (bufs s ! i) \<and> bprev ((bufs s)[b := x] ! i) = bprev (bufs s ! i)"
    if "i \<le> NBUF" for i
  proof -
    have "i < length (bufs s)" using r that by (simp add: ring_def)
    then show ?thesis using assms(2,3) by (cases "i = b") simp_all
  qed
  then have "ring ((bufs s)[b := x]) xs" by (intro ring_links [OF r]) simp_all
  then show ?thesis ..
qed

lemma cached_upd:
  assumes "b < NBUF" "length (bufs s) = NBUF + 1" "bdev x = 1" "blockno x = bn"
  shows "cached (s\<lparr>bufs := (bufs s)[b := x]\<rparr>) bn' i \<longleftrightarrow> (if i = b then bn' = bn else cached s bn' i)"
  using assms by (auto simp: cached_def nth_list_update)

lemma read_into_nth:
  fixes s :: "'a bcache_scheme"
  assumes ok: "cache_ok H s" and r: "read_into H s bn b x"
  defines "s' \<equiv> s\<lparr>bufs := (bufs s)[b := x]\<rparr>"
  shows "bufs s' ! i = (if i = b then x else bufs s ! i)"
    "cached s' bn' i \<longleftrightarrow> (if i = b then bn' = bn else cached s bn' i)"
proof -
  have len: "length (bufs s) = NBUF + 1" by (rule cache_okD(1) [OF ok])
  have b: "b < NBUF" "bdev x = 1" "blockno x = bn" using r by (auto simp: read_into_def)
  show "bufs s' ! i = (if i = b then x else bufs s ! i)"
    using b(1) len by (simp add: s'_def nth_list_update)
  show "cached s' bn' i \<longleftrightarrow> (if i = b then bn' = bn else cached s bn' i)"
    unfolding s'_def by (rule cached_upd [OF b(1) len b(2,3)])
qed

lemma read_into_ok:
  fixes s :: "'a bcache_scheme"
  assumes ok: "cache_ok H s" and r: "read_into H s bn b x"
  defines "s' \<equiv> s\<lparr>bufs := (bufs s)[b := x]\<rparr>"
  shows "cache_ok (insert b H) s'" "cached s' bn b" "bflags (bufs s' ! b) \<noteq> 0"
proof -
  note nth = read_into_nth(1) [OF ok r, folded s'_def] and c = read_into_nth(2) [OF ok r, folded s'_def]
  have only: "i = b" if "cached s bn i" for i
    using r that cache_okD(2) [OF ok that, of b] by (auto simp: read_into_def)
  have "unique_blocks s'"
    unfolding unique_blocks_def c using only cache_okD(2) [OF ok] by (metis (full_types))
  moreover have "states_ok (insert b H) s'"
    using cache_okD(3,4) [OF ok] r unfolding states_ok_def nth by (auto simp: read_into_def)
  moreover have "coherent (insert b H) s'"
    using cache_okD(5) [OF ok] unfolding coherent_def nth c by (simp add: s'_def)
  moreover have "\<exists>xs. ring (bufs s') xs"
    using ring_upd [of s x b] ok r by (simp add: s'_def cache_ok_def read_into_def)
  ultimately show "cache_ok (insert b H) s'" by (simp add: cache_ok_def)
  show "cached s' bn b" "bflags (bufs s' ! b) \<noteq> 0"
    using r by (auto simp: c nth read_into_def split: if_splits)
qed

lemma read_into_content:
  fixes s :: "'a bcache_scheme"
  assumes ok: "cache_ok H s" and r: "read_into H s bn b x"
  defines "s' \<equiv> s\<lparr>bufs := (bufs s)[b := x]\<rparr>"
  shows "content s' = content s"
proof
  note nth = read_into_nth(1) [OF ok r, folded s'_def] and c = read_into_nth(2) [OF ok r, folded s'_def]
  note ok' = read_into_ok [OF ok r, folded s'_def]
  fix bn'
  consider "bn' = bn" | i where "bn' \<noteq> bn" "i \<noteq> b" "cached s bn' i" "bflags (bufs s ! i) \<noteq> 0"
    | "bn' \<noteq> bn" "\<nexists>i. i \<noteq> b \<and> cached s bn' i \<and> bflags (bufs s ! i) \<noteq> 0" by blast
  then show "content s' bn' = content s bn'"
  proof cases
    case 1
    then show ?thesis using content_hit [OF ok'] r by (simp add: nth read_into_def)
  next
    case 2
    then show ?thesis using content_hit [OF ok 2(3,4)] content_hit [OF ok'(1), of bn' i] by (simp add: c nth)
  next
    case 3
    have "content s' bn' = memdisk s' bn'"
      using 3 by (intro content_miss) (auto simp: c nth split: if_splits)
    also have "\<dots> = content s bn'"
    proof (cases "cached s bn' b \<and> bflags (bufs s ! b) \<noteq> 0")
      case True
      then have "\<not> cached s bn b" using 3(1) by (simp add: cached_def)
      then have "bflags (bufs s ! b) = B_VALID" "b \<notin> H" using r True by (auto simp: read_into_def reusable_def)
      then show ?thesis
        using content_hit [OF ok, of bn' b] cache_okD(5) [OF ok, of bn' b] True by (simp add: s'_def)
    next
      case False
      then have "content s bn' = memdisk s bn'" using 3(2) by (intro content_miss) metis
      then show ?thesis by (simp add: s'_def)
    qed
    finally show ?thesis .
  qed
qed

lemma read_into_pinned:
  fixes s :: "'a bcache_scheme"
  assumes ok: "cache_ok H s" and r: "read_into H s bn b x"
  defines "s' \<equiv> s\<lparr>bufs := (bufs s)[b := x]\<rparr>"
  shows "pinned s' = pinned s"
proof -
  note nc = read_into_nth [OF ok r, folded s'_def]
  have "cached s bn' b \<and> bflags (bufs s ! b) = B_BOTH \<longleftrightarrow> bn' = bn \<and> bflags x = B_BOTH" for bn'
    using r by (auto simp: read_into_def reusable_def cached_def split: if_splits)
  then have "(\<exists>i. cached s' bn' i \<and> bflags (bufs s' ! i) = B_BOTH)
      \<longleftrightarrow> (\<exists>i. cached s bn' i \<and> bflags (bufs s ! i) = B_BOTH)" for bn'
    unfolding nc by metis
  then show ?thesis by (simp add: pinned_def)
qed

lemmas read_into_keeps = read_into_ok(1) read_into_content read_into_pinned read_into_ok(2,3)

text \<open>The view a caller has depends on the identity, flags and data of the buffers and on the disk.\<close>

definition same_view :: "buf \<Rightarrow> buf \<Rightarrow> bool" where
  "same_view x y \<longleftrightarrow> bflags x = bflags y \<and> bdev x = bdev y \<and> blockno x = blockno y \<and> bdata x = bdata y"

lemma view_cong:
  assumes "\<And>i. i < NBUF \<Longrightarrow> same_view (bufs s' ! i) (bufs s ! i)" "memdisk s' = memdisk s"
  shows "cached s' = cached s" "content s' = content s" "pinned s' = pinned s"
proof -
  show c: "cached s' = cached s" using assms(1) by (auto simp: fun_eq_iff cached_def same_view_def)
  have f: "cached s bn i \<Longrightarrow> bflags (bufs s' ! i) = bflags (bufs s ! i) \<and> bdata (bufs s' ! i) = bdata (bufs s ! i)" for bn i
    using assms(1) by (simp add: cached_def same_view_def)
  show "pinned s' = pinned s" unfolding pinned_def c using f by metis
  show "content s' = content s"
  proof
    fix bn
    have "List.find (\<lambda>i. cached s' bn i \<and> bflags (bufs s' ! i) \<noteq> 0) [0..<NBUF] =
        List.find (\<lambda>i. cached s bn i \<and> bflags (bufs s ! i) \<noteq> 0) [0..<NBUF]"
      unfolding c using f by (intro find_cong) auto
    then show "content s' bn = content s bn"
      unfolding content_def using f assms(2)
      by (auto split: option.splits dest!: find_SomeD)
  qed
qed

lemma overwrite_keeps:
  fixes s :: "'a bcache_scheme" and d :: block
  assumes ok: "cache_ok H s" and c: "cached s bn b" "b \<in> H" "bflags (bufs s ! b) \<noteq> 0"
  defines "s' \<equiv> s\<lparr>bufs := (bufs s)[b := (bufs s ! b)\<lparr>bdata := d\<rparr>]\<rparr>"
  shows "cache_ok H s'" "content s' = (content s)(bn := d)" "pinned s' = pinned s" "cached s' = cached s"
    "\<And>i. bflags (bufs s' ! i) = bflags (bufs s ! i)" "bdata (bufs s' ! b) = d"
proof -
  have b: "b < length (bufs s)" using c cache_okD(1) [OF ok] by (simp add: cached_def)
  have nth: "bufs s' ! i = (if i = b then (bufs s ! b)\<lparr>bdata := d\<rparr> else bufs s ! i)" for i
    using b by (simp add: s'_def nth_list_update)
  show cc: "cached s' = cached s" by (auto simp: fun_eq_iff cached_def nth)
  show fl: "\<And>i. bflags (bufs s' ! i) = bflags (bufs s ! i)" by (simp add: nth)
  show "bdata (bufs s' ! b) = d" by (simp add: nth)
  show "pinned s' = pinned s" by (simp add: pinned_def cc fl)
  have "states_ok H s'" using cache_okD(3,4) [OF ok] by (auto simp: states_ok_def nth lock_ok_def)
  moreover have "coherent H s'"
    using cache_okD(5) [OF ok] c(2) by (auto simp: coherent_def cc fl nth) (simp add: s'_def)
  moreover have "\<exists>xs. ring (bufs s') xs" using ring_upd [of s] ok by (simp add: s'_def cache_ok_def)
  moreover have "unique_blocks s'" using ok by (simp add: cache_ok_def unique_blocks_def cc)
  ultimately show ok': "cache_ok H s'" by (simp add: cache_ok_def)
  show "content s' = (content s)(bn := d)"
  proof
    fix bn'
    show "content s' bn' = ((content s)(bn := d)) bn'"
    proof (cases "bn' = bn")
      case True
      then show ?thesis using content_hit [OF ok', of bn b] c by (simp add: cc nth)
    next
      case False
      show ?thesis
      proof (cases "\<exists>i. cached s bn' i \<and> bflags (bufs s ! i) \<noteq> 0")
        case True
        then obtain i where i: "cached s bn' i" "bflags (bufs s ! i) \<noteq> 0" by blast
        then have "i \<noteq> b" using False c(1) by (auto simp: cached_def)
        then show ?thesis using content_hit [OF ok i] content_hit [OF ok', of bn' i] i False by (simp add: cc nth)
      next
        case none: False
        have "content s' bn' = memdisk s' bn'" using none by (intro content_miss) (auto simp: cc fl)
        moreover have "content s bn' = memdisk s bn'" using none by (intro content_miss) auto
        ultimately show ?thesis using False by (simp add: s'_def)
      qed
    qed
  qed
qed

lemma bwrite_keeps:
  fixes s :: "'a bcache_scheme"
  assumes ok: "cache_ok H s" and c: "cached s bn b" "b \<in> H" "bflags (bufs s ! b) \<noteq> 0" and lt: "bn < disksize s"
  defines "s' \<equiv> s\<lparr>bufs := (bufs s)[b := (bufs s ! b)\<lparr>bflags := B_VALID\<rparr>],
    memdisk := (memdisk s)(bn := bdata (bufs s ! b)), writes := writes s @ [(bn, bdata (bufs s ! b))]\<rparr>"
  shows "bwrite b s = Inr ((), s')" "cache_ok H s'" "content s' = content s" "pinned s' = pinned s - {bn}"
    "cached s' = cached s"
proof -
  have b: "b < length (bufs s)" "b < NBUF" "bdev (bufs s ! b) = 1" "blockno (bufs s ! b) = bn"
    using c cache_okD(1) [OF ok] by (auto simp: cached_def)
  have lk: "slocked (block_lk (bufs s ! b)) \<noteq> 0" using cache_okD(4) [OF ok b(2)] c(2) by (simp add: lock_ok_def)
  have f: "bflags (bufs s ! b) = B_VALID \<or> bflags (bufs s ! b) = B_BOTH"
    using cache_okD(3) [OF ok b(2)] c(3) by auto
  have f2: "bflags (bufs s ! b) OR B_DIRTY = B_BOTH" using f by auto
  show "bwrite b s = Inr ((), s')"
    using b lk lt unfolding s'_def
    by (simp add: bwrite_def iderw_def buf_at_def holdingsleep_def upd_buf_def f2 Let_def not_le)
  have nth: "bufs s' ! i = (if i = b then (bufs s ! b)\<lparr>bflags := B_VALID\<rparr> else bufs s ! i)" for i
    using b by (simp add: s'_def nth_list_update)
  show cc: "cached s' = cached s" by (auto simp: fun_eq_iff cached_def nth)
  have fl: "bflags (bufs s' ! i) = (if i = b then B_VALID else bflags (bufs s ! i))" for i by (simp add: nth)
  have md: "memdisk s' = (memdisk s)(bn := bdata (bufs s ! b))" by (simp add: s'_def)
  have none_else: "i = b \<longleftrightarrow> bn' = bn" if "cached s bn' i" for bn' i
    using c(1) that cache_okD(2) [OF ok c(1), of i] by (metis cached_def)
  have "states_ok H s'" using cache_okD(3,4) [OF ok] by (auto simp: states_ok_def nth lock_ok_def)
  moreover have "coherent H s'"
    unfolding coherent_def cc
  proof (intro allI impI)
    fix bn' i assume i: "cached s bn' i" "i \<notin> H" "bflags (bufs s' ! i) = B_VALID"
    then have "i \<noteq> b" using c(2) by auto
    then show "bdata (bufs s' ! i) = memdisk s' bn'"
      using cache_okD(5) [OF ok i(1,2)] i(3) none_else [OF i(1)] by (simp add: nth md)
  qed
  moreover have "\<exists>xs. ring (bufs s') xs" using ring_upd [of s] ok by (simp add: s'_def cache_ok_def)
  moreover have "unique_blocks s'" using ok by (simp add: cache_ok_def unique_blocks_def cc)
  ultimately show ok': "cache_ok H s'" by (simp add: cache_ok_def)
  show "pinned s' = pinned s - {bn}"
    unfolding pinned_def cc fl using none_else by auto
  show "content s' = content s"
  proof
    fix bn'
    show "content s' bn' = content s bn'"
    proof (cases "\<exists>i. cached s bn' i \<and> bflags (bufs s ! i) \<noteq> 0")
      case True
      then obtain i where i: "cached s bn' i" "bflags (bufs s ! i) \<noteq> 0" by blast
      then show ?thesis using content_hit [OF ok i] content_hit [OF ok', of bn' i] by (simp add: cc nth)
    next
      case none: False
      then have ne: "bn' \<noteq> bn" using c by auto
      have "content s' bn' = memdisk s' bn'" using none ne none_else by (intro content_miss) (auto simp: cc fl)
      moreover have "content s bn' = memdisk s bn'" using none by (intro content_miss) auto
      ultimately show ?thesis using ne by (simp add: md)
    qed
  qed
qed

lemma brelse_keeps:
  fixes s :: "'a bcache_scheme"
  assumes ok: "cache_ok H s" and c: "cached s bn b" "b \<in> H"
    and clean: "bflags (bufs s ! b) = B_VALID \<Longrightarrow> bdata (bufs s ! b) = memdisk s bn"
  shows "\<exists>bs. brelse b s = Inr ((), s\<lparr>bufs := bs\<rparr>) \<and> cache_ok (H - {b}) (s\<lparr>bufs := bs\<rparr>)
    \<and> (\<forall>i<NBUF. same_view (bs ! i) (bufs s ! i))"
proof -
  have b: "b < length (bufs s)" "b < NBUF" using c cache_okD(1) [OF ok] by (auto simp: cached_def)
  have lk: "slocked (block_lk (bufs s ! b)) \<noteq> 0" "refcnt (bufs s ! b) = 1"
    using cache_okD(4) [OF ok b(2)] c(2) by (simp_all add: lock_ok_def)
  let ?x = "(bufs s ! b)\<lparr>block_lk := releasesleep (block_lk (bufs s ! b)), refcnt := 0\<rparr>"
  define s1 where "s1 = s\<lparr>bufs := (bufs s)[b := ?x]\<rparr>"
  define s2 where "s2 = link_front b (unlink b s1)"
  have run: "brelse b s = Inr ((), s2)"
    using lk b unfolding s2_def s1_def by (simp add: brelse_def buf_at_def holdingsleep_def upd_buf_def Let_def)
  have frame: "s2 = s\<lparr>bufs := bufs s2\<rparr>"
    unfolding s2_def by (subst links_frame(2), subst links_frame(1)) (simp add: s1_def)
  have nth1: "bufs s1 ! i = (if i = b then ?x else bufs s ! i)" for i
    using b by (simp add: s1_def nth_list_update)
  have eq: "core (bufs s2 ! i) = core (bufs s1 ! i)" for i unfolding s2_def by (simp add: links_core)
  have view: "same_view (bufs s2 ! i) (bufs s ! i)" for i
    using core_fields [OF eq [of i]] by (simp add: same_view_def nth1)
  have lock2: "lock_ok h (bufs s2 ! i) = lock_ok h (bufs s1 ! i)" for h i
    using core_fields [OF eq [of i]] by (simp add: lock_ok_def)
  have cc: "cached s2 = cached s" using view view_cong(1) [of s2 s] frame
    by (auto simp: cached_def fun_eq_iff same_view_def)
  obtain xs where "ring (bufs s1) xs"
    using ring_upd [of s ?x b] ok by (auto simp: s1_def cache_ok_def)
  then have "\<exists>xs. ring (bufs s2) xs" using ring_move_front [OF _ b(2)] unfolding s2_def by blast
  moreover have "unique_blocks s2" using ok by (simp add: cache_ok_def unique_blocks_def cc)
  moreover have "states_ok (H - {b}) s2"
    using cache_okD(3,4) [OF ok] view unfolding states_ok_def lock2
    by (auto simp: same_view_def nth1 lock_ok_def releasesleep_def)
  moreover have "coherent (H - {b}) s2"
  proof -
    have "memdisk s2 = memdisk s" by (subst frame) simp
    moreover have "bdata (bufs s ! i) = memdisk s bn'"
      if i: "cached s bn' i" "i \<notin> H - {b}" "bflags (bufs s ! i) = B_VALID" for bn' i
    proof (cases "i = b")
      case True
      then show ?thesis using clean i(1,3) c(1) by (simp add: cached_def)
    next
      case False
      then show ?thesis using cache_okD(5) [OF ok i(1)] i(2,3) by simp
    qed
    ultimately show ?thesis using view unfolding coherent_def cc same_view_def by simp
  qed
  ultimately have "cache_ok (H - {b}) s2" by (simp add: cache_ok_def)
  then show ?thesis using run view frame by (intro exI [of _ "bufs s2"]) (metis)
qed

text \<open>Dirty buffers stay; the others can be reused.\<close>

definition dirty_ix :: "'a bcache_scheme \<Rightarrow> nat set" where
  "dirty_ix s = {i. i < NBUF \<and> bflags (bufs s ! i) = B_BOTH}"

lemma dirty_ix_view:
  "(\<And>i. i < NBUF \<Longrightarrow> bflags (bufs s' ! i) = bflags (bufs s ! i)) \<Longrightarrow> dirty_ix s' = dirty_ix s"
  by (auto simp: dirty_ix_def)

lemma finite_dirty_ix [simp]: "finite (dirty_ix s)"
  by (rule finite_subset [of _ "{..<NBUF}"]) (auto simp: dirty_ix_def)

lemma read_into_dirty:
  assumes "cache_ok H s" "read_into H s bn b x"
  shows "dirty_ix (s\<lparr>bufs := (bufs s)[b := x]\<rparr>) = dirty_ix s"
proof -
  have "bflags x = B_BOTH \<longleftrightarrow> bflags (bufs s ! b) = B_BOTH"
    using assms(2) by (auto simp: read_into_def reusable_def split: if_splits)
  then show ?thesis using cache_okD(1) [OF assms(1)] assms(2)
    by (auto simp: dirty_ix_def nth_list_update read_into_def)
qed

lemma clean_exists:
  assumes "cache_ok H s" "card (dirty_ix s) + card H < NBUF" "finite H"
  shows "\<exists>i. reusable H s i"
proof -
  have "card (dirty_ix s \<union> H) < card {..<NBUF}"
    using assms(2) card_Un_le [of "dirty_ix s" H] by simp
  then have "\<not> {..<NBUF} \<subseteq> dirty_ix s \<union> H"
    using card_mono [of "dirty_ix s \<union> H" "{..<NBUF}"] assms(3) by auto
  then obtain i where "i < NBUF" "i \<notin> dirty_ix s" "i \<notin> H" by auto
  then show ?thesis using cache_okD(3) [OF assms(1), of i] by (auto simp: reusable_def dirty_ix_def)
qed

lemma obtainable_clean:
  assumes "cache_ok H s" "card (dirty_ix s) + card H < NBUF" "finite H" "bn < disksize s"
    "\<And>i. cached s bn i \<Longrightarrow> i \<notin> H"
  shows "obtainable H s bn"
  using clean_exists [OF assms(1-3)] assms(4,5) unfolding obtainable_def by blast

lemma obtainable_pinned:
  assumes "bn \<in> pinned s" "bn < disksize s" "\<And>i. cached s bn i \<Longrightarrow> i \<notin> H"
  shows "obtainable H s bn"
  using assms unfolding obtainable_def pinned_def by blast

lemma read_into_clean:
  assumes ok: "cache_ok H s" and r: "read_into H s bn b x" and "bflags x = B_VALID"
  shows "bdata x = memdisk s bn"
proof -
  have "content s bn = memdisk s bn"
  proof (cases "cached s bn b \<and> bflags (bufs s ! b) \<noteq> 0")
    case True
    then have "bflags (bufs s ! b) = B_VALID"
      using cache_okD(3) [OF ok, of b] r assms(3) by (auto simp: read_into_def split: if_splits)
    then show ?thesis
      using content_hit [OF ok, of bn b] cache_okD(5) [OF ok, of bn b] True r by (simp add: read_into_def)
  next
    case False
    then have "bflags (bufs s ! i) = 0" if "cached s bn i" for i
      using r that cache_okD(2) [OF ok that, of b] by (auto simp: read_into_def)
    then show ?thesis by (rule content_miss)
  qed
  then show ?thesis using r by (simp add: read_into_def)
qed

text \<open>Both buffers of a copy are read: \<open>m\<close> first, then \<open>n\<close>.\<close>

lemma two_reads:
  fixes s :: "'a bcache_scheme"
  assumes ok: "cache_ok {} s" and ne: "m \<noteq> n" and lt: "m < disksize s" "n < disksize s"
    and room: "card (dirty_ix s) < NBUF" "n \<in> pinned s \<or> card (dirty_ix s) + 1 < NBUF"
  shows "\<exists>b c bs. bread 1 m s = Inr (b, s\<lparr>bufs := fst bs\<rparr>) \<and> bread 1 n (s\<lparr>bufs := fst bs\<rparr>) = Inr (c, s\<lparr>bufs := snd bs\<rparr>)
    \<and> b \<noteq> c \<and> cache_ok {b, c} (s\<lparr>bufs := snd bs\<rparr>) \<and> content (s\<lparr>bufs := snd bs\<rparr>) = content s
    \<and> pinned (s\<lparr>bufs := snd bs\<rparr>) = pinned s \<and> dirty_ix (s\<lparr>bufs := snd bs\<rparr>) = dirty_ix s
    \<and> cached (s\<lparr>bufs := snd bs\<rparr>) m b \<and> cached (s\<lparr>bufs := snd bs\<rparr>) n c
    \<and> bflags (snd bs ! b) \<noteq> 0 \<and> bflags (snd bs ! c) \<noteq> 0
    \<and> bdata (snd bs ! b) = content s m \<and> bdata (snd bs ! c) = content s n
    \<and> (bflags (snd bs ! b) = B_VALID \<longrightarrow> bdata (snd bs ! b) = memdisk s m)
    \<and> (bflags (snd bs ! c) = B_VALID \<longrightarrow> bdata (snd bs ! c) = memdisk s n)"
proof -
  have "obtainable {} s m" using obtainable_clean [OF ok] room(1) lt(1) by simp
  then obtain b x where 1: "bread 1 m s = Inr (b, s\<lparr>bufs := (bufs s)[b := x]\<rparr>)" "read_into {} s m b x"
    using bread_returns [OF ok] by blast
  define bs1 where "bs1 = (bufs s)[b := x]"
  let ?s1 = "s\<lparr>bufs := bs1\<rparr>"
  note k1 = read_into_keeps [OF ok 1(2), folded bs1_def] and d1 = read_into_dirty [OF ok 1(2), folded bs1_def]
  have other: "i \<notin> {b}" if "cached ?s1 n i" for i using that k1(4) ne by (auto simp: cached_def)
  have "obtainable {b} ?s1 n"
    using room(2)
  proof
    assume "n \<in> pinned s"
    then show ?thesis using k1(3) lt(2) other by (intro obtainable_pinned) auto
  next
    assume "card (dirty_ix s) + 1 < NBUF"
    then show ?thesis using obtainable_clean [OF k1(1), of n] d1 lt(2) other by simp
  qed
  then obtain c y where 2: "bread 1 n ?s1 = Inr (c, ?s1\<lparr>bufs := bs1[c := y]\<rparr>)" "read_into {b} ?s1 n c y"
    using bread_returns [OF k1(1), of n] by auto
  define bs2 where "bs2 = bs1[c := y]"
  have upd: "?s1\<lparr>bufs := bs1[c := y]\<rparr> = s\<lparr>bufs := bs2\<rparr>" by (simp add: bs2_def)
  have r2: "read_into {b} ?s1 n c y" using 2 by simp
  note k2 = read_into_keeps [OF k1(1) r2, simplified, folded bs2_def]
    and d2 = read_into_dirty [OF k1(1) r2, simplified, folded bs2_def]
  have bc: "b \<noteq> c" using r2 by (auto simp: read_into_def)
  then have nth: "bs2 ! b = bs1 ! b" by (simp add: bs2_def)
  have cb: "cached (s\<lparr>bufs := bs2\<rparr>) m b" "bflags (bs2 ! b) \<noteq> 0" using k1(4,5) nth by (auto simp: cached_def)
  have "bdata (bs2 ! b) = content s m" "bdata (bs2 ! c) = content s n"
    using content_hit [OF k2(1) cb(1)] content_hit [OF k2(1) k2(4)] k2(2,5) cb(2) k1(2) by simp_all
  moreover have "bflags (bs2 ! b) = B_VALID \<longrightarrow> bdata (bs2 ! b) = memdisk s m"
    using read_into_clean [OF ok 1(2)] 1(2) nth cache_okD(1) [OF ok] by (simp add: bs1_def read_into_def)
  moreover have "bflags (bs2 ! c) = B_VALID \<longrightarrow> bdata (bs2 ! c) = memdisk s n"
    using read_into_clean [OF k1(1) r2] r2 cache_okD(1) [OF k1(1)] by (simp add: bs2_def read_into_def)
  ultimately show ?thesis
    using 1(1) 2(1) bc k2 d2 k1(2,3) d1 cb unfolding upd bs1_def [symmetric]
    by (intro exI [of _ b] exI [of _ c] exI [of _ "(bs1, bs2)"]) (simp add: insert_commute)
qed

text \<open>The outcome of writing \<open>d\<close> to block \<open>bn\<close> through the cache, with all buffers free before and after.\<close>

definition wrote :: "'a bcache_scheme \<Rightarrow> u32 \<Rightarrow> block \<Rightarrow> 'a bcache_scheme \<Rightarrow> bool" where
  "wrote s bn d s' \<longleftrightarrow>
     (\<exists>bs. s' = s\<lparr>bufs := bs, memdisk := (memdisk s)(bn := d), writes := writes s @ [(bn, d)]\<rparr>)
     \<and> cache_ok {} s' \<and> content s' = (content s)(bn := d) \<and> pinned s' = pinned s - {bn} \<and> dirty_ix s' \<subseteq> dirty_ix s"

lemma release_held:
  fixes s :: "'a bcache_scheme"
  assumes "cache_ok H s" "cached s bn b" "b \<in> H" "bflags (bufs s ! b) = B_VALID \<Longrightarrow> bdata (bufs s ! b) = memdisk s bn"
  shows "\<exists>bs. brelse b s = Inr ((), s\<lparr>bufs := bs\<rparr>) \<and> cache_ok (H - {b}) (s\<lparr>bufs := bs\<rparr>)
    \<and> cached (s\<lparr>bufs := bs\<rparr>) = cached s \<and> content (s\<lparr>bufs := bs\<rparr>) = content s \<and> pinned (s\<lparr>bufs := bs\<rparr>) = pinned s
    \<and> dirty_ix (s\<lparr>bufs := bs\<rparr>) = dirty_ix s \<and> (\<forall>i<NBUF. same_view (bs ! i) (bufs s ! i))"
proof -
  obtain bs where bs: "brelse b s = Inr ((), s\<lparr>bufs := bs\<rparr>)" "cache_ok (H - {b}) (s\<lparr>bufs := bs\<rparr>)"
    "\<forall>i<NBUF. same_view (bs ! i) (bufs s ! i)" using brelse_keeps [OF assms] by blast
  then show ?thesis
    using view_cong [of "s\<lparr>bufs := bs\<rparr>" s] dirty_ix_view [of "s\<lparr>bufs := bs\<rparr>" s]
    by (intro exI [of _ bs]) (simp add: same_view_def)
qed

lemma write_back:
  fixes s :: "'a bcache_scheme" and d :: block
  assumes ok: "cache_ok H s" and x: "cached s dst x" "x \<in> H" "bflags (bufs s ! x) \<noteq> 0" "dst < disksize s"
  defines "s1 \<equiv> s\<lparr>bufs := (bufs s)[x := (bufs s ! x)\<lparr>bdata := d\<rparr>]\<rparr>"
  shows "\<exists>bs. bwrite x s1 = Inr ((), s\<lparr>bufs := bs, memdisk := (memdisk s)(dst := d), writes := writes s @ [(dst, d)]\<rparr>)
    \<and> (let s2 = s\<lparr>bufs := bs, memdisk := (memdisk s)(dst := d), writes := writes s @ [(dst, d)]\<rparr>
       in cache_ok H s2 \<and> content s2 = (content s)(dst := d) \<and> pinned s2 = pinned s - {dst} \<and> dirty_ix s2 \<subseteq> dirty_ix s
         \<and> cached s2 = cached s \<and> bdata (bs ! x) = d \<and> (\<forall>i. i \<noteq> x \<longrightarrow> bs ! i = bufs s ! i))"
proof -
  note o = overwrite_keeps [OF ok x(1-3), of d, folded s1_def]
  have b: "x < length (bufs s)" using x(1) cache_okD(1) [OF ok] by (simp add: cached_def)
  have c1: "cached s1 dst x" "bflags (bufs s1 ! x) \<noteq> 0" "dst < disksize s1"
    using o(4,5) x by (simp_all add: s1_def)
  note w = bwrite_keeps [OF o(1) c1(1) x(2) c1(2,3)]
  let ?bs = "(bufs s1)[x := (bufs s1 ! x)\<lparr>bflags := B_VALID\<rparr>]"
  have eq: "s1\<lparr>bufs := ?bs, memdisk := (memdisk s1)(dst := bdata (bufs s1 ! x)),
      writes := writes s1 @ [(dst, bdata (bufs s1 ! x))]\<rparr>
    = s\<lparr>bufs := ?bs, memdisk := (memdisk s)(dst := d), writes := writes s @ [(dst, d)]\<rparr>"
    using b by (simp add: s1_def)
  have "dirty_ix (s\<lparr>bufs := ?bs, memdisk := (memdisk s)(dst := d), writes := writes s @ [(dst, d)]\<rparr>) \<subseteq> dirty_ix s"
    using b by (auto simp: dirty_ix_def s1_def nth_list_update split: if_splits)
  then show ?thesis
    using w [unfolded eq] o b by (intro exI [of _ ?bs]) (simp add: s1_def Let_def)
qed

lemma copy_finish:
  fixes s :: "'a bcache_scheme"
  assumes ok: "cache_ok {x, y} s" and ne: "x \<noteq> y" and c: "cached s dst x" "cached s src y"
    and f: "bflags (bufs s ! x) \<noteq> 0" and lt: "dst < disksize s"
    and clean: "bflags (bufs s ! y) = B_VALID \<longrightarrow> bdata (bufs s ! y) = memdisk s src"
  shows "\<exists>s2 s3 s4. bwrite x (s\<lparr>bufs := (bufs s)[x := (bufs s ! x)\<lparr>bdata := d\<rparr>]\<rparr>) = Inr ((), s2)
    \<and> brelse y s2 = Inr ((), s3) \<and> brelse x s3 = Inr ((), s4) \<and> wrote s dst d s4"
proof -
  have dn: "src \<noteq> dst" using c ne cache_okD(2) [OF ok c(1), of y] by metis
  obtain bs where w: "bwrite x (s\<lparr>bufs := (bufs s)[x := (bufs s ! x)\<lparr>bdata := d\<rparr>]\<rparr>)
        = Inr ((), s\<lparr>bufs := bs, memdisk := (memdisk s)(dst := d), writes := writes s @ [(dst, d)]\<rparr>)"
    and s2: "let s2 = s\<lparr>bufs := bs, memdisk := (memdisk s)(dst := d), writes := writes s @ [(dst, d)]\<rparr>
       in cache_ok {x, y} s2 \<and> content s2 = (content s)(dst := d) \<and> pinned s2 = pinned s - {dst} \<and> dirty_ix s2 \<subseteq> dirty_ix s
         \<and> cached s2 = cached s \<and> bdata (bs ! x) = d \<and> (\<forall>i. i \<noteq> x \<longrightarrow> bs ! i = bufs s ! i)"
    using write_back [OF ok c(1) _ f lt, of d] by blast
  define t where "t = s\<lparr>bufs := bs, memdisk := (memdisk s)(dst := d), writes := writes s @ [(dst, d)]\<rparr>"
  have t: "cache_ok {x, y} t" "content t = (content s)(dst := d)" "pinned t = pinned s - {dst}"
    "dirty_ix t \<subseteq> dirty_ix s" "cached t = cached s" "bdata (bufs t ! x) = d" "bufs t ! y = bufs s ! y"
    "memdisk t = (memdisk s)(dst := d)"
    using s2 ne by (simp_all add: t_def Let_def)
  have cy: "cached t src y" "cached t dst x" using c t(5) by simp_all
  obtain bs3 where r3: "brelse y t = Inr ((), t\<lparr>bufs := bs3\<rparr>)" "cache_ok ({x, y} - {y}) (t\<lparr>bufs := bs3\<rparr>)"
      "cached (t\<lparr>bufs := bs3\<rparr>) = cached t" "content (t\<lparr>bufs := bs3\<rparr>) = content t" "pinned (t\<lparr>bufs := bs3\<rparr>) = pinned t"
      "dirty_ix (t\<lparr>bufs := bs3\<rparr>) = dirty_ix t" "\<forall>i<NBUF. same_view (bs3 ! i) (bufs t ! i)"
    using release_held [OF t(1) cy(1)] clean dn t(7,8) by auto
  define u where "u = t\<lparr>bufs := bs3\<rparr>"
  have xl: "x < NBUF" using c(1) by (simp add: cached_def)
  have ux: "cache_ok {x} u" "cached u dst x" "bdata (bufs u ! x) = memdisk u dst"
  proof -
    have "{x, y} - {y} = {x}" using ne by auto
    then show "cache_ok {x} u" using r3(2) by (simp add: u_def)
    show "cached u dst x" using r3(3) cy(2) by (simp add: u_def)
    show "bdata (bufs u ! x) = memdisk u dst" using r3(7) xl t(6,8) by (simp add: u_def same_view_def)
  qed
  obtain bs4 where r4: "brelse x u = Inr ((), u\<lparr>bufs := bs4\<rparr>)" "cache_ok ({x} - {x}) (u\<lparr>bufs := bs4\<rparr>)"
      "content (u\<lparr>bufs := bs4\<rparr>) = content u" "pinned (u\<lparr>bufs := bs4\<rparr>) = pinned u" "dirty_ix (u\<lparr>bufs := bs4\<rparr>) = dirty_ix u"
    using release_held [OF ux(1,2)] ux(3) by blast
  have "wrote s dst d (u\<lparr>bufs := bs4\<rparr>)"
    unfolding wrote_def using r4(2-) r3(4-6) t(2-4)
    by (intro conjI exI [of _ bs4]) (simp_all add: u_def [symmetric], simp add: u_def t_def)
  then show ?thesis using w r3(1) r4(1) unfolding t_def [symmetric] u_def [symmetric]
    by (intro exI [of _ t] exI [of _ u] exI [of _ "u\<lparr>bufs := bs4\<rparr>"]) simp
qed

lemma one_read:
  fixes s :: "'a bcache_scheme"
  assumes ok: "cache_ok {} s" and lt: "m < disksize s" and room: "card (dirty_ix s) < NBUF"
  shows "\<exists>b bs. bread 1 m s = Inr (b, s\<lparr>bufs := bs\<rparr>) \<and> cache_ok {b} (s\<lparr>bufs := bs\<rparr>)
    \<and> content (s\<lparr>bufs := bs\<rparr>) = content s \<and> pinned (s\<lparr>bufs := bs\<rparr>) = pinned s \<and> dirty_ix (s\<lparr>bufs := bs\<rparr>) = dirty_ix s
    \<and> cached (s\<lparr>bufs := bs\<rparr>) m b \<and> bflags (bs ! b) \<noteq> 0 \<and> bdata (bs ! b) = content s m
    \<and> (bflags (bs ! b) = B_VALID \<longrightarrow> bdata (bs ! b) = memdisk s m)"
proof -
  have "obtainable {} s m" using obtainable_clean [OF ok] room lt by simp
  then obtain b x where 1: "bread 1 m s = Inr (b, s\<lparr>bufs := (bufs s)[b := x]\<rparr>)" "read_into {} s m b x"
    using bread_returns [OF ok] by blast
  note k = read_into_keeps [OF ok 1(2)] read_into_dirty [OF ok 1(2)]
  have "(bufs s)[b := x] ! b = x" using 1(2) cache_okD(1) [OF ok] by (simp add: read_into_def)
  then show ?thesis using 1 k read_into_clean [OF ok 1(2)]
    by (intro exI [of _ b] exI [of _ "(bufs s)[b := x]"]) (simp add: read_into_def)
qed

lemma write_finish:
  fixes s :: "'a bcache_scheme"
  assumes ok: "cache_ok {x} s" and c: "cached s dst x" and f: "bflags (bufs s ! x) \<noteq> 0" and lt: "dst < disksize s"
  shows "\<exists>s2 s4. bwrite x (s\<lparr>bufs := (bufs s)[x := (bufs s ! x)\<lparr>bdata := d\<rparr>]\<rparr>) = Inr ((), s2)
    \<and> brelse x s2 = Inr ((), s4) \<and> wrote s dst d s4"
proof -
  obtain bs where w: "bwrite x (s\<lparr>bufs := (bufs s)[x := (bufs s ! x)\<lparr>bdata := d\<rparr>]\<rparr>)
        = Inr ((), s\<lparr>bufs := bs, memdisk := (memdisk s)(dst := d), writes := writes s @ [(dst, d)]\<rparr>)"
    and s2: "let s2 = s\<lparr>bufs := bs, memdisk := (memdisk s)(dst := d), writes := writes s @ [(dst, d)]\<rparr>
       in cache_ok {x} s2 \<and> content s2 = (content s)(dst := d) \<and> pinned s2 = pinned s - {dst} \<and> dirty_ix s2 \<subseteq> dirty_ix s
         \<and> cached s2 = cached s \<and> bdata (bs ! x) = d \<and> (\<forall>i. i \<noteq> x \<longrightarrow> bs ! i = bufs s ! i)"
    using write_back [OF ok c _ f lt, of d] by blast
  define t where "t = s\<lparr>bufs := bs, memdisk := (memdisk s)(dst := d), writes := writes s @ [(dst, d)]\<rparr>"
  have t: "cache_ok {x} t" "content t = (content s)(dst := d)" "pinned t = pinned s - {dst}"
    "dirty_ix t \<subseteq> dirty_ix s" "cached t dst x" "bdata (bufs t ! x) = memdisk t dst"
    using s2 c by (simp_all add: t_def Let_def)
  obtain bs4 where r4: "brelse x t = Inr ((), t\<lparr>bufs := bs4\<rparr>)" "cache_ok ({x} - {x}) (t\<lparr>bufs := bs4\<rparr>)"
      "content (t\<lparr>bufs := bs4\<rparr>) = content t" "pinned (t\<lparr>bufs := bs4\<rparr>) = pinned t" "dirty_ix (t\<lparr>bufs := bs4\<rparr>) = dirty_ix t"
    using release_held [OF t(1,5)] t(6) by blast
  have "wrote s dst d (t\<lparr>bufs := bs4\<rparr>)"
    unfolding wrote_def using r4(2-) t(2-4)
    by (intro conjI exI [of _ bs4]) (simp_all add: t_def [symmetric], simp add: t_def)
  then show ?thesis using w r4(1) unfolding t_def [symmetric]
    by (intro exI [of _ t] exI [of _ "t\<lparr>bufs := bs4\<rparr>"]) simp
qed

text \<open>Reading a block and letting go of it changes only which buffers hold what.\<close>

lemma read_and_release:
  fixes s :: "'a bcache_scheme"
  assumes ok: "cache_ok {b} s" and c: "cached s m b"
    and clean: "bflags (bufs s ! b) = B_VALID \<longrightarrow> bdata (bufs s ! b) = memdisk s m"
  shows "\<exists>bs. brelse b s = Inr ((), s\<lparr>bufs := bs\<rparr>) \<and> cache_ok {} (s\<lparr>bufs := bs\<rparr>)
    \<and> content (s\<lparr>bufs := bs\<rparr>) = content s \<and> pinned (s\<lparr>bufs := bs\<rparr>) = pinned s \<and> dirty_ix (s\<lparr>bufs := bs\<rparr>) = dirty_ix s"
proof -
  have "{b} - {b} = {}" by simp
  then show ?thesis using release_held [OF ok c, of] clean by fastforce
qed

section \<open>Initialisation\<close>

lemma link_new:
  assumes "length (bufs s) = NBUF + 1" "segment (nx_of (bufs s)) (pv_of (bufs s)) head ws head"
    "b < NBUF" "b \<notin> set ws" "set ws \<subseteq> {..<NBUF}" "distinct ws"
  shows "segment (nx_of (bufs (link_front b s))) (pv_of (bufs (link_front b s))) head (b # ws) head"
proof -
  have "nx_of (bufs s) head \<in> set (ws @ [head])"
    using segment_first [OF assms(2)] hd_in_set [of "ws @ [head]"] by simp
  then have "nx_of (bufs s) head < length (bufs s)" "nx_of (bufs s) head \<noteq> b" using assms by auto
  then show ?thesis
    using links_front [of b s] segment_insert [OF assms(2), of b] assms by (auto simp: nx_of_def)
qed

lemma links_same_fields:
  assumes "core y = core x"
  shows "core (y\<lparr>block_lk := k\<rparr>) = core (x\<lparr>block_lk := k\<rparr>)"
  using assms by (cases x; cases y) (simp add: core_def)

definition init_step :: "'a bcache_scheme \<Rightarrow> nat \<Rightarrow> 'a bcache_scheme" where
  "init_step s b = link_front b (upd_buf b (\<lambda>x. x\<lparr>block_lk := initsleeplock ''buffer''\<rparr>) s)"

lemma init_step_keeps:
  assumes "length (bufs s) = NBUF + 1" "segment (nx_of (bufs s)) (pv_of (bufs s)) head ws head"
    "b < NBUF" "b \<notin> set ws" "set ws \<subseteq> {..<NBUF}" "distinct ws"
  shows "length (bufs (init_step s b)) = NBUF + 1"
    "segment (nx_of (bufs (init_step s b))) (pv_of (bufs (init_step s b))) head (b # ws) head"
    "core (bufs (init_step s b) ! i) = core (if i = b then (bufs s ! b)\<lparr>block_lk := initsleeplock ''buffer''\<rparr> else bufs s ! i)"
proof -
  let ?t = "upd_buf b (\<lambda>x. x\<lparr>block_lk := initsleeplock ''buffer''\<rparr>) s"
  show "length (bufs (init_step s b)) = NBUF + 1" using assms(1) by (simp add: init_step_def links_frame(4))
  have "nx_of (bufs ?t) = nx_of (bufs s)" "pv_of (bufs ?t) = pv_of (bufs s)"
    using assms(1,3) by (auto simp: nx_of_def pv_of_def fun_eq_iff nth_list_update)
  then show "segment (nx_of (bufs (init_step s b))) (pv_of (bufs (init_step s b))) head (b # ws) head"
    unfolding init_step_def using assms by (intro link_new) simp_all
  show "core (bufs (init_step s b) ! i) = core (if i = b then (bufs s ! b)\<lparr>block_lk := initsleeplock ''buffer''\<rparr> else bufs s ! i)"
    using assms(1,3) by (simp add: init_step_def links_core nth_list_update)
qed

lemma init_loop:
  assumes "length (bufs s) = NBUF + 1" "segment (nx_of (bufs s)) (pv_of (bufs s)) head [] head" "k \<le> NBUF"
  shows "length (bufs (foldl init_step s [0..<k])) = NBUF + 1
    \<and> segment (nx_of (bufs (foldl init_step s [0..<k]))) (pv_of (bufs (foldl init_step s [0..<k]))) head (rev [0..<k]) head
    \<and> (\<forall>i. core (bufs (foldl init_step s [0..<k]) ! i) =
        core (if i < k then (bufs s ! i)\<lparr>block_lk := initsleeplock ''buffer''\<rparr> else bufs s ! i))"
  using assms(3)
proof (induction k)
  case 0
  then show ?case using assms by simp
next
  case (Suc k)
  let ?t = "foldl init_step s [0..<k]"
  have IH: "length (bufs ?t) = NBUF + 1" "segment (nx_of (bufs ?t)) (pv_of (bufs ?t)) head (rev [0..<k]) head"
    "\<And>i. core (bufs ?t ! i) = core (if i < k then (bufs s ! i)\<lparr>block_lk := initsleeplock ''buffer''\<rparr> else bufs s ! i)"
    using Suc by auto
  have "k < NBUF" "k \<notin> set (rev [0..<k])" "set (rev [0..<k]) \<subseteq> {..<NBUF}" "distinct (rev [0..<k])"
    using Suc.prems by auto
  note step = init_step_keeps [OF IH(1,2) this]
  have "core (bufs (init_step ?t k) ! i) =
      core (if i < Suc k then (bufs s ! i)\<lparr>block_lk := initsleeplock ''buffer''\<rparr> else bufs s ! i)" for i
    using step(3) [of i] IH(3) [of i] links_same_fields [of "bufs ?t ! k" "bufs s ! k"] IH(3) [of k]
    by (auto simp: less_Suc_eq)
  then show ?case using step(1,2) by simp
qed

text \<open>
  On the zeroed buffers of the kernel image \<^verbatim>\<open>binit\<close> establishes the invariant of the cache with no buffer
  held and none dirty, so that a read sees the disk.
\<close>

lemma binit_cache_ok:
  fixes s :: "'a bcache_scheme"
  assumes "length (bufs s) = NBUF + 1" "\<forall>i<NBUF. bflags (bufs s ! i) = 0 \<and> bdev (bufs s ! i) = 0 \<and> refcnt (bufs s ! i) = 0"
  shows "cache_ok {} (binit s)" "dirty_ix (binit s) = {}" "content (binit s) = memdisk s"
    "\<exists>bs. binit s = s\<lparr>bufs := bs\<rparr>" "\<not> cached (binit s) bn i"
proof -
  define s0 where "s0 = upd_buf head (\<lambda>x. x\<lparr>bprev := head, bnext := head\<rparr>) s"
  have s0: "length (bufs s0) = NBUF + 1" "segment (nx_of (bufs s0)) (pv_of (bufs s0)) head [] head"
    using assms(1) by (simp_all add: s0_def nx_of_def pv_of_def)
  have bi: "binit s = foldl init_step s0 [0..<NBUF]"
    by (simp add: binit_def s0_def Let_def init_step_def [abs_def])
  note L = init_loop [OF s0, of NBUF, folded bi, simplified]
  have ring: "ring (bufs (binit s)) (rev [0..<NBUF])" using L by (auto simp: ring_def)
  have f: "bflags (bufs (binit s) ! i) = 0 \<and> bdev (bufs (binit s) ! i) = 0 \<and> lock_ok False (bufs (binit s) ! i)" if "i < NBUF" for i
  proof -
    have "core (bufs (binit s) ! i) = core ((bufs s0 ! i)\<lparr>block_lk := initsleeplock ''buffer''\<rparr>)" using L that by simp
    from core_fields [OF this] show ?thesis
      using assms that by (simp add: s0_def lock_ok_def initsleeplock_def)
  qed
  have none: "\<not> cached (binit s) bn i" for bn i using f by (auto simp: cached_def)
  then show "\<not> cached (binit s) bn i" .
  have frame: "\<exists>bs. foldl init_step u xs = u\<lparr>bufs := bs\<rparr>" for u :: "'a bcache_scheme" and xs
  proof (induction xs arbitrary: u)
    case Nil
    show ?case by (rule exI [of _ "bufs u"]) simp
  next
    case (Cons x xs)
    have "init_step u x = u\<lparr>bufs := bufs (init_step u x)\<rparr>"
      unfolding init_step_def by (subst links_frame(2)) (simp add: upd_buf_bufs)
    then obtain bs where "init_step u x = u\<lparr>bufs := bs\<rparr>" by blast
    then show ?case using Cons [of "init_step u x"] by auto
  qed
  show fr: "\<exists>bs. binit s = s\<lparr>bufs := bs\<rparr>" unfolding bi using frame [of s0] by (auto simp: s0_def upd_buf_def)
  then have "memdisk (binit s) = memdisk s" by auto
  then show "content (binit s) = memdisk s" using none content_miss [of "binit s"] by (auto simp: fun_eq_iff)
  show "cache_ok {} (binit s)"
    using ring f none by (auto simp: cache_ok_def unique_blocks_def states_ok_def coherent_def)
  show "dirty_ix (binit s) = {}" using f by (auto simp: dirty_ix_def)
qed

text \<open>
  Claim C22. \<^verbatim>\<open>bread\<close> of a block of the disk, when the block is cached in a buffer that is not held or a buffer can be
  reused, returns a locked buffer with the current contents of the block; it writes nothing, evicts no
  dirty buffer and keeps the contents of every other block, so that the cache is transparent.
\<close>

theorem bread_transparent:
  fixes s :: "'a bcache_scheme"
  assumes "cache_ok H s" "obtainable H s bn"
  shows "\<exists>b t. bread 1 bn s = Inr (b, t) \<and> b \<notin> H \<and> cache_ok (insert b H) t \<and> cached t bn b
    \<and> bdata (bufs t ! b) = content s bn \<and> content t = content s \<and> pinned t = pinned s
    \<and> memdisk t = memdisk s \<and> writes t = writes s"
proof -
  obtain b x where r: "bread 1 bn s = Inr (b, s\<lparr>bufs := (bufs s)[b := x]\<rparr>)" "read_into H s bn b x"
    using bread_returns [OF assms] by blast
  let ?t = "s\<lparr>bufs := (bufs s)[b := x]\<rparr>"
  note k = read_into_keeps [OF assms(1) r(2)]
  have "bdata (bufs ?t ! b) = content s bn" using content_hit [OF k(1,4,5)] k(2) by simp
  moreover have "b \<notin> H" using r(2) by (simp add: read_into_def)
  ultimately show ?thesis using r(1) k by (intro exI [of _ b] exI [of _ ?t]) simp
qed

definition zero_buf :: buf where
  "zero_buf = \<lparr>bflags = 0, bdev = 0, blockno = 0, block_lk = \<lparr>slocked = 0, sname = [], spid = 0\<rparr>, refcnt = 0,
     bprev = 0, bnext = 0, bdata = []\<rparr>"

definition zero_bufs :: "buf list" where
  "zero_bufs = replicate (NBUF + 1) zero_buf"

lemma zero_bufs_ok:
  "length zero_bufs = NBUF + 1"
  "\<forall>i<NBUF. bflags (zero_bufs ! i) = 0 \<and> bdev (zero_bufs ! i) = 0 \<and> refcnt (zero_bufs ! i) = 0"
  by (auto simp: zero_bufs_def zero_buf_def nth_Cons' simp flip: replicate_Suc)

definition small_disk :: bcache where
  "small_disk = \<lparr>bufs = zero_bufs, memdisk = (\<lambda>bn. [ucast bn]), disksize = 100, writes = [], curpid = 1\<rparr>"

theorem bread_transparent_witness:
  "obtainable {} (binit small_disk) 7 \<and> (\<exists>b t. bread 1 7 (binit small_disk) = Inr (b, t) \<and> bdata (bufs t ! b) = [7])"
proof -
  have z: "bufs small_disk = zero_bufs" "memdisk small_disk = (\<lambda>bn. [ucast bn])" by (simp_all add: small_disk_def)
  note i = binit_cache_ok [of small_disk, unfolded z, OF zero_bufs_ok]
  have "disksize (binit small_disk) = 100" using i(4) by (auto simp: small_disk_def)
  then have r: "obtainable {} (binit small_disk) 7" using i(1,2) by (intro obtainable_clean) (auto simp: NBUF_def)
  moreover have "content (binit small_disk) 7 = [7]" using i(3) by simp
  ultimately show ?thesis using bread_transparent [OF i(1) r] by auto
qed

end
