(* ===== verification/Log.thy ===== *)
theory Log
  imports Bio
begin

text \<open>
  The write-ahead log (\<^verbatim>\<open>xv6/log.c\<close>, and \<^verbatim>\<open>readsb\<close> of \<^verbatim>\<open>xv6/fs.c\<close> that it calls). Integers on disk are
  little-endian. An operation that would sleep for log space stops with \<open>Sleeps\<close>.
\<close>

unbundle bit_operations_syntax

section \<open>Integers in a block\<close>

definition get32 :: "block \<Rightarrow> nat \<Rightarrow> u32" where
  "get32 d i =
     ucast (d ! i) OR push_bit 8 (ucast (d ! (i + 1))) OR push_bit 16 (ucast (d ! (i + 2)))
       OR push_bit 24 (ucast (d ! (i + 3)))"

definition put32 :: "nat \<Rightarrow> u32 \<Rightarrow> block \<Rightarrow> block" where
  "put32 i v d =
     d[i := ucast v, i + 1 := ucast (drop_bit 8 v), i + 2 := ucast (drop_bit 16 v),
       i + 3 := ucast (drop_bit 24 v)]"

section \<open>State\<close>

definition MAXOPBLOCKS :: int where "MAXOPBLOCKS = 10"
definition LOGSIZE :: nat where "LOGSIZE = 30"

record superblock =
  sb_size :: u32
  sb_nblocks :: u32
  sb_ninodes :: u32
  sb_nlog :: u32
  sb_logstart :: u32
  sb_inodestart :: u32
  sb_bmapstart :: u32

text \<open>\<open>lh_n\<close> and \<open>lh_block\<close> are the in-memory log header.\<close>

record log = bcache +
  lstart :: u32
  lsize :: int
  outstanding :: int
  committing :: bool
  ldev :: u32
  lh_n :: int
  lh_block :: "u32 list"

definition data_of :: "nat \<Rightarrow> ('a log_scheme, block) op" where
  "data_of b = gets (\<lambda>s. bdata (buf_at b s))"

definition set_data :: "nat \<Rightarrow> (block \<Rightarrow> block) \<Rightarrow> ('a log_scheme, unit) op" where
  "set_data b f = modify (upd_buf b (\<lambda>x. x\<lparr>bdata := f (bdata x)\<rparr>))"

definition readsb :: "u32 \<Rightarrow> ('a log_scheme, superblock) op" where
  "readsb dev =
     bnd (bread dev 1) (\<lambda>bp.
     bnd (data_of bp) (\<lambda>d.
     bnd (brelse bp) (\<lambda>_.
       ret \<lparr>sb_size = get32 d 0, sb_nblocks = get32 d 4, sb_ninodes = get32 d 8, sb_nlog = get32 d 12,
            sb_logstart = get32 d 16, sb_inodestart = get32 d 20, sb_bmapstart = get32 d 24\<rparr>)))"

section \<open>Copying between the log and the home locations\<close>

text \<open>The loops run over the entries that are left, from entry \<open>tail\<close> on.\<close>

primrec install_loop :: "nat \<Rightarrow> nat \<Rightarrow> ('a log_scheme, unit) op" where
  "install_loop 0 tail = ret ()"
| "install_loop (Suc k) tail =
     bnd (gets (\<lambda>s. (ldev s, lstart s + of_nat tail + 1, lh_block s ! tail))) (\<lambda>(dev, lbn, dbn).
     bnd (bread dev lbn) (\<lambda>lbuf.
     bnd (bread dev dbn) (\<lambda>dbuf.
     bnd (data_of lbuf) (\<lambda>d.
     bnd (set_data dbuf (\<lambda>_. d)) (\<lambda>_.
     bnd (bwrite dbuf) (\<lambda>_.
     bnd (brelse lbuf) (\<lambda>_.
     bnd (brelse dbuf) (\<lambda>_. install_loop k (tail + 1)))))))))"

definition install_trans :: "('a log_scheme, unit) op" where
  "install_trans = bnd (gets lh_n) (\<lambda>n. install_loop (nat n) 0)"

primrec write_log_loop :: "nat \<Rightarrow> nat \<Rightarrow> ('a log_scheme, unit) op" where
  "write_log_loop 0 tail = ret ()"
| "write_log_loop (Suc k) tail =
     bnd (gets (\<lambda>s. (ldev s, lstart s + of_nat tail + 1, lh_block s ! tail))) (\<lambda>(dev, lbn, dbn).
     bnd (bread dev lbn) (\<lambda>to.
     bnd (bread dev dbn) (\<lambda>from.
     bnd (data_of from) (\<lambda>d.
     bnd (set_data to (\<lambda>_. d)) (\<lambda>_.
     bnd (bwrite to) (\<lambda>_.
     bnd (brelse from) (\<lambda>_.
     bnd (brelse to) (\<lambda>_. write_log_loop k (tail + 1)))))))))"

definition write_log :: "('a log_scheme, unit) op" where
  "write_log = bnd (gets lh_n) (\<lambda>n. write_log_loop (nat n) 0)"

section \<open>The header block\<close>

text \<open>
  Copying the entries of a header block into the in-memory header. Nothing checks the count that is
  read from the disk against the size of the array: the model stops where the code would write past
  its end.
\<close>

primrec read_entries :: "nat \<Rightarrow> nat \<Rightarrow> block \<Rightarrow> u32 list \<Rightarrow> u32 list res" where
  "read_entries 0 i d bl = Inr bl"
| "read_entries (Suc k) i d bl =
     (if i \<ge> LOGSIZE then Inl (Fault ''log.lh.block'')
      else read_entries k (i + 1) d (bl[i := get32 d (4 + 4 * i)]))"

definition read_head :: "('a log_scheme, unit) op" where
  "read_head =
     bnd (gets (\<lambda>s. (ldev s, lstart s))) (\<lambda>(dev, st).
     bnd (bread dev st) (\<lambda>b.
     bnd (data_of b) (\<lambda>d.
     bnd (modify (\<lambda>s. s\<lparr>lh_n := sint (get32 d 0)\<rparr>)) (\<lambda>_.
     bnd (\<lambda>s. bindE (read_entries (nat (lh_n s)) 0 d (lh_block s)) (\<lambda>bl. Inr ((), s\<lparr>lh_block := bl\<rparr>))) (\<lambda>_.
       brelse b)))))"

primrec put_entries :: "nat \<Rightarrow> nat \<Rightarrow> u32 list \<Rightarrow> block \<Rightarrow> block" where
  "put_entries 0 i bl d = d"
| "put_entries (Suc k) i bl d = put_entries k (i + 1) bl (put32 (4 + 4 * i) (bl ! i) d)"

definition write_head :: "('a log_scheme, unit) op" where
  "write_head =
     bnd (gets (\<lambda>s. (ldev s, lstart s))) (\<lambda>(dev, st).
     bnd (bread dev st) (\<lambda>b.
     bnd (gets (\<lambda>s. (lh_n s, lh_block s))) (\<lambda>(n, bl).
     bnd (set_data b (\<lambda>d. put_entries (nat n) 0 bl (put32 0 (of_int n) d))) (\<lambda>_.
     bnd (bwrite b) (\<lambda>_. brelse b)))))"

section \<open>Transactions\<close>

definition recover_from_log :: "('a log_scheme, unit) op" where
  "recover_from_log =
     bnd read_head (\<lambda>_.
     bnd install_trans (\<lambda>_.
     bnd (modify (\<lambda>s. s\<lparr>lh_n := 0\<rparr>)) (\<lambda>_. write_head)))"

text \<open>
  \<^verbatim>\<open>initlog\<close>; the size of the header (\<open>4 + 4 * LOGSIZE\<close> bytes) is compared with the block size.
\<close>

definition initlog :: "u32 \<Rightarrow> ('a log_scheme, unit) op" where
  "initlog dev =
     (if 4 + 4 * LOGSIZE \<ge> BSIZE then stop (Panic ''initlog: too big logheader'')
      else bnd (readsb dev) (\<lambda>sb.
           bnd (modify (\<lambda>s. s\<lparr>lstart := sb_logstart sb, lsize := sint (sb_nlog sb), ldev := dev\<rparr>)) (\<lambda>_.
             recover_from_log)))"

definition begin_op :: "('a log_scheme, unit) op" where
  "begin_op s =
     (if committing s then Inl (Sleeps ''log'')
      else if lh_n s + (outstanding s + 1) * MAXOPBLOCKS > int LOGSIZE then Inl (Sleeps ''log'')
      else Inr ((), s\<lparr>outstanding := outstanding s + 1\<rparr>))"

definition commit :: "('a log_scheme, unit) op" where
  "commit =
     bnd (gets lh_n) (\<lambda>n.
       if n > 0
       then bnd write_log (\<lambda>_.
            bnd write_head (\<lambda>_.
            bnd install_trans (\<lambda>_.
            bnd (modify (\<lambda>s. s\<lparr>lh_n := 0\<rparr>)) (\<lambda>_. write_head))))
       else ret ())"

definition end_op :: "('a log_scheme, unit) op" where
  "end_op =
     bnd (modify (\<lambda>s. s\<lparr>outstanding := outstanding s - 1\<rparr>)) (\<lambda>_.
     bnd (gets committing) (\<lambda>c.
       if c then stop (Panic ''log.committing'')
       else bnd (gets outstanding) (\<lambda>n.
         if n = 0
         then bnd (modify (\<lambda>s. s\<lparr>committing := True\<rparr>)) (\<lambda>_.
              bnd commit (\<lambda>_. modify (\<lambda>s. s\<lparr>committing := False\<rparr>)))
         else ret ())))"

text \<open>The search of \<^verbatim>\<open>log_write\<close>: the first entry with the block number, else the end.\<close>

definition log_slot :: "u32 list \<Rightarrow> nat \<Rightarrow> u32 \<Rightarrow> nat" where
  "log_slot bl n bn = (case List.find (\<lambda>i. bl ! i = bn) [0..<n] of Some i \<Rightarrow> i | None \<Rightarrow> n)"

definition log_write :: "nat \<Rightarrow> ('a log_scheme, unit) op" where
  "log_write b s =
     (if lh_n s \<ge> int LOGSIZE \<or> lh_n s \<ge> lsize s - 1 then Inl (Panic ''too big a transaction'')
      else if outstanding s < 1 then Inl (Panic ''log_write outside of trans'')
      else let bn = blockno (buf_at b s);
               i = log_slot (lh_block s) (nat (lh_n s)) bn;
               s = s\<lparr>lh_block := (lh_block s)[i := bn]\<rparr>;
               s = (if int i = lh_n s then s\<lparr>lh_n := lh_n s + 1\<rparr> else s)
           in Inr ((), upd_buf b (\<lambda>x. x\<lparr>bflags := bflags x OR B_DIRTY\<rparr>) s))"

end
