(* ===== verification/LogCrash.thy ===== *)
theory LogCrash
  imports Log
begin

text \<open>
  Crash safety of the log: what \<^verbatim>\<open>commit\<close> and \<^verbatim>\<open>recover_from_log\<close> write to the disk, block by block, and that
  recovery after a crash between any two of these writes finds the old or the new state. The operations of
  \<open>Log\<close> run on the buffer cache of \<open>Bio\<close>, of which the lemmas on \<open>cache_ok\<close> are used.
\<close>

unbundle bit_operations_syntax

section \<open>Integers in blocks\<close>

lemma length_put32 [simp]: "length (put32 i v d) = length d"
  by (simp add: put32_def)

lemma get32_put32 [simp]:
  assumes "i + 3 < length d"
  shows "get32 (put32 i v d) i = v"
proof -
  have "ucast (ucast v :: u8) OR push_bit 8 (ucast (ucast (drop_bit 8 v) :: u8))
      OR push_bit 16 (ucast (ucast (drop_bit 16 v) :: u8)) OR push_bit 24 (ucast (ucast (drop_bit 24 v) :: u8)) = v"
    by (rule bytes_of_word)
  then show ?thesis using assms by (simp add: get32_def put32_def)
qed

lemma get32_put32_other [simp]:
  "i + 3 < j \<or> j + 3 < i \<Longrightarrow> get32 (put32 j v d) i = get32 d i"
  by (auto simp: get32_def put32_def nth_list_update_neq)

lemma length_put_entries [simp]: "length (put_entries k i bl d) = length d"
  by (induction k arbitrary: i d) simp_all

lemma put_entries_head [simp]: "get32 (put_entries k i bl d) 0 = get32 d 0"
  by (induction k arbitrary: i d) simp_all

lemma put_entries_get:
  "4 * (i + k) + 4 \<le> length d \<Longrightarrow>
    get32 (put_entries k i bl d) (4 + 4 * j) = (if i \<le> j \<and> j < i + k then bl ! j else get32 d (4 + 4 * j))"
proof (induction k arbitrary: i d)
  case (Suc k)
  have "get32 (put32 (4 + 4 * i) (bl ! i) d) (4 + 4 * j) = (if j = i then bl ! i else get32 d (4 + 4 * j))"
  proof (cases "j = i")
    case False
    then have "4 + 4 * j + 3 < 4 + 4 * i \<or> 4 + 4 * i + 3 < 4 + 4 * j" by arith
    then show ?thesis using False by simp
  qed (use Suc.prems in simp)
  then show ?case using Suc by auto
qed auto

lemma read_entries_returns:
  "i + k \<le> LOGSIZE \<Longrightarrow> length bl = LOGSIZE \<Longrightarrow>
    \<exists>bl'. read_entries k i d bl = Inr bl' \<and> length bl' = LOGSIZE \<and>
      (\<forall>j. bl' ! j = (if i \<le> j \<and> j < i + k then get32 d (4 + 4 * j) else bl ! j))"
proof (induction k arbitrary: i bl)
  case (Suc k)
  then obtain bl' where bl': "read_entries k (i + 1) d (bl[i := get32 d (4 + 4 * i)]) = Inr bl'" "length bl' = LOGSIZE"
      "\<forall>j. bl' ! j = (if i + 1 \<le> j \<and> j < i + 1 + k then get32 d (4 + 4 * j) else bl[i := get32 d (4 + 4 * i)] ! j)"
    using Suc.IH [of "i + 1" "bl[i := get32 d (4 + 4 * i)]"] by auto
  then show ?case using Suc.prems by (intro exI [of _ bl']) (auto simp: nth_list_update)
qed auto

section \<open>Copying blocks\<close>

definition put_blocks :: "(u32 \<times> block) list \<Rightarrow> (u32 \<Rightarrow> block) \<Rightarrow> u32 \<Rightarrow> block" where
  "put_blocks ws m = foldl (\<lambda>m (bn, d). m(bn := d)) m ws"

lemma put_blocks_simps [simp]:
  "put_blocks [] m = m" "put_blocks ((bn, d) # ws) m = put_blocks ws (m(bn := d))"
  "put_blocks (vs @ ws) m = put_blocks ws (put_blocks vs m)"
  by (simp_all add: put_blocks_def)

lemma put_blocks_outside: "bn \<notin> fst ` set ws \<Longrightarrow> put_blocks ws m bn = m bn"
  by (induction ws arbitrary: m) auto

lemma put_blocks_inside:
  "distinct (map fst ws) \<Longrightarrow> (bn, d) \<in> set ws \<Longrightarrow> put_blocks ws m bn = d"
proof (induction ws arbitrary: m)
  case (Cons w ws)
  then show ?case by (cases w) (auto simp: put_blocks_outside rev_image_eqI)
qed simp

text \<open>A series of writes through the cache, as \<open>wrote\<close> is for one.\<close>

definition wrote_list :: "'a bcache_scheme \<Rightarrow> (u32 \<times> block) list \<Rightarrow> 'a bcache_scheme \<Rightarrow> bool" where
  "wrote_list s ws s' \<longleftrightarrow>
     (\<exists>bs. s' = s\<lparr>bufs := bs, memdisk := put_blocks ws (memdisk s), writes := writes s @ ws\<rparr>)
     \<and> cache_ok {} s' \<and> content s' = put_blocks ws (content s) \<and> pinned s' = pinned s - fst ` set ws
     \<and> dirty_ix s' \<subseteq> dirty_ix s"

lemma wrote_list_Nil: "cache_ok {} s \<Longrightarrow> wrote_list s [] s"
  by (auto simp: wrote_list_def intro: exI [of _ "bufs s"])

lemma wrote_list_Cons:
  assumes "wrote s bn d t" "wrote_list t ws s'"
  shows "wrote_list s ((bn, d) # ws) s'"
proof -
  obtain bs where t: "t = s\<lparr>bufs := bs, memdisk := (memdisk s)(bn := d), writes := writes s @ [(bn, d)]\<rparr>"
    using assms(1) by (auto simp: wrote_def)
  obtain bs' where s': "s' = t\<lparr>bufs := bs', memdisk := put_blocks ws (memdisk t), writes := writes t @ ws\<rparr>"
    using assms(2) by (auto simp: wrote_list_def)
  have "\<exists>bs. s' = s\<lparr>bufs := bs, memdisk := put_blocks ((bn, d) # ws) (memdisk s), writes := writes s @ (bn, d) # ws\<rparr>"
    by (rule exI [of _ bs']) (simp add: s' t)
  then show ?thesis using assms unfolding wrote_def wrote_list_def by (simp add: set_diff_eq) blast
qed

lemma wrote_list_append:
  assumes "wrote_list s vs t" "wrote_list t ws s'"
  shows "wrote_list s (vs @ ws) s'"
proof -
  obtain bs where t: "t = s\<lparr>bufs := bs, memdisk := put_blocks vs (memdisk s), writes := writes s @ vs\<rparr>"
    using assms(1) by (auto simp: wrote_list_def)
  obtain bs' where s': "s' = t\<lparr>bufs := bs', memdisk := put_blocks ws (memdisk t), writes := writes t @ ws\<rparr>"
    using assms(2) by (auto simp: wrote_list_def)
  have "\<exists>bs. s' = s\<lparr>bufs := bs, memdisk := put_blocks (vs @ ws) (memdisk s), writes := writes s @ vs @ ws\<rparr>"
    by (rule exI [of _ bs']) (simp add: s' t)
  then show ?thesis using assms unfolding wrote_list_def by (simp add: set_diff_eq) blast
qed

lemma wrote_fields:
  fixes s :: "'a log_scheme"
  assumes "wrote s bn d t"
  shows "lstart t = lstart s" "lsize t = lsize s" "outstanding t = outstanding s" "committing t = committing s" "ldev t = ldev s"
    "lh_n t = lh_n s" "lh_block t = lh_block s" "disksize t = disksize s"
  using assms by (auto simp: wrote_def)

lemma wrote_list_fields:
  fixes s :: "'a log_scheme"
  assumes "wrote_list s ws t"
  shows "lstart t = lstart s" "lsize t = lsize s" "outstanding t = outstanding s" "committing t = committing s" "ldev t = ldev s"
    "lh_n t = lh_n s" "lh_block t = lh_block s" "disksize t = disksize s" "memdisk t = put_blocks ws (memdisk s)"
    "writes t = writes s @ ws"
  using assms by (auto simp: wrote_list_def)

lemma write_log_step:
  fixes s :: "'a log_scheme"
  assumes ok: "cache_ok {} s" "ldev s = 1" and ne: "lh_block s ! i \<noteq> lstart s + of_nat i + 1"
    and lt: "lh_block s ! i < disksize s" "lstart s + of_nat i + 1 < disksize s"
    and room: "card (dirty_ix s) < NBUF" "lh_block s ! i \<in> pinned s"
  shows "\<exists>t. write_log_loop (Suc k) i s = write_log_loop k (i + 1) t
    \<and> wrote s (lstart s + of_nat i + 1) (content s (lh_block s ! i)) t"
proof -
  let ?m = "lstart s + of_nat i + 1" and ?n = "lh_block s ! i"
  obtain b c bs where r: "bread 1 ?m s = Inr (b, s\<lparr>bufs := fst bs\<rparr>)"
      "bread 1 ?n (s\<lparr>bufs := fst bs\<rparr>) = Inr (c, s\<lparr>bufs := snd bs\<rparr>)" "b \<noteq> c" "cache_ok {b, c} (s\<lparr>bufs := snd bs\<rparr>)"
      "content (s\<lparr>bufs := snd bs\<rparr>) = content s" "pinned (s\<lparr>bufs := snd bs\<rparr>) = pinned s"
      "dirty_ix (s\<lparr>bufs := snd bs\<rparr>) = dirty_ix s" "cached (s\<lparr>bufs := snd bs\<rparr>) ?m b" "cached (s\<lparr>bufs := snd bs\<rparr>) ?n c"
      "bflags (snd bs ! b) \<noteq> 0" "bflags (snd bs ! c) \<noteq> 0" "bdata (snd bs ! c) = content s ?n"
      "bflags (snd bs ! c) = B_VALID \<longrightarrow> bdata (snd bs ! c) = memdisk s ?n"
    using two_reads [OF ok(1) not_sym [OF ne] lt(2,1) room(1)] room(2) by blast
  let ?s = "s\<lparr>bufs := snd bs\<rparr>" and ?d = "content s ?n"
  obtain s2 s3 s4 where w: "bwrite b (?s\<lparr>bufs := (bufs ?s)[b := (bufs ?s ! b)\<lparr>bdata := ?d\<rparr>]\<rparr>) = Inr ((), s2)"
      "brelse c s2 = Inr ((), s3)" "brelse b s3 = Inr ((), s4)" "wrote ?s ?m ?d s4"
    using copy_finish [OF r(4,3,8,9), of ?d] r(10,13) lt(2) by auto
  have "wrote s ?m ?d s4" using w(4) unfolding wrote_def by (auto simp: r(5-7))
  moreover have "write_log_loop (Suc k) i s = write_log_loop k (i + 1) s4"
    using r(1,2,12) w(1-3) ok(2) by (simp add: data_of_def set_data_def buf_at_def upd_buf_def)
  ultimately show ?thesis by blast
qed

lemma install_step:
  fixes s :: "'a log_scheme"
  assumes ok: "cache_ok {} s" "ldev s = 1" and ne: "lh_block s ! i \<noteq> lstart s + of_nat i + 1"
    and lt: "lh_block s ! i < disksize s" "lstart s + of_nat i + 1 < disksize s"
    and room: "card (dirty_ix s) < NBUF" "lh_block s ! i \<in> pinned s \<or> card (dirty_ix s) + 1 < NBUF"
  shows "\<exists>t. install_loop (Suc k) i s = install_loop k (i + 1) t
    \<and> wrote s (lh_block s ! i) (content s (lstart s + of_nat i + 1)) t"
proof -
  let ?m = "lstart s + of_nat i + 1" and ?n = "lh_block s ! i"
  obtain b c bs where r: "bread 1 ?m s = Inr (b, s\<lparr>bufs := fst bs\<rparr>)"
      "bread 1 ?n (s\<lparr>bufs := fst bs\<rparr>) = Inr (c, s\<lparr>bufs := snd bs\<rparr>)" "b \<noteq> c" "cache_ok {b, c} (s\<lparr>bufs := snd bs\<rparr>)"
      "content (s\<lparr>bufs := snd bs\<rparr>) = content s" "pinned (s\<lparr>bufs := snd bs\<rparr>) = pinned s"
      "dirty_ix (s\<lparr>bufs := snd bs\<rparr>) = dirty_ix s" "cached (s\<lparr>bufs := snd bs\<rparr>) ?m b" "cached (s\<lparr>bufs := snd bs\<rparr>) ?n c"
      "bflags (snd bs ! b) \<noteq> 0" "bflags (snd bs ! c) \<noteq> 0" "bdata (snd bs ! b) = content s ?m"
      "bflags (snd bs ! b) = B_VALID \<longrightarrow> bdata (snd bs ! b) = memdisk s ?m"
    using two_reads [OF ok(1) not_sym [OF ne] lt(2,1) room] by blast
  let ?s = "s\<lparr>bufs := snd bs\<rparr>" and ?d = "content s ?m"
  have ok2: "cache_ok {c, b} ?s" using r(4) by (simp add: insert_commute)
  obtain s2 s3 s4 where w: "bwrite c (?s\<lparr>bufs := (bufs ?s)[c := (bufs ?s ! c)\<lparr>bdata := ?d\<rparr>]\<rparr>) = Inr ((), s2)"
      "brelse b s2 = Inr ((), s3)" "brelse c s3 = Inr ((), s4)" "wrote ?s ?n ?d s4"
    using copy_finish [OF ok2 not_sym [OF r(3)] r(9,8), of ?d] r(11,13) lt(1) by auto
  have "wrote s ?n ?d s4" using w(4) unfolding wrote_def by (auto simp: r(5-7))
  moreover have "install_loop (Suc k) i s = install_loop k (i + 1) s4"
    using r(1,2,12) w(1-3) ok(2) by (simp add: data_of_def set_data_def buf_at_def upd_buf_def)
  ultimately show ?thesis by blast
qed

text \<open>Where the entries \<open>i\<close> to \<open>j - 1\<close> of a header are, on the disk and apart from each other.\<close>

definition slot_of :: "'a log_scheme \<Rightarrow> nat \<Rightarrow> u32" where
  "slot_of s i = lstart s + of_nat i + 1"

definition entries_ok :: "nat set \<Rightarrow> 'a log_scheme \<Rightarrow> bool" where
  "entries_ok I s \<longleftrightarrow> ldev s = 1 \<and>
     (\<forall>i\<in>I. lh_block s ! i < disksize s \<and> slot_of s i < disksize s \<and> (\<forall>j\<in>I. lh_block s ! i \<noteq> slot_of s j))"

lemma entries_ok_cong:
  assumes "entries_ok I s" "J \<subseteq> I" "lstart t = lstart s" "ldev t = ldev s" "lh_block t = lh_block s" "disksize t = disksize s"
  shows "entries_ok J t"
  using assms by (auto simp: entries_ok_def slot_of_def)

lemma slot_of_wrote:
  fixes s :: "'a log_scheme"
  shows "wrote s bn d t \<Longrightarrow> slot_of t = slot_of s" "wrote_list s ws t \<Longrightarrow> slot_of t = slot_of s"
  by (simp_all add: slot_of_def fun_eq_iff wrote_fields wrote_list_fields)

lemma write_log_loop_spec:
  fixes s :: "'a log_scheme"
  assumes "cache_ok {} s" "entries_ok {i..<i + k} s" "card (dirty_ix s) < NBUF" "\<forall>j\<in>{i..<i + k}. lh_block s ! j \<in> pinned s"
  shows "\<exists>t. write_log_loop k i s = Inr ((), t)
    \<and> wrote_list s (map (\<lambda>j. (slot_of s j, content s (lh_block s ! j))) [i..<i + k]) t"
  using assms
proof (induction k arbitrary: i s)
  case 0
  then show ?case by (simp add: wrote_list_Nil)
next
  case (Suc k)
  have e: "ldev s = 1" "lh_block s ! i \<noteq> slot_of s i" "lh_block s ! i < disksize s" "slot_of s i < disksize s"
    "lh_block s ! i \<in> pinned s"
    using Suc.prems(2,4) by (auto simp: entries_ok_def)
  obtain t where t: "write_log_loop (Suc k) i s = write_log_loop k (i + 1) t"
      "wrote s (slot_of s i) (content s (lh_block s ! i)) t"
    using write_log_step [OF Suc.prems(1) e(1)] e Suc.prems(3) unfolding slot_of_def by blast
  note f = wrote_fields [OF t(2)]
  have ct: "content t = (content s)(slot_of s i := content s (lh_block s ! i))" "pinned t = pinned s - {slot_of s i}"
    "cache_ok {} t" "dirty_ix t \<subseteq> dirty_ix s" using t(2) by (simp_all add: wrote_def)
  have ne: "lh_block s ! j \<noteq> slot_of s i" if "j \<in> {i + 1..<i + 1 + k}" for j
    using Suc.prems(2) that by (auto simp: entries_ok_def)
  have "entries_ok {i + 1..<i + 1 + k} t" using Suc.prems(2) by (rule entries_ok_cong) (auto simp: f)
  moreover have "card (dirty_ix t) < NBUF"
    using card_mono [OF _ ct(4)] Suc.prems(3) by (meson finite_dirty_ix le_less_trans)
  moreover have "\<forall>j\<in>{i + 1..<i + 1 + k}. lh_block t ! j \<in> pinned t"
    using Suc.prems(4) ne by (auto simp: ct(2) f)
  ultimately obtain u where u: "write_log_loop k (i + 1) t = Inr ((), u)"
      "wrote_list t (map (\<lambda>j. (slot_of t j, content t (lh_block t ! j))) [i + 1..<i + 1 + k]) u"
    using Suc.IH [OF ct(3)] by blast
  have eq: "map (\<lambda>j. (slot_of t j, content t (lh_block t ! j))) [i + 1..<i + 1 + k]
      = map (\<lambda>j. (slot_of s j, content s (lh_block s ! j))) [i + 1..<i + 1 + k]"
  proof (rule map_cong [OF refl])
    fix j assume "j \<in> set [i + 1..<i + 1 + k]"
    then have "j \<in> {i + 1..<i + 1 + k}" by auto
    from ne [OF this] show "(slot_of t j, content t (lh_block t ! j)) = (slot_of s j, content s (lh_block s ! j))"
      by (simp add: ct(1) f slot_of_wrote(1) [OF t(2)])
  qed
  have "[i..<i + Suc k] = i # [i + 1..<i + 1 + k]" by (simp add: upt_conv_Cons)
  then show ?case using t(1) u(1) wrote_list_Cons [OF t(2) u(2) [unfolded eq]] by simp
qed

lemma install_loop_spec:
  fixes s :: "'a log_scheme"
  assumes "cache_ok {} s" "entries_ok {i..<i + k} s" "card (dirty_ix s) < NBUF"
    "(\<forall>j\<in>{i..<i + k}. lh_block s ! j \<in> pinned s) \<and> inj_on ((!) (lh_block s)) {i..<i + k} \<or> card (dirty_ix s) + 1 < NBUF"
  shows "\<exists>t. install_loop k i s = Inr ((), t)
    \<and> wrote_list s (map (\<lambda>j. (lh_block s ! j, content s (slot_of s j))) [i..<i + k]) t"
  using assms
proof (induction k arbitrary: i s)
  case 0
  then show ?case by (simp add: wrote_list_Nil)
next
  case (Suc k)
  have e: "ldev s = 1" "lh_block s ! i \<noteq> slot_of s i" "lh_block s ! i < disksize s" "slot_of s i < disksize s"
    using Suc.prems(2) by (auto simp: entries_ok_def)
  have room: "lh_block s ! i \<in> pinned s \<or> card (dirty_ix s) + 1 < NBUF" using Suc.prems(4) by auto
  obtain t where t: "install_loop (Suc k) i s = install_loop k (i + 1) t"
      "wrote s (lh_block s ! i) (content s (slot_of s i)) t"
    using install_step [OF Suc.prems(1) e(1)] e(2-) Suc.prems(3) room unfolding slot_of_def by blast
  note f = wrote_fields [OF t(2)]
  have ct: "content t = (content s)(lh_block s ! i := content s (slot_of s i))" "pinned t = pinned s - {lh_block s ! i}"
    "cache_ok {} t" "dirty_ix t \<subseteq> dirty_ix s" using t(2) by (simp_all add: wrote_def)
  have ne: "slot_of s j \<noteq> lh_block s ! i" if "j \<in> {i + 1..<i + 1 + k}" for j
  proof -
    have "i \<in> {i..<i + Suc k}" "j \<in> {i..<i + Suc k}" using that by auto
    then show ?thesis using Suc.prems(2) unfolding entries_ok_def by metis
  qed
  have "entries_ok {i + 1..<i + 1 + k} t" using Suc.prems(2) by (rule entries_ok_cong) (auto simp: f)
  moreover have le: "card (dirty_ix t) \<le> card (dirty_ix s)" by (rule card_mono [OF _ ct(4)]) simp
  moreover have "(\<forall>j\<in>{i + 1..<i + 1 + k}. lh_block t ! j \<in> pinned t) \<and> inj_on ((!) (lh_block t)) {i + 1..<i + 1 + k}
      \<or> card (dirty_ix t) + 1 < NBUF"
    using Suc.prems(4)
  proof
    assume a: "(\<forall>j\<in>{i..<i + Suc k}. lh_block s ! j \<in> pinned s) \<and> inj_on ((!) (lh_block s)) {i..<i + Suc k}"
    then have "lh_block s ! j \<noteq> lh_block s ! i" if "j \<in> {i + 1..<i + 1 + k}" for j
      using that by (auto dest: inj_onD)
    moreover have "inj_on ((!) (lh_block s)) {i + 1..<i + 1 + k}" using a by (auto intro: inj_on_subset)
    ultimately show ?thesis using a by (auto simp: ct(2) f)
  qed (use le in auto)
  ultimately obtain u where u: "install_loop k (i + 1) t = Inr ((), u)"
      "wrote_list t (map (\<lambda>j. (lh_block t ! j, content t (slot_of t j))) [i + 1..<i + 1 + k]) u"
    using Suc.IH [OF ct(3)] Suc.prems(3) by fastforce
  have eq: "map (\<lambda>j. (lh_block t ! j, content t (slot_of t j))) [i + 1..<i + 1 + k]
      = map (\<lambda>j. (lh_block s ! j, content s (slot_of s j))) [i + 1..<i + 1 + k]"
  proof (rule map_cong [OF refl])
    fix j assume "j \<in> set [i + 1..<i + 1 + k]"
    then have "j \<in> {i + 1..<i + 1 + k}" by auto
    from ne [OF this] show "(lh_block t ! j, content t (slot_of t j)) = (lh_block s ! j, content s (slot_of s j))"
      by (simp add: ct(1) f slot_of_wrote(1) [OF t(2)])
  qed
  have "[i..<i + Suc k] = i # [i + 1..<i + 1 + k]" by (simp add: upt_conv_Cons)
  then show ?case using t(1) u(1) wrote_list_Cons [OF t(2) u(2) [unfolded eq]] by simp
qed

text \<open>The header block that \<^verbatim>\<open>write_head\<close> stores over the old one \<open>d\<close>.\<close>

definition header :: "int \<Rightarrow> u32 list \<Rightarrow> block \<Rightarrow> block" where
  "header n bl d = put_entries (nat n) 0 bl (put32 0 (of_int n) d)"

lemma write_head_spec:
  fixes s :: "'a log_scheme"
  assumes ok: "cache_ok {} s" "ldev s = 1" "lstart s < disksize s" "card (dirty_ix s) < NBUF"
  shows "\<exists>t. write_head s = Inr ((), t)
    \<and> wrote_list s [(lstart s, header (lh_n s) (lh_block s) (content s (lstart s)))] t"
proof -
  obtain b bs where r: "bread 1 (lstart s) s = Inr (b, s\<lparr>bufs := bs\<rparr>)" "cache_ok {b} (s\<lparr>bufs := bs\<rparr>)"
      "content (s\<lparr>bufs := bs\<rparr>) = content s" "pinned (s\<lparr>bufs := bs\<rparr>) = pinned s" "dirty_ix (s\<lparr>bufs := bs\<rparr>) = dirty_ix s"
      "cached (s\<lparr>bufs := bs\<rparr>) (lstart s) b" "bflags (bs ! b) \<noteq> 0" "bdata (bs ! b) = content s (lstart s)"
    using one_read [OF ok(1,3,4)] by blast
  let ?s = "s\<lparr>bufs := bs\<rparr>" and ?d = "header (lh_n s) (lh_block s) (content s (lstart s))"
  obtain s2 s4 where w: "bwrite b (?s\<lparr>bufs := (bufs ?s)[b := (bufs ?s ! b)\<lparr>bdata := ?d\<rparr>]\<rparr>) = Inr ((), s2)"
      "brelse b s2 = Inr ((), s4)" "wrote ?s (lstart s) ?d s4"
    using write_finish [OF r(2,6), of ?d] r(7) ok(3) by auto
  have "wrote s (lstart s) ?d s4" using w(3) unfolding wrote_def by (auto simp: r(3-5))
  then have "wrote_list s [(lstart s, ?d)] s4"
    by (rule wrote_list_Cons) (use w(3) in \<open>simp add: wrote_list_Nil wrote_def\<close>)
  moreover have "write_head s = Inr ((), s4)"
    using r(1,8) w(1,2) ok(2) by (simp add: write_head_def set_data_def upd_buf_def header_def)
  ultimately show ?thesis by blast
qed

section \<open>What commit writes\<close>

lemma content_clean:
  assumes ok: "cache_ok {} s" and "bn \<notin> pinned s"
  shows "content s bn = memdisk s bn"
proof (cases "\<exists>i. cached s bn i \<and> bflags (bufs s ! i) \<noteq> 0")
  case True
  then obtain i where i: "cached s bn i" "bflags (bufs s ! i) \<noteq> 0" by blast
  then have "bflags (bufs s ! i) = B_VALID"
    using cache_okD(3) [OF ok, of i] assms(2) by (auto simp: cached_def pinned_def)
  then show ?thesis using content_hit [OF ok i] cache_okD(5) [OF ok i(1)] by simp
next
  case False
  then show ?thesis by (intro content_miss) auto
qed

definition log_area :: "'a log_scheme \<Rightarrow> u32 set" where
  "log_area s = insert (lstart s) (slot_of s ` {..<LOGSIZE})"

text \<open>
  The state \<^verbatim>\<open>commit\<close> runs in: no buffer is held, the blocks of the header are the pinned ones, they and the log
  lie on the disk apart from each other, the header on the disk is empty, and a buffer is left to read
  the log blocks into.
\<close>

definition log_ready :: "'a log_scheme \<Rightarrow> bool" where
  "log_ready s \<longleftrightarrow> cache_ok {} s \<and> 0 < lh_n s \<and> nat (lh_n s) \<le> LOGSIZE \<and> length (lh_block s) = LOGSIZE
     \<and> ldev s = 1 \<and> (\<forall>bn \<in> log_area s. bn < disksize s)
     \<and> (\<forall>j<nat (lh_n s). lh_block s ! j < disksize s \<and> lh_block s ! j \<notin> log_area s)
     \<and> distinct (take (nat (lh_n s)) (lh_block s)) \<and> pinned s = set (take (nat (lh_n s)) (lh_block s))
     \<and> card (dirty_ix s) < NBUF \<and> length (memdisk s (lstart s)) = BSIZE \<and> get32 (memdisk s (lstart s)) 0 = 0"

definition log_writes :: "'a log_scheme \<Rightarrow> (u32 \<times> block) list" where
  "log_writes s = map (\<lambda>j. (slot_of s j, content s (lh_block s ! j))) [0..<nat (lh_n s)]"

definition home_writes :: "'a log_scheme \<Rightarrow> (u32 \<times> block) list" where
  "home_writes s = map (\<lambda>j. (lh_block s ! j, content s (lh_block s ! j))) [0..<nat (lh_n s)]"

definition full_header :: "'a log_scheme \<Rightarrow> block" where
  "full_header s = header (lh_n s) (lh_block s) (memdisk s (lstart s))"

definition commit_writes :: "'a log_scheme \<Rightarrow> (u32 \<times> block) list" where
  "commit_writes s =
     log_writes s @ [(lstart s, full_header s)] @ home_writes s @ [(lstart s, header 0 (lh_block s) (full_header s))]"

lemma small_nat: "n \<le> LOGSIZE \<Longrightarrow> unat (of_nat n :: u32) = n"
  by (simp add: LOGSIZE_def unat_of_nat)

lemma slot_inj: "i < LOGSIZE \<Longrightarrow> j < LOGSIZE \<Longrightarrow> slot_of s i = slot_of s j \<longleftrightarrow> i = j"
  unfolding slot_of_def by (metis add_left_cancel add_right_cancel less_imp_le small_nat)

lemma slot_start: "j < LOGSIZE \<Longrightarrow> slot_of s j \<noteq> lstart s"
proof
  assume j: "j < LOGSIZE" and "slot_of s j = lstart s"
  then have "(of_nat (j + 1) :: u32) = 0" by (simp add: slot_of_def add.assoc add.commute)
  then have "unat (of_nat (j + 1) :: u32) = 0" by simp
  then show False using j small_nat [of "j + 1"] by simp
qed

lemma in_log_area: "lstart s \<in> log_area s" "j < LOGSIZE \<Longrightarrow> slot_of s j \<in> log_area s"
  by (simp_all add: log_area_def)

lemma log_readyD:
  assumes "log_ready s"
  shows "cache_ok {} s" "0 < lh_n s" "nat (lh_n s) \<le> LOGSIZE" "length (lh_block s) = LOGSIZE" "ldev s = 1"
    "card (dirty_ix s) < NBUF" "length (memdisk s (lstart s)) = BSIZE" "get32 (memdisk s (lstart s)) 0 = 0"
    "lstart s < disksize s" "entries_ok {0..<nat (lh_n s)} s" "inj_on ((!) (lh_block s)) {0..<nat (lh_n s)}"
    "pinned s = (!) (lh_block s) ` {0..<nat (lh_n s)}" "\<And>j. j < nat (lh_n s) \<Longrightarrow> lh_block s ! j \<notin> log_area s"
proof -
  note r = assms [unfolded log_ready_def]
  show "cache_ok {} s" "0 < lh_n s" "nat (lh_n s) \<le> LOGSIZE" "length (lh_block s) = LOGSIZE" "ldev s = 1"
    "card (dirty_ix s) < NBUF" "length (memdisk s (lstart s)) = BSIZE" "get32 (memdisk s (lstart s)) 0 = 0"
    "\<And>j. j < nat (lh_n s) \<Longrightarrow> lh_block s ! j \<notin> log_area s" using r by auto
  show "lstart s < disksize s" using r by (simp add: in_log_area)
  have slot: "slot_of s j \<in> log_area s" if "j < nat (lh_n s)" for j using r that by (simp add: in_log_area)
  have home: "lh_block s ! i < disksize s" "lh_block s ! i \<notin> log_area s" if "i < nat (lh_n s)" for i
    using r that by simp_all
  have low: "bn < disksize s" if "bn \<in> log_area s" for bn using r that by simp
  show "entries_ok {0..<nat (lh_n s)} s"
    unfolding entries_ok_def using r by (auto simp: home(1) low slot)
  show "pinned s = (!) (lh_block s) ` {0..<nat (lh_n s)}" using r by (simp add: nth_image [symmetric] atLeast0LessThan)
  show "inj_on ((!) (lh_block s)) {0..<nat (lh_n s)}"
  proof (rule inj_onI)
    fix x y assume "x \<in> {0..<nat (lh_n s)}" "y \<in> {0..<nat (lh_n s)}" "lh_block s ! x = lh_block s ! y"
    then show "x = y"
      using r nth_eq_iff_index_eq [of "take (nat (lh_n s)) (lh_block s)" x y] by simp
  qed
qed

lemma log_writes_at:
  assumes "log_ready s" "j < nat (lh_n s)"
  shows "put_blocks (log_writes s) m (slot_of s j) = content s (lh_block s ! j)"
proof (rule put_blocks_inside)
  have "inj_on (slot_of s) {0..<nat (lh_n s)}"
    using log_readyD(3) [OF assms(1)] slot_inj [of _ _ s] by (auto intro!: inj_onI)
  then show "distinct (map fst (log_writes s))" by (simp add: log_writes_def distinct_map o_def)
  show "(slot_of s j, content s (lh_block s ! j)) \<in> set (log_writes s)" using assms(2) by (auto simp: log_writes_def)
qed

lemma log_writes_fst: "fst ` set (log_writes s) = slot_of s ` {0..<nat (lh_n s)}"
  by (force simp: log_writes_def)

lemma home_writes_fst: "fst ` set (home_writes s) = (!) (lh_block s) ` {0..<nat (lh_n s)}"
  by (force simp: home_writes_def)

lemma cache_lh_n [simp]:
  fixes s :: "'a log_scheme"
  shows "cache_ok H (s\<lparr>lh_n := k\<rparr>) = cache_ok H s" "content (s\<lparr>lh_n := k\<rparr>) = content s" "pinned (s\<lparr>lh_n := k\<rparr>) = pinned s"
    "dirty_ix (s\<lparr>lh_n := k\<rparr>) = dirty_ix s"
proof -
  have c: "cached (s\<lparr>lh_n := k\<rparr>) = cached s" by (simp add: cached_def fun_eq_iff)
  show "cache_ok H (s\<lparr>lh_n := k\<rparr>) = cache_ok H s"
    by (simp add: cache_ok_def unique_blocks_def states_ok_def coherent_def c)
  show "content (s\<lparr>lh_n := k\<rparr>) = content s" by (simp add: content_def c fun_eq_iff split: option.split)
  show "pinned (s\<lparr>lh_n := k\<rparr>) = pinned s" by (simp add: pinned_def c)
  show "dirty_ix (s\<lparr>lh_n := k\<rparr>) = dirty_ix s" by (simp add: dirty_ix_def)
qed

lemma wrote_list_lh_n:
  fixes s :: "'a log_scheme"
  assumes "wrote_list s ws t"
  shows "wrote_list (s\<lparr>lh_n := k\<rparr>) ws (t\<lparr>lh_n := k\<rparr>)"
proof -
  obtain bs where t: "t = s\<lparr>bufs := bs, memdisk := put_blocks ws (memdisk s), writes := writes s @ ws\<rparr>"
    using assms by (auto simp: wrote_list_def)
  have "\<exists>bs. t\<lparr>lh_n := k\<rparr> = s\<lparr>lh_n := k, bufs := bs, memdisk := put_blocks ws (memdisk s), writes := writes s @ ws\<rparr>"
    by (rule exI [of _ bs]) (simp add: t)
  then show ?thesis using assms by (simp add: wrote_list_def)
qed

lemma log_ready_small:
  assumes "log_ready s" "wrote_list s ws t"
  shows "card (dirty_ix t) < NBUF"
proof -
  have "dirty_ix t \<subseteq> dirty_ix s" using assms(2) by (simp add: wrote_list_def)
  from card_mono [OF _ this] log_readyD(6) [OF assms(1)] show ?thesis by simp
qed

lemma header_not_written:
  assumes r: "log_ready s"
  shows "lstart s \<notin> fst ` set (log_writes s)" "lstart s \<notin> fst ` set (home_writes s)"
proof -
  note R = log_readyD [OF r]
  have "slot_of s j \<noteq> lstart s" if "j < nat (lh_n s)" for j using R(3) that by (intro slot_start) simp
  then show "lstart s \<notin> fst ` set (log_writes s)" unfolding log_writes_fst by force
  have "lh_block s ! j \<noteq> lstart s" if "j < nat (lh_n s)" for j
    using R(13) [OF that] in_log_area(1) [of s] by metis
  then show "lstart s \<notin> fst ` set (home_writes s)" unfolding home_writes_fst by force
qed

text \<open>The first half of a commit: the data go to the log slots, then the header names them.\<close>

lemma write_log_ready:
  fixes s :: "'a log_scheme"
  assumes r: "log_ready s"
  obtains t where "write_log s = Inr ((), t)" "wrote_list s (log_writes s) t"
    "pinned t = (!) (lh_block s) ` {0..<nat (lh_n s)}" "content t (lstart s) = memdisk s (lstart s)"
proof -
  note R = log_readyD [OF r]
  obtain t where t: "write_log s = Inr ((), t)" "wrote_list s (log_writes s) t"
    using write_log_loop_spec [of s 0 "nat (lh_n s)"] R by (auto simp: write_log_def log_writes_def)
  have c: "content t = put_blocks (log_writes s) (content s)" "pinned t = pinned s - fst ` set (log_writes s)"
    using t(2) by (simp_all add: wrote_list_def)
  have "((!) (lh_block s) ` {0..<nat (lh_n s)}) \<inter> slot_of s ` {0..<nat (lh_n s)} = {}"
    using R(10) by (force simp: entries_ok_def)
  then have "pinned t = (!) (lh_block s) ` {0..<nat (lh_n s)}"
    using c(2) by (simp add: log_writes_fst R(12) Diff_triv)
  moreover have "lstart s \<notin> pinned s" using R(12,13) in_log_area(1) [of s] by auto
  then have "content s (lstart s) = memdisk s (lstart s)" by (rule content_clean [OF R(1)])
  then have "content t (lstart s) = memdisk s (lstart s)"
    using header_not_written(1) [OF r] by (simp add: c(1) put_blocks_outside)
  ultimately show thesis using that t by blast
qed

lemma commit_point:
  fixes s :: "'a log_scheme"
  assumes r: "log_ready s"
  obtains t1 t where "write_log s = Inr ((), t1)" "write_head t1 = Inr ((), t)"
    "wrote_list s (log_writes s @ [(lstart s, full_header s)]) t"
    "content t = (put_blocks (log_writes s) (content s))(lstart s := full_header s)"
    "pinned t = (!) (lh_block s) ` {0..<nat (lh_n s)}"
proof -
  note R = log_readyD [OF r]
  obtain t1 where t1: "write_log s = Inr ((), t1)" "wrote_list s (log_writes s) t1"
      "pinned t1 = (!) (lh_block s) ` {0..<nat (lh_n s)}" "content t1 (lstart s) = memdisk s (lstart s)"
    by (rule write_log_ready [OF r])
  note f1 = wrote_list_fields [OF t1(2)]
  have c1: "cache_ok {} t1" "content t1 = put_blocks (log_writes s) (content s)"
    using t1(2) by (simp_all add: wrote_list_def)
  have g1: "ldev t1 = 1" "lstart t1 < disksize t1" using R(5,9) by (simp_all only: f1)
  obtain t where t: "write_head t1 = Inr ((), t)" "wrote_list t1 [(lstart s, full_header s)] t"
    using write_head_spec [OF c1(1) g1 log_ready_small [OF r t1(2)]]
    unfolding f1 t1(4) full_header_def [symmetric] by blast
  show thesis
  proof (rule that [OF t1(1) t(1) wrote_list_append [OF t1(2) t(2)]])
    show "content t = (put_blocks (log_writes s) (content s))(lstart s := full_header s)"
      "pinned t = (!) (lh_block s) ` {0..<nat (lh_n s)}"
      using t(2) c1(2) t1(3) header_not_written(2) [OF r, unfolded home_writes_fst]
      by (simp_all add: wrote_list_def)
  qed
qed

lemma commit_spec:
  fixes s :: "'a log_scheme"
  assumes r: "log_ready s"
  shows "\<exists>t. commit s = Inr ((), t) \<and> lh_n t = 0 \<and> wrote_list (s\<lparr>lh_n := 0\<rparr>) (commit_writes s) t"
proof -
  note R = log_readyD [OF r]
  let ?n = "nat (lh_n s)" and ?bl = "lh_block s"
  obtain t1 t2 where t2: "write_log s = Inr ((), t1)" "write_head t1 = Inr ((), t2)"
      and w2: "wrote_list s (log_writes s @ [(lstart s, full_header s)]) t2"
      and c2: "content t2 = (put_blocks (log_writes s) (content s))(lstart s := full_header s)"
        "pinned t2 = (!) ?bl ` {0..<?n}"
    by (rule commit_point [OF r])
  note f2 = wrote_list_fields [OF w2]
  have home: "map (\<lambda>j. (lh_block t2 ! j, content t2 (slot_of t2 j))) [0..<?n] = home_writes s"
    unfolding home_writes_def
  proof (rule map_cong [OF refl])
    fix j assume "j \<in> set [0..<?n]"
    then have j: "j < ?n" by simp
    then have "slot_of s j \<noteq> lstart s" using R(3) by (intro slot_start) simp
    then show "(lh_block t2 ! j, content t2 (slot_of t2 j)) = (?bl ! j, content s (?bl ! j))"
      using log_writes_at [OF r j] by (simp add: f2 c2(1) slot_of_wrote(2) [OF w2])
  qed
  have "cache_ok {} t2" using w2 by (simp add: wrote_list_def)
  moreover have "entries_ok {0..<0 + ?n} t2" by (rule entries_ok_cong [OF R(10)]) (auto simp: f2)
  ultimately obtain t3 where t3: "install_trans t2 = Inr ((), t3)" "wrote_list t2 (home_writes s) t3"
    using install_loop_spec [of t2 0 ?n] log_ready_small [OF r w2] R(11) c2(2) home
    by (auto simp: install_trans_def f2)
  note f3 = wrote_list_fields [OF t3(2)]
  have w3: "wrote_list s ((log_writes s @ [(lstart s, full_header s)]) @ home_writes s) t3"
    by (rule wrote_list_append [OF w2 t3(2)])
  have h3: "content t3 (lstart s) = full_header s"
    using t3(2) header_not_written(2) [OF r] by (simp add: wrote_list_def put_blocks_outside c2(1))
  have c3: "cache_ok {} (t3\<lparr>lh_n := 0\<rparr>)" using t3(2) by (simp add: wrote_list_def)
  have g3: "ldev (t3\<lparr>lh_n := 0\<rparr>) = 1" "lstart (t3\<lparr>lh_n := 0\<rparr>) < disksize (t3\<lparr>lh_n := 0\<rparr>)"
    "card (dirty_ix (t3\<lparr>lh_n := 0\<rparr>)) < NBUF"
    using R(5,9) log_ready_small [OF r w3] by (simp_all add: f2 f3)
  obtain t4 where t4: "write_head (t3\<lparr>lh_n := 0\<rparr>) = Inr ((), t4)"
      "wrote_list (t3\<lparr>lh_n := 0\<rparr>) [(lstart s, header 0 ?bl (full_header s))] t4"
    using write_head_spec [OF c3 g3] by (auto simp: f2 f3 h3)
  have "wrote_list (s\<lparr>lh_n := 0\<rparr>) (commit_writes s) t4"
    using wrote_list_append [OF wrote_list_lh_n [OF w3, of 0] t4(2)] by (simp add: commit_writes_def)
  moreover have "commit s = Inr ((), t4)"
    using R(2) t2 t3(1) t4(1) by (simp add: commit_def)
  moreover have "lh_n t4 = 0" using wrote_list_fields(6) [OF t4(2)] by simp
  ultimately show ?thesis by blast
qed

section \<open>Recovery\<close>

lemma cache_lh_block [simp]:
  fixes s :: "'a log_scheme"
  shows "cache_ok H (s\<lparr>lh_block := k\<rparr>) = cache_ok H s" "content (s\<lparr>lh_block := k\<rparr>) = content s"
    "pinned (s\<lparr>lh_block := k\<rparr>) = pinned s" "dirty_ix (s\<lparr>lh_block := k\<rparr>) = dirty_ix s" "cached (s\<lparr>lh_block := k\<rparr>) = cached s"
proof -
  show c: "cached (s\<lparr>lh_block := k\<rparr>) = cached s" by (simp add: cached_def fun_eq_iff)
  show "cache_ok H (s\<lparr>lh_block := k\<rparr>) = cache_ok H s"
    by (simp add: cache_ok_def unique_blocks_def states_ok_def coherent_def c)
  show "content (s\<lparr>lh_block := k\<rparr>) = content s" by (simp add: content_def c fun_eq_iff split: option.split)
  show "pinned (s\<lparr>lh_block := k\<rparr>) = pinned s" by (simp add: pinned_def c)
  show "dirty_ix (s\<lparr>lh_block := k\<rparr>) = dirty_ix s" by (simp add: dirty_ix_def)
qed

lemma cached_lh_n [simp]: "cached ((s :: 'a log_scheme)\<lparr>lh_n := k\<rparr>) = cached s"
  by (simp add: cached_def fun_eq_iff)

lemma dirty_none:
  assumes "cache_ok {} s" "dirty_ix s = {}"
  shows "pinned s = {}" "content s = memdisk s"
proof -
  show "pinned s = {}" using assms(2) by (auto simp: pinned_def dirty_ix_def cached_def)
  then show "content s = memdisk s" using content_clean [OF assms(1)] by (auto simp: fun_eq_iff)
qed

lemma read_head_spec:
  fixes r :: "'a log_scheme"
  assumes ok: "cache_ok {} r" "dirty_ix r = {}" "ldev r = 1" "lstart r < disksize r" "length (lh_block r) = LOGSIZE"
    and n: "nat (sint (get32 (memdisk r (lstart r)) 0)) \<le> LOGSIZE"
  shows "\<exists>bs bl. read_head r = Inr ((), r\<lparr>bufs := bs, lh_n := sint (get32 (memdisk r (lstart r)) 0), lh_block := bl\<rparr>)
    \<and> cache_ok {} (r\<lparr>bufs := bs\<rparr>) \<and> dirty_ix (r\<lparr>bufs := bs\<rparr>) = {}
    \<and> (\<forall>j < nat (sint (get32 (memdisk r (lstart r)) 0)). bl ! j = get32 (memdisk r (lstart r)) (4 + 4 * j))"
proof -
  let ?d = "memdisk r (lstart r)"
  let ?n = "sint (get32 ?d 0)"
  obtain b bs where 1: "bread 1 (lstart r) r = Inr (b, r\<lparr>bufs := bs\<rparr>)" "cache_ok {b} (r\<lparr>bufs := bs\<rparr>)"
      "dirty_ix (r\<lparr>bufs := bs\<rparr>) = dirty_ix r" "cached (r\<lparr>bufs := bs\<rparr>) (lstart r) b" "bdata (bs ! b) = content r (lstart r)"
      "bflags (bs ! b) = B_VALID \<longrightarrow> bdata (bs ! b) = ?d"
    using one_read [OF ok(1,4)] ok(2) by (auto simp: NBUF_def)
  have d: "bdata (bs ! b) = ?d" using 1(5) dirty_none(2) [OF ok(1,2)] by simp
  obtain bl where bl: "read_entries (nat ?n) 0 ?d (lh_block r) = Inr bl"
      "\<forall>j < nat ?n. bl ! j = get32 ?d (4 + 4 * j)"
    using read_entries_returns [of 0 "nat ?n" "lh_block r" ?d] n ok(5) by auto
  let ?s = "r\<lparr>bufs := bs, lh_n := ?n, lh_block := bl\<rparr>"
  have "cache_ok {b} (r\<lparr>bufs := bs\<rparr>\<lparr>lh_n := ?n\<rparr>\<lparr>lh_block := bl\<rparr>)"
    "cached (r\<lparr>bufs := bs\<rparr>\<lparr>lh_n := ?n\<rparr>\<lparr>lh_block := bl\<rparr>) (lstart r) b"
    using 1(2,4) by (simp_all only: cache_lh_n cache_lh_block cached_lh_n)
  then have ok2: "cache_ok {b} ?s" "cached ?s (lstart r) b" by simp_all
  obtain cs where cs: "brelse b ?s = Inr ((), ?s\<lparr>bufs := cs\<rparr>)" "cache_ok {} (?s\<lparr>bufs := cs\<rparr>)"
      "dirty_ix (?s\<lparr>bufs := cs\<rparr>) = dirty_ix ?s"
    using read_and_release [OF ok2] 1(6) by auto
  have eq: "?s\<lparr>bufs := cs\<rparr> = r\<lparr>bufs := cs\<rparr>\<lparr>lh_n := ?n\<rparr>\<lparr>lh_block := bl\<rparr>" by simp
  have "cache_ok {} (r\<lparr>bufs := cs\<rparr>\<lparr>lh_n := ?n\<rparr>\<lparr>lh_block := bl\<rparr>)" using cs(2) by (simp only: eq)
  then have "cache_ok {} (r\<lparr>bufs := cs\<rparr>)" by (simp only: cache_lh_n cache_lh_block)
  moreover have "dirty_ix (r\<lparr>bufs := cs\<rparr>) = {}" using cs(3) 1(3) ok(2) by (simp add: dirty_ix_def)
  moreover have "read_head r = Inr ((), r\<lparr>bufs := cs, lh_n := ?n, lh_block := bl\<rparr>)"
    using 1(1) d bl(1) cs(1) ok(3) by (simp add: read_head_def data_of_def buf_at_def)
  ultimately show ?thesis using bl(2) by blast
qed

lemma recover_spec:
  fixes r :: "'a log_scheme"
  assumes ok: "cache_ok {} r" "dirty_ix r = {}" "ldev r = 1" "length (lh_block r) = LOGSIZE"
    and area: "\<forall>bn \<in> log_area r. bn < disksize r"
    and n: "nat (sint (get32 (memdisk r (lstart r)) 0)) \<le> LOGSIZE"
    and home: "\<forall>j < nat (sint (get32 (memdisk r (lstart r)) 0)).
      get32 (memdisk r (lstart r)) (4 + 4 * j) < disksize r \<and> get32 (memdisk r (lstart r)) (4 + 4 * j) \<notin> log_area r"
  shows "\<exists>u. recover_from_log r = Inr ((), u) \<and> lh_n u = 0 \<and> cache_ok {} u
    \<and> (\<forall>bn. bn \<notin> log_area r \<longrightarrow> memdisk u bn = put_blocks
        (map (\<lambda>j. (get32 (memdisk r (lstart r)) (4 + 4 * j), memdisk r (slot_of r j)))
          [0..<nat (sint (get32 (memdisk r (lstart r)) 0))]) (memdisk r) bn)"
proof -
  let ?d = "memdisk r (lstart r)"
  let ?n = "sint (get32 ?d 0)"
  have st: "lstart r < disksize r" using area in_log_area(1) [of r] by blast
  obtain bs bl where h: "read_head r = Inr ((), r\<lparr>bufs := bs, lh_n := ?n, lh_block := bl\<rparr>)" "cache_ok {} (r\<lparr>bufs := bs\<rparr>)"
      "dirty_ix (r\<lparr>bufs := bs\<rparr>) = {}" "\<forall>j < nat ?n. bl ! j = get32 ?d (4 + 4 * j)"
    using read_head_spec [OF ok(1-3) st ok(4) n] by blast
  define s where "s = r\<lparr>bufs := bs\<rparr>\<lparr>lh_n := ?n\<rparr>\<lparr>lh_block := bl\<rparr>"
  have s: "cache_ok {} s" "dirty_ix s = {}" "lh_n s = ?n" "lh_block s = bl" "ldev s = 1" "slot_of s = slot_of r"
    "memdisk s = memdisk r" "disksize s = disksize r" "lstart s = lstart r"
    using h(2,3) ok(3) by (simp_all add: s_def slot_of_def fun_eq_iff)
  have cs: "content s = memdisk r" using dirty_none [OF s(1,2)] s(7) by simp
  have slot: "slot_of r j \<in> log_area r" if "j < nat ?n" for j using n that by (simp add: in_log_area)
  have home': "bl ! j < disksize r" "bl ! j \<notin> log_area r" if "j < nat ?n" for j using home h(4) that by simp_all
  have "entries_ok {0..<0 + nat ?n} s"
    unfolding entries_ok_def s(4-6,8) using area by (auto simp: home'(1) slot) (metis home'(2) slot)
  then obtain t where t: "install_trans s = Inr ((), t)"
      "wrote_list s (map (\<lambda>j. (bl ! j, memdisk r (slot_of r j))) [0..<nat ?n]) t"
    using install_loop_spec [OF s(1), of 0 "nat ?n"] s(2)
    by (auto simp: install_trans_def s(3,4,6) cs NBUF_def)
  note f = wrote_list_fields [OF t(2)]
  have c: "cache_ok {} (t\<lparr>lh_n := 0\<rparr>)" "dirty_ix (t\<lparr>lh_n := 0\<rparr>) = {}" using t(2) s(2) by (auto simp: wrote_list_def)
  obtain u d' where u: "write_head (t\<lparr>lh_n := 0\<rparr>) = Inr ((), u)" "wrote_list (t\<lparr>lh_n := 0\<rparr>) [(lstart r, d')] u"
    using write_head_spec [OF c(1)] c(2) s(5) st f s(8,9) by (auto simp: NBUF_def)
  note g = wrote_list_fields [OF u(2)]
  have "memdisk u = (put_blocks (map (\<lambda>j. (bl ! j, memdisk r (slot_of r j))) [0..<nat ?n]) (memdisk r))(lstart r := d')"
    using g(9) f(9) s(7) by simp
  moreover have "map (\<lambda>j. (bl ! j, memdisk r (slot_of r j))) [0..<nat ?n]
      = map (\<lambda>j. (get32 ?d (4 + 4 * j), memdisk r (slot_of r j))) [0..<nat ?n]"
    using h(4) by simp
  ultimately have mu: "memdisk u = (put_blocks (map (\<lambda>j. (get32 ?d (4 + 4 * j), memdisk r (slot_of r j))) [0..<nat ?n])
      (memdisk r))(lstart r := d')" by (simp only:)
  have "memdisk u bn = put_blocks
        (map (\<lambda>j. (get32 ?d (4 + 4 * j), memdisk r (slot_of r j))) [0..<nat ?n]) (memdisk r) bn" if "bn \<notin> log_area r" for bn
  proof -
    have "bn \<noteq> lstart r" using that in_log_area(1) [of r] by metis
    then show ?thesis unfolding mu by (rule fun_upd_other)
  qed
  moreover have "recover_from_log r = Inr ((), u)"
    using h(1) t(1) u(1) by (simp add: recover_from_log_def s_def)
  moreover have "lh_n u = 0" "cache_ok {} u" using g(6) u(2) by (simp_all add: wrote_list_def)
  ultimately show ?thesis by blast
qed

section \<open>Crashes\<close>

text \<open>The machine after a restart with disk contents \<open>d\<close>, when \<^verbatim>\<open>initlog\<close> has read the superblock.\<close>

definition restarted :: "'a log_scheme \<Rightarrow> (u32 \<Rightarrow> block) \<Rightarrow> 'a log_scheme \<Rightarrow> bool" where
  "restarted s d r \<longleftrightarrow> cache_ok {} r \<and> dirty_ix r = {} \<and> memdisk r = d \<and> disksize r = disksize s
     \<and> lstart r = lstart s \<and> ldev r = 1 \<and> length (lh_block r) = LOGSIZE"

lemma header_fields:
  assumes "log_ready s"
  shows "sint (get32 (full_header s) 0) = lh_n s" "get32 (header 0 bl (full_header s)) 0 = 0"
    "j < nat (lh_n s) \<Longrightarrow> get32 (full_header s) (4 + 4 * j) = lh_block s ! j"
proof -
  note R = log_readyD [OF assms]
  have len: "length (memdisk s (lstart s)) = 512" using R(7) by (simp add: BSIZE_def)
  have "lh_n s \<le> 30" using R(3) by (simp add: LOGSIZE_def)
  then have "sint (of_int (lh_n s) :: u32) = lh_n s" using R(2) by (simp add: signed_take_bit_int_eq_self sint_sbintrunc')
  then show "sint (get32 (full_header s) 0) = lh_n s" using len by (simp add: full_header_def header_def)
  show "get32 (header 0 bl (full_header s)) 0 = 0" using len by (simp add: full_header_def header_def)
  show "get32 (full_header s) (4 + 4 * j) = lh_block s ! j" if "j < nat (lh_n s)"
    using put_entries_get [of 0 "nat (lh_n s)" "put32 0 (of_int (lh_n s)) (memdisk s (lstart s))" "lh_block s" j]
      len R(3) that by (simp add: full_header_def header_def LOGSIZE_def)
qed

lemma home_writes_all:
  assumes r: "log_ready s" and m: "bn \<notin> fst ` set (home_writes s) \<Longrightarrow> m bn = memdisk s bn"
  shows "put_blocks (home_writes s) m bn = content s bn"
proof -
  note R = log_readyD [OF r]
  show ?thesis
  proof (cases "bn \<in> fst ` set (home_writes s)")
    case True
    then have "(bn, content s bn) \<in> set (home_writes s)" by (auto simp: home_writes_def)
    moreover have "distinct (map fst (home_writes s))" using R(11) by (simp add: home_writes_def distinct_map o_def)
    ultimately show ?thesis by (intro put_blocks_inside)
  next
    case False
    then have "content s bn = memdisk s bn" using content_clean [OF R(1)] R(12) by (simp add: home_writes_fst)
    then show ?thesis using False m by (simp add: put_blocks_outside)
  qed
qed

lemma take_fst: "fst ` set (take k ws) \<subseteq> fst ` set ws"
  by (meson image_mono set_take_subset)

text \<open>The disk when the first \<open>k\<close> writes have reached it, in the three phases of a commit.\<close>

lemma crash_before_header:
  assumes r: "log_ready s" and k: "k \<le> nat (lh_n s)"
  defines "d \<equiv> put_blocks (take k (commit_writes s)) (memdisk s)"
  shows "d (lstart s) = memdisk s (lstart s)" "bn \<notin> log_area s \<Longrightarrow> d bn = memdisk s bn"
proof -
  note R = log_readyD [OF r]
  have len: "length (log_writes s) = nat (lh_n s)" by (simp add: log_writes_def)
  have d: "d = put_blocks (take k (log_writes s)) (memdisk s)" using k len by (simp add: d_def commit_writes_def)
  have sub: "fst ` set (take k (log_writes s)) \<subseteq> slot_of s ` {0..<nat (lh_n s)}"
    using take_fst [of k "log_writes s"] by (simp only: log_writes_fst)
  have "slot_of s j \<noteq> lstart s" "slot_of s j \<in> log_area s" if "j < nat (lh_n s)" for j
    using R(3) that by (auto simp: in_log_area slot_start)
  then have out: "lstart s \<notin> fst ` set (take k (log_writes s))"
    "bn \<notin> log_area s \<Longrightarrow> bn \<notin> fst ` set (take k (log_writes s))" using sub by force+
  show "d (lstart s) = memdisk s (lstart s)" unfolding d by (rule put_blocks_outside [OF out(1)])
  show "d bn = memdisk s bn" if "bn \<notin> log_area s" unfolding d by (rule put_blocks_outside [OF out(2) [OF that]])
qed

lemma crash_after_header:
  assumes r: "log_ready s" and k: "nat (lh_n s) < k" "k \<le> 2 * nat (lh_n s) + 1"
  defines "d \<equiv> put_blocks (take k (commit_writes s)) (memdisk s)"
  shows "d (lstart s) = full_header s" "j < nat (lh_n s) \<Longrightarrow> d (slot_of s j) = content s (lh_block s ! j)"
    "bn \<notin> log_area s \<Longrightarrow> bn \<notin> fst ` set (home_writes s) \<Longrightarrow> d bn = memdisk s bn"
proof -
  note R = log_readyD [OF r]
  let ?n = "nat (lh_n s)"
  let ?h = "take (k - ?n - 1) (home_writes s)" and ?m = "put_blocks (log_writes s) (memdisk s)"
  have len: "length (log_writes s) = ?n" "length (home_writes s) = ?n" by (simp_all add: log_writes_def home_writes_def)
  have "take k (commit_writes s) = log_writes s @ (lstart s, full_header s) # ?h"
    using k len by (cases "k - ?n") (simp_all add: commit_writes_def)
  then have d: "d = put_blocks ?h (?m(lstart s := full_header s))" by (simp add: d_def)
  have home: "bn \<notin> log_area s" if "bn \<in> fst ` set ?h" for bn
    using that take_fst [of "k - ?n - 1" "home_writes s"] R(13) unfolding home_writes_fst by auto
  then show "d (lstart s) = full_header s" unfolding d using in_log_area(1) [of s] by (subst put_blocks_outside) auto
  show "d (slot_of s j) = content s (lh_block s ! j)" if j: "j < ?n"
  proof -
    have "slot_of s j \<in> log_area s" "slot_of s j \<noteq> lstart s" using R(3) j by (auto simp: in_log_area slot_start)
    then show ?thesis unfolding d using home log_writes_at [OF r j] by (subst put_blocks_outside) auto
  qed
  show "d bn = memdisk s bn" if bn: "bn \<notin> log_area s" "bn \<notin> fst ` set (home_writes s)"
  proof -
    have "bn \<notin> fst ` set ?h" using bn(2) take_fst [of "k - ?n - 1" "home_writes s"] by blast
    moreover have "bn \<noteq> lstart s" using bn(1) in_log_area(1) [of s] by metis
    moreover have "bn \<notin> fst ` set (log_writes s)" using bn(1) R(3) unfolding log_writes_fst by (auto simp: in_log_area)
    ultimately show ?thesis unfolding d by (simp add: put_blocks_outside)
  qed
qed

lemma crash_at_end:
  assumes r: "log_ready s" and k: "2 * nat (lh_n s) + 1 < k"
  defines "d \<equiv> put_blocks (take k (commit_writes s)) (memdisk s)"
  shows "d (lstart s) = header 0 (lh_block s) (full_header s)" "bn \<notin> log_area s \<Longrightarrow> d bn = content s bn"
proof -
  note R = log_readyD [OF r]
  let ?m = "put_blocks (log_writes s) (memdisk s)"
  have "length (commit_writes s) \<le> k" using k by (simp add: commit_writes_def log_writes_def home_writes_def)
  then have d: "d = (put_blocks (home_writes s) (?m(lstart s := full_header s)))(lstart s := header 0 (lh_block s) (full_header s))"
    by (simp add: d_def commit_writes_def)
  show "d (lstart s) = header 0 (lh_block s) (full_header s)" by (simp add: d)
  show "d bn = content s bn" if bn: "bn \<notin> log_area s"
  proof -
    have "bn \<noteq> lstart s" using bn in_log_area(1) [of s] by metis
    moreover have "bn \<notin> fst ` set (log_writes s)" using bn R(3) unfolding log_writes_fst by (auto simp: in_log_area)
    ultimately show ?thesis unfolding d by (simp add: put_blocks_outside home_writes_all [OF r])
  qed
qed

lemma recover_empty:
  fixes s r :: "'a log_scheme"
  assumes "log_ready s" "restarted s d r" "get32 (d (lstart s)) 0 = 0"
  shows "\<exists>u. recover_from_log r = Inr ((), u) \<and> (\<forall>bn. bn \<notin> log_area s \<longrightarrow> memdisk u bn = d bn)"
proof -
  have r: "cache_ok {} r" "dirty_ix r = {}" "ldev r = 1" "length (lh_block r) = LOGSIZE" "log_area r = log_area s"
    "disksize r = disksize s" "memdisk r = d" "lstart r = lstart s"
    using assms(2) by (auto simp: restarted_def log_area_def slot_of_def)
  have "\<forall>bn \<in> log_area r. bn < disksize r" using assms(1) by (simp add: r log_ready_def)
  then show ?thesis using recover_spec [OF r(1-4)] assms(3) by (auto simp: r(5,7,8))
qed

lemma recover_full:
  fixes s r :: "'a log_scheme"
  assumes s: "log_ready s" and re: "restarted s d r" and h: "d (lstart s) = full_header s"
    and slots: "\<And>j. j < nat (lh_n s) \<Longrightarrow> d (slot_of s j) = content s (lh_block s ! j)"
    and rest: "\<And>bn. bn \<notin> log_area s \<Longrightarrow> bn \<notin> fst ` set (home_writes s) \<Longrightarrow> d bn = memdisk s bn"
  shows "\<exists>u. recover_from_log r = Inr ((), u) \<and> (\<forall>bn. bn \<notin> log_area s \<longrightarrow> memdisk u bn = content s bn)"
proof -
  have r: "cache_ok {} r" "dirty_ix r = {}" "ldev r = 1" "length (lh_block r) = LOGSIZE" "log_area r = log_area s"
    "disksize r = disksize s" "memdisk r = d" "lstart r = lstart s" "slot_of r = slot_of s"
    using re by (auto simp: restarted_def log_area_def slot_of_def fun_eq_iff)
  note R = log_readyD [OF s] and H = header_fields [OF s]
  have area: "\<forall>bn \<in> log_area r. bn < disksize r" using s by (simp add: r log_ready_def)
  have home: "lh_block s ! j < disksize s" if "j < nat (lh_n s)" for j using s that by (simp add: log_ready_def)
  have ws: "map (\<lambda>j. (get32 (d (lstart s)) (4 + 4 * j), d (slot_of s j))) [0..<nat (lh_n s)] = home_writes s"
    unfolding home_writes_def h using H(3) slots by (intro map_cong) simp_all
  obtain u where u: "recover_from_log r = Inr ((), u)"
      "\<forall>bn. bn \<notin> log_area s \<longrightarrow> memdisk u bn = put_blocks (home_writes s) d bn"
    using recover_spec [OF r(1-4) area] R(3) H R(13) home ws by (auto simp: r(5-9) h)
  have "put_blocks (home_writes s) d bn = content s bn" if "bn \<notin> log_area s" for bn
    using rest [OF that] by (rule home_writes_all [OF s])
  then show ?thesis using u by auto
qed

text \<open>
  Claim C3. A transaction is atomic with respect to crashes. \<^verbatim>\<open>commit\<close> returns with an empty log and every
  block at home as the cache had it; and if the machine stops after any number \<open>k\<close> of its writes to the
  disk, \<^verbatim>\<open>recover_from_log\<close> on the disk that is left returns, and outside the log area the disk is exactly as
  before the transaction when the header had not been written (\<open>k \<le> n\<close>), and exactly as after it otherwise.
\<close>

theorem commit_crash_atomic:
  fixes s :: "'a log_scheme"
  assumes "log_ready s"
  shows "\<exists>t ws. commit s = Inr ((), t) \<and> writes t = writes s @ ws \<and> lh_n t = 0 \<and> cache_ok {} t
    \<and> (\<forall>bn. bn \<notin> log_area s \<longrightarrow> memdisk t bn = content s bn)
    \<and> (\<forall>k r. restarted s (put_blocks (take k ws) (memdisk s)) r \<longrightarrow>
        (\<exists>u. recover_from_log r = Inr ((), u) \<and>
          (\<forall>bn. bn \<notin> log_area s \<longrightarrow> memdisk u bn = (if k \<le> nat (lh_n s) then memdisk s bn else content s bn))))"
proof -
  let ?ws = "commit_writes s" and ?n = "nat (lh_n s)"
  obtain t where t: "commit s = Inr ((), t)" "lh_n t = 0" "wrote_list (s\<lparr>lh_n := 0\<rparr>) ?ws t"
    using commit_spec [OF assms] by blast
  note f = wrote_list_fields [OF t(3)]
  have "memdisk t = put_blocks (take (2 * ?n + 2) ?ws) (memdisk s)"
    using f(9) by (simp add: commit_writes_def log_writes_def home_writes_def)
  then have home: "\<forall>bn. bn \<notin> log_area s \<longrightarrow> memdisk t bn = content s bn"
    using crash_at_end(2) [OF assms, of "2 * ?n + 2"] by simp
  have "\<exists>u. recover_from_log r = Inr ((), u) \<and>
      (\<forall>bn. bn \<notin> log_area s \<longrightarrow> memdisk u bn = (if k \<le> ?n then memdisk s bn else content s bn))"
    if r: "restarted s (put_blocks (take k ?ws) (memdisk s)) r" for k and r :: "'a log_scheme"
  proof -
    consider "k \<le> ?n" | "?n < k" "k \<le> 2 * ?n + 1" | "2 * ?n + 1 < k" by linarith
    then show ?thesis
    proof cases
      case 1
      then show ?thesis using recover_empty [OF assms r] crash_before_header [OF assms 1] log_readyD(8) [OF assms] by simp
    next
      case 2
      then show ?thesis using recover_full [OF assms r] crash_after_header [OF assms 2] by simp
    next
      case 3
      then show ?thesis using recover_empty [OF assms r] crash_at_end [OF assms 3] header_fields(2) [OF assms] by simp
    qed
  qed
  moreover have "cache_ok {} t" using t(3) by (simp add: wrote_list_def)
  ultimately show ?thesis using t(1,2) f(10) home by (intro exI [of _ t] exI [of _ ?ws]) simp
qed

definition crash_state :: log where
  "crash_state = (let z = binit \<lparr>bufs = zero_bufs, memdisk = (\<lambda>_. replicate BSIZE 0), disksize = 1000, writes = [], curpid = 1,
       lstart = 2, lsize = 30, outstanding = 0, committing = True, ldev = 1, lh_n = 1, lh_block = replicate LOGSIZE 50\<rparr>
     in z\<lparr>bufs := (bufs z)[0 := (bufs z ! 0)\<lparr>bflags := B_BOTH, bdev := 1, blockno := 50, bdata := replicate BSIZE 7\<rparr>]\<rparr>)"

lemma crash_state_ready:
  "log_ready crash_state" "lh_n crash_state = 1" "50 \<notin> log_area crash_state"
  "memdisk crash_state 50 = replicate BSIZE 0" "content crash_state 50 = replicate BSIZE 7"
  "\<exists>r. restarted crash_state d r"
proof -
  define z0 :: log where "z0 = \<lparr>bufs = zero_bufs, memdisk = (\<lambda>_. replicate BSIZE 0), disksize = 1000, writes = [], curpid = 1,
       lstart = 2, lsize = 30, outstanding = 0, committing = True, ldev = 1, lh_n = 1, lh_block = replicate LOGSIZE 50\<rparr>"
  define z where "z = binit z0"
  let ?x = "(bufs z ! 0)\<lparr>bflags := B_BOTH, bdev := 1, blockno := 50, bdata := replicate BSIZE 7\<rparr>"
  have b: "bufs z0 = zero_bufs" by (simp add: z0_def)
  note i = binit_cache_ok [of z0, unfolded b, OF zero_bufs_ok, folded z_def]
  have len: "length (bufs z) = NBUF + 1" by (rule cache_okD(1) [OF i(1)])
  obtain bs where z: "z = z0\<lparr>bufs := bs\<rparr>" using i(4) by auto
  have s: "crash_state = z\<lparr>bufs := (bufs z)[0 := ?x]\<rparr>" unfolding crash_state_def z_def z0_def Let_def ..
  have f: "lh_n crash_state = 1" "lh_block crash_state = replicate LOGSIZE 50" "lstart crash_state = 2" "disksize crash_state = 1000"
    "ldev crash_state = 1" "memdisk crash_state = (\<lambda>_. replicate BSIZE 0)"
    unfolding s by (simp_all add: z z0_def)
  have nth: "bufs crash_state ! j = (if j = 0 then ?x else bufs z ! j)" for j using len by (auto simp: s nth_list_update)
  have zero: "bflags (bufs z ! j) \<noteq> B_BOTH" if "j < NBUF" for j using i(2) that by (auto simp: dirty_ix_def)
  have none: "\<not> cached z bn j" for bn j using i(5) by blast
  then have dev: "bdev (bufs z ! j) \<noteq> 1" if "j < NBUF" for j using that by (auto simp: cached_def)
  have c: "cached crash_state bn j \<longleftrightarrow> j = 0 \<and> bn = 50" for bn j
    using dev [of j] by (auto simp: cached_def nth NBUF_def)
  show "\<exists>r. restarted crash_state d r"
  proof -
    let ?r = "binit (z0\<lparr>memdisk := d\<rparr>)"
    note j = binit_cache_ok [of "z0\<lparr>memdisk := d\<rparr>", simplified, unfolded b, OF zero_bufs_ok [simplified]]
    have "restarted crash_state d ?r" using j(1,2,4) by (auto simp: restarted_def f z0_def)
    then show ?thesis ..
  qed
  show "lh_n crash_state = 1" "memdisk crash_state 50 = replicate BSIZE 0" using f by simp_all
  have area: "unat bn \<le> 32" if "bn \<in> log_area crash_state" for bn
  proof -
    have "unat (2 + of_nat j + 1 :: u32) = j + 3" if "j < 30" for j
      using that by (simp add: unat_word_ariths unat_of_nat)
    then show ?thesis using that by (auto simp: log_area_def slot_of_def f LOGSIZE_def)
  qed
  then show out: "50 \<notin> log_area crash_state" by force
  have ok: "cache_ok {} crash_state"
  proof -
    have "\<exists>xs. ring (bufs crash_state) xs" using ring_upd [of z ?x 0] i(1) by (simp add: s cache_ok_def)
    moreover have "states_ok {} crash_state"
      using cache_okD(3,4) [OF i(1)] by (auto simp: states_ok_def nth lock_ok_def NBUF_def)
    ultimately show ?thesis by (simp add: cache_ok_def unique_blocks_def coherent_def c nth)
  qed
  show "content crash_state 50 = replicate BSIZE 7" using content_hit [OF ok, of 50 0] by (simp add: c nth)
  have "pinned crash_state = {50}" "dirty_ix crash_state = {0}"
    using zero by (auto simp: pinned_def dirty_ix_def c nth NBUF_def)
  moreover have "bn < 1000" if "bn \<in> log_area crash_state" for bn using area [OF that] by (simp add: word_less_nat_alt)
  moreover have "take 1 (replicate LOGSIZE (50 :: u32)) = [50]" "replicate LOGSIZE (50 :: u32) ! 0 = 50"
    by (simp_all add: LOGSIZE_def)
  moreover have "get32 (replicate BSIZE 0) 0 = 0" by (simp add: get32_def BSIZE_def)
  ultimately show "log_ready crash_state"
    using ok out by (simp add: log_ready_def f NBUF_def) (simp add: LOGSIZE_def)
qed

theorem commit_crash_atomic_witness:
  "log_ready crash_state \<and> (\<exists>t ws. commit crash_state = Inr ((), t) \<and> writes t = writes crash_state @ ws
    \<and> memdisk t 50 = replicate BSIZE 7
    \<and> (\<exists>r u. restarted crash_state (put_blocks (take 1 ws) (memdisk crash_state)) r \<and> recover_from_log r = Inr ((), u)
        \<and> memdisk u 50 = replicate BSIZE 0)
    \<and> (\<exists>r u. restarted crash_state (put_blocks (take 2 ws) (memdisk crash_state)) r \<and> recover_from_log r = Inr ((), u)
        \<and> memdisk u 50 = replicate BSIZE 7))"
proof -
  note c = crash_state_ready
  obtain t ws where t: "commit crash_state = Inr ((), t)" "writes t = writes crash_state @ ws"
      "\<forall>bn. bn \<notin> log_area crash_state \<longrightarrow> memdisk t bn = content crash_state bn"
    and rec: "\<And>k r. restarted crash_state (put_blocks (take k ws) (memdisk crash_state)) r \<Longrightarrow>
        \<exists>u. recover_from_log r = Inr ((), u) \<and> (\<forall>bn. bn \<notin> log_area crash_state \<longrightarrow>
          memdisk u bn = (if k \<le> nat (lh_n crash_state) then memdisk crash_state bn else content crash_state bn))"
    using commit_crash_atomic [OF c(1)] by blast
  have "\<exists>r u. restarted crash_state (put_blocks (take k ws) (memdisk crash_state)) r \<and> recover_from_log r = Inr ((), u)
      \<and> memdisk u 50 = (if k \<le> 1 then replicate BSIZE 0 else replicate BSIZE 7)" for k
  proof -
    obtain r where r: "restarted crash_state (put_blocks (take k ws) (memdisk crash_state)) r" using c(6) by blast
    from rec [OF r] c(2-5) r show ?thesis by auto
  qed
  from this [of 1] this [of 2] show ?thesis using c t by auto
qed

end
