(* ===== verification/LogSpace.thy ===== *)
theory LogSpace
  imports LogCrash
begin

text \<open>
  Space in the log: \<^verbatim>\<open>log_write\<close> records each block once and pins it, and the reservation that \<^verbatim>\<open>begin_op\<close> makes
  keeps the header within its bounds while any number of operations run.
\<close>

unbundle bit_operations_syntax

section \<open>Recording blocks\<close>

definition log_inv :: "nat set \<Rightarrow> 'a log_scheme \<Rightarrow> bool" where
  "log_inv H s \<longleftrightarrow> cache_ok H s \<and> 0 \<le> lh_n s \<and> nat (lh_n s) \<le> LOGSIZE \<and> length (lh_block s) = LOGSIZE
     \<and> distinct (take (nat (lh_n s)) (lh_block s)) \<and> pinned s = set (take (nat (lh_n s)) (lh_block s))"

lemma log_slot_spec:
  assumes "n \<le> length bl"
  shows "log_slot bl n bn \<le> n" "log_slot bl n bn < n \<longleftrightarrow> bn \<in> set (take n bl)"
    "log_slot bl n bn < n \<Longrightarrow> bl ! log_slot bl n bn = bn"
proof -
  have set: "bn \<in> set (take n bl) \<longleftrightarrow> (\<exists>i<n. bl ! i = bn)" using assms by (auto simp: in_set_conv_nth)
  show "log_slot bl n bn \<le> n" "log_slot bl n bn < n \<longleftrightarrow> bn \<in> set (take n bl)"
    "log_slot bl n bn < n \<Longrightarrow> bl ! log_slot bl n bn = bn"
    unfolding set log_slot_def
    by (auto split: option.splits simp: find_index_Some find_index_None dest: less_imp_le)
qed

lemma dirty_keeps:
  fixes s :: "'a bcache_scheme"
  assumes ok: "cache_ok H s" and c: "cached s bn b" "bflags (bufs s ! b) \<noteq> 0"
  defines "s' \<equiv> upd_buf b (\<lambda>x. x\<lparr>bflags := bflags x OR B_DIRTY\<rparr>) s"
  shows "cache_ok H s'" "content s' = content s" "pinned s' = insert bn (pinned s)"
proof -
  have b: "b < NBUF" "b < length (bufs s)" using c cache_okD(1) [OF ok] by (auto simp: cached_def)
  have f: "bflags (bufs s ! b) OR B_DIRTY = B_BOTH" using cache_okD(3) [OF ok b(1)] c(2) by auto
  have nth: "bufs s' ! i = (if i = b then (bufs s ! b)\<lparr>bflags := B_BOTH\<rparr> else bufs s ! i)" for i
    using b f by (simp add: s'_def nth_list_update)
  have cc: "cached s' = cached s" by (auto simp: fun_eq_iff cached_def nth)
  have md: "memdisk s' = memdisk s" by (simp add: s'_def upd_buf_def)
  have only: "i = b \<longleftrightarrow> bn' = bn" if "cached s bn' i" for bn' i
    using c(1) that cache_okD(2) [OF ok c(1), of i] by (metis cached_def)
  have "\<exists>xs. ring (bufs s') xs" using ring_upd [of s] ok by (simp add: s'_def cache_ok_def)
  moreover have "unique_blocks s'" using ok by (simp add: cache_ok_def unique_blocks_def cc)
  moreover have "states_ok H s'" using cache_okD(3,4) [OF ok] by (auto simp: states_ok_def nth lock_ok_def)
  moreover have "coherent H s'" using cache_okD(5) [OF ok] by (simp add: coherent_def cc nth md)
  ultimately show ok': "cache_ok H s'" by (simp add: cache_ok_def)
  show "pinned s' = insert bn (pinned s)"
    using c(1) only unfolding pinned_def cc nth by auto
  have fz: "bflags (bufs s' ! i) \<noteq> 0 \<longleftrightarrow> bflags (bufs s ! i) \<noteq> 0" "bdata (bufs s' ! i) = bdata (bufs s ! i)" for i
    using c(2) by (simp_all add: nth)
  show "content s' = content s" by (auto simp: content_def cc fz md fun_eq_iff split: option.split)
qed

lemma log_write_keeps:
  fixes s :: "'a log_scheme"
  assumes inv: "log_inv H s" and c: "cached s bn b" "bflags (bufs s ! b) \<noteq> 0"
    and room: "lh_n s < int LOGSIZE" "lh_n s < lsize s - 1" and op: "1 \<le> outstanding s"
  shows "\<exists>t. log_write b s = Inr ((), t) \<and> log_inv H t \<and> pinned t = insert bn (pinned s)
    \<and> lh_n t = lh_n s + (if bn \<in> pinned s then 0 else 1) \<and> content t = content s
    \<and> (\<exists>n bl. t = upd_buf b (\<lambda>x. x\<lparr>bflags := bflags x OR B_DIRTY\<rparr>) (s\<lparr>lh_n := n, lh_block := bl\<rparr>))"
proof -
  let ?n = "nat (lh_n s)" and ?bl = "lh_block s"
  let ?i = "log_slot ?bl ?n bn"
  have I: "cache_ok H s" "0 \<le> lh_n s" "?n \<le> LOGSIZE" "length ?bl = LOGSIZE" "distinct (take ?n ?bl)"
    "pinned s = set (take ?n ?bl)" using inv by (auto simp: log_inv_def)
  have n: "?n < LOGSIZE" using room(1) I(2) by linarith
  note slot = log_slot_spec [of ?n ?bl bn, unfolded I(4), OF I(3)]
  have bn: "blockno (buf_at b s) = bn" using c by (simp add: cached_def buf_at_def)
  define s1 where "s1 = s\<lparr>lh_block := ?bl[?i := bn]\<rparr>\<lparr>lh_n := (if int ?i = lh_n s then lh_n s + 1 else lh_n s)\<rparr>"
  define t where "t = upd_buf b (\<lambda>x. x\<lparr>bflags := bflags x OR B_DIRTY\<rparr>) s1"
  have run: "log_write b s = Inr ((), t)"
    using room op bn by (auto simp: log_write_def t_def s1_def Let_def)
  have s1: "cache_ok H s1" "cached s1 bn b" "content s1 = content s" "pinned s1 = pinned s"
    using I(1) c(1) by (simp_all add: s1_def)
  have fl: "bflags (bufs s1 ! b) \<noteq> 0" using c(2) by (simp add: s1_def)
  note D = dirty_keeps [OF s1(1,2) fl, folded t_def, unfolded s1(3,4)]
  have form: "\<exists>n bl. t = upd_buf b (\<lambda>x. x\<lparr>bflags := bflags x OR B_DIRTY\<rparr>) (s\<lparr>lh_n := n, lh_block := bl\<rparr>)"
    unfolding t_def s1_def by (intro exI [of _ "if int ?i = lh_n s then lh_n s + 1 else lh_n s"] exI [of _ "?bl[?i := bn]"])
      (cases s, simp)
  have tf: "lh_n t = lh_n s1" "lh_block t = lh_block s1"
    by (simp_all add: t_def upd_buf_def s1_def)
  show ?thesis
  proof (cases "bn \<in> pinned s")
    case True
    then have "?i < ?n" "?bl ! ?i = bn" using slot(2,3) I(6) by auto
    moreover from this(2) have "?bl[?i := bn] = ?bl" by (metis list_update_id)
    ultimately have e: "lh_n t = lh_n s" "lh_block t = ?bl" using tf by (auto simp: s1_def)
    then have "log_inv H t" using D(1,3) I True by (auto simp: log_inv_def insert_absorb)
    then show ?thesis using run D e(1) form True by auto
  next
    case False
    then have "?i = ?n" using slot(1,2) I(6) by auto
    then have e: "lh_n t = lh_n s + 1" "lh_block t = ?bl[?n := bn]" using tf I(2) by (auto simp: s1_def)
    have tk: "take (nat (lh_n t)) (lh_block t) = take ?n ?bl @ [bn]"
      using n I(2,4) by (simp add: e nat_add_distrib take_Suc_conv_app_nth)
    have "log_inv H t" using D(1,3) I False n e unfolding log_inv_def tk by auto
    then show ?thesis using run D e(1) form False by auto
  qed
qed

text \<open>
  Claim C25. \<^verbatim>\<open>log_write\<close> of a locked buffer, with room in the log and inside a transaction, records the block number
  exactly once (a block that is already recorded is absorbed, one that is not is appended), pins the
  buffer, and changes neither the contents of any block nor the disk.
\<close>

theorem log_write_records:
  fixes s :: "'a log_scheme"
  assumes inv: "log_inv H s" and c: "cached s bn b" "bflags (bufs s ! b) \<noteq> 0"
    and room: "lh_n s < int LOGSIZE" "lh_n s < lsize s - 1" and op: "1 \<le> outstanding s"
  shows "\<exists>t. log_write b s = Inr ((), t) \<and> log_inv H t \<and> pinned t = insert bn (pinned s)
    \<and> lh_n t = lh_n s + (if bn \<in> pinned s then 0 else 1) \<and> content t = content s \<and> memdisk t = memdisk s"
  using log_write_keeps [OF assms] by (auto simp: upd_buf_def)

section \<open>Reservations\<close>

text \<open>
  Operations in progress, each with the set of the blocks it has logged so far: an operation keeps to \<^verbatim>\<open>MAXOPBLOCKS\<close> blocks, each of
  which it may log any number of times. Between these steps any process reads blocks, changes their contents in the cache and
  releases them.
\<close>

inductive tstep :: "log \<times> u32 set list \<Rightarrow> log \<times> u32 set list \<Rightarrow> bool" where
  t_begin: "begin_op s = Inr ((), s') \<Longrightarrow> tstep (s, ws) (s', {} # ws)"
| t_write: "i < length ws \<Longrightarrow> int (card (insert (blockno (buf_at b s)) (ws ! i))) \<le> MAXOPBLOCKS \<Longrightarrow> log_write b s = Inr ((), s') \<Longrightarrow>
    tstep (s, ws) (s', ws[i := insert (blockno (buf_at b s)) (ws ! i)])"
| t_end: "i < length ws \<Longrightarrow> end_op s = Inr ((), s') \<Longrightarrow> tstep (s, ws) (s', take i ws @ drop (Suc i) ws)"
| t_read: "bread dev bn s = Inr (b, s') \<Longrightarrow> tstep (s, ws) (s', ws)"
| t_edit: "set_data b f s = Inr ((), s') \<Longrightarrow> tstep (s, ws) (s', ws)"
| t_release: "brelse b s = Inr ((), s') \<Longrightarrow> tstep (s, ws) (s', ws)"

definition log_start :: "log \<Rightarrow> bool" where
  "log_start s \<longleftrightarrow> outstanding s = 0 \<and> lh_n s = 0 \<and> \<not> committing s \<and> length (lh_block s) = LOGSIZE"

definition treachable :: "int \<Rightarrow> log \<times> u32 set list \<Rightarrow> bool" where
  "treachable sz c \<longleftrightarrow> (\<exists>s. log_start s \<and> lsize s = sz \<and> tstep\<^sup>*\<^sup>* (s, []) c)"

text \<open>Operations that leave some fields alone when they return.\<close>

definition keeps :: "('s \<Rightarrow> 'b) \<Rightarrow> ('s, 'a) op \<Rightarrow> bool" where
  "keeps f m \<longleftrightarrow> (\<forall>s x s'. m s = Inr (x, s') \<longrightarrow> f s' = f s)"

lemma keeps_bnd: "keeps f m \<Longrightarrow> (\<And>x. keeps f (g x)) \<Longrightarrow> keeps f (bnd m g)"
  unfolding keeps_def by (metis bnd_eq_Inr_iff)

lemma keeps_basic [simp]: "keeps f (ret x)" "keeps f (gets g)" "keeps f (stop h)"
  by (auto simp: keeps_def)

lemma keeps_modify: "(\<And>s. f (u s) = f s) \<Longrightarrow> keeps f (modify u)"
  by (auto simp: keeps_def)

definition counters :: "log \<Rightarrow> int \<times> int \<times> bool \<times> u32 list" where
  "counters s = (lsize s, outstanding s, committing s, lh_block s)"

lemma counters_cache [simp]:
  "counters (s\<lparr>bufs := bs\<rparr>) = counters s" "counters (s\<lparr>memdisk := d\<rparr>) = counters s" "counters (s\<lparr>writes := ws\<rparr>) = counters s"
  "counters (s\<lparr>lh_n := n\<rparr>) = counters s"
  by (simp_all add: counters_def)

lemma keeps_cache:
  fixes f :: "log \<Rightarrow> 'b"
  assumes f: "\<And>s bs. f (s\<lparr>bufs := bs\<rparr>) = f s" "\<And>s d. f (s\<lparr>memdisk := d\<rparr>) = f s" "\<And>s ws. f (s\<lparr>writes := ws\<rparr>) = f s"
  shows "keeps f (bread dev bn)" "keeps f (bwrite b)" "keeps f (brelse b)" "keeps f (data_of b)" "keeps f (set_data b g)"
proof -
  have u: "f (upd_buf b g s) = f s" for b g s by (simp add: upd_buf_def f)
  have ide: "keeps f (iderw b)" for b by (auto simp: keeps_def iderw_def Let_def u f split: if_splits)
  have lb: "keeps f (lock_buf b)" for b by (auto simp: keeps_def lock_buf_def bindE_eq_Inr_iff u)
  have bg: "keeps f (bget dev bn)"
    using lb by (auto simp: keeps_def bget_def bindE_eq_Inr_iff u split: option.splits)
  show "keeps f (bread dev bn)" unfolding bread_def by (intro keeps_bnd bg) (auto intro: keeps_bnd ide)
  show "keeps f (bwrite b)" using ide u by (auto simp: keeps_def bwrite_def split: if_splits)
  have "link_front b (unlink b s) = s\<lparr>bufs := bufs (link_front b (unlink b s))\<rparr>" for s :: log
    by (subst links_frame(2), subst links_frame(1)) simp
  then have "f (link_front b (unlink b s)) = f s" for s by (metis f(1))
  then show "keeps f (brelse b)" by (auto simp: keeps_def brelse_def Let_def u split: if_splits)
  show "keeps f (data_of b)" by (simp add: data_of_def)
  show "keeps f (set_data b g)" unfolding set_data_def by (intro keeps_modify u)
qed

lemma keeps_loops:
  fixes f :: "log \<Rightarrow> 'b"
  assumes f: "\<And>s bs. f (s\<lparr>bufs := bs\<rparr>) = f s" "\<And>s d. f (s\<lparr>memdisk := d\<rparr>) = f s" "\<And>s ws. f (s\<lparr>writes := ws\<rparr>) = f s"
  shows "keeps f (write_log_loop k i)" "keeps f (install_loop k i)" "keeps f write_head"
proof -
  note c = keeps_cache [of f, OF f]
  show "keeps f (write_log_loop k i)"
    by (induction k arbitrary: i) (auto intro!: keeps_bnd c split: prod.split)
  show "keeps f (install_loop k i)"
    by (induction k arbitrary: i) (auto intro!: keeps_bnd c split: prod.split)
  show "keeps f write_head" unfolding write_head_def by (auto intro!: keeps_bnd c split: prod.split)
qed

lemma commit_counters:
  assumes "commit s = Inr ((), s')" "0 \<le> lh_n s"
  shows "counters s' = counters s" "lh_n s' = 0"
proof -
  note k = keeps_loops [of counters, simplified]
  have cnt: "keeps counters commit"
    unfolding commit_def write_log_def install_trans_def
    by (auto intro!: keeps_bnd k keeps_modify)
  then show "counters s' = counters s" using assms(1) by (auto simp: keeps_def)
  show "lh_n s' = 0"
  proof (cases "0 < lh_n s")
    case True
    then obtain t where "write_head (t\<lparr>lh_n := 0\<rparr>) = Inr ((), s')"
      using assms(1) by (auto simp: commit_def bnd_eq_Inr_iff)
    moreover have "keeps (lh_n :: log \<Rightarrow> int) write_head" by (rule keeps_loops(3)) simp_all
    ultimately have "lh_n s' = lh_n (t\<lparr>lh_n := 0\<rparr>)" unfolding keeps_def by blast
    then show ?thesis by simp
  next
    case False
    then show ?thesis using assms by (auto simp: commit_def)
  qed
qed

text \<open>The blocks in the header, and what the operations in progress have left of their budgets.\<close>

definition logged :: "log \<Rightarrow> u32 set" where
  "logged s = set (take (nat (lh_n s)) (lh_block s))"

definition left :: "u32 set list \<Rightarrow> nat" where
  "left ws = (\<Sum>w\<leftarrow>ws. nat MAXOPBLOCKS - card w)"

definition reserved :: "int \<Rightarrow> log \<times> u32 set list \<Rightarrow> bool" where
  "reserved sz = (\<lambda>(s, ws). lsize s = sz \<and> outstanding s = int (length ws) \<and> \<not> committing s \<and> length (lh_block s) = LOGSIZE
     \<and> 0 \<le> lh_n s \<and> lh_n s + int (left ws) \<le> int LOGSIZE
     \<and> (\<forall>w \<in> set ws. finite w \<and> w \<subseteq> logged s \<and> card w \<le> nat MAXOPBLOCKS))"

lemma left_le: "left ws \<le> length ws * nat MAXOPBLOCKS"
  by (induction ws) (auto simp: left_def)

lemma left_split: "i < length ws \<Longrightarrow> left ws = (nat MAXOPBLOCKS - card (ws ! i)) + left (take i ws @ drop (Suc i) ws)"
  by (subst id_take_nth_drop [of i ws]) (simp_all add: left_def)

lemma left_upd: "i < length ws \<Longrightarrow> left (ws[i := w]) = (nat MAXOPBLOCKS - card w) + left (take i ws @ drop (Suc i) ws)"
  by (simp add: left_split)

lemma end_op_counters:
  fixes s :: log
  assumes "end_op s = Inr ((), s')" "0 \<le> lh_n s" "\<not> committing s"
  shows "lsize s' = lsize s" "outstanding s' = outstanding s - 1" "\<not> committing s'"
    "lh_n s' = (if outstanding s = 1 then 0 else lh_n s)" "lh_block s' = lh_block s"
proof -
  let ?s = "s\<lparr>outstanding := outstanding s - 1, committing := True\<rparr>"
  have "lsize s' = lsize s \<and> outstanding s' = outstanding s - 1 \<and> \<not> committing s'
      \<and> lh_n s' = (if outstanding s = 1 then 0 else lh_n s) \<and> lh_block s' = lh_block s"
  proof (cases "outstanding s = 1")
    case True
    then obtain u where u: "commit ?s = Inr ((), u)" "s' = u\<lparr>committing := False\<rparr>"
      using assms(1,3) by (auto simp: end_op_def bnd_eq_Inr_iff)
    have n: "0 \<le> lh_n ?s" using assms(2) by simp
    show ?thesis using commit_counters [OF u(1) n] u(2) True by (simp add: counters_def)
  next
    case False
    then show ?thesis using assms(1,3) by (auto simp: end_op_def bnd_eq_Inr_iff)
  qed
  then show "lsize s' = lsize s" "outstanding s' = outstanding s - 1" "\<not> committing s'"
    "lh_n s' = (if outstanding s = 1 then 0 else lh_n s)" "lh_block s' = lh_block s" by auto
qed

lemma log_write_counters:
  fixes s :: log
  assumes w: "log_write b s = Inr ((), s')" and n: "0 \<le> lh_n s" "length (lh_block s) = LOGSIZE"
  defines "bn \<equiv> blockno (buf_at b s)"
  shows "lsize s' = lsize s" "outstanding s' = outstanding s" "committing s' = committing s" "length (lh_block s') = LOGSIZE"
    "lh_n s' = (if bn \<in> logged s then lh_n s else lh_n s + 1)" "logged s' = insert bn (logged s)"
proof -
  let ?n = "nat (lh_n s)" and ?bl = "lh_block s"
  have lt: "?n < LOGSIZE" using w n(1) by (auto simp: log_write_def nat_less_iff split: if_splits)
  define i where "i = log_slot ?bl ?n bn"
  have slot: "i \<le> ?n" "i < ?n \<longleftrightarrow> bn \<in> logged s" "i < ?n \<Longrightarrow> ?bl ! i = bn"
    using log_slot_spec [of ?n ?bl bn] lt n(2) by (simp_all add: i_def logged_def)
  have r: "lsize s' = lsize s \<and> outstanding s' = outstanding s \<and> committing s' = committing s
      \<and> lh_block s' = ?bl[i := bn] \<and> lh_n s' = (if int i = lh_n s then lh_n s + 1 else lh_n s)"
    using w by (auto simp: log_write_def Let_def upd_buf_def i_def bn_def split: if_splits)
  then show "lsize s' = lsize s" "outstanding s' = outstanding s" "committing s' = committing s" "length (lh_block s') = LOGSIZE"
    using n(2) by simp_all
  have e: "int i = lh_n s \<longleftrightarrow> bn \<notin> logged s" using slot(1,2) n(1) by auto
  then show "lh_n s' = (if bn \<in> logged s then lh_n s else lh_n s + 1)" using r by simp
  show "logged s' = insert bn (logged s)"
  proof (cases "bn \<in> logged s")
    case True
    then have "?bl[i := bn] = ?bl" using slot(2,3) by (metis list_update_id)
    then show ?thesis using r e True by (auto simp: logged_def)
  next
    case False
    then have "i = ?n" using slot(1,2) by auto
    then have "take (nat (lh_n s')) (lh_block s') = take ?n ?bl @ [bn]"
      using r e False lt n by (simp add: nat_add_distrib take_Suc_conv_app_nth)
    then show ?thesis by (simp add: logged_def)
  qed
qed

lemma reserved_write:
  assumes r: "reserved sz (s, ws)" and i: "i < length ws" and w: "log_write b s = Inr ((), s')"
    and c: "int (card (insert bn (ws ! i))) \<le> MAXOPBLOCKS" and bn: "bn = blockno (buf_at b s)"
  shows "reserved sz (s', ws[i := insert bn (ws ! i)])"
proof -
  let ?ws = "ws[i := insert bn (ws ! i)]"
  have R: "0 \<le> lh_n s" "length (lh_block s) = LOGSIZE" "lh_n s + int (left ws) \<le> int LOGSIZE"
    using r by (auto simp: reserved_def)
  have W: "finite w \<and> w \<subseteq> logged s \<and> card w \<le> nat MAXOPBLOCKS" if "w \<in> set ws" for w
    using r that by (auto simp: reserved_def)
  note L = log_write_counters [OF w R(1,2), folded bn]
  have wi: "ws ! i \<in> set ws" using i by simp
  have "lh_n s' + int (left ?ws) \<le> int LOGSIZE"
  proof (cases "bn \<in> logged s")
    case True
    have "card (ws ! i) \<le> card (insert bn (ws ! i))" using W [OF wi] by (simp add: card_insert_le)
    then have "left ?ws \<le> left ws" using left_split [OF i] left_upd [OF i, of "insert bn (ws ! i)"] by simp
    then show ?thesis using R(3) L(5) True by simp
  next
    case False
    then have "card (insert bn (ws ! i)) = Suc (card (ws ! i))" using W [OF wi] by (auto simp: card_insert_if)
    then have "Suc (left ?ws) = left ws" using left_split [OF i] left_upd [OF i, of "insert bn (ws ! i)"] c by simp
    then show ?thesis using R(3) L(5) False by simp
  qed
  moreover have "finite w \<and> w \<subseteq> logged s' \<and> card w \<le> nat MAXOPBLOCKS" if "w \<in> set ?ws" for w
  proof -
    have "w = insert bn (ws ! i) \<or> w \<in> set ws" using that set_update_subset_insert [of ws i] by auto
    then show ?thesis using W [OF wi] W [of w] c L(6) by auto
  qed
  ultimately show ?thesis using r L(1-5) by (auto simp: reserved_def)
qed

lemma reserved_same:
  assumes "reserved sz (s, ws)" "m s = Inr (x, s')" "keeps counters m" "keeps lh_n m"
  shows "reserved sz (s', ws)"
proof -
  have "counters s' = counters s" "lh_n s' = lh_n s" using assms(2-4) unfolding keeps_def by blast+
  then show ?thesis using assms(1) by (simp add: reserved_def counters_def logged_def)
qed

lemma reserved_step: "tstep c c' \<Longrightarrow> reserved sz c \<Longrightarrow> reserved sz c'"
proof (induction rule: tstep.induct)
  case (t_begin s s' ws)
  then have s: "lh_n s + (outstanding s + 1) * MAXOPBLOCKS \<le> int LOGSIZE" "s' = s\<lparr>outstanding := outstanding s + 1\<rparr>"
    by (auto simp: begin_op_def split: if_splits)
  have o: "outstanding s = int (length ws)" using t_begin(2) by (auto simp: reserved_def)
  have "int (left ws) \<le> outstanding s * MAXOPBLOCKS" using left_le [of ws] by (simp add: o MAXOPBLOCKS_def)
  moreover have "left ({} # ws) = nat MAXOPBLOCKS + left ws" by (simp add: left_def)
  ultimately have "lh_n s + int (left ({} # ws)) \<le> int LOGSIZE" using s(1) by (simp add: algebra_simps MAXOPBLOCKS_def)
  then show ?case using t_begin(2) s(2) by (simp add: reserved_def logged_def)
next
  case (t_write i ws b s s')
  then show ?case by (intro reserved_write) auto
next
  case (t_end i ws s s')
  let ?ws = "take i ws @ drop (Suc i) ws"
  have r: "0 \<le> lh_n s" "\<not> committing s" "outstanding s = int (length ws)" using t_end(3) by (auto simp: reserved_def)
  note e = end_op_counters [OF t_end(2) r(1,2)]
  have len: "int (length ?ws) = outstanding s'" using t_end(1) r(3) e(2) by auto
  have sub: "set ?ws \<subseteq> set ws" by (auto dest: in_set_takeD in_set_dropD)
  have n: "lh_n s' \<le> lh_n s" "0 \<le> lh_n s'" using e(4) r(1) by auto
  have "lh_n s + int (left ws) \<le> int LOGSIZE" using t_end(3) by (simp add: reserved_def)
  then have b: "lh_n s' + int (left ?ws) \<le> int LOGSIZE" using left_split [OF t_end(1)] n(1) by linarith
  have "w \<subseteq> logged s'" if "w \<in> set ?ws" for w
  proof -
    have "0 < int (length ?ws)" using that by (metis length_pos_if_in_set of_nat_0_less_iff)
    then have "outstanding s \<noteq> 1" unfolding len using e(2) by simp
    then have "logged s' = logged s" using e(4,5) by (simp add: logged_def)
    then show ?thesis using that sub t_end(3) by (auto simp: reserved_def)
  qed
  then have W: "\<forall>w \<in> set ?ws. finite w \<and> w \<subseteq> logged s' \<and> card w \<le> nat MAXOPBLOCKS"
    using sub t_end(3) unfolding reserved_def prod.case by blast
  have l: "lsize s' = sz" "length (lh_block s') = LOGSIZE" using t_end(3) e(1,5) by (simp_all add: reserved_def)
  show ?case unfolding reserved_def prod.case by (intro conjI l e(3) n(2) b W len [symmetric])
next
  case (t_read dev bn s b s' ws)
  show ?case by (rule reserved_same) (fact, fact, rule keeps_cache(1), simp_all, rule keeps_cache(1), simp_all)
next
  case (t_edit b f s s' ws)
  show ?case by (rule reserved_same) (fact, fact, rule keeps_cache(5), simp_all, rule keeps_cache(5), simp_all)
next
  case (t_release b s s' ws)
  show ?case by (rule reserved_same) (fact, fact, rule keeps_cache(3), simp_all, rule keeps_cache(3), simp_all)
qed

lemma treachable_reserved:
  assumes "treachable sz c"
  shows "reserved sz c"
proof -
  obtain s where s: "log_start s" "lsize s = sz" "tstep\<^sup>*\<^sup>* (s, []) c" using assms by (auto simp: treachable_def)
  from s(3) show ?thesis
  proof (induction rule: rtranclp_induct)
    case base
    then show ?case using s by (simp add: reserved_def log_start_def left_def)
  next
    case (step y z)
    then show ?case using reserved_step by blast
  qed
qed

text \<open>
  Claim C23. In any interleaving of operations that log at most \<^verbatim>\<open>MAXOPBLOCKS\<close> different blocks each, any number of times, the header
  holds every block of an operation in progress and, together with what the operations have left of their budgets, at most
  \<^verbatim>\<open>LOGSIZE\<close> entries. On a disk whose log has room for \<^verbatim>\<open>LOGSIZE\<close> blocks beside its header, \<^verbatim>\<open>log_write\<close> by an operation that has not
  used up its budget does not panic, and with the budget used up it does so only if the header is full: the code tests for a
  full log before it looks whether the block is already there.
\<close>

theorem log_reservation_bounds:
  assumes "treachable sz (s, ws)"
  shows "0 \<le> lh_n s \<and> lh_n s + int (left ws) \<le> int LOGSIZE \<and> (\<forall>w \<in> set ws. w \<subseteq> logged s)
    \<and> (int LOGSIZE < sz \<longrightarrow> (\<forall>i b. i < length ws \<longrightarrow> int (card (ws ! i)) < MAXOPBLOCKS \<or> lh_n s < int LOGSIZE
        \<longrightarrow> (\<exists>t. log_write b s = Inr ((), t))))"
proof -
  have r: "reserved sz (s, ws)" by (rule treachable_reserved [OF assms])
  have "\<exists>t. log_write b s = Inr ((), t)"
    if "int LOGSIZE < sz" "i < length ws" "int (card (ws ! i)) < MAXOPBLOCKS \<or> lh_n s < int LOGSIZE" for i b
  proof -
    have "0 < left ws \<or> lh_n s < int LOGSIZE" using left_split [OF that(2)] that(3) by (auto simp: MAXOPBLOCKS_def)
    then have "lh_n s < int LOGSIZE" using r by (auto simp: reserved_def)
    then show ?thesis using r that(1,2) by (auto simp: log_write_def reserved_def Let_def)
  qed
  then show ?thesis using r by (auto simp: reserved_def)
qed

definition log_zero :: "int \<Rightarrow> log" where
  "log_zero sz = \<lparr>bufs = zero_bufs, memdisk = (\<lambda>_. replicate BSIZE 0), disksize = 1000, writes = [], curpid = 1,
     lstart = 2, lsize = sz, outstanding = 0, committing = False, ldev = 1, lh_n = 0, lh_block = replicate LOGSIZE 0\<rparr>"

lemma log_zero_start: "log_start (log_zero sz)" "lsize (log_zero sz) = sz"
  by (simp_all add: log_zero_def log_start_def)

theorem log_reservation_bounds_witness:
  "treachable 31 ((log_zero 31)\<lparr>outstanding := 1\<rparr>, [{}])
    \<and> (\<exists>t. log_write 0 ((log_zero 31)\<lparr>outstanding := 1\<rparr>) = Inr ((), t))"
proof -
  have "begin_op (log_zero 31) = Inr ((), (log_zero 31)\<lparr>outstanding := 1\<rparr>)"
    by (simp add: begin_op_def log_zero_def MAXOPBLOCKS_def LOGSIZE_def)
  from t_begin [OF this, of "[]"] have r: "treachable 31 ((log_zero 31)\<lparr>outstanding := 1\<rparr>, [{}])"
    unfolding treachable_def using log_zero_start by auto
  then show ?thesis using log_reservation_bounds [OF r] by (auto simp: LOGSIZE_def MAXOPBLOCKS_def)
qed

theorem log_write_records_witness:
  "\<exists>b t u. bread 1 7 ((binit (log_zero 30))\<lparr>outstanding := 1\<rparr>) = Inr (b, t) \<and> log_inv {b} t
    \<and> log_write b t = Inr ((), u) \<and> lh_n u = 1 \<and> pinned u = {7}"
proof -
  have b: "bufs (log_zero 30) = zero_bufs" by (simp add: log_zero_def)
  note i = binit_cache_ok [of "log_zero 30", unfolded b, OF zero_bufs_ok]
  define s where "s = (binit (log_zero 30))\<lparr>outstanding := 1\<rparr>"
  obtain bs where bi: "binit (log_zero 30) = (log_zero 30)\<lparr>bufs := bs\<rparr>" using i(4) by blast
  have v: "cached s = cached (binit (log_zero 30))" by (simp add: s_def cached_def fun_eq_iff)
  have ok: "cache_ok {} s" using i(1)
    unfolding cache_ok_def unique_blocks_def states_ok_def coherent_def v by (simp add: s_def)
  have d: "dirty_ix s = {}" using i(2) by (simp add: s_def dirty_ix_def)
  have f: "disksize s = 1000" "lh_n s = 0" "outstanding s = 1" "lsize s = 30" "length (lh_block s) = LOGSIZE"
    unfolding s_def bi by (simp_all add: log_zero_def)
  obtain c cs where r: "bread 1 7 s = Inr (c, s\<lparr>bufs := cs\<rparr>)" "cache_ok {c} (s\<lparr>bufs := cs\<rparr>)" "pinned (s\<lparr>bufs := cs\<rparr>) = pinned s"
      "cached (s\<lparr>bufs := cs\<rparr>) 7 c" "bflags (cs ! c) \<noteq> 0"
    using one_read [OF ok, of 7] d f(1) by (auto simp: NBUF_def)
  have p: "pinned s = {}" by (rule dirty_none(1) [OF ok d])
  have inv: "log_inv {c} (s\<lparr>bufs := cs\<rparr>)" using r(2,3) p f by (simp add: log_inv_def)
  show ?thesis
    using log_write_records [OF inv r(4)] r inv p f unfolding s_def [symmetric] by (auto simp: LOGSIZE_def)
qed

end
