(* ===== verification/Kalloc.thy ===== *)
theory Kalloc
  imports Memory
begin

text \<open>
  The physical page allocator (\<^verbatim>\<open>xv6/kalloc.c\<close>): the free list is threaded through the first word
  of every free page, so it lives in the same memory that the pages are part of. The
  critical sections under \<^verbatim>\<open>kmem.lock\<close> are single steps of the model.
\<close>

unbundle bit_operations_syntax

section \<open>Constants of memlayout.h and mmu.h\<close>

definition KERNBASE :: u32 where "KERNBASE = 0x80000000"
definition PHYSTOP :: u32 where "PHYSTOP = 0x20000000"
definition PGSIZE :: u32 where "PGSIZE = 4096"

definition V2P :: "u32 \<Rightarrow> u32" where "V2P a = a - KERNBASE"
definition P2V :: "u32 \<Rightarrow> u32" where "P2V a = a + KERNBASE"

definition PGROUNDUP :: "u32 \<Rightarrow> u32" where
  "PGROUNDUP sz = (sz + PGSIZE - 1) AND NOT (PGSIZE - 1)"

definition PGROUNDDOWN :: "u32 \<Rightarrow> u32" where
  "PGROUNDDOWN a = a AND NOT (PGSIZE - 1)"

section \<open>State and operations\<close>

text \<open>\<open>kend\<close> is the address of the linker's symbol \<^verbatim>\<open>end\<close>.\<close>

record kmem =
  kend :: u32
  pmem :: mem
  use_lock :: bool
  freelist :: u32

definition kfree :: "u32 \<Rightarrow> 'a kmem_scheme \<Rightarrow> 'a kmem_scheme res" where
  "kfree v s =
     (if v mod PGSIZE \<noteq> 0 \<or> v < kend s \<or> V2P v \<ge> PHYSTOP then Inl (Panic ''kfree'')
      else (let s = s\<lparr>pmem := memset v 1 PGSIZE (pmem s)\<rparr>;
                s = s\<lparr>pmem := store32 (pmem s) v (freelist s)\<rparr>
            in Inr (s\<lparr>freelist := v\<rparr>)))"

definition kalloc :: "'a kmem_scheme \<Rightarrow> u32 \<times> 'a kmem_scheme" where
  "kalloc s =
     (let r = freelist s;
          s = (if r \<noteq> 0 then s\<lparr>freelist := load32 (pmem s) r\<rparr> else s)
      in (r, s))"

text \<open>
  The loop of \<^verbatim>\<open>freerange\<close>. Pointer arithmetic wraps, so that the loop may run into the panic of
  \<^verbatim>\<open>kfree\<close> or, with \<^verbatim>\<open>end\<close> at 0, never end.
\<close>

partial_function (option) freerange_loop ::
  "u32 \<Rightarrow> u32 \<Rightarrow> 'a kmem_scheme \<Rightarrow> 'a kmem_scheme res option" where
  "freerange_loop p vend s =
     (if p + PGSIZE \<le> vend
      then (case kfree p s of
              Inl h \<Rightarrow> Some (Inl h)
            | Inr s' \<Rightarrow> freerange_loop (p + PGSIZE) vend s')
      else Some (Inr s))"

definition freerange :: "u32 \<Rightarrow> u32 \<Rightarrow> 'a kmem_scheme \<Rightarrow> 'a kmem_scheme res option" where
  "freerange vstart vend s = freerange_loop (PGROUNDUP vstart) vend s"

definition kinit1 :: "u32 \<Rightarrow> u32 \<Rightarrow> 'a kmem_scheme \<Rightarrow> 'a kmem_scheme res option" where
  "kinit1 vstart vend s = freerange vstart vend (s\<lparr>use_lock := False\<rparr>)"

definition kinit2 :: "u32 \<Rightarrow> u32 \<Rightarrow> 'a kmem_scheme \<Rightarrow> 'a kmem_scheme res option" where
  "kinit2 vstart vend s =
     map_option (\<lambda>r. bindE r (\<lambda>s. Inr (s\<lparr>use_lock := True\<rparr>))) (freerange vstart vend s)"

section \<open>The list abstraction\<close>

text \<open>\<open>linked m p ps\<close>: following the first words of the pages from \<open>p\<close> visits \<open>ps\<close> and ends at 0.\<close>

primrec linked :: "mem \<Rightarrow> u32 \<Rightarrow> u32 list \<Rightarrow> bool" where
  "linked m p [] \<longleftrightarrow> p = 0"
| "linked m p (q # qs) \<longleftrightarrow> p = q \<and> q \<noteq> 0 \<and> linked m (load32 m q) qs"

definition good_page :: "u32 \<Rightarrow> u32 \<Rightarrow> bool" where
  "good_page e v \<longleftrightarrow> v mod PGSIZE = 0 \<and> e \<le> v \<and> V2P v < PHYSTOP \<and> v \<noteq> 0"

text \<open>The free list holds \<open>ps\<close>: distinct, page-aligned pages of the allocator's range.\<close>

definition free_pages :: "'a kmem_scheme \<Rightarrow> u32 list \<Rightarrow> bool" where
  "free_pages s ps \<longleftrightarrow> linked (pmem s) (freelist s) ps \<and> distinct ps
     \<and> (\<forall>v\<in>set ps. good_page (kend s) v)"

definition page :: "u32 \<Rightarrow> u32 set" where
  "page v = block_at v 4096"

section \<open>Lemmas\<close>

lemma PGSIZE_block: "x \<in> page v \<longleftrightarrow> x - v < PGSIZE"
  using block_at_word_iff [of 4096 x v] by (simp add: page_def PGSIZE_def)

lemma unat_page_mod: "v mod PGSIZE = 0 \<longleftrightarrow> unat v mod 4096 = 0"
proof -
  have "unat (v mod PGSIZE) = unat v mod 4096" by (simp add: PGSIZE_def unat_mod)
  then show ?thesis by (metis unat_eq_zero unat_0)
qed

text \<open>A page-aligned address determines its page.\<close>

lemma page_member:
  assumes "v mod PGSIZE = 0" and "x \<in> page v"
  shows "unat v = 4096 * (unat x div 4096)"
proof -
  obtain k where k: "k < 4096" "x = v + of_nat k"
    using assms(2) by (auto simp: page_def block_at_def)
  obtain q where q: "unat v = 4096 * q"
    using assms(1) by (auto simp: unat_page_mod mod_eq_0_iff_dvd)
  have "unat v < 2 ^ 32" using unsigned_less [of v] by simp
  with q k have "unat v + k < 2 ^ 32" by simp
  then have "unat x = 4096 * q + k" using k q by (simp add: unat_add_of_nat)
  with q k show ?thesis by simp
qed

lemma pages_disjoint:
  assumes "v mod PGSIZE = 0" "w mod PGSIZE = 0" "v \<noteq> w"
  shows "page v \<inter> page w = {}"
proof -
  have "False" if "x \<in> page v" "x \<in> page w" for x
    using page_member [OF assms(1) that(1)] page_member [OF assms(2) that(2)] assms(3)
    by (simp add: word_unat_eq_iff)
  then show ?thesis by blast
qed

lemma cell_in_page: "cell v \<subseteq> page v"
  using block_at_add [of v 4 4092] by (auto simp: page_def cell_block)

lemma linked_cong:
  "(\<And>v x. v \<in> set ps \<Longrightarrow> x \<in> cell v \<Longrightarrow> m x = m' x) \<Longrightarrow> linked m p ps = linked m' p ps"
proof (induction ps arbitrary: p)
  case (Cons q qs)
  have "load32 m q = load32 m' q" by (rule load32_cong) (use Cons.prems in auto)
  moreover have "linked m r qs = linked m' r qs" for r by (rule Cons.IH) (use Cons.prems in auto)
  ultimately show ?case by simp
qed simp

lemma linked_unique: "linked m p ps \<Longrightarrow> linked m p qs \<Longrightarrow> ps = qs"
proof (induction ps arbitrary: p qs)
  case Nil
  then show ?case by (cases qs) auto
next
  case (Cons a as)
  then show ?case by (cases qs) auto
qed

lemma kfree_panics_iff: "kfree v s = Inl h \<longleftrightarrow> h = Panic ''kfree''
    \<and> (v mod PGSIZE \<noteq> 0 \<or> v < kend s \<or> V2P v \<ge> PHYSTOP)"
  by (auto simp: kfree_def Let_def)

lemma kfree_InrD:
  assumes "kfree v s = Inr s'"
  shows "freelist s' = v" "kend s' = kend s" "load32 (pmem s') v = freelist s"
    "v mod PGSIZE = 0" "kend s \<le> v" "V2P v < PHYSTOP"
    "\<And>x. x \<notin> page v \<Longrightarrow> pmem s' x = pmem s x" "kmem.more s' = kmem.more s" "use_lock s' = use_lock s"
proof -
  have s': "s' = s\<lparr>pmem := store32 (memset v 1 PGSIZE (pmem s)) v (freelist s), freelist := v\<rparr>"
    using assms by (auto simp: kfree_def Let_def split: if_splits)
  show "pmem s' x = pmem s x" if "x \<notin> page v" for x
  proof -
    have "x \<notin> cell v" using that cell_in_page by blast
    then show ?thesis using that by (simp add: s' store32_outside memset_fills PGSIZE_block)
  qed
  show "freelist s' = v" "kend s' = kend s" "load32 (pmem s') v = freelist s"
    "kmem.more s' = kmem.more s" "use_lock s' = use_lock s" by (simp_all add: s')
  show "v mod PGSIZE = 0" "kend s \<le> v" "V2P v < PHYSTOP"
    using assms by (auto simp: kfree_def not_less not_le split: if_splits)
qed

lemma zero_not_mapped: "V2P v < PHYSTOP \<Longrightarrow> v \<noteq> 0"
  by (auto simp: V2P_def PHYSTOP_def KERNBASE_def)

lemma kfree_free_pages:
  assumes "free_pages s ps" "kfree v s = Inr s'" "v \<notin> set ps"
  shows "free_pages s' (v # ps)"
proof -
  note f = kfree_InrD [OF assms(2)]
  have "linked (pmem s') (freelist s) ps = linked (pmem s) (freelist s) ps"
  proof (rule linked_cong)
    fix w x assume "w \<in> set ps" "x \<in> cell w"
    then have "w mod PGSIZE = 0" "w \<noteq> v"
      using assms by (auto simp: free_pages_def good_page_def)
    then have "page w \<inter> page v = {}" using f(4) by (intro pages_disjoint)
    with \<open>x \<in> cell w\<close> have "x \<notin> page v" using cell_in_page [of w] by blast
    then show "pmem s' x = pmem s x" by (rule f(7))
  qed
  then show ?thesis
    using assms f zero_not_mapped by (auto simp: free_pages_def good_page_def)
qed

lemma kalloc_Nil: "free_pages s [] \<Longrightarrow> kalloc s = (0, s)"
  by (simp add: kalloc_def free_pages_def)

lemma kalloc_Cons:
  assumes "free_pages s (v # ps)"
  shows "fst (kalloc s) = v" "free_pages (snd (kalloc s)) ps" "v \<notin> set ps" "good_page (kend s) v"
    "pmem (snd (kalloc s)) = pmem s" "kend (snd (kalloc s)) = kend s"
    "kmem.more (snd (kalloc s)) = kmem.more s"
  using assms by (auto simp: kalloc_def Let_def free_pages_def)

section \<open>The allocator interface\<close>

text \<open>Allocating \<open>n\<close> pages in a row.\<close>

primrec alloc_seq :: "('s \<Rightarrow> u32 \<times> 's) \<Rightarrow> nat \<Rightarrow> 's \<Rightarrow> u32 list \<times> 's" where
  "alloc_seq alloc 0 s = ([], s)"
| "alloc_seq alloc (Suc n) s =
     (let (v, s) = alloc s; (vs, s) = alloc_seq alloc n s in (v # vs, s))"

text \<open>
  What the clients of the allocator rely on: it hands out the pages of a list of distinct
  non-null pages, and null when the list is empty; freeing a page that is not in the list
  puts it there. \<open>holds s ps\<close> relates the allocator's state to its list.
\<close>

locale page_allocator =
  fixes alloc :: "'s \<Rightarrow> u32 \<times> 's"
    and free :: "u32 \<Rightarrow> 's \<Rightarrow> 's res"
    and holds :: "'s \<Rightarrow> u32 list \<Rightarrow> bool"
  assumes alloc_Nil: "holds s [] \<Longrightarrow> alloc s = (0, s)"
    and alloc_Cons: "holds s (v # ps) \<Longrightarrow> fst (alloc s) = v \<and> holds (snd (alloc s)) ps"
    and free_Cons: "holds s ps \<Longrightarrow> v \<notin> set ps \<Longrightarrow> free v s = Inr s' \<Longrightarrow> holds s' (v # ps)"
    and holds_pages: "holds s ps \<Longrightarrow> distinct ps \<and> 0 \<notin> set ps"
begin

lemma alloc_null_iff: "holds s ps \<Longrightarrow> fst (alloc s) = 0 \<longleftrightarrow> ps = []"
  using alloc_Nil alloc_Cons holds_pages by (cases ps) fastforce+

lemma alloc_fresh: "holds s ps \<Longrightarrow> ps \<noteq> [] \<Longrightarrow>
    fst (alloc s) \<in> set ps \<and> (\<exists>qs. holds (snd (alloc s)) qs \<and> fst (alloc s) \<notin> set qs)"
  using alloc_Cons holds_pages by (cases ps) fastforce+

lemma free_then_alloc:
  assumes "holds s ps" "v \<notin> set ps" "free v s = Inr s'"
  shows "fst (alloc s') = v \<and> holds (snd (alloc s')) ps"
  using alloc_Cons [OF free_Cons [OF assms]] .

lemma alloc_seq_all: "holds s (ps @ qs) \<Longrightarrow>
    fst (alloc_seq alloc (length ps) s) = ps \<and> holds (snd (alloc_seq alloc (length ps) s)) qs"
proof (induction ps arbitrary: s)
  case (Cons v ps)
  then have "fst (alloc s) = v" "holds (snd (alloc s)) (ps @ qs)" using alloc_Cons by auto
  with Cons.IH [of "snd (alloc s)"] show ?case by (simp add: Let_def split_beta)
qed simp

lemma alloc_seq_distinct:
  assumes "holds s ps" "n \<le> length ps"
  shows "distinct (fst (alloc_seq alloc n s)) \<and> 0 \<notin> set (fst (alloc_seq alloc n s))
    \<and> holds (snd (alloc_seq alloc n s)) (drop n ps)"
proof -
  have len: "length (take n ps) = n" using assms(2) by simp
  have "holds s (take n ps @ drop n ps)" using assms(1) by simp
  note a = alloc_seq_all [OF this, unfolded len]
  have "distinct (take n ps)" "0 \<notin> set (take n ps)"
    using holds_pages [OF assms(1)] by (auto dest: in_set_takeD)
  with a show ?thesis by simp
qed

end

interpretation kmem: page_allocator kalloc kfree free_pages
proof unfold_locales
  show "kalloc s = (0, s)" if "free_pages s []" for s :: "'a kmem_scheme"
    using that by (rule kalloc_Nil)
  show "fst (kalloc s) = v \<and> free_pages (snd (kalloc s)) ps" if "free_pages s (v # ps)"
    for s :: "'a kmem_scheme" and v ps using kalloc_Cons [OF that] by simp
  show "free_pages s' (v # ps)" if "free_pages s ps" "v \<notin> set ps" "kfree v s = Inr s'"
    for s s' :: "'a kmem_scheme" and v ps using kfree_free_pages that by blast
  show "distinct ps \<and> 0 \<notin> set ps" if "free_pages s ps" for s :: "'a kmem_scheme" and ps
    using that by (auto simp: free_pages_def good_page_def)
qed

text \<open>
  Claim C14. As long as the free list holds enough pages, successive calls of \<^verbatim>\<open>kalloc\<close> return
  pairwise distinct, non-null, page-aligned pages between \<^verbatim>\<open>end\<close> and \<^verbatim>\<open>PHYSTOP\<close> and leave the
  rest of the list; with an empty list \<^verbatim>\<open>kalloc\<close> returns 0.
\<close>

theorem kalloc_distinct_pages:
  assumes "free_pages s ps" and "n \<le> length ps"
  shows "distinct (fst (alloc_seq kalloc n s)) \<and> 0 \<notin> set (fst (alloc_seq kalloc n s))
    \<and> fst (alloc_seq kalloc n s) = take n ps
    \<and> list_all (good_page (kend s)) (fst (alloc_seq kalloc n s))
    \<and> free_pages (snd (alloc_seq kalloc n s)) (drop n ps)
    \<and> (fst (kalloc s) = 0 \<longleftrightarrow> ps = [])"
proof -
  have len: "length (take n ps) = n" using assms(2) by simp
  have "free_pages s (take n ps @ drop n ps)" using assms(1) by simp
  note a = kmem.alloc_seq_all [OF this, unfolded len]
  have "list_all (good_page (kend s)) (take n ps)"
    using assms(1) by (auto simp: free_pages_def list_all_iff dest: in_set_takeD)
  then show ?thesis
    using a kmem.alloc_seq_distinct [OF assms] kmem.alloc_null_iff [OF assms(1)] by simp
qed

text \<open>
  A page freed by \<^verbatim>\<open>kfree\<close> is the next one \<^verbatim>\<open>kalloc\<close> returns, after which the free list is
  the one before; and \<^verbatim>\<open>kfree\<close> panics exactly for addresses that are not page-aligned or not
  between \<^verbatim>\<open>end\<close> and \<^verbatim>\<open>PHYSTOP\<close>.
\<close>

theorem kfree_kalloc_roundtrip:
  assumes "free_pages s ps" and "v \<notin> set ps"
  shows "case kfree v s of
      Inl h \<Rightarrow> h = Panic ''kfree'' \<and> (v mod PGSIZE \<noteq> 0 \<or> v < kend s \<or> V2P v \<ge> PHYSTOP)
    | Inr s' \<Rightarrow> v mod PGSIZE = 0 \<and> kend s \<le> v \<and> V2P v < PHYSTOP
        \<and> fst (kalloc s') = v \<and> free_pages (snd (kalloc s')) ps"
proof (cases "kfree v s")
  case (Inl h)
  then show ?thesis using kfree_panics_iff [of v s h] by simp
next
  case (Inr s')
  then show ?thesis using kfree_InrD(4-6) [OF Inr] kmem.free_then_alloc [OF assms Inr] by simp
qed

lemma kfree_ok:
  assumes "v mod PGSIZE = 0" "kend s \<le> v" "V2P v < PHYSTOP"
  obtains s' where "kfree v s = Inr s'"
  using assms by (auto simp: kfree_def Let_def not_le not_less)

text \<open>
  Nothing detects a double free: freeing the same page twice makes two later calls of
  \<^verbatim>\<open>kalloc\<close> return the same page.
\<close>

theorem double_kfree_aliases:
  assumes "v mod PGSIZE = 0" "kend s \<le> v" "V2P v < PHYSTOP"
  shows "\<exists>s1 s2. kfree v s = Inr s1 \<and> kfree v s1 = Inr s2
    \<and> fst (alloc_seq kalloc 2 s2) = [v, v]"
proof -
  obtain s1 where s1: "kfree v s = Inr s1" using assms by (rule kfree_ok)
  have "kend s1 \<le> v" using assms(2) kfree_InrD(2) [OF s1] by simp
  then obtain s2 where s2: "kfree v s1 = Inr s2" using assms by (metis kfree_ok)
  have "v \<noteq> 0" using assms(3) by (rule zero_not_mapped)
  then have "fst (alloc_seq kalloc 2 s2) = [v, v]"
    using kfree_InrD [OF s1] kfree_InrD [OF s2]
    by (simp add: numeral_2_eq_2 kalloc_def Let_def)
  with s1 s2 show ?thesis by blast
qed


text \<open>A concrete allocator to evaluate the properties on.\<close>

definition kboot :: kmem where
  "kboot = \<lparr>kend = 0x80100000, pmem = (\<lambda>_. 0), use_lock = False, freelist = 0\<rparr>"

lemma kboot_free_pages: "free_pages kboot []"
  by (simp add: kboot_def free_pages_def)

lemma kboot_page: "(0x80200000 :: u32) mod PGSIZE = 0" "kend kboot \<le> 0x80200000"
  "V2P 0x80200000 < PHYSTOP"
  by (simp_all add: PGSIZE_def kboot_def V2P_def KERNBASE_def PHYSTOP_def)

theorem kalloc_distinct_pages_witness:
  "\<exists>s. kfree 0x80200000 kboot = Inr s \<and> fst (alloc_seq kalloc 1 s) = [0x80200000]"
proof -
  obtain s where s: "kfree 0x80200000 kboot = Inr s" using kboot_page by (rule kfree_ok)
  have "free_pages s [0x80200000]"
    using kfree_free_pages [OF kboot_free_pages s] by simp
  from kalloc_distinct_pages [OF this, of 1] s show ?thesis by auto
qed

theorem kfree_kalloc_roundtrip_witness:
  "case kfree 0x80200000 kboot of
      Inl h \<Rightarrow> h = Panic ''kfree'' \<and> ((0x80200000 :: u32) mod PGSIZE \<noteq> 0
        \<or> 0x80200000 < kend kboot \<or> V2P 0x80200000 \<ge> PHYSTOP)
    | Inr s' \<Rightarrow> (0x80200000 :: u32) mod PGSIZE = 0 \<and> kend kboot \<le> 0x80200000
        \<and> V2P 0x80200000 < PHYSTOP \<and> fst (kalloc s') = 0x80200000
        \<and> free_pages (snd (kalloc s')) []"
  by (rule kfree_kalloc_roundtrip [OF kboot_free_pages]) simp

theorem double_kfree_aliases_witness:
  "\<exists>s1 s2. kfree 0x80200000 kboot = Inr s1 \<and> kfree 0x80200000 s1 = Inr s2
    \<and> fst (alloc_seq kalloc 2 s2) = [0x80200000, 0x80200000]"
  by (rule double_kfree_aliases [OF kboot_page])

section \<open>Initialisation\<close>

lemma unat_u32_bound: "unat (a :: u32) < 2 ^ 32"
  using unsigned_less [of a] by simp

lemma unat_add_u32: "unat (a :: u32) + unat b < 2 ^ 32 \<Longrightarrow> unat (a + b) = unat a + unat b"
  by (simp add: unat_word_ariths)

lemma freerange_loop_frees:
  assumes "unat p + 4096 * n \<le> unat vend" "unat vend < unat p + 4096 * Suc n"
    and "unat vend \<le> 0xA0000000" "KERNBASE \<le> p" "kend s \<le> p" "p mod PGSIZE = 0"
    and "free_pages s ps" "\<And>k. k < n \<Longrightarrow> p + of_nat (4096 * k) \<notin> set ps"
  shows "\<exists>s'. freerange_loop p vend s = Some (Inr s')
    \<and> free_pages s' (rev (map (\<lambda>k. p + of_nat (4096 * k)) [0..<n]) @ ps) \<and> kend s' = kend s"
  using assms
proof (induction n arbitrary: p s ps)
  case 0
  have "unat (p + PGSIZE) = unat p + 4096"
    using 0 unat_add_u32 [of p PGSIZE] by (simp add: PGSIZE_def)
  then have "\<not> p + PGSIZE \<le> vend" using 0 by (simp add: word_le_nat_alt)
  then show ?case using 0 by (simp add: freerange_loop.simps [of p])
next
  case (Suc n)
  have up: "unat (p + PGSIZE) = unat p + 4096"
    using Suc.prems unat_add_u32 [of p PGSIZE] by (simp add: PGSIZE_def)
  have kb: "unat p \<ge> 0x80000000" using Suc.prems(4) by (simp add: KERNBASE_def word_le_nat_alt)
  have "unat (V2P p) = unat p - 0x80000000"
    using kb by (simp add: V2P_def KERNBASE_def unat_sub_if')
  then have "V2P p < PHYSTOP" using Suc.prems by (simp add: PHYSTOP_def word_less_nat_alt)
  then obtain s1 where s1: "kfree p s = Inr s1"
    using Suc.prems(5,6) by (metis kfree_ok)
  have guard: "p + PGSIZE \<le> vend" using Suc.prems up by (simp add: word_le_nat_alt)
  have notin: "p \<notin> set ps" using Suc.prems(8) [of 0] by simp
  have f1: "free_pages s1 (p # ps)" by (rule kfree_free_pages [OF Suc.prems(7) s1 notin])
  have ord: "p \<le> p + PGSIZE" using up by (simp add: word_le_nat_alt)
  have "\<exists>s'. freerange_loop (p + PGSIZE) vend s1 = Some (Inr s')
    \<and> free_pages s' (rev (map (\<lambda>k. (p + PGSIZE) + of_nat (4096 * k)) [0..<n]) @ p # ps)
    \<and> kend s' = kend s1"
  proof (rule Suc.IH [OF _ _ Suc.prems(3) _ _ _ f1])
    show "KERNBASE \<le> p + PGSIZE" "kend s1 \<le> p + PGSIZE"
      using Suc.prems(4,5) ord kfree_InrD(2) [OF s1] by (auto intro: order_trans)
    show "(p + PGSIZE) mod PGSIZE = 0"
      using Suc.prems(6) up by (simp add: unat_page_mod)
    show "p + PGSIZE + of_nat (4096 * k) \<notin> set (p # ps)" if "k < n" for k
    proof -
      have "p + PGSIZE + of_nat (4096 * k) = p + of_nat (4096 * Suc k)" by (simp add: PGSIZE_def)
      moreover have "p + of_nat (4096 * Suc k) \<noteq> p"
        using u32_offset_eq_iff [of p "4096 * Suc k" p 0] Suc.prems that by simp
      ultimately show ?thesis using Suc.prems(8) [of "Suc k"] that by (simp add: add.assoc)
    qed
  qed (use Suc.prems up in simp_all)
  moreover have "map (\<lambda>k. p + of_nat (4096 * k)) [0..<Suc n]
      = p # map (\<lambda>k. (p + PGSIZE) + of_nat (4096 * k)) [0..<n]"
    by (simp add: upt_conv_Cons map_Suc_upt [symmetric] PGSIZE_def o_def del: upt_Suc)
  ultimately show ?case
    using guard s1 kfree_InrD(2) [OF s1] by (auto simp: freerange_loop.simps [of p])
qed

lemma PGROUNDDOWN_unat: "unat (PGROUNDDOWN a) = 4096 * (unat a div 4096)"
proof -
  have mask: "PGSIZE - 1 = mask 12" by (simp add: PGSIZE_def mask_eq_decr_exp)
  have "PGROUNDDOWN a = push_bit 12 (drop_bit 12 a)"
    unfolding PGROUNDDOWN_def mask by (rule bit_word_eqI) (auto simp: bit_simps)
  also have "\<dots> = drop_bit 12 a * 4096" by (simp add: push_bit_eq_mult)
  finally have "PGROUNDDOWN a = drop_bit 12 a * 4096" .
  moreover have "unat (drop_bit 12 a) = unat a div 4096"
    by (simp add: drop_bit_eq_div unat_div)
  moreover have "unat a div 4096 * 4096 < 2 ^ 32"
    using unat_u32_bound [of a] div_times_less_eq_dividend [of "unat a" 4096] by linarith
  ultimately show ?thesis by (simp add: unat_word_ariths)
qed

lemma PGROUNDUP_unat:
  assumes "unat a + 4095 < 2 ^ 32"
  shows "unat (PGROUNDUP a) = 4096 * ((unat a + 4095) div 4096)"
proof -
  have "PGROUNDUP a = PGROUNDDOWN (a + of_nat 4095)"
    by (simp add: PGROUNDUP_def PGROUNDDOWN_def PGSIZE_def add.commute)
  then show ?thesis using unat_add_of_nat [OF assms] by (simp add: PGROUNDDOWN_unat)
qed

lemma PGROUNDUP_aligned: "PGROUNDUP a mod PGSIZE = 0"
proof -
  have "PGROUNDUP a = PGROUNDDOWN (a + 4095)"
    by (simp add: PGROUNDUP_def PGROUNDDOWN_def PGSIZE_def add.commute)
  then show ?thesis by (simp add: unat_page_mod PGROUNDDOWN_unat)
qed

text \<open>
  \<^verbatim>\<open>freerange(vstart, vend)\<close> ends and puts exactly the whole pages between \<open>vstart\<close> and
  \<open>vend\<close> on the free list, last page first, for a range inside the allocator's physical
  memory none of whose pages is free yet.
\<close>

theorem freerange_frees_whole_pages:
  fixes s :: "'a kmem_scheme"
  assumes range: "unat vend \<le> 0xA0000000" "PGROUNDUP vstart \<le> vend"
      "KERNBASE \<le> PGROUNDUP vstart" "kend s \<le> PGROUNDUP vstart"
    and pages: "vs = map (\<lambda>k. PGROUNDUP vstart + of_nat (4096 * k))
      [0..<(unat vend - unat (PGROUNDUP vstart)) div 4096]"
    and free: "free_pages s ps" "set vs \<inter> set ps = {}"
  shows "\<exists>s'. freerange vstart vend s = Some (Inr s') \<and> free_pages s' (rev vs @ ps)"
proof -
  let ?p = "PGROUNDUP vstart"
  let ?n = "(unat vend - unat ?p) div 4096"
  have le: "unat ?p \<le> unat vend" using range(2) by (simp add: word_le_nat_alt)
  have "\<exists>s'. freerange_loop ?p vend s = Some (Inr s')
    \<and> free_pages s' (rev (map (\<lambda>k. ?p + of_nat (4096 * k)) [0..<?n]) @ ps) \<and> kend s' = kend s"
  proof (rule freerange_loop_frees)
    show "unat ?p + 4096 * ?n \<le> unat vend" using le times_div_less_eq_dividend [of 4096 "unat vend - unat ?p"] by simp
    show "unat vend < unat ?p + 4096 * Suc ?n"
    proof -
      define d where "d = unat vend - unat ?p"
      have "d < 4096 * Suc (d div 4096)" by (simp add: dividend_less_times_div)
      then show ?thesis using le by (simp add: d_def)
    qed
    show "?p + of_nat (4096 * k) \<notin> set ps" if "k < ?n" for k
      using free(2) that by (force simp: pages)
  qed (use range free PGROUNDUP_aligned in auto)
  then show ?thesis by (auto simp: freerange_def pages)
qed

theorem freerange_frees_whole_pages_witness:
  "\<exists>s'. freerange 0x80200001 0x80203000 kboot = Some (Inr s')
    \<and> free_pages s' [0x80202000, 0x80201000]"
proof -
  have up: "PGROUNDUP 0x80200001 = 0x80201000" by (simp add: PGROUNDUP_def PGSIZE_def)
  have "[0x80201000, 0x80202000] = map (\<lambda>k. PGROUNDUP 0x80200001 + of_nat (4096 * k))
      [0..<(unat (0x80203000 :: u32) - unat (PGROUNDUP 0x80200001)) div 4096]"
    by (simp add: up upt_rec)
  from freerange_frees_whole_pages [OF _ _ _ _ this kboot_free_pages] show ?thesis
    by (simp add: up KERNBASE_def kboot_def)
qed

end
