(* ===== verification/Vm.thy ===== *)
theory Vm
  imports Kalloc
begin

text \<open>
  Virtual memory (\<^verbatim>\<open>xv6/vm.c\<close>): two-level page tables that live in pages of the physical page
  allocator, the operations that grow, shrink, copy and free a user address space, and the
  translation of user addresses. Kernel pointers are used as addresses of \<open>pmem\<close> directly, since the
  kernel maps physical memory at a fixed offset. \<^verbatim>\<open>loaduvm\<close> reads from an inode and is defined with
  \<^verbatim>\<open>exec\<close>.
\<close>

unbundle bit_operations_syntax

section \<open>Constants and address arithmetic of mmu.h\<close>

definition EXTMEM :: u32 where "EXTMEM = 0x100000"
definition DEVSPACE :: u32 where "DEVSPACE = 0xFE000000"
definition KERNLINK :: u32 where "KERNLINK = KERNBASE + EXTMEM"
definition PCI_BAR_BASE :: u32 where "PCI_BAR_BASE = 0x80000000"
definition PCI_VP_OFFSET :: u32 where "PCI_VP_OFFSET = 0x40000000"
definition KSTACKSIZE :: u32 where "KSTACKSIZE = 4096"

definition PTE_P :: u32 where "PTE_P = 1"
definition PTE_W :: u32 where "PTE_W = 2"
definition PTE_U :: u32 where "PTE_U = 4"

definition PDX :: "u32 \<Rightarrow> u32" where "PDX va = drop_bit 22 va AND 0x3FF"
definition PTX :: "u32 \<Rightarrow> u32" where "PTX va = drop_bit 12 va AND 0x3FF"
definition PGADDR :: "u32 \<Rightarrow> u32 \<Rightarrow> u32 \<Rightarrow> u32" where
  "PGADDR d t k = push_bit 22 d OR push_bit 12 t OR k"
definition PTE_ADDR :: "u32 \<Rightarrow> u32" where "PTE_ADDR pte = pte AND NOT 0xFFF"
definition PTE_FLAGS :: "u32 \<Rightarrow> u32" where "PTE_FLAGS pte = pte AND 0xFFF"

section \<open>State\<close>

text \<open>A segment descriptor, field by field.\<close>

record segdesc =
  lim_15_0 :: u32
  base_15_0 :: u32
  base_23_16 :: u32
  sd_type :: u32
  sd_s :: u32
  sd_dpl :: u32
  sd_p :: u32
  lim_19_16 :: u32
  sd_avl :: u32
  sd_rsv1 :: u32
  sd_db :: u32
  sd_g :: u32
  base_31_24 :: u32

definition SEG :: "u32 \<Rightarrow> u32 \<Rightarrow> u32 \<Rightarrow> u32 \<Rightarrow> segdesc" where
  "SEG ty base lim dpl =
     \<lparr>lim_15_0 = drop_bit 12 lim AND 0xffff, base_15_0 = base AND 0xffff,
      base_23_16 = drop_bit 16 base AND 0xff, sd_type = ty, sd_s = 1, sd_dpl = dpl, sd_p = 1,
      lim_19_16 = drop_bit 28 lim, sd_avl = 0, sd_rsv1 = 0, sd_db = 1, sd_g = 1,
      base_31_24 = drop_bit 24 base\<rparr>"

definition SEG16 :: "u32 \<Rightarrow> u32 \<Rightarrow> u32 \<Rightarrow> u32 \<Rightarrow> segdesc" where
  "SEG16 ty base lim dpl =
     \<lparr>lim_15_0 = lim AND 0xffff, base_15_0 = base AND 0xffff,
      base_23_16 = drop_bit 16 base AND 0xff, sd_type = ty, sd_s = 1, sd_dpl = dpl, sd_p = 1,
      lim_19_16 = drop_bit 16 lim, sd_avl = 0, sd_rsv1 = 0, sd_db = 1, sd_g = 0,
      base_31_24 = drop_bit 24 base\<rparr>"

text \<open>
  The executing processor: its descriptor table, the address and the used fields of its task state
  segment, its task and page-table registers.
\<close>

record cpuhw =
  gdt :: "segdesc list"
  ts_addr :: u32
  ts_ss0 :: u32
  ts_esp0 :: u32
  ts_iomb :: u32
  tr :: u32
  cr3 :: u32

text \<open>\<open>kdata\<close> is the linker's symbol \<^verbatim>\<open>data\<close>; the video memory is described by the global \<^verbatim>\<open>gpu\<close>.\<close>

record vm = kmem +
  kdata :: u32
  pvram_addr :: u32
  vram_size :: u32
  kpgdir :: u32
  hw :: cpuhw

section \<open>Segments and address-space switch\<close>

definition seginit :: "'a vm_scheme \<Rightarrow> 'a vm_scheme" where
  "seginit s =
     s\<lparr>hw := (hw s)\<lparr>gdt := (gdt (hw s))[
         1 := SEG (8 OR 2) 0 0xffffffff 0,
         2 := SEG 2 0 0xffffffff 0,
         3 := SEG (8 OR 2) 0 0xffffffff 3,
         4 := SEG 2 0 0xffffffff 3]\<rparr>\<rparr>"

definition switchkvm :: "'a vm_scheme \<Rightarrow> 'a vm_scheme" where
  "switchkvm s = s\<lparr>hw := (hw s)\<lparr>cr3 := V2P (kpgdir s)\<rparr>\<rparr>"

text \<open>\<open>p\<close> is the kernel stack and page directory of the process, \<open>None\<close> the null pointer.\<close>

definition switchuvm :: "(u32 \<times> u32) option \<Rightarrow> 'a vm_scheme \<Rightarrow> 'a vm_scheme res" where
  "switchuvm p s =
     (case p of
        None \<Rightarrow> Inl (Panic ''switchuvm: no process'')
      | Some (kstack, pgdir) \<Rightarrow>
          if kstack = 0 then Inl (Panic ''switchuvm: no kstack'')
          else if pgdir = 0 then Inl (Panic ''switchuvm: no pgdir'')
          else Inr (s\<lparr>hw := (hw s)\<lparr>
                  gdt := (gdt (hw s))[5 := (SEG16 9 (ts_addr (hw s)) (104 - 1) 0)\<lparr>sd_s := 0\<rparr>],
                  ts_ss0 := push_bit 3 2, ts_esp0 := kstack + KSTACKSIZE, ts_iomb := 0xFFFF,
                  tr := push_bit 3 5, cr3 := V2P pgdir\<rparr>\<rparr>))"

section \<open>Page tables\<close>

text \<open>The address of the page-table entry, 0 if there is none.\<close>

definition walkpgdir :: "u32 \<Rightarrow> u32 \<Rightarrow> bool \<Rightarrow> 'a kmem_scheme \<Rightarrow> u32 \<times> 'a kmem_scheme" where
  "walkpgdir pgdir va alloc s =
     (let pde = pgdir + 4 * PDX va
      in if load32 (pmem s) pde AND PTE_P \<noteq> 0
         then (P2V (PTE_ADDR (load32 (pmem s) pde)) + 4 * PTX va, s)
         else if \<not> alloc then (0, s)
         else let (pgtab, s) = kalloc s
              in if pgtab = 0 then (0, s)
                 else let s = s\<lparr>pmem := memset pgtab 0 PGSIZE (pmem s)\<rparr>;
                          s = s\<lparr>pmem := store32 (pmem s) pde (V2P pgtab OR PTE_P OR PTE_W OR PTE_U)\<rparr>
                      in (pgtab + 4 * PTX va, s))"

text \<open>
  The loop of \<^verbatim>\<open>mappages\<close>. Both bounds are page aligned, so the loop meets \<open>last\<close> after exactly
  \<open>(last - a) / PGSIZE\<close> steps, modulo the size of the address space; \<open>n\<close> counts the steps left.
\<close>

primrec mappages_loop ::
  "nat \<Rightarrow> u32 \<Rightarrow> u32 \<Rightarrow> u32 \<Rightarrow> u32 \<Rightarrow> 'a kmem_scheme \<Rightarrow> (int \<times> 'a kmem_scheme) res" where
  "mappages_loop 0 pgdir a pa perm s =
     (let (pte, s) = walkpgdir pgdir a True s
      in if pte = 0 then Inr (-1, s)
         else if load32 (pmem s) pte AND PTE_P \<noteq> 0 then Inl (Panic ''remap'')
         else Inr (0, s\<lparr>pmem := store32 (pmem s) pte (pa OR perm OR PTE_P)\<rparr>))"
| "mappages_loop (Suc n) pgdir a pa perm s =
     (let (pte, s) = walkpgdir pgdir a True s
      in if pte = 0 then Inr (-1, s)
         else if load32 (pmem s) pte AND PTE_P \<noteq> 0 then Inl (Panic ''remap'')
         else mappages_loop n pgdir (a + PGSIZE) (pa + PGSIZE) perm
                (s\<lparr>pmem := store32 (pmem s) pte (pa OR perm OR PTE_P)\<rparr>))"

definition mappages ::
  "u32 \<Rightarrow> u32 \<Rightarrow> u32 \<Rightarrow> u32 \<Rightarrow> u32 \<Rightarrow> 'a kmem_scheme \<Rightarrow> (int \<times> 'a kmem_scheme) res" where
  "mappages pgdir va sz pa perm s =
     (let a = PGROUNDDOWN va; last = PGROUNDDOWN (va + sz - 1)
      in mappages_loop (unat ((last - a) div PGSIZE)) pgdir a pa perm s)"

text \<open>
  The loop of \<^verbatim>\<open>deallocuvm\<close>. The address can only wrap around when the old size lies above the last
  page of the address space; the loop would then start again from 0. The model stops there with an
  error of its own, which the callers' sizes (at most \<^verbatim>\<open>KERNBASE\<close>) exclude.
\<close>

definition dealloc_step :: "u32 \<Rightarrow> u32 \<Rightarrow> 'a kmem_scheme \<Rightarrow> (u32 \<times> 'a kmem_scheme) res" where
  "dealloc_step pgdir a s =
     (let (pte, s) = walkpgdir pgdir a False s
      in if pte = 0 then Inr (PGADDR (PDX a + 1) 0 0 - PGSIZE, s)
         else if load32 (pmem s) pte AND PTE_P \<noteq> 0
         then (let pa = PTE_ADDR (load32 (pmem s) pte)
               in if pa = 0 then Inl (Panic ''kfree'')
                  else bindE (kfree (P2V pa) s) (\<lambda>s. Inr (a, s\<lparr>pmem := store32 (pmem s) pte 0\<rparr>)))
         else Inr (a, s))"

function dealloc_loop :: "u32 \<Rightarrow> u32 \<Rightarrow> u32 \<Rightarrow> 'a kmem_scheme \<Rightarrow> 'a kmem_scheme res" where
  "dealloc_loop pgdir a oldsz s =
     (if a < oldsz
      then (case dealloc_step pgdir a s of
              Inl h \<Rightarrow> Inl h
            | Inr (a', s') \<Rightarrow>
                if a' + PGSIZE \<le> a then Inl (Fault ''address wraps'')
                else dealloc_loop pgdir (a' + PGSIZE) oldsz s')
      else Inr s)"
  by pat_completeness auto

termination
  by (relation "measure (\<lambda>(_, a, oldsz, _). unat oldsz - unat a)")
    (auto simp: not_le word_less_nat_alt)

definition deallocuvm :: "u32 \<Rightarrow> u32 \<Rightarrow> u32 \<Rightarrow> 'a kmem_scheme \<Rightarrow> (u32 \<times> 'a kmem_scheme) res" where
  "deallocuvm pgdir oldsz newsz s =
     (if newsz \<ge> oldsz then Inr (oldsz, s)
      else bindE (dealloc_loop pgdir (PGROUNDUP newsz) oldsz s) (\<lambda>s. Inr (newsz, s)))"

text \<open>The loop of \<^verbatim>\<open>allocuvm\<close>; its bound lies below \<^verbatim>\<open>KERNBASE\<close>, so the address never wraps.\<close>

function alloc_loop ::
  "u32 \<Rightarrow> u32 \<Rightarrow> u32 \<Rightarrow> u32 \<Rightarrow> 'a kmem_scheme \<Rightarrow> (u32 \<times> 'a kmem_scheme) res" where
  "alloc_loop pgdir a oldsz newsz s =
     (if a < newsz
      then (let (mem, s) = kalloc s
            in if mem = 0
               then bindE (deallocuvm pgdir newsz oldsz s) (\<lambda>(_, s). Inr (0, s))
               else case mappages pgdir a PGSIZE (V2P mem) (PTE_W OR PTE_U)
                           (s\<lparr>pmem := memset mem 0 PGSIZE (pmem s)\<rparr>) of
                 Inl h \<Rightarrow> Inl h
               | Inr (r, s) \<Rightarrow>
                   if r < 0
                   then bindE (deallocuvm pgdir newsz oldsz s) (\<lambda>(_, s).
                        bindE (kfree mem s) (\<lambda>s. Inr (0, s)))
                   else if a + PGSIZE \<le> a then Inl (Fault ''address wraps'')
                   else alloc_loop pgdir (a + PGSIZE) oldsz newsz s)
      else Inr (newsz, s))"
  by pat_completeness auto

termination
  by (relation "measure (\<lambda>(_, a, _, newsz, _). unat newsz - unat a)")
    (auto simp: not_le word_less_nat_alt)

definition allocuvm :: "u32 \<Rightarrow> u32 \<Rightarrow> u32 \<Rightarrow> 'a kmem_scheme \<Rightarrow> (u32 \<times> 'a kmem_scheme) res" where
  "allocuvm pgdir oldsz newsz s =
     (if newsz \<ge> KERNBASE then Inr (0, s)
      else if newsz < oldsz then Inr (oldsz, s)
      else alloc_loop pgdir (PGROUNDUP oldsz) oldsz newsz s)"

text \<open>\<^verbatim>\<open>freevm\<close>; the loop over the directory is on the number of entries left.\<close>

primrec free_tables :: "nat \<Rightarrow> u32 \<Rightarrow> u32 \<Rightarrow> 'a kmem_scheme \<Rightarrow> 'a kmem_scheme res" where
  "free_tables 0 pgdir i s = Inr s"
| "free_tables (Suc n) pgdir i s =
     (let pde = load32 (pmem s) (pgdir + 4 * i)
      in if pde AND PTE_P \<noteq> 0
         then bindE (kfree (P2V (PTE_ADDR pde)) s) (free_tables n pgdir (i + 1))
         else free_tables n pgdir (i + 1) s)"

definition freevm :: "u32 \<Rightarrow> 'a kmem_scheme \<Rightarrow> 'a kmem_scheme res" where
  "freevm pgdir s =
     (if pgdir = 0 then Inl (Panic ''freevm: no pgdir'')
      else bindE (deallocuvm pgdir KERNBASE 0 s) (\<lambda>(_, s).
           bindE (free_tables 1024 pgdir 0 s) (kfree pgdir)))"

text \<open>The table \<^verbatim>\<open>kmap\<close> of the kernel's mappings, with the video memory in the fourth row.\<close>

definition kmap :: "'a vm_scheme \<Rightarrow> (u32 \<times> u32 \<times> u32 \<times> u32) list" where
  "kmap s =
     [(KERNBASE, 0, EXTMEM, PTE_W),
      (KERNLINK, V2P KERNLINK, V2P (kdata s), 0),
      (kdata s, V2P (kdata s), PHYSTOP, PTE_W),
      (DEVSPACE - vram_size s, pvram_addr s, pvram_addr s + vram_size s, PTE_W),
      (PCI_BAR_BASE + PCI_VP_OFFSET, PCI_BAR_BASE, 0x10000000 + PCI_BAR_BASE, PTE_W),
      (DEVSPACE, DEVSPACE, 0, PTE_W)]"

primrec map_rows ::
  "(u32 \<times> u32 \<times> u32 \<times> u32) list \<Rightarrow> u32 \<Rightarrow> 'a kmem_scheme \<Rightarrow> (u32 \<times> 'a kmem_scheme) res" where
  "map_rows [] pgdir s = Inr (pgdir, s)"
| "map_rows (k # ks) pgdir s =
     (case k of (virt, phys_start, phys_end, perm) \<Rightarrow>
        bindE (mappages pgdir virt (phys_end - phys_start) phys_start perm s) (\<lambda>(r, s).
          if r < 0 then bindE (freevm pgdir s) (\<lambda>s. Inr (0, s))
          else map_rows ks pgdir s))"

definition setupkvm :: "'a vm_scheme \<Rightarrow> (u32 \<times> 'a vm_scheme) res" where
  "setupkvm s =
     (let rows = kmap s; (pgdir, s) = kalloc s
      in if pgdir = 0 then Inr (0, s)
         else let s = s\<lparr>pmem := memset pgdir 0 PGSIZE (pmem s)\<rparr>
              in if P2V PHYSTOP > DEVSPACE then Inl (Panic ''PHYSTOP too high'')
                 else map_rows rows pgdir s)"

definition kvmalloc :: "'a vm_scheme \<Rightarrow> 'a vm_scheme res" where
  "kvmalloc s = bindE (setupkvm s) (\<lambda>(pgdir, s). Inr (switchkvm (s\<lparr>kpgdir := pgdir\<rparr>)))"

definition inituvm :: "u32 \<Rightarrow> u32 \<Rightarrow> u32 \<Rightarrow> 'a kmem_scheme \<Rightarrow> 'a kmem_scheme res" where
  "inituvm pgdir init sz s =
     (if sz \<ge> PGSIZE then Inl (Panic ''inituvm: more than a page'')
      else let (mem, s) = kalloc s; s = s\<lparr>pmem := memset mem 0 PGSIZE (pmem s)\<rparr>
           in bindE (mappages pgdir 0 PGSIZE (V2P mem) (PTE_W OR PTE_U) s) (\<lambda>(_, s).
                Inr (s\<lparr>pmem := memmove mem init sz (pmem s)\<rparr>)))"

definition clearpteu :: "u32 \<Rightarrow> u32 \<Rightarrow> 'a kmem_scheme \<Rightarrow> 'a kmem_scheme res" where
  "clearpteu pgdir uva s =
     (let (pte, s) = walkpgdir pgdir uva False s
      in if pte = 0 then Inl (Panic ''clearpteu'')
         else Inr (s\<lparr>pmem := store32 (pmem s) pte (load32 (pmem s) pte AND NOT PTE_U)\<rparr>))"

function copy_loop ::
  "u32 \<Rightarrow> u32 \<Rightarrow> u32 \<Rightarrow> u32 \<Rightarrow> 'a kmem_scheme \<Rightarrow> (u32 \<times> 'a kmem_scheme) res" where
  "copy_loop pgdir d i sz s =
     (if i < sz
      then (let (pte, s) = walkpgdir pgdir i False s
            in if pte = 0 then Inl (Panic ''copyuvm: pte should exist'')
               else if load32 (pmem s) pte AND PTE_P = 0 then Inl (Panic ''copyuvm: page not present'')
               else let pa = PTE_ADDR (load32 (pmem s) pte);
                        flags = PTE_FLAGS (load32 (pmem s) pte);
                        (mem, s) = kalloc s
                    in if mem = 0 then bindE (freevm d s) (\<lambda>s. Inr (0, s))
                       else case mappages d i PGSIZE (V2P mem) flags
                                   (s\<lparr>pmem := memmove mem (P2V pa) PGSIZE (pmem s)\<rparr>) of
                         Inl h \<Rightarrow> Inl h
                       | Inr (r, s) \<Rightarrow>
                           if r < 0 then bindE (freevm d s) (\<lambda>s. Inr (0, s))
                           else if i + PGSIZE \<le> i then Inl (Fault ''address wraps'')
                           else copy_loop pgdir d (i + PGSIZE) sz s)
      else Inr (d, s))"
  by pat_completeness auto

termination
  by (relation "measure (\<lambda>(_, _, i, sz, _). unat sz - unat i)")
    (auto simp: not_le word_less_nat_alt)

definition copyuvm :: "u32 \<Rightarrow> u32 \<Rightarrow> 'a vm_scheme \<Rightarrow> (u32 \<times> 'a vm_scheme) res" where
  "copyuvm pgdir sz s =
     bindE (setupkvm s) (\<lambda>(d, s). if d = 0 then Inr (0, s) else copy_loop pgdir d 0 sz s)"

text \<open>
  \<^verbatim>\<open>uva2ka\<close> reads through the result of \<^verbatim>\<open>walkpgdir\<close> without testing it: a missing page table is an
  access through the null pointer.
\<close>

definition uva2ka :: "u32 \<Rightarrow> u32 \<Rightarrow> 'a kmem_scheme \<Rightarrow> u32 res" where
  "uva2ka pgdir uva s =
     (let (pte, s) = walkpgdir pgdir uva False s
      in if pte = 0 then Inl (Fault ''uva2ka'')
         else if load32 (pmem s) pte AND PTE_P = 0 then Inr 0
         else if load32 (pmem s) pte AND PTE_U = 0 then Inr 0
         else Inr (P2V (PTE_ADDR (load32 (pmem s) pte))))"

lemma page_offset_unat: "unat (va - PGROUNDDOWN va) = unat va mod 4096"
proof -
  have "PGROUNDDOWN va \<le> va" by (simp add: word_le_nat_alt PGROUNDDOWN_unat)
  then show ?thesis by (simp add: unat_sub PGROUNDDOWN_unat modulo_nat_def mult.commute)
qed

lemma page_offset: "va - PGROUNDDOWN va < PGSIZE"
  by (simp add: word_less_nat_alt page_offset_unat PGSIZE_def)

text \<open>Storing bytes one after the other.\<close>

primrec put_mem :: "u32 \<Rightarrow> u8 list \<Rightarrow> mem \<Rightarrow> mem" where
  "put_mem a [] m = m"
| "put_mem a (b # bs) m = put_mem (a + 1) bs (m(a := b))"

lemma page_rest_pos: "0 < unat (PGSIZE - (va - PGROUNDDOWN va))"
proof -
  have "va - PGROUNDDOWN va < PGSIZE" by (rule page_offset)
  then show ?thesis by (metis neq0_conv order_less_irrefl right_minus_eq unat_eq_zero)
qed

text \<open>
  \<^verbatim>\<open>copyout\<close>. The source is given by its bytes: it is a string of the calling process or a local array of
  the kernel, and lies outside the pages that are written. Every pass but the last one ends at a page
  boundary, so each one shortens the rest.
\<close>

function copyout :: "u32 \<Rightarrow> u32 \<Rightarrow> u8 list \<Rightarrow> 'a kmem_scheme \<Rightarrow> (int \<times> 'a kmem_scheme) res" where
  "copyout pgdir va src s =
     (if src \<noteq> []
      then (let va0 = PGROUNDDOWN va
            in case uva2ka pgdir va0 s of
                 Inl h \<Rightarrow> Inl h
               | Inr pa0 \<Rightarrow>
                   if pa0 = 0 then Inr (-1, s)
                   else let n = min (unat (PGSIZE - (va - va0))) (length src)
                        in copyout pgdir (va0 + PGSIZE) (drop n src)
                             (s\<lparr>pmem := put_mem (pa0 + (va - va0)) (take n src) (pmem s)\<rparr>))
      else Inr (0, s))"
  by pat_completeness auto

termination
proof (relation "measure (\<lambda>(_, _, src, _). length src)", goal_cases)
  case (2 pgdir va src s x y n)
  then show ?case using page_rest_pos [of va] by (cases src) auto
qed simp

declare dealloc_loop.simps [simp del] alloc_loop.simps [simp del] copy_loop.simps [simp del]
  copyout.simps [simp del]

section \<open>Entries of a table\<close>

lemma ten_bits: "(w :: u32) AND 0x3FF = take_bit 10 w"
proof -
  have "(0x3FF :: u32) = mask 10" by (simp add: mask_eq_exp_minus_1)
  then show ?thesis by (simp add: take_bit_eq_mask)
qed

lemma unat_PTX: "unat (PTX va) = unat va div 4096 mod 1024"
  unfolding PTX_def ten_bits
  by (simp add: take_bit_eq_mod drop_bit_eq_div unat_div unat_mod)

lemma unat_PDX: "unat (PDX va) = unat va div 4194304"
proof -
  have "unat va < 4294967296" using unsigned_less [of va] by simp
  then have "unat va div 4194304 < 1024" by simp
  then show ?thesis unfolding PDX_def ten_bits
    by (simp add: take_bit_eq_mod drop_bit_eq_div unat_div unat_mod)
qed

lemma PDX_less: "unat (PDX va) < 1024"
proof -
  have "unat va < 4294967296" using unsigned_less [of va] by simp
  then show ?thesis by (simp add: unat_PDX)
qed

lemma PTX_less: "unat (PTX va) < 1024"
  by (simp add: unat_PTX)

text \<open>Directory and table index together name the page of an address.\<close>

lemma same_page_iff:
  "PDX va = PDX vb \<and> PTX va = PTX vb \<longleftrightarrow> PGROUNDDOWN va = PGROUNDDOWN vb"
proof -
  have d: "x div 4194304 = x div 4096 div 1024" for x :: nat by (simp add: div_mult2_eq [symmetric])
  have "x div 1024 = y div 1024 \<and> x mod 1024 = y mod 1024 \<longleftrightarrow> x = y" for x y :: nat
    by (metis div_mult_mod_eq)
  then show ?thesis
    by (simp add: word_unat_eq_iff unat_PDX unat_PTX PGROUNDDOWN_unat d)
qed

definition entry :: "u32 \<Rightarrow> u32 \<Rightarrow> u32" where
  "entry v i = v + 4 * i"

lemma entry_of_nat: "x \<in> cell (entry v i) \<longleftrightarrow> (\<exists>k<4. x = v + of_nat (4 * unat i + k))"
  unfolding cell_block block_at_def entry_def by (auto simp: algebra_simps)

lemma entry_in_page: "unat i < 1024 \<Longrightarrow> cell (entry v i) \<subseteq> page v"
proof
  fix x assume i: "unat i < 1024" and "x \<in> cell (entry v i)"
  then obtain k where "k < 4" "x = v + of_nat (4 * unat i + k)" unfolding entry_of_nat by blast
  moreover from this i have "4 * unat i + k < 4096" by linarith
  ultimately show "x \<in> page v" unfolding page_def by (simp only: block_atI)
qed

lemma entry_disjoint:
  assumes "unat i < 1024" "unat j < 1024" "i \<noteq> j"
  shows "cell (entry v i) \<inter> cell (entry v j) = {}"
proof -
  have ne: "unat i \<noteq> unat j" using assms(3) by (simp add: word_unat_eq_iff)
  have False if "k < 4" "l < 4" "v + of_nat (4 * unat i + k) = v + of_nat (4 * unat j + l)" for k l
  proof -
    have "4 * unat i + k = 4 * unat j + l"
      using that assms(1,2) of_nat_u32_inj [of "4 * unat i + k" "4 * unat j + l"] by simp
    then show False using ne that by presburger
  qed
  then show ?thesis by (auto simp: entry_of_nat)
qed

lemma PTE_ADDR_eq: "PTE_ADDR w = PGROUNDDOWN w"
  by (simp add: PTE_ADDR_def PGROUNDDOWN_def PGSIZE_def)

lemma PTE_ADDR_mod: "PTE_ADDR w mod PGSIZE = 0"
  by (simp add: unat_page_mod PTE_ADDR_eq PGROUNDDOWN_unat)

lemma P2V_mod: "P2V w mod PGSIZE = 0 \<longleftrightarrow> w mod PGSIZE = 0"
proof -
  have "unat (P2V w) = (unat w + 0x80000000) mod 2 ^ 32"
    by (simp add: P2V_def KERNBASE_def unat_word_ariths)
  then have "unat (P2V w) mod 4096 = (unat w + 0x80000000) mod 4096"
    by (simp add: mod_mod_cancel)
  also have "\<dots> = unat w mod 4096"
    using mod_mult_self2 [of "unat w" 4096 524288] by simp
  finally show ?thesis by (simp add: unat_page_mod)
qed

lemma V2P_P2V [simp]: "V2P (P2V a) = a" "P2V (V2P a) = a"
  by (simp_all add: V2P_def P2V_def)

text \<open>An aligned address is recovered from an entry with flag bits below it.\<close>

lemma PTE_ADDR_flags:
  assumes "pa mod PGSIZE = 0" "unat f < 4096"
  shows "PTE_ADDR (pa OR f) = pa" "PTE_FLAGS (pa OR f) = f"
proof -
  have m: "(0xFFF :: u32) = mask 12" by (simp add: mask_eq_exp_minus_1)
  have f: "f = take_bit 12 f"
    using assms(2) by (simp add: word_unat_eq_iff unsigned_take_bit_eq take_bit_nat_eq_self)
  have "take_bit 12 pa = 0"
    using assms(1) by (simp add: take_bit_eq_mod PGSIZE_def)
  then have pa: "\<not> bit pa k" if "k < 12" for k
    using that by (metis bit_0_eq bit_take_bit_iff bot_apply bot_bool_def)
  have fb: "bit f k \<Longrightarrow> k < 12" for k by (subst (asm) f) (simp add: bit_simps)
  show "PTE_ADDR (pa OR f) = pa" "PTE_FLAGS (pa OR f) = f"
    unfolding PTE_ADDR_def PTE_FLAGS_def m
    by (rule bit_word_eqI; use pa fb in \<open>auto simp: bit_simps\<close>)+
qed

section \<open>Page tables as maps\<close>

definition present :: "u32 \<Rightarrow> bool" where "present w \<longleftrightarrow> w AND PTE_P \<noteq> 0"

definition pde_of :: "mem \<Rightarrow> u32 \<Rightarrow> u32 \<Rightarrow> u32" where
  "pde_of m pgdir i = load32 m (entry pgdir i)"

definition table_of :: "mem \<Rightarrow> u32 \<Rightarrow> u32 \<Rightarrow> u32" where
  "table_of m pgdir i = P2V (PTE_ADDR (pde_of m pgdir i))"

text \<open>The page-table entry of an address, 0 where there is no table.\<close>

definition pte_of :: "mem \<Rightarrow> u32 \<Rightarrow> u32 \<Rightarrow> u32" where
  "pte_of m pgdir va =
     (if present (pde_of m pgdir (PDX va))
      then load32 m (entry (table_of m pgdir (PDX va)) (PTX va)) else 0)"

definition has_table :: "mem \<Rightarrow> u32 \<Rightarrow> u32 \<Rightarrow> bool" where
  "has_table m pgdir i \<longleftrightarrow> unat i < 1024 \<and> present (pde_of m pgdir i)"

text \<open>
  The directory and its tables are pages of their own: none is free, none is used twice. \<open>ps\<close> is the
  free list.
\<close>

definition tables_ok :: "'a kmem_scheme \<Rightarrow> u32 \<Rightarrow> u32 list \<Rightarrow> bool" where
  "tables_ok s pgdir ps \<longleftrightarrow> free_pages s ps \<and> pgdir mod PGSIZE = 0 \<and> pgdir \<notin> set ps
     \<and> (\<forall>i. has_table (pmem s) pgdir i \<longrightarrow> table_of (pmem s) pgdir i \<notin> set ps
          \<and> table_of (pmem s) pgdir i \<noteq> pgdir \<and> table_of (pmem s) pgdir i \<noteq> 0)
     \<and> (\<forall>i j. has_table (pmem s) pgdir i \<and> has_table (pmem s) pgdir j
          \<and> table_of (pmem s) pgdir i = table_of (pmem s) pgdir j \<longrightarrow> i = j)"

lemma table_of_mod: "table_of m pgdir i mod PGSIZE = 0"
  by (simp add: table_of_def P2V_mod PTE_ADDR_mod)

lemma load_entry_cong:
  assumes "\<And>x. x \<in> page v \<Longrightarrow> m x = m' x" "unat i < 1024"
  shows "load32 m (entry v i) = load32 m' (entry v i)"
  using assms entry_in_page by (intro load32_cong) blast

lemma pde_of_cong: "(\<And>x. x \<in> page pgdir \<Longrightarrow> m x = m' x) \<Longrightarrow> unat i < 1024 \<Longrightarrow> pde_of m pgdir i = pde_of m' pgdir i"
  unfolding pde_of_def by (rule load_entry_cong)

lemma pte_of_cong:
  assumes "\<And>x. x \<in> page pgdir \<Longrightarrow> m x = m' x"
    "\<And>x. has_table m pgdir (PDX va) \<Longrightarrow> x \<in> page (table_of m pgdir (PDX va)) \<Longrightarrow> m x = m' x"
  shows "pte_of m pgdir va = pte_of m' pgdir va"
proof -
  have p: "pde_of m pgdir (PDX va) = pde_of m' pgdir (PDX va)"
    by (rule pde_of_cong) (use assms(1) PDX_less in auto)
  then have t: "table_of m pgdir (PDX va) = table_of m' pgdir (PDX va)" by (simp add: table_of_def)
  have "load32 m (entry (table_of m pgdir (PDX va)) (PTX va))
      = load32 m' (entry (table_of m pgdir (PDX va)) (PTX va))" if "present (pde_of m pgdir (PDX va))"
    by (rule load_entry_cong) (use assms(2) that PDX_less PTX_less in \<open>auto simp: has_table_def\<close>)
  then show ?thesis using p t by (simp add: pte_of_def)
qed

text \<open>A page that is neither the directory nor one of its tables may change freely.\<close>

lemma pte_of_frame:
  assumes "tables_ok s pgdir ps" "v mod PGSIZE = 0" "v \<noteq> pgdir"
    "\<And>i. has_table (pmem s) pgdir i \<Longrightarrow> table_of (pmem s) pgdir i \<noteq> v"
    "\<And>x. x \<notin> page v \<Longrightarrow> m' x = pmem s x"
  shows "unat i < 1024 \<Longrightarrow> pde_of m' pgdir i = pde_of (pmem s) pgdir i"
    "pte_of m' pgdir va = pte_of (pmem s) pgdir va"
proof -
  have off: "m' x = pmem s x" if "w mod PGSIZE = 0" "w \<noteq> v" "x \<in> page w" for w x
    using pages_disjoint [OF that(1) assms(2) that(2)] that(3) assms(5) by blast
  have pg: "m' x = pmem s x" if "x \<in> page pgdir" for x
    using off [of pgdir x] assms(1,3) that by (auto simp: tables_ok_def)
  then show "unat i < 1024 \<Longrightarrow> pde_of m' pgdir i = pde_of (pmem s) pgdir i"
    by (intro pde_of_cong)
  show "pte_of m' pgdir va = pte_of (pmem s) pgdir va"
    using pg off [OF table_of_mod assms(4)] by (intro sym [OF pte_of_cong]) auto
qed

lemma entry_nonnull:
  assumes "t mod PGSIZE = 0" "t \<noteq> 0" "unat i < 1024"
  shows "entry t i \<noteq> 0"
proof
  assume "entry t i = 0"
  obtain q where q: "unat t = 4096 * q" using assms(1) by (auto simp: unat_page_mod mod_eq_0_iff_dvd)
  have "unat t < 2 ^ 32" using unsigned_less [of t] by simp
  then have b: "unat t + 4 * unat i < 2 ^ 32" using q assms(3) by simp
  have "entry t i = t + of_nat (4 * unat i)" by (simp add: entry_def)
  then have "unat (entry t i) = unat t + 4 * unat i" using unat_add_of_nat [OF b] by simp
  with \<open>entry t i = 0\<close> have "unat t = 0" by simp
  with assms(2) show False by (simp add: unat_eq_zero)
qed

lemma has_tableI: "present (pde_of m pgdir (PDX va)) \<Longrightarrow> has_table m pgdir (PDX va)"
  by (simp add: has_table_def PDX_less)

text \<open>Storing an entry of an existing table.\<close>

lemma store_pte:
  fixes w :: u32
  assumes ok: "tables_ok s pgdir ps" and h: "has_table (pmem s) pgdir (PDX va)"
  defines "a \<equiv> entry (table_of (pmem s) pgdir (PDX va)) (PTX va)"
  defines "m' \<equiv> store32 (pmem s) a w"
  shows "pte_of m' pgdir vb = (if PGROUNDDOWN vb = PGROUNDDOWN va then w else pte_of (pmem s) pgdir vb)"
    "unat i < 1024 \<Longrightarrow> pde_of m' pgdir i = pde_of (pmem s) pgdir i"
    "x \<notin> page (table_of (pmem s) pgdir (PDX va)) \<Longrightarrow> m' x = pmem s x"
proof -
  let ?t = "\<lambda>i. table_of (pmem s) pgdir i"
  have tva: "?t (PDX va) mod PGSIZE = 0" by (rule table_of_mod)
  have sub: "cell a \<subseteq> page (?t (PDX va))" unfolding a_def by (rule entry_in_page [OF PTX_less])
  show out: "x \<notin> page (?t (PDX va)) \<Longrightarrow> m' x = pmem s x" for x
    using sub by (auto simp: m'_def intro: store32_outside)
  have pg: "pgdir mod PGSIZE = 0" "?t (PDX va) \<noteq> pgdir" using ok h by (auto simp: tables_ok_def)
  have "page pgdir \<inter> page (?t (PDX va)) = {}" using pages_disjoint pg tva by metis
  then have "x \<in> page pgdir \<Longrightarrow> m' x = pmem s x" for x using out by blast
  then show pde: "unat i < 1024 \<Longrightarrow> pde_of m' pgdir i = pde_of (pmem s) pgdir i" for i
    by (intro pde_of_cong)
  then have tab: "table_of m' pgdir (PDX vb) = ?t (PDX vb)" using PDX_less by (simp add: table_of_def)
  show "pte_of m' pgdir vb = (if PGROUNDDOWN vb = PGROUNDDOWN va then w else pte_of (pmem s) pgdir vb)"
  proof (cases "PGROUNDDOWN vb = PGROUNDDOWN va")
    case True
    then have "PDX vb = PDX va" "PTX vb = PTX va" using same_page_iff [of vb va] by auto
    then show ?thesis using True h pde [of "PDX va"] tab PDX_less
      by (simp add: pte_of_def has_table_def) (simp add: m'_def a_def)
  next
    case False
    then have ne: "PDX vb \<noteq> PDX va \<or> PTX vb \<noteq> PTX va" using same_page_iff [of vb va] by auto
    have "load32 m' (entry (?t (PDX vb)) (PTX vb)) = load32 (pmem s) (entry (?t (PDX vb)) (PTX vb))"
      if "present (pde_of (pmem s) pgdir (PDX vb))"
    proof (cases "PDX vb = PDX va")
      case True
      then have "cell (entry (?t (PDX vb)) (PTX vb)) \<inter> cell a = {}"
        using ne entry_disjoint [OF PTX_less PTX_less] by (simp add: a_def)
      then show ?thesis unfolding m'_def by (rule load32_store32_other)
    next
      case False
      then have "?t (PDX vb) \<noteq> ?t (PDX va)" using ok h has_tableI [OF that] by (auto simp: tables_ok_def)
      then have "page (?t (PDX vb)) \<inter> page (?t (PDX va)) = {}"
        by (intro pages_disjoint table_of_mod)
      then show ?thesis using out by (intro load_entry_cong PTX_less) blast
    qed
    then show ?thesis using False pde PDX_less tab by (simp add: pte_of_def)
  qed
qed

lemma free_pages_frame:
  assumes "free_pages s ps" "freelist s' = freelist s" "kend s' = kend s"
    "\<And>v x. v \<in> set ps \<Longrightarrow> x \<in> page v \<Longrightarrow> pmem s' x = pmem s x"
  shows "free_pages s' ps"
proof -
  have "linked (pmem s) (freelist s) ps = linked (pmem s') (freelist s) ps"
    by (rule linked_cong) (use assms(4) cell_in_page in force)
  then show ?thesis using assms(1-3) by (simp add: free_pages_def)
qed

lemma load32_zero: "(\<And>x. x \<in> cell a \<Longrightarrow> m x = 0) \<Longrightarrow> load32 m a = 0"
  by (simp add: load32_def cell_def)

lemma good_page_mod: "free_pages s ps \<Longrightarrow> v \<in> set ps \<Longrightarrow> v mod PGSIZE = 0"
  by (auto simp: free_pages_def good_page_def)

text \<open>A write to a page that is not free keeps the free list.\<close>

lemma free_pages_other_page:
  assumes "free_pages s ps" "v mod PGSIZE = 0" "v \<notin> set ps" "\<And>x. x \<notin> page v \<Longrightarrow> m' x = pmem s x"
  shows "free_pages (s\<lparr>pmem := m'\<rparr>) ps"
proof (rule free_pages_frame [OF assms(1)])
  fix w x assume "w \<in> set ps" "x \<in> page w"
  moreover from this have "page w \<inter> page v = {}"
    using assms(3) good_page_mod [OF assms(1)] by (intro pages_disjoint assms(2)) auto
  ultimately show "pmem (s\<lparr>pmem := m'\<rparr>) x = pmem s x" using assms(4) by auto
qed simp_all

lemma tables_ok_cong:
  assumes "tables_ok s pgdir ps" "free_pages s' ps'" "set ps' \<subseteq> set ps"
    "\<And>i. unat i < 1024 \<Longrightarrow> pde_of (pmem s') pgdir i = pde_of (pmem s) pgdir i"
  shows "tables_ok s' pgdir ps'"
proof -
  have h: "has_table (pmem s') pgdir i = has_table (pmem s) pgdir i" for i
    using assms(4) by (auto simp: has_table_def)
  have t: "has_table (pmem s) pgdir i \<Longrightarrow> table_of (pmem s') pgdir i = table_of (pmem s) pgdir i" for i
    using assms(4) by (auto simp: has_table_def table_of_def)
  have pg: "pgdir mod PGSIZE = 0" "pgdir \<notin> set ps'" using assms by (auto simp: tables_ok_def)
  have a: "table_of (pmem s) pgdir i \<notin> set ps' \<and> table_of (pmem s) pgdir i \<noteq> pgdir
      \<and> table_of (pmem s) pgdir i \<noteq> 0" if "has_table (pmem s) pgdir i" for i
    using assms(1,3) that by (auto simp: tables_ok_def)
  have b: "i = j" if "has_table (pmem s) pgdir i" "has_table (pmem s) pgdir j"
      "table_of (pmem s) pgdir i = table_of (pmem s) pgdir j" for i j
    using assms(1) that by (auto simp: tables_ok_def)
  show ?thesis unfolding tables_ok_def h using assms(2) pg a b t by auto
qed

lemma walkpgdir_present:
  "has_table (pmem s) pgdir (PDX va) \<Longrightarrow>
    walkpgdir pgdir va alloc s = (entry (table_of (pmem s) pgdir (PDX va)) (PTX va), s)"
  by (simp add: walkpgdir_def has_table_def present_def pde_of_def table_of_def entry_def Let_def)

lemma walkpgdir_absent:
  "\<not> present (pde_of (pmem s) pgdir (PDX va)) \<Longrightarrow> walkpgdir pgdir va False s = (0, s)"
  by (simp add: walkpgdir_def present_def pde_of_def entry_def Let_def)

text \<open>What \<^verbatim>\<open>walkpgdir\<close> makes of a directory entry without a table: a zeroed table in a fresh page.\<close>

definition new_table :: "u32 \<Rightarrow> u32 \<Rightarrow> u32 \<Rightarrow> mem \<Rightarrow> mem" where
  "new_table pgdir va v m =
     store32 (memset v 0 PGSIZE m) (entry pgdir (PDX va)) (V2P v OR PTE_P OR PTE_W OR PTE_U)"

lemma walkpgdir_new:
  assumes "\<not> present (pde_of (pmem s) pgdir (PDX va))" "free_pages s (v # qs)"
  shows "walkpgdir pgdir va True s = (entry v (PTX va),
    (snd (kalloc s))\<lparr>pmem := new_table pgdir va v (pmem s)\<rparr>)"
proof -
  note k = kalloc_Cons [OF assms(2)]
  have "v \<noteq> 0" using k(4) by (simp add: good_page_def)
  then show ?thesis
    using assms(1) k(1,5)
    by (simp add: walkpgdir_def present_def pde_of_def entry_def Let_def new_table_def split_beta)
qed

lemma new_table_memory:
  fixes va :: "32 word"
  assumes ok: "tables_ok s pgdir (v # qs)"
  defines "m' \<equiv> new_table pgdir va v (pmem s)"
  shows "x \<notin> page v \<Longrightarrow> x \<notin> page pgdir \<Longrightarrow> m' x = pmem s x"
    "x \<in> page v \<Longrightarrow> m' x = 0"
    "unat i < 1024 \<Longrightarrow> pde_of m' pgdir i =
      (if i = PDX va then V2P v OR PTE_P OR PTE_W OR PTE_U else pde_of (pmem s) pgdir i)"
proof -
  let ?m1 = "memset v 0 PGSIZE (pmem s)"
  have fp: "free_pages s (v # qs)" and pgd: "pgdir mod PGSIZE = 0" "pgdir \<noteq> v"
    using ok by (auto simp: tables_ok_def)
  have dis: "page pgdir \<inter> page v = {}" using pgd good_page_mod [OF fp] by (intro pages_disjoint) auto
  have m1: "?m1 x = (if x \<in> page v then 0 else pmem s x)" for x
    by (simp add: memset_fills PGSIZE_block)
  have st: "m' x = ?m1 x" if "x \<notin> cell (entry pgdir (PDX va))" for x
    using that by (simp add: m'_def new_table_def store32_outside)
  have sub: "cell (entry pgdir (PDX va)) \<subseteq> page pgdir" by (rule entry_in_page [OF PDX_less])
  show "m' x = pmem s x" if "x \<notin> page v" "x \<notin> page pgdir"
    using that sub by (subst st) (auto simp: m1)
  show "m' x = 0" if "x \<in> page v"
    using that sub dis by (subst st) (auto simp: m1)
  show "pde_of m' pgdir i = (if i = PDX va then V2P v OR PTE_P OR PTE_W OR PTE_U
      else pde_of (pmem s) pgdir i)" if "unat i < 1024"
  proof (cases "i = PDX va")
    case True
    then show ?thesis by (simp add: pde_of_def m'_def new_table_def)
  next
    case False
    then have "pde_of m' pgdir i = pde_of ?m1 pgdir i"
      unfolding pde_of_def m'_def new_table_def
      by (intro load32_store32_other entry_disjoint that PDX_less)
    also have "\<dots> = pde_of (pmem s) pgdir i"
      by (rule pde_of_cong) (use that dis in \<open>auto simp: m1\<close>)
    finally show ?thesis using False by simp
  qed
qed

lemma new_table_facts:
  assumes ok: "tables_ok s pgdir (v # qs)" and none: "\<not> present (pde_of (pmem s) pgdir (PDX va))"
  defines "m' \<equiv> new_table pgdir va v (pmem s)"
  shows "pte_of m' pgdir vb = pte_of (pmem s) pgdir vb"
    "table_of m' pgdir (PDX va) = v" "present (pde_of m' pgdir (PDX va))"
proof -
  note mem = new_table_memory [OF ok, where va = va, folded m'_def]
  have fp: "free_pages s (v # qs)" and pgd: "pgdir mod PGSIZE = 0" using ok by (auto simp: tables_ok_def)
  have v: "v mod PGSIZE = 0" using good_page_mod [OF fp] by simp
  have w: "V2P v OR PTE_P OR PTE_W OR PTE_U = V2P v OR 7"
    by (simp add: PTE_P_def PTE_W_def PTE_U_def or.assoc)
  have vp: "V2P v mod PGSIZE = 0" using P2V_mod [of "V2P v"] v by simp
  show tab: "table_of m' pgdir (PDX va) = v"
    using PTE_ADDR_flags(1) [OF vp, of 7] mem(3) [OF PDX_less] by (simp add: table_of_def w)
  have "bit (V2P v OR 7) 0" by (simp add: bit_simps)
  moreover have "pde_of m' pgdir (PDX va) = V2P v OR 7" unfolding w [symmetric] by (simp add: mem(3) PDX_less)
  ultimately show pr: "present (pde_of m' pgdir (PDX va))"
    by (simp add: present_def PTE_P_def and_one_eq odd_iff_mod_2_eq_one bit_0)
  show "pte_of m' pgdir vb = pte_of (pmem s) pgdir vb"
  proof (cases "PDX vb = PDX va")
    case True
    have "load32 m' (entry v (PTX vb)) = 0"
      by (rule load32_zero) (use mem(2) entry_in_page [OF PTX_less] in blast)
    then show ?thesis using True none pr tab by (simp add: pte_of_def)
  next
    case False
    have pv: "pde_of m' pgdir (PDX vb) = pde_of (pmem s) pgdir (PDX vb)"
      using False mem(3) [OF PDX_less] by simp
    let ?t = "table_of (pmem s) pgdir (PDX vb)"
    have "load32 m' (entry ?t (PTX vb)) = load32 (pmem s) (entry ?t (PTX vb))"
      if "present (pde_of (pmem s) pgdir (PDX vb))"
    proof -
      have "?t \<noteq> v" "?t \<noteq> pgdir" using ok has_tableI [OF that] by (auto simp: tables_ok_def)
      with pages_disjoint [OF table_of_mod v] pages_disjoint [OF table_of_mod pgd]
      have "page ?t \<inter> page v = {}" "page ?t \<inter> page pgdir = {}" by simp_all
      then show ?thesis using mem(1) by (intro load_entry_cong PTX_less) blast
    qed
    then show ?thesis using pv by (simp add: pte_of_def table_of_def)
  qed
qed

text \<open>A page that the page table does not use and that is not free: the caller's.\<close>

definition outside :: "'a kmem_scheme \<Rightarrow> u32 \<Rightarrow> u32 list \<Rightarrow> u32 \<Rightarrow> bool" where
  "outside s pgdir ps v \<longleftrightarrow> v mod PGSIZE = 0 \<and> v \<notin> set ps \<and> v \<noteq> pgdir
     \<and> (\<forall>i. has_table (pmem s) pgdir i \<longrightarrow> table_of (pmem s) pgdir i \<noteq> v)"

definition keeps_outside ::
  "'a kmem_scheme \<Rightarrow> u32 list \<Rightarrow> 'a kmem_scheme \<Rightarrow> u32 list \<Rightarrow> u32 \<Rightarrow> bool" where
  "keeps_outside s ps s' ps' pgdir \<longleftrightarrow> set ps' \<subseteq> set ps \<and> kend s' = kend s
     \<and> (\<forall>v. outside s pgdir ps v \<longrightarrow> outside s' pgdir ps' v \<and> (\<forall>x\<in>page v. pmem s' x = pmem s x))"

lemma keeps_outside_refl: "keeps_outside s ps s ps pgdir"
  by (simp add: keeps_outside_def)

lemma keeps_outside_trans:
  "keeps_outside s ps s1 ps1 pgdir \<Longrightarrow> keeps_outside s1 ps1 s2 ps2 pgdir \<Longrightarrow> keeps_outside s ps s2 ps2 pgdir"
  by (auto simp: keeps_outside_def)

text \<open>Walking with allocation changes no translation.\<close>

lemma new_table_tables:
  assumes ok: "tables_ok s pgdir (v # qs)" and none: "\<not> present (pde_of (pmem s) pgdir (PDX va))"
  defines "m \<equiv> new_table pgdir va v (pmem s)"
  shows "has_table m pgdir i \<longleftrightarrow> i = PDX va \<or> has_table (pmem s) pgdir i"
    "has_table m pgdir i \<Longrightarrow> table_of m pgdir i = (if i = PDX va then v else table_of (pmem s) pgdir i)"
    "u mod PGSIZE = 0 \<Longrightarrow> u \<noteq> v \<Longrightarrow> u \<noteq> pgdir \<Longrightarrow> x \<in> page u \<Longrightarrow> m x = pmem s x"
proof -
  note f = new_table_facts [OF ok none] and mem = new_table_memory [OF ok, where va = va]
  have v: "v mod PGSIZE = 0" and pgd: "pgdir mod PGSIZE = 0"
    using ok good_page_mod [of s "v # qs"] by (auto simp: tables_ok_def)
  show "has_table m pgdir i \<longleftrightarrow> i = PDX va \<or> has_table (pmem s) pgdir i"
    using mem(3) f(3) PDX_less none by (auto simp: m_def has_table_def)
  show "table_of m pgdir i = (if i = PDX va then v else table_of (pmem s) pgdir i)"
    if "has_table m pgdir i" using that mem(3) f(2) by (auto simp: m_def has_table_def table_of_def)
  show "m x = pmem s x" if "u mod PGSIZE = 0" "u \<noteq> v" "u \<noteq> pgdir" "x \<in> page u"
    using pages_disjoint [OF that(1) v that(2)] pages_disjoint [OF that(1) pgd that(3)] that(4)
    unfolding m_def by (intro mem(1)) auto
qed

lemma new_table_keeps:
  assumes ok: "tables_ok s pgdir (v # qs)" and none: "\<not> present (pde_of (pmem s) pgdir (PDX va))"
  defines "s' \<equiv> (snd (kalloc s))\<lparr>pmem := new_table pgdir va v (pmem s)\<rparr>"
  shows "keeps_outside s (v # qs) s' qs pgdir"
proof -
  note t = new_table_tables [OF ok none]
  have fp: "free_pages s (v # qs)" using ok by (simp add: tables_ok_def)
  have "outside s' pgdir qs u \<and> (\<forall>x\<in>page u. pmem s' x = pmem s x)" if o: "outside s pgdir (v # qs) u" for u
    using o t(1,2) t(3) [of u] by (auto simp: outside_def s'_def)
  then show ?thesis using kalloc_Cons(6) [OF fp] by (auto simp: keeps_outside_def s'_def)
qed

lemma new_table_free:
  assumes ok: "tables_ok s pgdir (v # qs)" and none: "\<not> present (pde_of (pmem s) pgdir (PDX va))"
  shows "free_pages ((snd (kalloc s))\<lparr>pmem := new_table pgdir va v (pmem s)\<rparr>) qs"
proof -
  have fp: "free_pages s (v # qs)" and pgd: "pgdir \<notin> set (v # qs)" using ok by (auto simp: tables_ok_def)
  note k = kalloc_Cons [OF fp]
  show ?thesis
  proof (rule free_pages_frame [OF k(2)])
    fix u x assume u: "u \<in> set qs" "x \<in> page u"
    then have "u mod PGSIZE = 0" "u \<noteq> v" "u \<noteq> pgdir"
      using k(3) pgd good_page_mod [OF fp] by auto
    then show "pmem ((snd (kalloc s))\<lparr>pmem := new_table pgdir va v (pmem s)\<rparr>) x = pmem (snd (kalloc s)) x"
      using new_table_tables(3) [OF ok none _ _ _ u(2)] by (simp add: k(5))
  qed simp_all
qed

lemma new_table_ok:
  assumes ok: "tables_ok s pgdir (v # qs)" and none: "\<not> present (pde_of (pmem s) pgdir (PDX va))"
  defines "s' \<equiv> (snd (kalloc s))\<lparr>pmem := new_table pgdir va v (pmem s)\<rparr>"
  shows "tables_ok s' pgdir qs"
proof -
  have fp: "free_pages s (v # qs)" using ok by (simp add: tables_ok_def)
  note k = kalloc_Cons [OF fp]
  have v: "v \<noteq> 0" using k(4) by (auto simp: good_page_def)
  have pgd: "pgdir mod PGSIZE = 0" "pgdir \<notin> set (v # qs)" using ok by (auto simp: tables_ok_def)
  let ?m = "pmem s'"
  have pm: "?m = new_table pgdir va v (pmem s)" by (simp add: s'_def)
  have t: "i = PDX va \<and> table_of ?m pgdir i = v
      \<or> has_table (pmem s) pgdir i \<and> table_of ?m pgdir i = table_of (pmem s) pgdir i"
    if "has_table ?m pgdir i" for i
    using that new_table_tables(1,2) [OF ok none, of i] unfolding pm by auto
  have old: "table_of (pmem s) pgdir i \<notin> set (v # qs) \<and> table_of (pmem s) pgdir i \<noteq> pgdir
      \<and> table_of (pmem s) pgdir i \<noteq> 0" if "has_table (pmem s) pgdir i" for i
    using ok that by (simp add: tables_ok_def)
  have inj: "i = j" if "has_table (pmem s) pgdir i" "has_table (pmem s) pgdir j"
      "table_of (pmem s) pgdir i = table_of (pmem s) pgdir j" for i j
    using ok that by (simp add: tables_ok_def)
  have a: "table_of ?m pgdir i \<notin> set qs \<and> table_of ?m pgdir i \<noteq> pgdir \<and> table_of ?m pgdir i \<noteq> 0"
    if "has_table ?m pgdir i" for i
    using t [OF that] old [of i] k(3) v pgd by auto
  have b: "i = j" if "has_table ?m pgdir i" "has_table ?m pgdir j"
      "table_of ?m pgdir i = table_of ?m pgdir j" for i j
    using t [OF that(1)] t [OF that(2)] that(3) old [of i] old [of j] inj [of i j] by auto
  have fq: "free_pages s' qs" unfolding s'_def by (rule new_table_free [OF ok none])
  show ?thesis
    unfolding tables_ok_def using fq pgd a b by auto
qed

lemma walkpgdir_alloc:
  assumes ok: "tables_ok s pgdir ps" and w: "walkpgdir pgdir va True s = (pte, s')"
  shows "if pte = 0 then s' = s \<and> ps = []
    else has_table (pmem s') pgdir (PDX va) \<and> pte = entry (table_of (pmem s') pgdir (PDX va)) (PTX va)
      \<and> (\<exists>ps'. tables_ok s' pgdir ps' \<and> keeps_outside s ps s' ps' pgdir)
      \<and> (\<forall>vb. pte_of (pmem s') pgdir vb = pte_of (pmem s) pgdir vb)"
proof (cases "present (pde_of (pmem s) pgdir (PDX va))")
  case True
  then have h: "has_table (pmem s) pgdir (PDX va)" by (rule has_tableI)
  then have s': "s' = s" "pte = entry (table_of (pmem s) pgdir (PDX va)) (PTX va)"
    using w walkpgdir_present [OF h] by auto
  moreover have "table_of (pmem s) pgdir (PDX va) \<noteq> 0" using ok h by (auto simp: tables_ok_def)
  then have "pte \<noteq> 0" unfolding s' by (intro entry_nonnull table_of_mod PTX_less)
  ultimately show ?thesis using h ok keeps_outside_refl by auto
next
  case False
  have fp: "free_pages s ps" using ok by (simp add: tables_ok_def)
  show ?thesis
  proof (cases ps)
    case Nil
    then have "kalloc s = (0, s)" using fp kalloc_Nil by simp
    then have "walkpgdir pgdir va True s = (0, s)"
      using False by (simp add: walkpgdir_def present_def pde_of_def entry_def Let_def)
    then show ?thesis using w Nil by simp
  next
    case (Cons v qs)
    note ok' = ok [unfolded Cons] and fp' = fp [unfolded Cons]
    note f = new_table_facts [OF ok' False]
    have s': "s' = (snd (kalloc s))\<lparr>pmem := new_table pgdir va v (pmem s)\<rparr>" "pte = entry v (PTX va)"
      using walkpgdir_new [OF False fp'] w by auto
    have "v mod PGSIZE = 0" "v \<noteq> 0" using kalloc_Cons(4) [OF fp'] by (auto simp: good_page_def)
    then have "pte \<noteq> 0" unfolding s' by (intro entry_nonnull PTX_less)
    moreover have "has_table (pmem s') pgdir (PDX va)" using f(3) unfolding s' by (intro has_tableI) simp
    moreover have "tables_ok s' pgdir qs" "keeps_outside s ps s' qs pgdir"
      unfolding s' Cons by (rule new_table_ok [OF ok' False], rule new_table_keeps [OF ok' False])
    ultimately show ?thesis using f(1,2) by (auto simp: s')
  qed
qed

text \<open>One round of \<^verbatim>\<open>mappages\<close>: an entry is found or made, and stored.\<close>

lemma map_one:
  fixes new :: u32
  assumes ok: "tables_ok s pgdir ps" and w: "walkpgdir pgdir va True s = (pte, s1)" "pte \<noteq> 0"
  defines "s' \<equiv> s1\<lparr>pmem := store32 (pmem s1) pte new\<rparr>"
  shows "load32 (pmem s1) pte = pte_of (pmem s) pgdir va"
    "\<exists>ps'. tables_ok s' pgdir ps' \<and> keeps_outside s ps s' ps' pgdir"
    "pte_of (pmem s') pgdir vb =
      (if PGROUNDDOWN vb = PGROUNDDOWN va then new else pte_of (pmem s) pgdir vb)"
proof -
  note wa = walkpgdir_alloc [OF ok w(1), unfolded if_not_P [OF w(2)]]
  from wa obtain ps' where ok1: "tables_ok s1 pgdir ps'" and k1: "keeps_outside s ps s1 ps' pgdir" by blast
  from wa have h: "has_table (pmem s1) pgdir (PDX va)"
    and pte: "pte = entry (table_of (pmem s1) pgdir (PDX va)) (PTX va)" by blast+
  have same: "pte_of (pmem s1) pgdir vb = pte_of (pmem s) pgdir vb" for vb using wa by blast
  note st = store_pte [OF ok1 h, where w = new, folded pte]
  show "load32 (pmem s1) pte = pte_of (pmem s) pgdir va"
    unfolding same [symmetric] using h by (simp add: pte_of_def has_table_def pte)
  show "pte_of (pmem s') pgdir vb =
      (if PGROUNDDOWN vb = PGROUNDDOWN va then new else pte_of (pmem s) pgdir vb)"
    using st(1) same by (simp add: s'_def)
  let ?t = "table_of (pmem s1) pgdir (PDX va)"
  have t: "?t mod PGSIZE = 0" "?t \<notin> set ps'" using ok1 h table_of_mod by (auto simp: tables_ok_def)
  have "free_pages s1 ps'" using ok1 by (simp add: tables_ok_def)
  then have "free_pages s' ps'"
    unfolding s'_def by (rule free_pages_other_page [OF _ t]) (rule st(3))
  then have "tables_ok s' pgdir ps'"
    by (rule tables_ok_cong [OF ok1]) (simp_all add: s'_def st(2))
  moreover have "keeps_outside s1 ps' s' ps' pgdir"
  proof -
    have "outside s' pgdir ps' u \<and> (\<forall>x\<in>page u. pmem s' x = pmem s1 x)" if u: "outside s1 pgdir ps' u" for u
    proof -
      have "u mod PGSIZE = 0" "?t \<noteq> u" using u h by (auto simp: outside_def)
      then have "page u \<inter> page ?t = {}" using t by (intro pages_disjoint) auto
      then have "\<forall>x\<in>page u. pmem s' x = pmem s1 x" using st(3) by (auto simp: s'_def)
      moreover have "outside s' pgdir ps' u"
        using u st(2) by (auto simp: outside_def s'_def has_table_def table_of_def)
      ultimately show ?thesis by blast
    qed
    then show ?thesis by (simp add: keeps_outside_def) (simp add: s'_def)
  qed
  ultimately show "\<exists>ps'. tables_ok s' pgdir ps' \<and> keeps_outside s ps s' ps' pgdir"
    using keeps_outside_trans [OF k1] by blast
qed

lemma unat_of_nat_small: "k < 4294967296 \<Longrightarrow> unat (of_nat k :: u32) = k"
  by (simp add: unat_of_nat take_bit_nat_eq_self)

text \<open>Offsets from the start of a mapping, in whole pages.\<close>

lemma page_offset_step:
  fixes d :: u32
  assumes "unat d mod 4096 = 0" "Suc n < 1048576"
  shows "d \<le> of_nat (4096 * Suc n) \<longleftrightarrow> d = 0 \<or> d - PGSIZE \<le> of_nat (4096 * n)"
    "d = 0 \<Longrightarrow> \<not> d - PGSIZE \<le> of_nat (4096 * n)"
proof -
  have n: "unat (of_nat (4096 * n) :: u32) = 4096 * n" "unat (of_nat (4096 * Suc n) :: u32) = 4096 * Suc n"
    by (rule unat_of_nat_small, use assms(2) in simp)+
  show "d = 0 \<Longrightarrow> \<not> d - PGSIZE \<le> of_nat (4096 * n)"
    using assms(2) n by (simp add: word_le_nat_alt PGSIZE_def del: of_nat_mult)
  moreover have "unat (d - PGSIZE) = unat d - 4096" if "d \<noteq> 0"
  proof -
    have "unat d \<noteq> 0" using that by (simp add: unat_eq_zero)
    with assms(1) have "4096 \<le> unat d" by (metis gr_zeroI mod_less not_le)
    then have "PGSIZE \<le> d" by (simp add: PGSIZE_def word_le_nat_alt)
    then show ?thesis by (simp add: unat_sub) (simp add: PGSIZE_def)
  qed
  ultimately show "d \<le> of_nat (4096 * Suc n) \<longleftrightarrow> d = 0 \<or> d - PGSIZE \<le> of_nat (4096 * n)"
    using n by (cases "d = 0") (auto simp: word_le_nat_alt simp del: of_nat_mult of_nat_Suc)
qed

lemma page_mod_dvd: "v mod PGSIZE = 0 \<longleftrightarrow> 4096 dvd uint v"
proof -
  have "uint v = int (unat v)" by simp
  then have "4096 dvd uint v \<longleftrightarrow> 4096 dvd unat v"
    using int_dvd_int_iff [of 4096 "unat v"] by simp
  then show ?thesis by (simp add: unat_page_mod mod_eq_0_iff_dvd)
qed

lemma page_mod_diff: "a mod PGSIZE = 0 \<Longrightarrow> b mod PGSIZE = 0 \<Longrightarrow> (a - b) mod PGSIZE = 0"
proof -
  have "(4096 :: int) dvd 2 ^ 32" by simp
  then show "a mod PGSIZE = 0 \<Longrightarrow> b mod PGSIZE = 0 \<Longrightarrow> (a - b) mod PGSIZE = 0"
    unfolding page_mod_dvd by (simp add: uint_word_ariths dvd_mod_iff dvd_diff)
qed

lemma page_mod_add: "a mod PGSIZE = 0 \<Longrightarrow> b mod PGSIZE = 0 \<Longrightarrow> (a + b) mod PGSIZE = 0"
proof -
  have "(4096 :: int) dvd 2 ^ 32" by simp
  then show "a mod PGSIZE = 0 \<Longrightarrow> b mod PGSIZE = 0 \<Longrightarrow> (a + b) mod PGSIZE = 0"
    unfolding page_mod_dvd by (simp add: uint_word_ariths dvd_mod_iff dvd_add)
qed

lemma aligned_diff: "a mod PGSIZE = 0 \<Longrightarrow> unat (PGROUNDDOWN v - a) mod 4096 = 0"
proof -
  assume a: "a mod PGSIZE = 0"
  have "PGROUNDDOWN v mod PGSIZE = 0" by (simp add: unat_page_mod PGROUNDDOWN_unat)
  then have "(PGROUNDDOWN v - a) mod PGSIZE = 0" using a
    by (rule page_mod_diff)
  then show ?thesis by (simp add: unat_page_mod)
qed

lemma aligned_next: "a mod PGSIZE = 0 \<Longrightarrow> (a + PGSIZE) mod PGSIZE = 0"
  by (rule page_mod_add) (simp_all add: PGSIZE_def)

lemma PGROUNDDOWN_aligned: "a mod PGSIZE = 0 \<Longrightarrow> PGROUNDDOWN a = a"
  unfolding unat_page_mod by (simp add: word_unat_eq_iff PGROUNDDOWN_unat modulo_nat_def mult.commute)

definition mapped_as :: "u32 \<Rightarrow> nat \<Rightarrow> u32 \<Rightarrow> u32 \<Rightarrow> (u32 \<Rightarrow> u32) \<Rightarrow> u32 \<Rightarrow> u32" where
  "mapped_as a n pa perm old va =
     (if PGROUNDDOWN va - a \<le> of_nat (4096 * n)
      then (pa + (PGROUNDDOWN va - a)) OR perm OR PTE_P else old va)"

lemma mappages_loop_spec:
  assumes "tables_ok s pgdir ps" "a mod PGSIZE = 0" "n < 1048576"
    "mappages_loop n pgdir a pa perm s = Inr (r, s')"
  shows "(r = 0 \<or> r = -1) \<and> (\<exists>ps'. tables_ok s' pgdir ps' \<and> keeps_outside s ps s' ps' pgdir)
    \<and> (r = 0 \<longrightarrow> pte_of (pmem s') pgdir = mapped_as a n pa perm (pte_of (pmem s) pgdir))"
  using assms
proof (induction n arbitrary: a pa s ps)
  case 0
  obtain pte s1 where w: "walkpgdir pgdir a True s = (pte, s1)" by fastforce
  show ?case
  proof (cases "pte = 0")
    case True
    then have "r = -1" "s' = s" using 0 w walkpgdir_alloc [OF 0(1) w] by auto
    then show ?thesis using 0 keeps_outside_refl by auto
  next
    case False
    note m = map_one(2,3) [OF 0(1) w False, of "pa OR perm OR PTE_P"]
    have s': "r = 0" "s' = s1\<lparr>pmem := store32 (pmem s1) pte (pa OR perm OR PTE_P)\<rparr>"
      using 0(4) w False by (auto split: if_splits)
    have "PGROUNDDOWN vb = a \<longleftrightarrow> PGROUNDDOWN vb - a \<le> 0" for vb
      by (metis order_refl right_minus_eq word_le_0_iff)
    then have "pte_of (pmem s') pgdir vb = mapped_as a 0 pa perm (pte_of (pmem s) pgdir) vb" for vb
      using m(2) [of vb] 0(2) PGROUNDDOWN_aligned unfolding s' mapped_as_def by auto
    then show ?thesis using m(1) s' by auto
  qed
next
  case (Suc n)
  obtain pte s1 where w: "walkpgdir pgdir a True s = (pte, s1)" by fastforce
  show ?case
  proof (cases "pte = 0")
    case True
    then have "r = -1" "s' = s" using Suc.prems w walkpgdir_alloc [OF Suc.prems(1) w] by auto
    then show ?thesis using Suc.prems keeps_outside_refl by auto
  next
    case False
    let ?s2 = "s1\<lparr>pmem := store32 (pmem s1) pte (pa OR perm OR PTE_P)\<rparr>"
    note m = map_one(2,3) [OF Suc.prems(1) w False, of "pa OR perm OR PTE_P"]
    obtain ps2 where 2: "tables_ok ?s2 pgdir ps2" "keeps_outside s ps ?s2 ps2 pgdir" using m(1) by auto
    have "mappages_loop n pgdir (a + PGSIZE) (pa + PGSIZE) perm ?s2 = Inr (r, s')"
      using Suc.prems(4) w False by (auto split: if_splits)
    note ih = Suc.IH [OF 2(1) aligned_next [OF Suc.prems(2)] _ this]
    have "mapped_as (a + PGSIZE) n (pa + PGSIZE) perm (pte_of (pmem ?s2) pgdir) vb
        = mapped_as a (Suc n) pa perm (pte_of (pmem s) pgdir) vb" for vb
    proof -
      let ?d = "PGROUNDDOWN vb - a"
      have d: "unat ?d mod 4096 = 0" using Suc.prems(2) by (rule aligned_diff)
      have "PGROUNDDOWN vb = PGROUNDDOWN a \<longleftrightarrow> ?d = 0" using PGROUNDDOWN_aligned [OF Suc.prems(2)] by simp
      then show ?thesis
        using page_offset_step [OF d Suc.prems(3)] m(2) [of vb]
        by (auto simp: mapped_as_def algebra_simps simp del: of_nat_mult of_nat_Suc)
    qed
    then have "mapped_as (a + PGSIZE) n (pa + PGSIZE) perm (pte_of (pmem ?s2) pgdir)
        = mapped_as a (Suc n) pa perm (pte_of (pmem s) pgdir)" by (rule ext)
    moreover obtain ps' where "tables_ok s' pgdir ps'" "keeps_outside s ps s' ps' pgdir"
      using ih Suc.prems(3) keeps_outside_trans [OF 2(2)] by auto
    ultimately show ?thesis using ih Suc.prems(3) by auto
  qed
qed

lemma page_count: "unat ((x :: u32) div PGSIZE) < 1048576"
proof -
  have "unat x < 4294967296" using unsigned_less [of x] by simp
  then show ?thesis by (simp add: PGSIZE_def unat_div)
qed

text \<open>
  Claim C12. \<^verbatim>\<open>mappages\<close> maps exactly its range: when it returns 0, every address whose page lies in
  \<open>[va, va + size)\<close> translates to the corresponding physical page with the given permissions, every
  other translation is as before, and the directory and its tables still use pages of their own, so
  that every page outside the page table keeps its contents. It returns nothing but 0 and \<open>-1\<close>, and
  also when it returns \<open>-1\<close> the page table stays well formed.
\<close>

theorem mappages_translates:
  assumes "tables_ok s pgdir ps" "mappages pgdir va sz pa perm s = Inr (r, s')"
  defines "a \<equiv> PGROUNDDOWN va"
  defines "n \<equiv> unat ((PGROUNDDOWN (va + sz - 1) - a) div PGSIZE)"
  shows "(r = 0 \<or> r = -1)
    \<and> (\<exists>ps'. tables_ok s' pgdir ps' \<and> set ps' \<subseteq> set ps \<and> keeps_outside s ps s' ps' pgdir)
    \<and> (r = 0 \<longrightarrow> (\<forall>vb. pte_of (pmem s') pgdir vb =
         (if PGROUNDDOWN vb - a \<le> of_nat (4096 * n) then (pa + (PGROUNDDOWN vb - a)) OR perm OR PTE_P
          else pte_of (pmem s) pgdir vb)))"
proof -
  have 1: "a mod PGSIZE = 0" by (simp add: a_def unat_page_mod PGROUNDDOWN_unat)
  have 2: "mappages_loop n pgdir a pa perm s = Inr (r, s')"
    using assms(2) by (simp add: mappages_def a_def n_def Let_def)
  have 3: "n < 1048576" unfolding n_def by (rule page_count)
  show ?thesis
    using mappages_loop_spec [OF assms(1) 1 3 2] unfolding keeps_outside_def mapped_as_def fun_eq_iff by blast
qed

text \<open>Taking a page from the allocator and zeroing it keeps the page table and hands the page out.\<close>

lemma kalloc_zero:
  assumes ok: "tables_ok s pgdir (v # qs)"
  defines "s1 \<equiv> (snd (kalloc s))\<lparr>pmem := memset v 0 PGSIZE (pmem s)\<rparr>"
  shows "tables_ok s1 pgdir qs" "keeps_outside s (v # qs) s1 qs pgdir" "outside s1 pgdir qs v"
    "\<forall>x\<in>page v. pmem s1 x = 0" "pte_of (pmem s1) pgdir = pte_of (pmem s) pgdir"
proof -
  have fp: "free_pages s (v # qs)" using ok by (simp add: tables_ok_def)
  note k = kalloc_Cons [OF fp]
  have v: "v mod PGSIZE = 0" using good_page_mod [OF fp] by simp
  have m: "pmem s1 x = (if x \<in> page v then 0 else pmem s x)" for x
    by (simp add: s1_def memset_fills PGSIZE_block)
  have nt: "table_of (pmem s) pgdir i \<noteq> v" if "has_table (pmem s) pgdir i" for i
    using ok that by (auto simp: tables_ok_def)
  have pg: "v \<noteq> pgdir" using ok by (auto simp: tables_ok_def)
  have fr: "unat i < 1024 \<Longrightarrow> pde_of (pmem s1) pgdir i = pde_of (pmem s) pgdir i" for i
    by (rule pte_of_frame(1) [OF ok v pg nt]) (simp_all add: m)
  have "pte_of (pmem s1) pgdir va = pte_of (pmem s) pgdir va" for va
    by (rule pte_of_frame(2) [OF ok v pg nt]) (simp_all add: m)
  then show "pte_of (pmem s1) pgdir = pte_of (pmem s) pgdir" by (intro ext)
  have "free_pages s1 qs" unfolding s1_def
  proof (rule free_pages_other_page [OF k(2) v k(3)])
    show "memset v 0 PGSIZE (pmem s) x = pmem (snd (kalloc s)) x" if "x \<notin> page v" for x
      using that by (simp add: k(5) memset_fills PGSIZE_block)
  qed
  then show "tables_ok s1 pgdir qs" by (rule tables_ok_cong [OF ok]) (auto simp: fr)
  have tab: "has_table (pmem s1) pgdir i = has_table (pmem s) pgdir i"
    "has_table (pmem s) pgdir i \<Longrightarrow> table_of (pmem s1) pgdir i = table_of (pmem s) pgdir i" for i
    using fr by (auto simp: has_table_def table_of_def)
  show "outside s1 pgdir qs v" using v k(3) pg nt tab by (auto simp: outside_def)
  show "\<forall>x\<in>page v. pmem s1 x = 0" by (simp add: m)
  show "keeps_outside s (v # qs) s1 qs pgdir"
  proof -
    have "outside s1 pgdir qs u \<and> (\<forall>x\<in>page u. pmem s1 x = pmem s x)" if u: "outside s pgdir (v # qs) u" for u
    proof -
      have "u mod PGSIZE = 0" "u \<noteq> v" using u by (auto simp: outside_def)
      then have "page u \<inter> page v = {}" using v by (intro pages_disjoint)
      then show ?thesis using u tab by (auto simp: outside_def m)
    qed
    then show ?thesis using k(6) by (auto simp: keeps_outside_def s1_def)
  qed
qed

lemma PGROUNDDOWN_page_end: "a mod PGSIZE = 0 \<Longrightarrow> PGROUNDDOWN (a + PGSIZE - 1) = a"
proof -
  assume a: "a mod PGSIZE = 0"
  obtain q where q: "unat a = 4096 * q" using a by (auto simp: unat_page_mod mod_eq_0_iff_dvd)
  have "unat a < 4294967296" using unsigned_less [of a] by simp
  then have "unat (a + 4095) = unat a + 4095" using q unat_add_of_nat [of a 4095] by simp
  then have "PGROUNDDOWN (a + 4095) = a" using q by (simp add: word_unat_eq_iff PGROUNDDOWN_unat)
  moreover have "a + PGSIZE - 1 = a + 4095" by (simp add: PGSIZE_def algebra_simps)
  ultimately show ?thesis by metis
qed

definition user_range :: "u32 \<Rightarrow> u32 \<Rightarrow> u32 \<Rightarrow> bool" where
  "user_range a newsz q \<longleftrightarrow> q mod PGSIZE = 0 \<and> a \<le> q \<and> q < newsz"

text \<open>\<open>f\<close> assigns each new page of the range its own fresh, zeroed page.\<close>

definition fresh_zeroed ::
  "'a kmem_scheme \<Rightarrow> u32 \<Rightarrow> u32 list \<Rightarrow> u32 list \<Rightarrow> u32 \<Rightarrow> u32 \<Rightarrow> (u32 \<Rightarrow> u32) \<Rightarrow> bool" where
  "fresh_zeroed s' pgdir ps ps' a newsz f \<longleftrightarrow>
     (\<forall>q. user_range a newsz q \<longrightarrow> f q \<in> set ps \<and> outside s' pgdir ps' (f q) \<and> (\<forall>x\<in>page (f q). pmem s' x = 0))
     \<and> inj_on f {q. user_range a newsz q}"

lemma map_one_page:
  assumes "tables_ok s pgdir ps" "a mod PGSIZE = 0" "mappages pgdir a PGSIZE pa perm s = Inr (r, s')"
  shows "(r = 0 \<or> r = -1) \<and> (\<exists>ps'. tables_ok s' pgdir ps' \<and> keeps_outside s ps s' ps' pgdir)
    \<and> (r = 0 \<longrightarrow> pte_of (pmem s') pgdir =
          (\<lambda>va. if PGROUNDDOWN va = a then pa OR perm OR PTE_P else pte_of (pmem s) pgdir va))"
proof -
  have "mappages_loop 0 pgdir a pa perm s = Inr (r, s')"
    using assms(3) by (simp add: mappages_def Let_def PGROUNDDOWN_page_end PGROUNDDOWN_aligned assms(2))
  note sp = mappages_loop_spec [OF assms(1,2) _ this]
  have "mapped_as a 0 pa perm old = (\<lambda>va. if PGROUNDDOWN va = a then pa OR perm OR PTE_P else old va)" for old
    by (auto simp: mapped_as_def fun_eq_iff)
  then show ?thesis using sp by simp
qed

lemma user_range_step:
  assumes "a mod PGSIZE = 0" "a < newsz" "\<not> a + PGSIZE \<le> a"
  shows "user_range a newsz q \<longleftrightarrow> q = a \<or> user_range (a + PGSIZE) newsz q" "\<not> user_range (a + PGSIZE) newsz a"
proof -
  show "\<not> user_range (a + PGSIZE) newsz a" using assms by (simp add: user_range_def)
  obtain k where k: "unat a = 4096 * k" using assms(1) by (auto simp: unat_page_mod mod_eq_0_iff_dvd)
  have "unat (a + PGSIZE) = unat a + 4096"
  proof -
    have "unat a + 4096 < 4294967296"
    proof (rule ccontr)
      assume "\<not> unat a + 4096 < 4294967296"
      moreover have "unat a < 4294967296" using unsigned_less [of a] by simp
      ultimately have "unat (a + PGSIZE) = unat a + 4096 - 4294967296"
        by (simp add: PGSIZE_def unat_word_ariths mod_if)
      then show False using assms(3) by (simp add: word_le_nat_alt not_le)
    qed
    then show ?thesis using unat_add_of_nat [of a 4096] by (simp add: PGSIZE_def)
  qed
  moreover have "unat q mod 4096 = 0 \<Longrightarrow> unat a \<le> unat q \<Longrightarrow> unat q = unat a \<or> unat a + 4096 \<le> unat q"
    using k by (auto simp: mod_eq_0_iff_dvd elim!: dvdE)
  ultimately show "user_range a newsz q \<longleftrightarrow> q = a \<or> user_range (a + PGSIZE) newsz q"
    using assms by (auto simp: user_range_def word_le_nat_alt unat_page_mod word_unat_eq_iff [of q a]
        word_less_nat_alt)
qed

lemma alloc_loop_page:
  assumes ok: "tables_ok s pgdir ps" and al: "a mod PGSIZE = 0"
    and run: "alloc_loop pgdir a oldsz newsz s = Inr (newsz, s')" "newsz \<noteq> 0" and less: "a < newsz"
  obtains v qs s2 ps2 where "ps = v # qs" "\<not> a + PGSIZE \<le> a"
    "alloc_loop pgdir (a + PGSIZE) oldsz newsz s2 = Inr (newsz, s')"
    "tables_ok s2 pgdir ps2" "keeps_outside s ps s2 ps2 pgdir" "v \<notin> set ps2"
    "outside s2 pgdir ps2 v" "\<forall>x\<in>page v. pmem s2 x = 0"
    "pte_of (pmem s2) pgdir = (\<lambda>va. if PGROUNDDOWN va = a then V2P v OR (PTE_W OR PTE_U) OR PTE_P
       else pte_of (pmem s) pgdir va)"
proof -
  have fp: "free_pages s ps" using ok by (simp add: tables_ok_def)
  obtain v qs where ps: "ps = v # qs"
  proof (cases ps)
    case Nil
    then have "kalloc s = (0, s)" using kalloc_Nil fp by simp
    then have False using run less by (subst (asm) alloc_loop.simps) (auto simp: bindE_eq_Inr_iff)
    then show ?thesis ..
  qed
  note k = kalloc_Cons [OF fp [unfolded ps]] and z = kalloc_zero [OF ok [unfolded ps]]
  let ?s1 = "(snd (kalloc s))\<lparr>pmem := memset v 0 PGSIZE (pmem s)\<rparr>"
  have kv: "fst (kalloc s) = v" "v \<noteq> 0" "pmem (snd (kalloc s)) = pmem s"
    using k(1,4,5) by (simp_all add: good_page_def)
  obtain r s2 where m: "mappages pgdir a PGSIZE (V2P v) (PTE_W OR PTE_U) ?s1 = Inr (r, s2)"
    using run(1) less kv
    by (subst (asm) alloc_loop.simps) (auto simp: Let_def split_beta split: sum.splits)
  note mo = map_one_page [OF z(1) al m]
  have "r = 0 \<or> r = -1" using mo by blast
  then have r: "r = 0 \<and> \<not> a + PGSIZE \<le> a \<and> alloc_loop pgdir (a + PGSIZE) oldsz newsz s2 = Inr (newsz, s')"
    using run less kv m
    by (subst (asm) alloc_loop.simps) (auto simp: Let_def split_beta bindE_eq_Inr_iff split: if_splits)
  obtain ps2 where 2: "tables_ok s2 pgdir ps2" "keeps_outside ?s1 qs s2 ps2 pgdir" using mo by blast
  show thesis
  proof (rule that [OF ps _ _ 2(1)])
    show "pte_of (pmem s2) pgdir = (\<lambda>va. if PGROUNDDOWN va = a then V2P v OR (PTE_W OR PTE_U) OR PTE_P
        else pte_of (pmem s) pgdir va)" using mo r z(5) by (auto simp: fun_eq_iff)
    show "keeps_outside s ps s2 ps2 pgdir" using keeps_outside_trans [OF z(2) 2(2)] ps by simp
  qed (use r 2(2) k(3) z(3,4) in \<open>auto simp: keeps_outside_def\<close>)
qed

text \<open>A page in front of a range of fresh zeroed pages extends the range.\<close>

lemma fresh_zeroed_extend:
  assumes f: "fresh_zeroed s' pgdir ps2 ps' (a + PGSIZE) newsz f"
    and v: "v \<in> set ps" "v \<notin> set ps2" "outside s' pgdir ps' v" "\<forall>x\<in>page v. pmem s' x = 0"
    and sub: "set ps2 \<subseteq> set ps"
    and st: "\<And>q. user_range a newsz q \<longleftrightarrow> q = a \<or> user_range (a + PGSIZE) newsz q"
      "\<not> user_range (a + PGSIZE) newsz a"
  shows "fresh_zeroed s' pgdir ps ps' a newsz (f(a := v))"
proof -
  have fz: "f q \<in> set ps2 \<and> outside s' pgdir ps' (f q) \<and> (\<forall>x\<in>page (f q). pmem s' x = 0)"
    if "user_range (a + PGSIZE) newsz q" for q using f that by (auto simp: fresh_zeroed_def)
  have fi: "inj_on f {q. user_range (a + PGSIZE) newsz q}" using f by (simp add: fresh_zeroed_def)
  have "{q. user_range a newsz q} = insert a {q. user_range (a + PGSIZE) newsz q}" using st(1) by auto
  moreover have "v \<notin> f ` {q. user_range (a + PGSIZE) newsz q}" using fz v(2) by auto
  ultimately have "inj_on (f(a := v)) {q. user_range a newsz q}" using fi st(2) by (auto simp: inj_on_def)
  then show ?thesis using fz v sub st by (auto simp: fresh_zeroed_def)
qed

lemma alloc_loop_spec:
  assumes "tables_ok s pgdir ps" "a mod PGSIZE = 0" "alloc_loop pgdir a oldsz newsz s = Inr (newsz, s')"
    "newsz \<noteq> 0"
  shows "\<exists>ps' f. tables_ok s' pgdir ps' \<and> keeps_outside s ps s' ps' pgdir
    \<and> fresh_zeroed s' pgdir ps ps' a newsz f
    \<and> (\<forall>va. pte_of (pmem s') pgdir va =
         (if user_range a newsz (PGROUNDDOWN va) then V2P (f (PGROUNDDOWN va)) OR PTE_W OR PTE_U OR PTE_P
          else pte_of (pmem s) pgdir va))"
  using assms
proof (induction "unat newsz - unat a" arbitrary: a s ps rule: less_induct)
  case less
  show ?case
  proof (cases "a < newsz")
    case False
    then have "s' = s" using less.prems(3) by (simp add: alloc_loop.simps)
    moreover have "\<not> user_range a newsz q" for q using False by (auto simp: user_range_def)
    ultimately show ?thesis
      using less.prems(1) keeps_outside_refl by (intro exI [of _ ps]) (auto simp: fresh_zeroed_def)
  next
    case True
    from alloc_loop_page [OF less.prems True] obtain v qs s2 ps2 where ps: "ps = v # qs"
      and nw: "\<not> a + PGSIZE \<le> a"
      and rest: "alloc_loop pgdir (a + PGSIZE) oldsz newsz s2 = Inr (newsz, s')"
      and 2: "tables_ok s2 pgdir ps2" "keeps_outside s ps s2 ps2 pgdir" "v \<notin> set ps2"
      and v: "outside s2 pgdir ps2 v" "\<forall>x\<in>page v. pmem s2 x = 0"
      and pte2: "pte_of (pmem s2) pgdir = (\<lambda>va. if PGROUNDDOWN va = a then V2P v OR (PTE_W OR PTE_U) OR PTE_P
        else pte_of (pmem s) pgdir va)" .
    have "unat newsz - unat (a + PGSIZE) < unat newsz - unat a"
      using True nw by (simp add: word_less_nat_alt word_le_nat_alt)
    from less.hyps [OF this 2(1) aligned_next [OF less.prems(2)] rest less.prems(4)]
    obtain ps' f where ih: "tables_ok s' pgdir ps'" "keeps_outside s2 ps2 s' ps' pgdir"
      "fresh_zeroed s' pgdir ps2 ps' (a + PGSIZE) newsz f"
      "\<And>va. pte_of (pmem s') pgdir va =
         (if user_range (a + PGSIZE) newsz (PGROUNDDOWN va) then V2P (f (PGROUNDDOWN va)) OR PTE_W OR PTE_U OR PTE_P
          else pte_of (pmem s2) pgdir va)" by blast
    note st = user_range_step [OF less.prems(2) True nw]
    have "outside s' pgdir ps' v" "\<forall>x\<in>page v. pmem s' x = 0" "set ps2 \<subseteq> set ps"
      using ih(2) v 2(2) by (auto simp: keeps_outside_def)
    then have "fresh_zeroed s' pgdir ps ps' a newsz (f(a := v))"
      using ps by (intro fresh_zeroed_extend [OF ih(3) _ 2(3) _ _ _ st]) auto
    moreover have "pte_of (pmem s') pgdir va =
         (if user_range a newsz (PGROUNDDOWN va) then V2P ((f(a := v)) (PGROUNDDOWN va)) OR PTE_W OR PTE_U OR PTE_P
          else pte_of (pmem s) pgdir va)" for va
      using ih(4) [of va] st pte2 by (auto simp: or.assoc)
    ultimately show ?thesis using ih(1) keeps_outside_trans [OF 2(2) ih(2)] by blast
  qed
qed

text \<open>
  Claim C13. When \<^verbatim>\<open>allocuvm\<close> grows a process to \<open>newsz\<close> bytes, exactly the pages between the rounded-up
  old size and the new size become mapped: each to a physical page of its own, taken from the free
  list, writable, accessible to the user and filled with zeros. No other translation changes, and no
  page that was neither free nor part of the page table loses its contents.
\<close>

theorem allocuvm_maps_fresh_pages:
  assumes "tables_ok s pgdir ps" "allocuvm pgdir oldsz newsz s = Inr (newsz, s')" "newsz \<noteq> 0"
    "oldsz \<le> newsz"
  shows "\<exists>ps' f. tables_ok s' pgdir ps' \<and> keeps_outside s ps s' ps' pgdir
    \<and> fresh_zeroed s' pgdir ps ps' (PGROUNDUP oldsz) newsz f
    \<and> (\<forall>va. pte_of (pmem s') pgdir va =
         (if user_range (PGROUNDUP oldsz) newsz (PGROUNDDOWN va)
          then V2P (f (PGROUNDDOWN va)) OR PTE_W OR PTE_U OR PTE_P
          else pte_of (pmem s) pgdir va))"
proof -
  have "alloc_loop pgdir (PGROUNDUP oldsz) oldsz newsz s = Inr (newsz, s')"
    using assms(2-4) by (auto simp: allocuvm_def split: if_splits)
  from alloc_loop_spec [OF assms(1) PGROUNDUP_aligned this assms(3)] show ?thesis .
qed

lemma mappages_one_returns:
  assumes "tables_ok s pgdir (v # qs)" "a mod PGSIZE = 0" "\<not> present (pte_of (pmem s) pgdir a)"
  shows "\<exists>s'. mappages pgdir a PGSIZE pa perm s = Inr (0, s')"
proof -
  obtain pte s1 where w: "walkpgdir pgdir a True s = (pte, s1)" by fastforce
  have nz: "pte \<noteq> 0" using walkpgdir_alloc [OF assms(1) w] by auto
  have "load32 (pmem s1) pte AND PTE_P = 0"
    using assms(3) map_one(1) [OF assms(1) w nz] by (simp add: present_def)
  then show ?thesis
    using w nz by (simp add: mappages_def PGROUNDDOWN_page_end PGROUNDDOWN_aligned assms(2) Let_def)
qed

text \<open>A machine with two free pages and an empty page directory.\<close>

lemma vboot_exists:
  "\<exists>s. tables_ok (s :: kmem) 0x80300000 [0x80201000, 0x80200000]
     \<and> (\<forall>va. pte_of (pmem s) 0x80300000 va = 0)"
proof -
  obtain s1 where s1: "kfree 0x80200000 kboot = Inr s1" using kboot_page by (rule kfree_ok)
  have f1: "free_pages s1 [0x80200000]" using kfree_free_pages [OF kboot_free_pages s1] by simp
  have "kend s1 = 0x80100000" using kfree_InrD(2) [OF s1] by (simp add: kboot_def)
  then have "(0x80201000 :: u32) mod PGSIZE = 0" "kend s1 \<le> 0x80201000" "V2P 0x80201000 < PHYSTOP"
    by (simp_all add: PGSIZE_def V2P_def KERNBASE_def PHYSTOP_def)
  then obtain s2 where s2: "kfree 0x80201000 s1 = Inr s2" by (rule kfree_ok)
  have f2: "free_pages s2 [0x80201000, 0x80200000]" using kfree_free_pages [OF f1 s2] by simp
  have z: "pmem s2 x = 0" if "x \<in> page 0x80300000" for x
  proof -
    have "page (0x80300000 :: u32) \<inter> page 0x80201000 = {}" "page (0x80300000 :: u32) \<inter> page 0x80200000 = {}"
      by (rule pages_disjoint; simp add: PGSIZE_def)+
    then have "x \<notin> page 0x80201000" "x \<notin> page 0x80200000" using that by auto
    then show ?thesis using kfree_InrD(7) [OF s2] kfree_InrD(7) [OF s1] by (simp add: kboot_def)
  qed
  have pde: "pde_of (pmem s2) 0x80300000 i = 0" if "unat i < 1024" for i
    unfolding pde_of_def by (rule load32_zero) (use z entry_in_page [OF that] in blast)
  then have nt: "\<not> has_table (pmem s2) 0x80300000 i" for i by (auto simp: has_table_def present_def)
  have "pte_of (pmem s2) 0x80300000 va = 0" for va
    using pde [OF PDX_less] by (simp add: pte_of_def present_def)
  moreover have "tables_ok s2 0x80300000 [0x80201000, 0x80200000]"
    using f2 nt by (simp add: tables_ok_def PGSIZE_def)
  ultimately show ?thesis by blast
qed

theorem mappages_translates_witness:
  "\<exists>(s :: kmem) s'. mappages 0x80300000 0x4000 PGSIZE 0x100000 PTE_U s = Inr (0, s')
    \<and> pte_of (pmem s) 0x80300000 0x4123 = 0 \<and> pte_of (pmem s') 0x80300000 0x4123 = 0x100005"
proof -
  obtain s :: kmem where s: "tables_ok s 0x80300000 [0x80201000, 0x80200000]"
    "\<And>va. pte_of (pmem s) 0x80300000 va = 0" using vboot_exists by blast
  have a: "(0x4000 :: u32) mod PGSIZE = 0" by (simp add: PGSIZE_def)
  obtain s' where s': "mappages 0x80300000 0x4000 PGSIZE 0x100000 PTE_U s = Inr (0, s')"
    using mappages_one_returns [OF s(1) a, of "0x100000" PTE_U] s(2) by (auto simp: present_def)
  have "PGROUNDDOWN 0x4123 - PGROUNDDOWN 0x4000 \<le> of_nat (4096 * n)" for n
    by (simp add: PGROUNDDOWN_def PGSIZE_def)
  then show ?thesis
    using mappages_translates [OF s(1) s'] s(2) s'
    by (intro exI [of _ s] exI [of _ s']) (simp add: PGROUNDDOWN_def PGSIZE_def PTE_U_def PTE_P_def)
qed

theorem allocuvm_maps_fresh_pages_witness:
  "\<exists>(s :: kmem) s' v. allocuvm 0x80300000 0 4096 s = Inr (4096, s')
    \<and> pte_of (pmem s') 0x80300000 0x123 = V2P v OR PTE_W OR PTE_U OR PTE_P
    \<and> v \<in> {0x80201000, 0x80200000} \<and> (\<forall>x\<in>page v. pmem s' x = 0)"
proof -
  obtain s :: kmem where s: "tables_ok s 0x80300000 [0x80201000, 0x80200000]"
    "\<And>va. pte_of (pmem s) 0x80300000 va = 0" using vboot_exists by blast
  have "free_pages s [0x80201000, 0x80200000]" using s(1) by (simp add: tables_ok_def)
  note k = kalloc_Cons [OF this] and z = kalloc_zero [OF s(1)]
  have "\<not> present (pte_of (pmem ((snd (kalloc s))\<lparr>pmem := memset 0x80201000 0 PGSIZE (pmem s)\<rparr>)) 0x80300000 0)"
    unfolding z(5) by (simp add: s(2) present_def)
  then obtain s1 where m: "mappages 0x80300000 0 PGSIZE (V2P 0x80201000) (PTE_W OR PTE_U)
      ((snd (kalloc s))\<lparr>pmem := memset 0x80201000 0 PGSIZE (pmem s)\<rparr>) = Inr (0, s1)"
    using mappages_one_returns [OF z(1), of 0] by auto
  have "alloc_loop 0x80300000 0 0 4096 s = Inr (4096, s1)"
    using m k(1,5) by (subst alloc_loop.simps, subst alloc_loop.simps) (simp add: Let_def split_beta PGSIZE_def)
  then have al: "allocuvm 0x80300000 0 4096 s = Inr (4096, s1)"
    by (simp add: allocuvm_def PGROUNDUP_def PGSIZE_def KERNBASE_def)
  obtain ps' f where "fresh_zeroed s1 0x80300000 [0x80201000, 0x80200000] ps' (PGROUNDUP 0) 4096 f"
    "\<And>va. pte_of (pmem s1) 0x80300000 va =
         (if user_range (PGROUNDUP 0) 4096 (PGROUNDDOWN va)
          then V2P (f (PGROUNDDOWN va)) OR PTE_W OR PTE_U OR PTE_P
          else pte_of (pmem s) 0x80300000 va)"
    using allocuvm_maps_fresh_pages [OF s(1) al] by auto
  moreover have "user_range (PGROUNDUP 0) 4096 0" "PGROUNDDOWN 0x123 = 0"
    by (simp_all add: user_range_def PGROUNDUP_def PGROUNDDOWN_def PGSIZE_def)
  ultimately show ?thesis
    using al by (intro exI [of _ s] exI [of _ s1] exI [of _ "f 0"]) (auto simp: fresh_zeroed_def)
qed

end
