(* ===== verification/Fs.thy ===== *)
theory Fs
  imports Log
begin

text \<open>
  The file system (\<^verbatim>\<open>xv6/fs.c\<close>): block allocation, inodes, file contents, directories and path names,
  over the log and the buffer cache. Inode pointers are indices into the inode cache. A byte buffer
  that the caller passes to \<^verbatim>\<open>readi\<close> is the list of bytes that are stored into it. C strings
  are lists of bytes without the terminating 0.
\<close>

unbundle bit_operations_syntax

section \<open>Constants and layout of fs.h\<close>

definition ROOTDEV :: u32 where "ROOTDEV = 1"
definition ROOTINO :: u32 where "ROOTINO = 1"
definition NDIRECT :: nat where "NDIRECT = 12"
definition NINDIRECT :: nat where "NINDIRECT = BSIZE div 4"
definition MAXFILE :: nat where "MAXFILE = NDIRECT + NINDIRECT"
definition IPB :: nat where "IPB = BSIZE div 64"
definition BPB :: nat where "BPB = BSIZE * 8"
definition DIRSIZ :: nat where "DIRSIZ = 14"
definition NINODE :: nat where "NINODE = 50"
definition NDEV :: int where "NDEV = 10"

definition T_DIR :: u16 where "T_DIR = 1"
definition T_FILE :: u16 where "T_FILE = 2"
definition T_DEV :: u16 where "T_DEV = 3"

definition get16 :: "block \<Rightarrow> nat \<Rightarrow> u16" where
  "get16 d i = ucast (d ! i) OR push_bit 8 (ucast (d ! (i + 1)))"

definition put16 :: "nat \<Rightarrow> u16 \<Rightarrow> block \<Rightarrow> block" where
  "put16 i v d = d[i := ucast v, i + 1 := ucast (drop_bit 8 v)]"

definition put_bytes :: "nat \<Rightarrow> u8 list \<Rightarrow> block \<Rightarrow> block" where
  "put_bytes i bs d = take i d @ bs @ drop (i + length bs) d"

section \<open>State\<close>

record inode =
  idev :: u32
  inum :: u32
  iref :: int
  ilk :: sleeplock
  valid :: bool
  itype :: u16
  major :: u16
  minor :: u16
  nlink :: u16
  isize :: u32
  addrs :: "u32 list"

text \<open>
  The device switch: what the driver's read function answers to a request of \<open>n\<close> bytes (its return value
  and the bytes it stored) and what its write function answers to the bytes it is given. A driver may
  also put the caller to sleep.
\<close>

record devops =
  dread :: "(u32 \<Rightarrow> (int \<times> u8 list) res) option"
  dwrite :: "(u8 list \<Rightarrow> int res) option"

record fs = log +
  sb :: superblock
  inodes :: "inode list"
  devsw :: "nat \<Rightarrow> devops"

definition IBLOCK :: "u32 \<Rightarrow> superblock \<Rightarrow> u32" where
  "IBLOCK i sp = i div of_nat IPB + sb_inodestart sp"

definition BBLOCK :: "u32 \<Rightarrow> superblock \<Rightarrow> u32" where
  "BBLOCK b sp = b div of_nat BPB + sb_bmapstart sp"

definition inode_at :: "nat \<Rightarrow> 'a fs_scheme \<Rightarrow> inode" where
  "inode_at ip s = inodes s ! ip"

definition upd_inode :: "nat \<Rightarrow> (inode \<Rightarrow> inode) \<Rightarrow> ('a fs_scheme, unit) op" where
  "upd_inode ip f = modify (\<lambda>s. s\<lparr>inodes := (inodes s)[ip := f (inodes s ! ip)]\<rparr>)"

definition ifld :: "nat \<Rightarrow> (inode \<Rightarrow> 'b) \<Rightarrow> ('a fs_scheme, 'b) op" where
  "ifld ip f = gets (\<lambda>s. f (inode_at ip s))"

section \<open>Blocks\<close>

definition bzero :: "u32 \<Rightarrow> u32 \<Rightarrow> ('a log_scheme, unit) op" where
  "bzero dev bno =
     bnd (bread dev bno) (\<lambda>bp.
     bnd (set_data bp (\<lambda>_. replicate BSIZE 0)) (\<lambda>_.
     bnd (log_write bp) (\<lambda>_. brelse bp)))"

definition bit_used :: "block \<Rightarrow> nat \<Rightarrow> bool" where
  "bit_used d bi \<longleftrightarrow> d ! (bi div 8) AND push_bit (bi mod 8) 1 \<noteq> 0"

definition set_bit_used :: "nat \<Rightarrow> block \<Rightarrow> block" where
  "set_bit_used bi d = d[bi div 8 := d ! (bi div 8) OR push_bit (bi mod 8) 1]"

definition clear_bit_used :: "nat \<Rightarrow> block \<Rightarrow> block" where
  "clear_bit_used bi d = d[bi div 8 := d ! (bi div 8) AND NOT (push_bit (bi mod 8) 1)]"

text \<open>The outer loop of \<^verbatim>\<open>balloc\<close>; the inner one looks for the first clear bit of a bitmap block.\<close>

function balloc_loop :: "u32 \<Rightarrow> nat \<Rightarrow> nat \<Rightarrow> ('a fs_scheme, u32) op" where
  "balloc_loop dev b sz =
     (if b < sz
      then bnd (gets sb) (\<lambda>sp.
           bnd (bread dev (BBLOCK (of_nat b) sp)) (\<lambda>bp.
           bnd (data_of bp) (\<lambda>d.
             case List.find (\<lambda>bi. \<not> bit_used d bi) [0..<min BPB (sz - b)] of
               Some bi \<Rightarrow>
                 bnd (set_data bp (set_bit_used bi)) (\<lambda>_.
                 bnd (log_write bp) (\<lambda>_.
                 bnd (brelse bp) (\<lambda>_.
                 bnd (bzero dev (of_nat (b + bi))) (\<lambda>_. ret (of_nat (b + bi))))))
             | None \<Rightarrow> bnd (brelse bp) (\<lambda>_. balloc_loop dev (b + BPB) sz))))
      else stop (Panic ''balloc: out of blocks''))"
  by pat_completeness auto

termination
  by (relation "measure (\<lambda>(_, b, sz). sz - b)") (auto simp: BPB_def BSIZE_def)

definition balloc :: "u32 \<Rightarrow> ('a fs_scheme, u32) op" where
  "balloc dev = bnd (gets sb) (\<lambda>sp. balloc_loop dev 0 (unat (sb_size sp)))"

definition bfree :: "u32 \<Rightarrow> u32 \<Rightarrow> ('a fs_scheme, unit) op" where
  "bfree dev b =
     bnd (readsb dev) (\<lambda>sp.
     bnd (modify (\<lambda>s. s\<lparr>sb := sp\<rparr>)) (\<lambda>_.
     bnd (bread dev (BBLOCK b sp)) (\<lambda>bp.
     bnd (data_of bp) (\<lambda>d.
       let bi = unat b mod BPB
       in if \<not> bit_used d bi then stop (Panic ''freeing free block'')
          else bnd (set_data bp (clear_bit_used bi)) (\<lambda>_.
               bnd (log_write bp) (\<lambda>_. brelse bp))))))"

section \<open>Inodes\<close>

definition iinit :: "u32 \<Rightarrow> ('a fs_scheme, unit) op" where
  "iinit dev =
     bnd (modify (\<lambda>s. s\<lparr>inodes := map (\<lambda>ip. ip\<lparr>ilk := initsleeplock ''inode''\<rparr>) (inodes s)\<rparr>)) (\<lambda>_.
     bnd (readsb dev) (\<lambda>sp. modify (\<lambda>s. s\<lparr>sb := sp\<rparr>)))"

text \<open>The offset of a disk inode in its block, and the fields at that offset.\<close>

definition doff :: "u32 \<Rightarrow> nat" where "doff i = 64 * (unat i mod IPB)"

definition put_dinode :: "inode \<Rightarrow> block \<Rightarrow> block" where
  "put_dinode ip d =
     (let k = doff (inum ip);
          d = put16 k (itype ip) d;
          d = put16 (k + 2) (major ip) d;
          d = put16 (k + 4) (minor ip) d;
          d = put16 (k + 6) (nlink ip) d;
          d = put32 (k + 8) (isize ip) d
      in foldl (\<lambda>d j. put32 (k + 12 + 4 * j) (addrs ip ! j) d) d [0..<NDIRECT + 1])"

definition get_dinode :: "block \<Rightarrow> inode \<Rightarrow> inode" where
  "get_dinode d ip =
     (let k = doff (inum ip)
      in ip\<lparr>itype := get16 d k, major := get16 d (k + 2), minor := get16 d (k + 4),
           nlink := get16 d (k + 6), isize := get32 d (k + 8),
           addrs := map (\<lambda>j. get32 d (k + 12 + 4 * j)) [0..<NDIRECT + 1]\<rparr>)"

definition iget :: "u32 \<Rightarrow> u32 \<Rightarrow> ('a fs_scheme, nat) op" where
  "iget dev ino s =
     (case List.find (\<lambda>i. iref (inode_at i s) > 0 \<and> idev (inode_at i s) = dev \<and> inum (inode_at i s) = ino)
             [0..<NINODE] of
        Some i \<Rightarrow> bnd (upd_inode i (\<lambda>x. x\<lparr>iref := iref x + 1\<rparr>)) (\<lambda>_. ret i) s
      | None \<Rightarrow>
          (case List.find (\<lambda>i. iref (inode_at i s) = 0) [0..<NINODE] of
             None \<Rightarrow> Inl (Panic ''iget: no inodes'')
           | Some i \<Rightarrow>
               bnd (upd_inode i (\<lambda>x. x\<lparr>idev := dev, inum := ino, iref := 1, valid := False\<rparr>)) (\<lambda>_. ret i) s))"

text \<open>The loop of \<^verbatim>\<open>ialloc\<close>, on the number of inodes left.\<close>

primrec ialloc_loop :: "nat \<Rightarrow> u32 \<Rightarrow> u32 \<Rightarrow> u16 \<Rightarrow> ('a fs_scheme, nat) op" where
  "ialloc_loop 0 ino dev ty = stop (Panic ''ialloc: no inodes'')"
| "ialloc_loop (Suc k) ino dev ty =
     bnd (gets sb) (\<lambda>sp.
     bnd (bread dev (IBLOCK ino sp)) (\<lambda>bp.
     bnd (data_of bp) (\<lambda>d.
       if get16 d (doff ino) = 0
       then bnd (set_data bp (\<lambda>d. put16 (doff ino) ty (put_bytes (doff ino) (replicate 64 0) d))) (\<lambda>_.
            bnd (log_write bp) (\<lambda>_.
            bnd (brelse bp) (\<lambda>_. iget dev ino)))
       else bnd (brelse bp) (\<lambda>_. ialloc_loop k (ino + 1) dev ty))))"

definition ialloc :: "u32 \<Rightarrow> u16 \<Rightarrow> ('a fs_scheme, nat) op" where
  "ialloc dev ty = bnd (gets sb) (\<lambda>sp. ialloc_loop (unat (sb_ninodes sp) - 1) 1 dev ty)"

definition iupdate :: "nat \<Rightarrow> ('a fs_scheme, unit) op" where
  "iupdate ip =
     bnd (gets (\<lambda>s. (inode_at ip s, sb s))) (\<lambda>(x, sp).
     bnd (bread (idev x) (IBLOCK (inum x) sp)) (\<lambda>bp.
     bnd (set_data bp (put_dinode x)) (\<lambda>_.
     bnd (log_write bp) (\<lambda>_. brelse bp))))"

definition idup :: "nat \<Rightarrow> ('a fs_scheme, nat) op" where
  "idup ip = bnd (upd_inode ip (\<lambda>x. x\<lparr>iref := iref x + 1\<rparr>)) (\<lambda>_. ret ip)"

definition lock_inode :: "nat \<Rightarrow> ('a fs_scheme, unit) op" where
  "lock_inode ip s =
     bindE (acquiresleep (curpid s) (ilk (inode_at ip s))) (\<lambda>k. upd_inode ip (\<lambda>x. x\<lparr>ilk := k\<rparr>) s)"

definition ilock :: "nat \<Rightarrow> ('a fs_scheme, unit) op" where
  "ilock ip =
     bnd (ifld ip iref) (\<lambda>r.
       if r < 1 then stop (Panic ''ilock'')
       else bnd (lock_inode ip) (\<lambda>_.
            bnd (gets (\<lambda>s. (inode_at ip s, sb s))) (\<lambda>(x, sp).
              if \<not> valid x
              then bnd (bread (idev x) (IBLOCK (inum x) sp)) (\<lambda>bp.
                   bnd (data_of bp) (\<lambda>d.
                   bnd (upd_inode ip (get_dinode d)) (\<lambda>_.
                   bnd (brelse bp) (\<lambda>_.
                   bnd (upd_inode ip (\<lambda>x. x\<lparr>valid := True\<rparr>)) (\<lambda>_.
                   bnd (ifld ip itype) (\<lambda>ty.
                     if ty = 0 then stop (Panic ''ilock: no type'') else ret ()))))))
              else ret ())))"

definition iunlock :: "nat \<Rightarrow> ('a fs_scheme, unit) op" where
  "iunlock ip =
     bnd (gets (inode_at ip)) (\<lambda>x.
       if holdingsleep (ilk x) = 0 \<or> iref x < 1 then stop (Panic ''iunlock'')
       else upd_inode ip (\<lambda>x. x\<lparr>ilk := releasesleep (ilk x)\<rparr>))"

section \<open>Inode content\<close>

definition bmap :: "nat \<Rightarrow> nat \<Rightarrow> ('a fs_scheme, u32) op" where
  "bmap ip bn =
     bnd (gets (inode_at ip)) (\<lambda>x.
       if bn < NDIRECT
       then (if addrs x ! bn = 0
             then bnd (balloc (idev x)) (\<lambda>addr.
                  bnd (upd_inode ip (\<lambda>x. x\<lparr>addrs := (addrs x)[bn := addr]\<rparr>)) (\<lambda>_. ret addr))
             else ret (addrs x ! bn))
       else if bn - NDIRECT < NINDIRECT
       then bnd (if addrs x ! NDIRECT = 0
                 then bnd (balloc (idev x)) (\<lambda>addr.
                      bnd (upd_inode ip (\<lambda>x. x\<lparr>addrs := (addrs x)[NDIRECT := addr]\<rparr>)) (\<lambda>_. ret addr))
                 else ret (addrs x ! NDIRECT)) (\<lambda>addr.
            bnd (bread (idev x) addr) (\<lambda>bp.
            bnd (data_of bp) (\<lambda>d.
              if get32 d (4 * (bn - NDIRECT)) = 0
              then bnd (balloc (idev x)) (\<lambda>addr.
                   bnd (set_data bp (put32 (4 * (bn - NDIRECT)) addr)) (\<lambda>_.
                   bnd (log_write bp) (\<lambda>_.
                   bnd (brelse bp) (\<lambda>_. ret addr))))
              else bnd (brelse bp) (\<lambda>_. ret (get32 d (4 * (bn - NDIRECT)))))))
       else stop (Panic ''bmap: out of range''))"

text \<open>\<^verbatim>\<open>itrunc\<close>: its loops over the direct entries and over the entries of the indirect block.\<close>

primrec trunc_direct :: "nat list \<Rightarrow> nat \<Rightarrow> ('a fs_scheme, unit) op" where
  "trunc_direct [] ip = ret ()"
| "trunc_direct (i # is) ip =
     bnd (gets (inode_at ip)) (\<lambda>x.
     bnd (if addrs x ! i \<noteq> 0
          then bnd (bfree (idev x) (addrs x ! i)) (\<lambda>_. upd_inode ip (\<lambda>x. x\<lparr>addrs := (addrs x)[i := 0]\<rparr>))
          else ret ()) (\<lambda>_. trunc_direct is ip))"

primrec free_entries :: "nat list \<Rightarrow> u32 \<Rightarrow> nat \<Rightarrow> ('a fs_scheme, unit) op" where
  "free_entries [] dev bp = ret ()"
| "free_entries (j # js) dev bp =
     bnd (data_of bp) (\<lambda>d.
     bnd (if get32 d (4 * j) \<noteq> 0 then bfree dev (get32 d (4 * j)) else ret ()) (\<lambda>_. free_entries js dev bp))"

definition itrunc :: "nat \<Rightarrow> ('a fs_scheme, unit) op" where
  "itrunc ip =
     bnd (trunc_direct [0..<NDIRECT] ip) (\<lambda>_.
     bnd (gets (inode_at ip)) (\<lambda>x.
     bnd (if addrs x ! NDIRECT \<noteq> 0
          then bnd (bread (idev x) (addrs x ! NDIRECT)) (\<lambda>bp.
               bnd (free_entries [0..<NINDIRECT] (idev x) bp) (\<lambda>_.
               bnd (brelse bp) (\<lambda>_.
               bnd (bfree (idev x) (addrs x ! NDIRECT)) (\<lambda>_.
                 upd_inode ip (\<lambda>x. x\<lparr>addrs := (addrs x)[NDIRECT := 0]\<rparr>)))))
          else ret ()) (\<lambda>_.
     bnd (upd_inode ip (\<lambda>x. x\<lparr>isize := 0\<rparr>)) (\<lambda>_. iupdate ip))))"

definition iput :: "nat \<Rightarrow> ('a fs_scheme, unit) op" where
  "iput ip =
     bnd (lock_inode ip) (\<lambda>_.
     bnd (gets (inode_at ip)) (\<lambda>x.
     bnd (if valid x \<and> nlink x = 0 \<and> iref x = 1
          then bnd (itrunc ip) (\<lambda>_.
               bnd (upd_inode ip (\<lambda>x. x\<lparr>itype := 0\<rparr>)) (\<lambda>_.
               bnd (iupdate ip) (\<lambda>_. upd_inode ip (\<lambda>x. x\<lparr>valid := False\<rparr>))))
          else ret ()) (\<lambda>_.
     bnd (upd_inode ip (\<lambda>x. x\<lparr>ilk := releasesleep (ilk x)\<rparr>)) (\<lambda>_.
       upd_inode ip (\<lambda>x. x\<lparr>iref := iref x - 1\<rparr>)))))"

definition iunlockput :: "nat \<Rightarrow> ('a fs_scheme, unit) op" where
  "iunlockput ip = bnd (iunlock ip) (\<lambda>_. iput ip)"

record stat =
  st_type :: u16
  st_dev :: u32
  st_ino :: u32
  st_nlink :: u16
  st_size :: u32

definition stati :: "nat \<Rightarrow> ('a fs_scheme, stat) op" where
  "stati ip =
     bnd (gets (inode_at ip)) (\<lambda>x.
       ret \<lparr>st_type = itype x, st_dev = idev x, st_ino = inum x, st_nlink = nlink x, st_size = isize x\<rparr>)"

text \<open>
  The loops of \<^verbatim>\<open>readi\<close> and \<^verbatim>\<open>writei\<close>, on the number of bytes left; the bounds checked before them keep
  the offset below \<open>2 ^ 32\<close>.
\<close>

function readi_loop :: "nat \<Rightarrow> nat \<Rightarrow> nat \<Rightarrow> ('a fs_scheme, u8 list) op" where
  "readi_loop ip off n =
     (if n = 0 then ret []
      else let m = min n (BSIZE - off mod BSIZE)
           in bnd (bmap ip (off div BSIZE)) (\<lambda>addr.
              bnd (ifld ip idev) (\<lambda>dev.
              bnd (bread dev addr) (\<lambda>bp.
              bnd (data_of bp) (\<lambda>d.
              bnd (brelse bp) (\<lambda>_.
              bnd (readi_loop ip (off + m) (n - m)) (\<lambda>rest.
                ret (take m (drop (off mod BSIZE) d) @ rest))))))))"
  by pat_completeness auto

termination
  by (relation "measure (\<lambda>(_, _, n). n)") (auto simp: BSIZE_def)

definition readi :: "nat \<Rightarrow> u32 \<Rightarrow> u32 \<Rightarrow> ('a fs_scheme, int \<times> u8 list) op" where
  "readi ip off n =
     bnd (gets (\<lambda>s. (inode_at ip s, devsw s))) (\<lambda>(x, dsw).
       if itype x = T_DEV
       then (if sint (major x) < 0 \<or> sint (major x) \<ge> NDEV then ret (-1, [])
             else case dread (dsw (unat (major x))) of
                    None \<Rightarrow> ret (-1, [])
                  | Some rd \<Rightarrow> (\<lambda>s. bindE (rd n) (\<lambda>r. Inr (r, s))))
       else if off > isize x \<or> off + n < off then ret (-1, [])
       else let n = (if off + n > isize x then isize x - off else n)
            in bnd (readi_loop ip (unat off) (unat n)) (\<lambda>bs. ret (sint n, bs)))"

function writei_loop :: "nat \<Rightarrow> nat \<Rightarrow> u8 list \<Rightarrow> ('a fs_scheme, nat) op" where
  "writei_loop ip off src =
     (if src = [] then ret off
      else let m = min (length src) (BSIZE - off mod BSIZE)
           in bnd (bmap ip (off div BSIZE)) (\<lambda>addr.
              bnd (ifld ip idev) (\<lambda>dev.
              bnd (bread dev addr) (\<lambda>bp.
              bnd (set_data bp (put_bytes (off mod BSIZE) (take m src))) (\<lambda>_.
              bnd (log_write bp) (\<lambda>_.
              bnd (brelse bp) (\<lambda>_. writei_loop ip (off + m) (drop m src))))))))"
  by pat_completeness auto

termination
  by (relation "measure (\<lambda>(_, _, src). length src)") (auto simp: BSIZE_def)

text \<open>\<open>src\<close> is the list of the \<open>n\<close> bytes to write.\<close>

definition writei :: "nat \<Rightarrow> u8 list \<Rightarrow> u32 \<Rightarrow> ('a fs_scheme, int) op" where
  "writei ip src off =
     bnd (gets (\<lambda>s. (inode_at ip s, devsw s))) (\<lambda>(x, dsw).
       let n = of_nat (length src)
       in if itype x = T_DEV
          then (if sint (major x) < 0 \<or> sint (major x) \<ge> NDEV then ret (-1)
                else case dwrite (dsw (unat (major x))) of
                       None \<Rightarrow> ret (-1)
                     | Some wr \<Rightarrow> (\<lambda>s. bindE (wr src) (\<lambda>r. Inr (r, s))))
          else if off > isize x \<or> off + n < off then ret (-1)
          else if off + n > of_nat (MAXFILE * BSIZE) then ret (-1)
          else bnd (writei_loop ip (unat off) src) (\<lambda>off'.
               bnd (ifld ip isize) (\<lambda>sz.
               bnd (if n > 0 \<and> of_nat off' > sz
                    then bnd (upd_inode ip (\<lambda>x. x\<lparr>isize := of_nat off'\<rparr>)) (\<lambda>_. iupdate ip)
                    else ret ()) (\<lambda>_. ret (sint n)))))"

section \<open>Directories\<close>

text \<open>\<^verbatim>\<open>strncmp\<close> and \<^verbatim>\<open>strncpy\<close> on byte lists; the end of a list reads as 0.\<close>

fun strncmp_bytes :: "nat \<Rightarrow> u8 list \<Rightarrow> u8 list \<Rightarrow> int" where
  "strncmp_bytes 0 p q = 0"
| "strncmp_bytes (Suc n) p q =
     (let a = (case p of [] \<Rightarrow> 0 | x # _ \<Rightarrow> x); b = (case q of [] \<Rightarrow> 0 | x # _ \<Rightarrow> x)
      in if a \<noteq> 0 \<and> a = b then strncmp_bytes n (tl p) (tl q) else uint a - uint b)"

definition strncpy_bytes :: "nat \<Rightarrow> u8 list \<Rightarrow> u8 list" where
  "strncpy_bytes n t = (let c = takeWhile (\<lambda>x. x \<noteq> 0) (take n t) in c @ replicate (n - length c) 0)"

definition namecmp :: "u8 list \<Rightarrow> u8 list \<Rightarrow> int" where
  "namecmp s t = strncmp_bytes DIRSIZ s t"

definition de_inum :: "u8 list \<Rightarrow> u16" where "de_inum de = get16 de 0"
definition de_name :: "u8 list \<Rightarrow> u8 list" where "de_name de = take DIRSIZ (drop 2 de)"
definition mk_dirent :: "u16 \<Rightarrow> u8 list \<Rightarrow> u8 list" where
  "mk_dirent ino nm = [ucast ino, ucast (drop_bit 8 ino)] @ nm"

text \<open>
  The loop of \<^verbatim>\<open>dirlookup\<close>, on the offset: the entry's inode, with the offset that is stored through
  \<^verbatim>\<open>poff\<close>.
\<close>

function dirlookup_loop :: "nat \<Rightarrow> u8 list \<Rightarrow> nat \<Rightarrow> nat \<Rightarrow> ('a fs_scheme, (nat \<times> u32) option) op" where
  "dirlookup_loop dp nm off sz =
     (if off < sz
      then bnd (readi dp (of_nat off) 16) (\<lambda>(r, de).
             if r \<noteq> 16 then stop (Panic ''dirlookup read'')
             else if de_inum de \<noteq> 0 \<and> namecmp nm (de_name de) = 0
             then bnd (ifld dp idev) (\<lambda>dev.
                  bnd (iget dev (ucast (de_inum de))) (\<lambda>ip. ret (Some (ip, of_nat off))))
             else dirlookup_loop dp nm (off + 16) sz)
      else ret None)"
  by pat_completeness auto

termination
  by (relation "measure (\<lambda>(_, _, off, sz). sz - off)") auto

definition dirlookup :: "nat \<Rightarrow> u8 list \<Rightarrow> ('a fs_scheme, (nat \<times> u32) option) op" where
  "dirlookup dp nm =
     bnd (gets (inode_at dp)) (\<lambda>x.
       if itype x \<noteq> T_DIR then stop (Panic ''dirlookup not DIR'')
       else dirlookup_loop dp nm 0 (unat (isize x)))"

function free_dirent :: "nat \<Rightarrow> nat \<Rightarrow> nat \<Rightarrow> ('a fs_scheme, nat) op" where
  "free_dirent dp off sz =
     (if off < sz
      then bnd (readi dp (of_nat off) 16) (\<lambda>(r, de).
             if r \<noteq> 16 then stop (Panic ''dirlink read'')
             else if de_inum de = 0 then ret off
             else free_dirent dp (off + 16) sz)
      else ret off)"
  by pat_completeness auto

termination
  by (relation "measure (\<lambda>(_, off, sz). sz - off)") auto

definition dirlink :: "nat \<Rightarrow> u8 list \<Rightarrow> u32 \<Rightarrow> ('a fs_scheme, int) op" where
  "dirlink dp nm ino =
     bnd (dirlookup dp nm) (\<lambda>hit.
       case hit of
         Some (ip, _) \<Rightarrow> bnd (iput ip) (\<lambda>_. ret (-1))
       | None \<Rightarrow>
           bnd (ifld dp isize) (\<lambda>sz.
           bnd (free_dirent dp 0 (unat sz)) (\<lambda>off.
           bnd (writei dp (mk_dirent (ucast ino) (strncpy_bytes DIRSIZ nm)) (of_nat off)) (\<lambda>r.
             if r \<noteq> 16 then stop (Panic ''dirlink'') else ret 0))))"

section \<open>Paths\<close>

definition slash :: u8 where "slash = 47"

text \<open>
  \<^verbatim>\<open>skipelem\<close>: the rest of the path and the new contents of the buffer \<open>nm\<close> of \<^verbatim>\<open>DIRSIZ\<close> bytes. Bytes of
  the buffer past the terminating 0 keep their old values.
\<close>

definition skipelem :: "u8 list \<Rightarrow> u8 list \<Rightarrow> (u8 list \<times> u8 list) option" where
  "skipelem path nm =
     (let path = dropWhile (\<lambda>c. c = slash) path
      in if path = [] then None
         else let s = takeWhile (\<lambda>c. c \<noteq> slash) path; len = length s;
                  path = dropWhile (\<lambda>c. c \<noteq> slash) path;
                  nm = (if len \<ge> DIRSIZ then take DIRSIZ s else put_bytes 0 (s @ [0]) nm)
              in Some (dropWhile (\<lambda>c. c = slash) path, nm))"

lemma skipelem_shorter: "skipelem path nm = Some (path', nm') \<Longrightarrow> length path' < length path"
proof -
  assume a: "skipelem path nm = Some (path', nm')"
  define p where "p = dropWhile (\<lambda>c. c = slash) path"
  have "p \<noteq> []" using a by (auto simp: skipelem_def p_def Let_def split: if_splits)
  moreover from this have "hd p \<noteq> slash" using hd_dropWhile unfolding p_def by blast
  ultimately have "length (dropWhile (\<lambda>c. c \<noteq> slash) p) < length p"
    by (cases p) (auto intro: le_less_trans [OF length_dropWhile_le])
  moreover have "path' = dropWhile (\<lambda>c. c = slash) (dropWhile (\<lambda>c. c \<noteq> slash) p)"
    using a by (auto simp: skipelem_def p_def Let_def split: if_splits)
  moreover have "length p \<le> length path" unfolding p_def by (rule length_dropWhile_le)
  ultimately show ?thesis by (meson length_dropWhile_le le_less_trans less_le_trans)
qed

text \<open>
  The loop of \<^verbatim>\<open>namex\<close>: the inode (\<open>None\<close> for the null pointer) and the name buffer.
\<close>

function namex_loop :: "u8 list \<Rightarrow> bool \<Rightarrow> u8 list \<Rightarrow> nat \<Rightarrow> ('a fs_scheme, nat option \<times> u8 list) op" where
  "namex_loop path parent nm ip =
     (case skipelem path nm of
        None \<Rightarrow> (if parent then bnd (iput ip) (\<lambda>_. ret (None, nm)) else ret (Some ip, nm))
      | Some (path', nm') \<Rightarrow>
          bnd (ilock ip) (\<lambda>_.
          bnd (ifld ip itype) (\<lambda>ty.
            if ty \<noteq> T_DIR then bnd (iunlockput ip) (\<lambda>_. ret (None, nm'))
            else if parent \<and> path' = [] then bnd (iunlock ip) (\<lambda>_. ret (Some ip, nm'))
            else bnd (dirlookup ip nm') (\<lambda>hit.
              case hit of
                None \<Rightarrow> bnd (iunlockput ip) (\<lambda>_. ret (None, nm'))
              | Some (next, _) \<Rightarrow> bnd (iunlockput ip) (\<lambda>_. namex_loop path' parent nm' next)))))"
  by pat_completeness auto

termination
  by (relation "measure (\<lambda>(path, _). length path)") (auto dest: skipelem_shorter)

text \<open>\<open>cwd\<close> is the current directory of the calling process.\<close>

definition namex :: "nat \<Rightarrow> u8 list \<Rightarrow> bool \<Rightarrow> u8 list \<Rightarrow> ('a fs_scheme, nat option \<times> u8 list) op" where
  "namex cwd path parent nm =
     bnd (if path \<noteq> [] \<and> path ! 0 = slash then iget ROOTDEV ROOTINO else idup cwd) (\<lambda>ip.
       namex_loop path parent nm ip)"

text \<open>The name buffer is an uninitialised local array; the bytes it starts with are never read.\<close>

definition namei :: "nat \<Rightarrow> u8 list \<Rightarrow> ('a fs_scheme, nat option) op" where
  "namei cwd path = bnd (namex cwd path False (replicate DIRSIZ 0)) (\<lambda>(ip, _). ret ip)"

definition nameiparent :: "nat \<Rightarrow> u8 list \<Rightarrow> u8 list \<Rightarrow> ('a fs_scheme, nat option \<times> u8 list) op" where
  "nameiparent cwd path nm = namex cwd path True nm"

declare balloc_loop.simps [simp del] readi_loop.simps [simp del] writei_loop.simps [simp del]
  dirlookup_loop.simps [simp del] free_dirent.simps [simp del] namex_loop.simps [simp del]

end
