(* ===== verification/Pipe.thy ===== *)
theory Pipe
  imports Xv6_Prelude
begin

text \<open>
  Pipes (\<^verbatim>\<open>xv6/pipe.c\<close>): the 512-byte ring buffer with its two 32-bit counters, \<^verbatim>\<open>pipewrite\<close>,
  \<^verbatim>\<open>piperead\<close> and \<^verbatim>\<open>pipeclose\<close>, and the interleaved execution of a reader and a writer that
  block on each other.

  The code between two calls of \<^verbatim>\<open>sleep\<close> runs under \<^verbatim>\<open>p->lock\<close> and is one step. A call that
  sleeps yields the point at which it will continue, so that any interleaving with other
  calls can be expressed. Calls of \<^verbatim>\<open>wakeup\<close> are reported as the list of channels woken.
\<close>

section \<open>State\<close>

definition PIPESIZE :: nat where "PIPESIZE = 512"

record pipe =
  pdata :: "u8 list"
  nread :: u32
  nwrite :: u32
  readopen :: bool
  writeopen :: bool

text \<open>The two sleep channels, the addresses of \<^verbatim>\<open>p->nread\<close> and \<^verbatim>\<open>p->nwrite\<close>.\<close>

datatype pchan = CNread | CNwrite

text \<open>\<^verbatim>\<open>p->data[i % PIPESIZE]\<close>\<close>

definition slot :: "u32 \<Rightarrow> nat" where
  "slot i = unat i mod PIPESIZE"

text \<open>
  Outcome of a run up to the next sleep or return: the value returned, or the loop index at
  which the caller sleeps; the channels woken; the pipe.
\<close>

datatype 'a pout = PRet 'a "pchan list" pipe | PSleep nat "pchan list" pipe

section \<open>Operations\<close>

text \<open>The fields \<^verbatim>\<open>pipealloc\<close> sets.\<close>

definition pipe_init :: "u8 list \<Rightarrow> pipe" where
  "pipe_init junk = \<lparr>pdata = junk, nread = 0, nwrite = 0, readopen = True, writeopen = True\<rparr>"

text \<open>
  \<^verbatim>\<open>pipewrite\<close> of the bytes \<open>src\<close> (\<^verbatim>\<open>addr[0..n-1]\<close>) from loop index \<open>i\<close> on; \<open>killed\<close> is
  \<^verbatim>\<open>myproc()->killed\<close>.
\<close>

function pipewrite :: "bool \<Rightarrow> u8 list \<Rightarrow> nat \<Rightarrow> pipe \<Rightarrow> int pout" where
  "pipewrite killed src i p =
     (if i < length src then
        if nwrite p = nread p + of_nat PIPESIZE then
          if \<not> readopen p \<or> killed then PRet (-1) [] p
          else PSleep i [CNread] p
        else pipewrite killed src (Suc i)
               (p\<lparr>pdata := (pdata p)[slot (nwrite p) := src ! i], nwrite := nwrite p + 1\<rparr>)
      else PRet (int (length src)) [CNread] p)"
  by pat_completeness auto
termination
  by (relation "measure (\<lambda>(killed, src, i, p). length src - i)") auto

declare pipewrite.simps [simp del]

text \<open>The copy loop of \<^verbatim>\<open>piperead\<close>: the bytes copied to \<^verbatim>\<open>addr\<close>, and the pipe.\<close>

primrec piperead_copy :: "nat \<Rightarrow> pipe \<Rightarrow> u8 list \<times> pipe" where
  "piperead_copy 0 p = ([], p)"
| "piperead_copy (Suc n) p =
     (if nread p = nwrite p then ([], p)
      else (let c = pdata p ! slot (nread p);
                (cs, p') = piperead_copy n (p\<lparr>nread := nread p + 1\<rparr>)
            in (c # cs, p')))"

text \<open>
  \<^verbatim>\<open>piperead\<close> of at most \<open>n\<close> bytes: \<open>None\<close> is the return value -1, \<open>Some cs\<close> the bytes
  copied (whose number is returned).
\<close>

definition piperead :: "bool \<Rightarrow> nat \<Rightarrow> pipe \<Rightarrow> u8 list option pout" where
  "piperead killed n p =
     (if nread p = nwrite p \<and> writeopen p then
        if killed then PRet None [] p else PSleep 0 [] p
      else (let (cs, p') = piperead_copy n p in PRet (Some cs) [CNwrite] p'))"

text \<open>\<^verbatim>\<open>pipeclose\<close>; the first component tells whether the page of the pipe is freed.\<close>

definition pipeclose :: "bool \<Rightarrow> pipe \<Rightarrow> bool \<times> pchan list \<times> pipe" where
  "pipeclose writable p =
     (let (w, p) = (if writable then ([CNread], p\<lparr>writeopen := False\<rparr>)
                    else ([CNwrite], p\<lparr>readopen := False\<rparr>))
      in (\<not> readopen p \<and> \<not> writeopen p, w, p))"

section \<open>The queue abstraction\<close>

definition pcount :: "pipe \<Rightarrow> nat" where
  "pcount p = unat (nwrite p - nread p)"

definition contents :: "pipe \<Rightarrow> u8 list" where
  "contents p = map (\<lambda>k. pdata p ! slot (nread p + of_nat k)) [0..<pcount p]"

definition pipe_inv :: "pipe \<Rightarrow> bool" where
  "pipe_inv p \<longleftrightarrow> length (pdata p) = PIPESIZE \<and> pcount p \<le> PIPESIZE"

section \<open>Lemmas\<close>

lemma slot_less [simp]: "slot i < PIPESIZE"
  by (simp add: slot_def PIPESIZE_def)

text \<open>\<open>2 ^ 32\<close> is a multiple of 512, so wrap-around of the counters does not disturb the slots.\<close>

lemma slot_add: "slot (i + of_nat k) = (slot i + k) mod PIPESIZE"
proof -
  have "(unat i + k) mod 2 ^ 32 mod 512 = (unat i + k) mod 512"
    by (rule mod_mod_cancel) simp
  then show ?thesis
    by (simp add: slot_def PIPESIZE_def unat_word_ariths unat_of_nat take_bit_eq_mod mod_simps)
qed

lemma slot_eq_iff: "j < PIPESIZE \<Longrightarrow> k < PIPESIZE \<Longrightarrow>
    slot (i + of_nat j) = slot (i + of_nat k) \<longleftrightarrow> j = k"
proof
  assume jk: "j < PIPESIZE" "k < PIPESIZE" and "slot (i + of_nat j) = slot (i + of_nat k)"
  then have "(slot i + j) mod PIPESIZE = (slot i + k) mod PIPESIZE" by (simp add: slot_add)
  then have "j mod PIPESIZE = k mod PIPESIZE" by (simp add: mod_add_left_eq nat_mod_eq_iff)
  with jk show "j = k" by simp
qed simp

lemma full_iff: "nwrite p = nread p + of_nat PIPESIZE \<longleftrightarrow> pcount p = PIPESIZE"
proof -
  have "pcount p = PIPESIZE \<longleftrightarrow> nwrite p - nread p = 512"
    by (simp add: pcount_def PIPESIZE_def word_unat_eq_iff)
  then show ?thesis by (auto simp: PIPESIZE_def algebra_simps)
qed

lemma empty_iff: "nread p = nwrite p \<longleftrightarrow> pcount p = 0"
  by (auto simp: pcount_def unat_eq_zero)

lemma length_contents [simp]: "length (contents p) = pcount p"
  by (simp add: contents_def)

lemma nwrite_eq: "nwrite p = nread p + of_nat (pcount p)"
  by (simp add: pcount_def)

lemma pcount_write:
  assumes "pcount p < PIPESIZE"
  shows "pcount (p\<lparr>pdata := d, nwrite := nwrite p + 1\<rparr>) = Suc (pcount p)"
proof -
  have "unat (nwrite p - nread p) + 1 < 2 ^ 32" using assms by (simp add: pcount_def PIPESIZE_def)
  then have "unat (nwrite p - nread p + 1) = Suc (unat (nwrite p - nread p))"
    by (simp add: unat_word_ariths)
  then show ?thesis by (simp add: pcount_def algebra_simps)
qed

lemma contents_write:
  assumes "pipe_inv p" "pcount p < PIPESIZE"
  shows "contents (p\<lparr>pdata := (pdata p)[slot (nwrite p) := c], nwrite := nwrite p + 1\<rparr>) = contents p @ [c]"
proof (rule nth_equalityI)
  let ?q = "p\<lparr>pdata := (pdata p)[slot (nwrite p) := c], nwrite := nwrite p + 1\<rparr>"
  show "length (contents ?q) = length (contents p @ [c])" using assms by (simp add: pcount_write)
  fix k assume "k < length (contents ?q)"
  then have k: "k \<le> pcount p" using assms by (simp add: pcount_write)
  have len: "length (pdata p) = PIPESIZE" using assms by (simp add: pipe_inv_def)
  have nw: "slot (nwrite p) = slot (nread p + of_nat (pcount p))" by (simp add: nwrite_eq [symmetric])
  have "slot (nread p + of_nat k) = slot (nwrite p) \<longleftrightarrow> k = pcount p"
    unfolding nw by (rule slot_eq_iff) (use k assms in auto)
  then show "contents ?q ! k = (contents p @ [c]) ! k"
    using k len assms by (auto simp: contents_def pcount_write nth_append)
qed

lemma pipe_inv_write:
  "pipe_inv p \<Longrightarrow> pcount p < PIPESIZE \<Longrightarrow>
   pipe_inv (p\<lparr>pdata := (pdata p)[i := c], nwrite := nwrite p + 1\<rparr>)"
  by (simp add: pipe_inv_def pcount_write)

lemma pcount_read:
  assumes "pcount p = Suc n"
  shows "pcount (p\<lparr>nread := nread p + 1\<rparr>) = n"
proof -
  have "unat ((nwrite p - nread p) - 1) = n"
    using assms by (subst unat_minus_one) (auto simp: pcount_def)
  then show ?thesis by (simp add: pcount_def diff_diff_eq)
qed

lemma contents_read:
  assumes "pcount p = Suc n"
  shows "contents p = pdata p ! slot (nread p) # contents (p\<lparr>nread := nread p + 1\<rparr>)"
  using assms
  by (simp add: contents_def pcount_read upt_conv_Cons map_Suc_upt [symmetric] o_def add.assoc del: upt_Suc)

text \<open>Reading takes a prefix of the contents.\<close>

lemma piperead_copy_eq:
  "piperead_copy n p = (cs, p') \<Longrightarrow>
   cs = take n (contents p) \<and> contents p' = drop n (contents p)
   \<and> (pipe_inv p \<longrightarrow> pipe_inv p') \<and> readopen p' = readopen p \<and> writeopen p' = writeopen p"
proof (induction n arbitrary: p cs p')
  case (Suc n)
  show ?case
  proof (cases "pcount p")
    case 0
    then have "contents p = []" by (simp add: contents_def)
    with 0 Suc.prems show ?thesis by (simp add: empty_iff)
  next
    case (Suc k)
    let ?q = "p\<lparr>nread := nread p + 1\<rparr>"
    obtain cs' q' where r: "piperead_copy n ?q = (cs', q')" by fastforce
    with Suc Suc.prems have "cs = pdata p ! slot (nread p) # cs'" "p' = q'"
      by (auto simp: empty_iff)
    moreover have "pipe_inv p \<longrightarrow> pipe_inv ?q"
      using Suc pcount_read [OF Suc] by (auto simp: pipe_inv_def)
    ultimately show ?thesis
      using Suc.IH [OF r] by (simp add: contents_read [OF Suc])
  qed
qed simp

text \<open>
  One run of \<^verbatim>\<open>pipewrite\<close> from loop index \<open>i\<close> appends the bytes it gets through before it
  sleeps or returns: \<open>j\<close> is the index it stops at.
\<close>

definition appended :: "u8 list \<Rightarrow> nat \<Rightarrow> nat \<Rightarrow> pipe \<Rightarrow> pipe \<Rightarrow> bool" where
  "appended src i j p p' \<longleftrightarrow> pipe_inv p' \<and> readopen p' = readopen p \<and> writeopen p' = writeopen p
     \<and> i \<le> j \<and> j \<le> length src \<and> contents p' = contents p @ take (j - i) (drop i src)"

fun write_post :: "bool \<Rightarrow> u8 list \<Rightarrow> nat \<Rightarrow> pipe \<Rightarrow> int pout \<Rightarrow> bool" where
  "write_post killed src i p (PRet r ws p') \<longleftrightarrow>
     (r = int (length src) \<and> ws = [CNread] \<and> appended src i (length src) p p')
     \<or> (r = -1 \<and> ws = [] \<and> pcount p' = PIPESIZE \<and> (\<not> readopen p \<or> killed)
        \<and> (\<exists>j<length src. appended src i j p p'))"
| "write_post killed src i p (PSleep j ws p') \<longleftrightarrow>
     ws = [CNread] \<and> j < length src \<and> appended src i j p p' \<and> pcount p' = PIPESIZE
     \<and> readopen p \<and> \<not> killed"

lemma appended_step:
  assumes "pipe_inv p" "pcount p < PIPESIZE" "i < length src"
    and "appended src (Suc i) j
      (p\<lparr>pdata := (pdata p)[slot (nwrite p) := src ! i], nwrite := nwrite p + 1\<rparr>) p'"
  shows "appended src i j p p'"
proof -
  have "take (j - i) (drop i src) = src ! i # take (j - Suc i) (drop (Suc i) src)"
    using assms(3,4) by (simp add: appended_def Cons_nth_drop_Suc [symmetric] take_Cons')
  then show ?thesis
    using assms(4) contents_write [OF assms(1,2)] by (simp add: appended_def)
qed

lemma pipewrite_post:
  "pipe_inv p \<Longrightarrow> i \<le> length src \<Longrightarrow> write_post killed src i p (pipewrite killed src i p)"
proof (induction killed src i p rule: pipewrite.induct)
  case (1 killed src i p)
  show ?case
  proof (cases "i < length src \<and> pcount p \<noteq> PIPESIZE")
    case True
    let ?q = "p\<lparr>pdata := (pdata p)[slot (nwrite p) := src ! i], nwrite := nwrite p + 1\<rparr>"
    have room: "pcount p < PIPESIZE" using True "1.prems" by (simp add: pipe_inv_def)
    have eq: "pipewrite killed src i p = pipewrite killed src (Suc i) ?q"
      using True by (simp add: pipewrite.simps [of killed src i p] full_iff)
    have "pipe_inv ?q" using "1.prems"(1) room by (rule pipe_inv_write)
    then have "write_post killed src (Suc i) ?q (pipewrite killed src (Suc i) ?q)"
      using "1.IH" True full_iff by auto
    then show ?thesis
      unfolding eq using appended_step [OF "1.prems"(1) room] True
      by (cases "pipewrite killed src (Suc i) ?q") auto
  next
    case False
    then show ?thesis
      using "1.prems" by (auto simp: pipewrite.simps [of killed src i p] full_iff appended_def)
  qed
qed

section \<open>A reader and a writer\<close>

text \<open>
  A process is outside the pipe code, asleep in it, or runnable again after a wakeup. \<open>sent\<close>
  and \<open>rcvd\<close> are histories: the bytes the write calls have stored and the bytes the read
  calls have delivered.
\<close>

datatype wstate = WIdle | WSleep "u8 list" nat | WReady "u8 list" nat
datatype rstate = RIdle | RSleep nat | RReady nat

record psys =
  pip :: pipe
  wproc :: wstate
  rproc :: rstate
  sent :: "u8 list"
  rcvd :: "u8 list"

fun wake_w :: "pchan list \<Rightarrow> wstate \<Rightarrow> wstate" where
  "wake_w ws (WSleep src i) = (if CNwrite \<in> set ws then WReady src i else WSleep src i)"
| "wake_w ws w = w"

fun wake_r :: "pchan list \<Rightarrow> rstate \<Rightarrow> rstate" where
  "wake_r ws (RSleep n) = (if CNread \<in> set ws then RReady n else RSleep n)"
| "wake_r ws r = r"

definition write_run :: "bool \<Rightarrow> u8 list \<Rightarrow> nat \<Rightarrow> psys \<Rightarrow> psys" where
  "write_run killed src i s =
     (case pipewrite killed src i (pip s) of
        PRet r ws p \<Rightarrow>
          s\<lparr>pip := p, wproc := WIdle, rproc := wake_r ws (rproc s),
            sent := sent s @ take (unat (nwrite p - nwrite (pip s))) (drop i src)\<rparr>
      | PSleep j ws p \<Rightarrow>
          s\<lparr>pip := p, wproc := WSleep src j, rproc := wake_r ws (rproc s),
            sent := sent s @ take (unat (nwrite p - nwrite (pip s))) (drop i src)\<rparr>)"

definition read_run :: "bool \<Rightarrow> nat \<Rightarrow> psys \<Rightarrow> psys" where
  "read_run killed n s =
     (case piperead killed n (pip s) of
        PRet r ws p \<Rightarrow>
          s\<lparr>pip := p, rproc := RIdle, wproc := wake_w ws (wproc s),
            rcvd := rcvd s @ (case r of None \<Rightarrow> [] | Some cs \<Rightarrow> cs)\<rparr>
      | PSleep j ws p \<Rightarrow> s\<lparr>pip := p, rproc := RSleep n, wproc := wake_w ws (wproc s)\<rparr>)"

definition close_run :: "bool \<Rightarrow> psys \<Rightarrow> psys" where
  "close_run writable s =
     (let (freed, ws, p) = pipeclose writable (pip s)
      in s\<lparr>pip := p, wproc := wake_w ws (wproc s), rproc := wake_r ws (rproc s)\<rparr>)"

text \<open>
  The steps; with \<open>k\<close> false no process is ever killed, with \<open>k\<close> true \<^verbatim>\<open>kill\<close> may set the flag of
  either process, which also makes a sleeping one runnable.
\<close>

inductive pstep :: "bool \<Rightarrow> psys \<Rightarrow> psys \<Rightarrow> bool" for k where
  wcall: "wproc s = WIdle \<Longrightarrow> writeopen (pip s) \<Longrightarrow> killed \<le> k \<Longrightarrow> pstep k s (write_run killed src 0 s)"
| wresume: "wproc s = WReady src i \<Longrightarrow> killed \<le> k \<Longrightarrow> pstep k s (write_run killed src i s)"
| rcall: "rproc s = RIdle \<Longrightarrow> readopen (pip s) \<Longrightarrow> killed \<le> k \<Longrightarrow> pstep k s (read_run killed n s)"
| rresume: "rproc s = RReady n \<Longrightarrow> killed \<le> k \<Longrightarrow> pstep k s (read_run killed n s)"
| wclose: "wproc s = WIdle \<Longrightarrow> writeopen (pip s) \<Longrightarrow> pstep k s (close_run True s)"
| rclose: "rproc s = RIdle \<Longrightarrow> readopen (pip s) \<Longrightarrow> pstep k s (close_run False s)"
| wkill: "k \<Longrightarrow> wproc s = WSleep src i \<Longrightarrow> pstep k s (s\<lparr>wproc := WReady src i\<rparr>)"
| rkill: "k \<Longrightarrow> rproc s = RSleep n \<Longrightarrow> pstep k s (s\<lparr>rproc := RReady n\<rparr>)"

inductive preachable :: "bool \<Rightarrow> psys \<Rightarrow> bool" for k where
  init: "length junk = PIPESIZE \<Longrightarrow> preachable k
    \<lparr>pip = pipe_init junk, wproc = WIdle, rproc = RIdle, sent = [], rcvd = []\<rparr>"
| step: "preachable k s \<Longrightarrow> pstep k s s' \<Longrightarrow> preachable k s'"

definition fifo_inv :: "psys \<Rightarrow> bool" where
  "fifo_inv s \<longleftrightarrow> pipe_inv (pip s) \<and> sent s = rcvd s @ contents (pip s)
     \<and> (\<forall>src i. wproc s = WSleep src i \<or> wproc s = WReady src i \<longrightarrow> i \<le> length src)"

text \<open>Who sleeps, sleeps for a reason.\<close>

definition sleep_inv :: "psys \<Rightarrow> bool" where
  "sleep_inv s \<longleftrightarrow>
     (\<forall>src i. wproc s = WSleep src i \<longrightarrow> pcount (pip s) = PIPESIZE \<and> readopen (pip s))
     \<and> (\<forall>n. rproc s = RSleep n \<longrightarrow> pcount (pip s) = 0 \<and> writeopen (pip s))
     \<and> (wproc s \<noteq> WIdle \<longrightarrow> writeopen (pip s)) \<and> (rproc s \<noteq> RIdle \<longrightarrow> readopen (pip s))"

lemma wake_w_eq:
  "wake_w ws w = WSleep src i \<longleftrightarrow> w = WSleep src i \<and> CNwrite \<notin> set ws"
  "wake_w ws w = WIdle \<longleftrightarrow> w = WIdle"
  "wake_w ws w = WReady src i \<longleftrightarrow> w = WReady src i \<or> (w = WSleep src i \<and> CNwrite \<in> set ws)"
  by (cases w; auto)+

lemma wake_r_eq:
  "wake_r ws r = RSleep n \<longleftrightarrow> r = RSleep n \<and> CNread \<notin> set ws"
  "wake_r ws r = RIdle \<longleftrightarrow> r = RIdle"
  by (cases r; auto)+

lemma pipe_init_inv: "length junk = PIPESIZE \<Longrightarrow> pipe_inv (pipe_init junk)"
  "contents (pipe_init junk) = []" "pcount (pipe_init junk) = 0"
  by (simp_all add: pipe_init_def pipe_inv_def contents_def pcount_def)

lemma pipewrite_nread: "pipewrite killed src i p = PRet r ws p' \<or> pipewrite killed src i p = PSleep j ws p' \<Longrightarrow>
    nread p' = nread p"
proof (induction killed src i p rule: pipewrite.induct)
  case (1 killed src i p)
  then show ?case
    by (simp add: pipewrite.simps [of killed src i p] split: if_splits)
qed

lemma stored_count:
  assumes "appended src i j p p'" "pipe_inv p" "nread p' = nread p"
  shows "unat (nwrite p' - nwrite p) = j - i"
proof -
  have "length (contents p') = length (contents p @ take (j - i) (drop i src))"
    using assms(1) by (simp only: appended_def)
  then have "pcount p' = pcount p + (j - i)"
    using assms(1) by (auto simp: appended_def min_def)
  moreover have "nwrite p' - nwrite p = of_nat (pcount p') - of_nat (pcount p)"
    using assms(3) nwrite_eq [of p] nwrite_eq [of p'] by (simp add: algebra_simps)
  ultimately have "nwrite p' - nwrite p = of_nat (j - i)" by simp
  moreover have "j - i < 2 ^ 32"
    using assms(1) \<open>pcount p' = pcount p + (j - i)\<close> by (simp add: appended_def pipe_inv_def PIPESIZE_def)
  ultimately show ?thesis by (simp add: unat_of_nat take_bit_eq_mod)
qed

text \<open>What one run of a writer does to the system.\<close>

lemma write_run_cases:
  assumes "pipe_inv (pip s)" "i \<le> length src"
  obtains (return) p where "appended src i (length src) (pip s) p"
      "write_run killed src i s = s\<lparr>pip := p, wproc := WIdle, rproc := wake_r [CNread] (rproc s),
         sent := sent s @ drop i src\<rparr>"
    | (error) p j where "appended src i j (pip s) p" "j < length src" "pcount p = PIPESIZE"
      "\<not> readopen (pip s) \<or> killed"
      "write_run killed src i s = s\<lparr>pip := p, wproc := WIdle, rproc := rproc s,
         sent := sent s @ take (j - i) (drop i src)\<rparr>"
    | (asleep) p j where "appended src i j (pip s) p" "j < length src" "pcount p = PIPESIZE"
      "readopen (pip s)" "\<not> killed"
      "write_run killed src i s = s\<lparr>pip := p, wproc := WSleep src j, rproc := wake_r [CNread] (rproc s),
         sent := sent s @ take (j - i) (drop i src)\<rparr>"
proof (cases "pipewrite killed src i (pip s)")
  case (PRet r ws p)
  note post = pipewrite_post [OF assms, of killed, unfolded PRet]
  have nr: "nread p = nread (pip s)" using PRet pipewrite_nread by blast
  from post consider (ok) "ws = [CNread]" "appended src i (length src) (pip s) p"
    | (err) j where "ws = []" "pcount p = PIPESIZE" "\<not> readopen (pip s) \<or> killed" "j < length src"
        "appended src i j (pip s) p" by auto
  then show ?thesis
  proof cases
    case ok
    have "take (unat (nwrite p - nwrite (pip s))) (drop i src) = drop i src"
      using stored_count [OF ok(2) assms(1) nr] by simp
    then show ?thesis using return [OF ok(2)] ok(1) PRet by (simp add: write_run_def)
  next
    case (err j)
    have "unat (nwrite p - nwrite (pip s)) = j - i"
      using stored_count [OF err(5) assms(1) nr] by simp
    moreover have "wake_r [] (rproc s) = rproc s" by (cases "rproc s") auto
    ultimately show ?thesis
      using error [OF err(5,4,2,3)] err(1) PRet by (simp add: write_run_def)
  qed
next
  case (PSleep j ws p)
  note post = pipewrite_post [OF assms, of killed, unfolded PSleep]
  have nr: "nread p = nread (pip s)" using PSleep pipewrite_nread by blast
  have app: "appended src i j (pip s) p" using post by simp
  then show ?thesis
    using asleep [OF app] post PSleep stored_count [OF app assms(1) nr] by (simp add: write_run_def)
qed


lemma write_run_fifo:
  assumes "fifo_inv s" "i \<le> length src"
  shows "fifo_inv (write_run killed src i s)"
proof -
  have "pipe_inv (pip s)" using assms by (simp add: fifo_inv_def)
  from this assms(2) show ?thesis
    by (cases rule: write_run_cases [of s i src killed])
      (use assms in \<open>simp_all add: fifo_inv_def appended_def\<close>)
qed

lemma write_run_sleep:
  assumes "fifo_inv s" "sleep_inv s" "i \<le> length src" "writeopen (pip s)" "\<not> killed"
  shows "sleep_inv (write_run killed src i s)"
proof -
  have "pipe_inv (pip s)" using assms by (simp add: fifo_inv_def)
  from this assms(3) show ?thesis
  proof (cases rule: write_run_cases [of s i src killed])
    case (error p j)
    then have "rproc s = RIdle" using assms by (auto simp: sleep_inv_def)
    then show ?thesis using error by (simp add: sleep_inv_def)
  qed (use assms in \<open>simp_all add: sleep_inv_def appended_def wake_r_eq\<close>)
qed

lemma piperead_cases:
  obtains (return) cs p' where "piperead killed n p = PRet (Some cs) [CNwrite] p'"
      "cs @ contents p' = contents p" "pipe_inv p \<longrightarrow> pipe_inv p'"
      "readopen p' = readopen p" "writeopen p' = writeopen p"
    | (error) "piperead killed n p = PRet None [] p" "killed"
    | (asleep) "piperead killed n p = PSleep 0 [] p" "pcount p = 0" "writeopen p"
proof -
  obtain cs p' where c: "piperead_copy n p = (cs, p')" by fastforce
  show ?thesis
  proof (cases "nread p = nwrite p \<and> writeopen p")
    case True
    then show ?thesis
      using error asleep by (cases killed) (auto simp: piperead_def empty_iff)
  next
    case False
    then show ?thesis
      using return [of cs p'] piperead_copy_eq [OF c] c by (auto simp: piperead_def)
  qed
qed

lemma read_run_fifo: "fifo_inv s \<Longrightarrow> fifo_inv (read_run killed n s)"
  by (cases rule: piperead_cases [of killed n "pip s"])
    (auto simp: fifo_inv_def read_run_def wake_w_eq)

lemma read_run_sleep:
  "sleep_inv s \<Longrightarrow> readopen (pip s) \<Longrightarrow> \<not> killed \<Longrightarrow> sleep_inv (read_run killed n s)"
  by (cases rule: piperead_cases [of killed n "pip s"])
    (auto simp: sleep_inv_def read_run_def wake_w_eq)

lemma close_run_fifo: "fifo_inv s \<Longrightarrow> fifo_inv (close_run w s)"
  by (auto simp: fifo_inv_def close_run_def pipeclose_def pipe_inv_def contents_def pcount_def
      wake_w_eq Let_def)

lemma close_run_sleep:
  "sleep_inv s \<Longrightarrow> (if w then wproc s = WIdle else rproc s = RIdle) \<Longrightarrow> sleep_inv (close_run w s)"
  by (auto simp: sleep_inv_def close_run_def pipeclose_def pcount_def wake_w_eq wake_r_eq Let_def)

lemma pstep_fifo: "pstep k s s' \<Longrightarrow> fifo_inv s \<Longrightarrow> fifo_inv s'"
proof (induction rule: pstep.induct)
  case (wresume s src i killed)
  then show ?case by (intro write_run_fifo) (auto simp: fifo_inv_def)
next
  case (wkill s src i)
  then show ?case by (auto simp: fifo_inv_def)
next
  case (rkill s n)
  then show ?case by (simp add: fifo_inv_def)
qed (simp_all add: write_run_fifo read_run_fifo close_run_fifo)

lemma preachable_fifo: "preachable k s \<Longrightarrow> fifo_inv s"
proof (induction rule: preachable.induct)
  case (init junk)
  then show ?case by (simp add: fifo_inv_def pipe_init_inv)
qed (rule pstep_fifo)

lemma pstep_sleep: "pstep False s s' \<Longrightarrow> fifo_inv s \<Longrightarrow> sleep_inv s \<Longrightarrow> sleep_inv s'"
proof (induction rule: pstep.induct)
  case (wresume s src i killed)
  then show ?case by (intro write_run_sleep) (auto simp: fifo_inv_def sleep_inv_def)
next
  case (rresume s n killed)
  then show ?case by (intro read_run_sleep) (auto simp: sleep_inv_def)
qed (auto intro: write_run_sleep read_run_sleep close_run_sleep)

lemma preachable_sleep: "preachable False s \<Longrightarrow> sleep_inv s"
proof (induction rule: preachable.induct)
  case (init junk)
  then show ?case by (simp add: sleep_inv_def pipe_init_inv)
next
  case (step s s')
  then show ?case by (blast intro: pstep_sleep preachable_fifo)
qed


text \<open>
  Claim C10. Without kills, reader and writer are never both asleep: a writer asleep in \<^verbatim>\<open>pipewrite\<close>
  finds the buffer full and the read end open, a reader asleep in \<^verbatim>\<open>piperead\<close> finds it empty
  and the write end open, so the other side can always go on.
\<close>

theorem pipe_no_deadlock:
  assumes "preachable False s"
  shows "(\<forall>src i. wproc s = WSleep src i \<longrightarrow>
            pcount (pip s) = PIPESIZE \<and> readopen (pip s) \<and> (\<forall>n. rproc s \<noteq> RSleep n))
       \<and> (\<forall>n. rproc s = RSleep n \<longrightarrow> pcount (pip s) = 0 \<and> writeopen (pip s))"
  using preachable_sleep [OF assms] by (auto simp: sleep_inv_def PIPESIZE_def)

definition pboot :: psys where
  "pboot = \<lparr>pip = pipe_init (replicate 512 0), wproc = WIdle, rproc = RIdle, sent = [], rcvd = []\<rparr>"

lemma pboot_reachable: "preachable k pboot"
  unfolding pboot_def by (rule preachable.init) (simp add: PIPESIZE_def)



lemma pboot_read_sleeps: "preachable k (read_run False 4 pboot)" "rproc (read_run False 4 pboot) = RSleep 4"
proof -
  show "preachable k (read_run False 4 pboot)"
    by (rule preachable.step [OF pboot_reachable pstep.rcall]) (simp_all add: pboot_def pipe_init_def)
  show "rproc (read_run False 4 pboot) = RSleep 4"
    by (simp add: pboot_def read_run_def piperead_def pipe_init_def)
qed

theorem pipe_no_deadlock_witness:
  "rproc (read_run False 4 pboot) = RSleep 4 \<and> pcount (pip (read_run False 4 pboot)) = 0"
  using pipe_no_deadlock [OF pboot_read_sleeps(1)] pboot_read_sleeps(2) by simp

text \<open>
  A killed writer can leave a reader asleep on a full pipe: if \<^verbatim>\<open>myproc()->killed\<close> is set when
  the buffer fills up, \<^verbatim>\<open>pipewrite\<close> returns -1 without the \<^verbatim>\<open>wakeup(&p->nread)\<close> that every other way
  out of it performs, so the reader sleeps on although 512 bytes can be read.
\<close>

theorem killed_writer_loses_wakeup:
  assumes "preachable True s" "rproc s = RSleep n" "wproc s = WIdle" "writeopen (pip s)"
    "pcount (pip s) = 0" "length (src :: u8 list) > PIPESIZE"
  shows "pstep True s (write_run True src 0 s) \<and> rproc (write_run True src 0 s) = RSleep n
    \<and> pcount (pip (write_run True src 0 s)) = PIPESIZE"
proof -
  have inv: "pipe_inv (pip s)" using preachable_fifo [OF assms(1)] by (simp add: fifo_inv_def)
  have step: "pstep True s (write_run True src 0 s)"
    by (rule pstep.wcall) (use assms in auto)
  have le: "0 \<le> length src" by simp
  from inv le show ?thesis
  proof (cases rule: write_run_cases [of s 0 src True])
    case (return p)
    have "length (contents p) = length (contents (pip s) @ src)" "pipe_inv p"
      using return(1) by (simp_all only: appended_def drop0 diff_zero take_all_iff) simp
    then show ?thesis using assms(6) by (simp add: pipe_inv_def)
  next
    case (error p j)
    then show ?thesis using step assms(2) by simp
  qed simp_all
qed

theorem killed_writer_loses_wakeup_witness:
  "rproc (write_run True (replicate 513 7) 0 (read_run False 4 pboot)) = RSleep 4
   \<and> pcount (pip (write_run True (replicate 513 7) 0 (read_run False 4 pboot))) = PIPESIZE"
proof -
  have "wproc (read_run False 4 pboot) = WIdle" "writeopen (pip (read_run False 4 pboot))"
    "pcount (pip (read_run False 4 pboot)) = 0" "length (replicate 513 (7 :: u8)) > PIPESIZE"
    by (simp_all add: pboot_def read_run_def piperead_def pipe_init_def pcount_def PIPESIZE_def)
  from killed_writer_loses_wakeup [OF pboot_read_sleeps this] show ?thesis by simp
qed

end
