(* ===== verification/Kernel.thy ===== *)
theory Kernel
  imports Vm Fs Pipe
begin

text \<open>
  The kernel's state, processes and their scheduling (\<^verbatim>\<open>xv6/proc.c\<close> without \<^verbatim>\<open>fork\<close>, \<^verbatim>\<open>exit\<close> and \<^verbatim>\<open>wait\<close>, which
  need the file table). Process pointers are indices into the process table. The trap frame and
  the initial kernel context are bytes of the kernel stack, at the offsets of \<^verbatim>\<open>x86.h\<close> and \<^verbatim>\<open>proc.h\<close>.
  Critical sections under \<^verbatim>\<open>ptable.lock\<close> are atomic; the locks themselves are the subject of \<open>Spinlock\<close>.
\<close>

unbundle bit_operations_syntax

section \<open>State\<close>

definition NPROC :: nat where "NPROC = 64"
definition NOFILE :: nat where "NOFILE = 16"
definition NFILE :: nat where "NFILE = 100"

datatype procstate = UNUSED | EMBRYO | SLEEPING | RUNNABLE | RUNNING | ZOMBIE

text \<open>
  Sleep channels: the code uses the address of some object that everyone involved knows.
\<close>

datatype channel = ChNone | ChProc nat | ChTicks | ChLog | ChNread u32 | ChNwrite u32

record proc =
  psz :: u32
  pgdir :: u32
  kstack :: u32
  pstate :: procstate
  pid :: int
  parent :: "nat option"
  tf :: u32
  pcontext :: u32
  chan :: channel
  killed :: bool
  ofile :: "nat option list"
  cwd :: "nat option"
  pname :: "u8 list"
  scheduler_fn :: u32

datatype fdtype = FD_NONE | FD_PIPE | FD_INODE

record kfile =
  ftype :: fdtype
  fref :: int
  readable :: bool
  writable :: bool
  fpipe :: u32
  fip :: nat
  foff :: u32

text \<open>
  \<open>pipes\<close> holds the pipe structures by the address of their page; \<open>sched_pos\<close> is the loop variable of the
  scheduler; \<open>curproc\<close> is \<^verbatim>\<open>mycpu()->proc\<close>; \<open>sym_forkret\<close> and \<open>sym_trapret\<close> are the addresses of these labels.
\<close>

record kernel = vm +
  ptable :: "proc list"
  initproc :: "nat option"
  nextpid :: int
  curproc :: "nat option"
  sched_pos :: nat
  first :: bool
  ticks :: u32
  files :: "kfile list"
  pipes :: "u32 \<Rightarrow> pipe"
  fsys :: fs
  sym_forkret :: u32
  sym_trapret :: u32

type_synonym 'a kop = "(kernel, 'a) op"

text \<open>Running a file-system operation on the file-system part of the state.\<close>

definition on_fs :: "(fs, 'a) op \<Rightarrow> 'a kop" where
  "on_fs m k = (case m (fsys k) of Inl h \<Rightarrow> Inl h | Inr (x, f) \<Rightarrow> Inr (x, k\<lparr>fsys := f\<rparr>))"

definition kalloc_op :: "u32 kop" where
  "kalloc_op k = Inr (kalloc k)"

definition kfree_op :: "u32 \<Rightarrow> unit kop" where
  "kfree_op v k = bindE (kfree v k) (\<lambda>k. Inr ((), k))"

definition upd_mem :: "(mem \<Rightarrow> mem) \<Rightarrow> unit kop" where
  "upd_mem f = modify (\<lambda>k. k\<lparr>pmem := f (pmem k)\<rparr>)"

definition proc_at :: "nat \<Rightarrow> kernel \<Rightarrow> proc" where
  "proc_at p k = ptable k ! p"

definition upd_proc :: "nat \<Rightarrow> (proc \<Rightarrow> proc) \<Rightarrow> unit kop" where
  "upd_proc p f = modify (\<lambda>k. k\<lparr>ptable := (ptable k)[p := f (ptable k ! p)]\<rparr>)"

text \<open>The current process; the code dereferences \<^verbatim>\<open>myproc()\<close>, so that its absence is a fault.\<close>

definition cur :: "nat kop" where
  "cur k = (case curproc k of None \<Rightarrow> Inl (Fault ''myproc'') | Some p \<Rightarrow> Inr (p, k))"

definition pfld :: "nat \<Rightarrow> (proc \<Rightarrow> 'a) \<Rightarrow> 'a kop" where
  "pfld p f = gets (\<lambda>k. f (proc_at p k))"

section \<open>The trap frame\<close>

definition TF_SIZE :: u32 where "TF_SIZE = 76"
definition tf_eax :: u32 where "tf_eax = 28"
definition tf_es :: u32 where "tf_es = 40"
definition tf_ds :: u32 where "tf_ds = 44"
definition tf_trapno :: u32 where "tf_trapno = 48"
definition tf_eip :: u32 where "tf_eip = 56"
definition tf_cs :: u32 where "tf_cs = 60"
definition tf_eflags :: u32 where "tf_eflags = 64"
definition tf_esp :: u32 where "tf_esp = 68"
definition tf_ss :: u32 where "tf_ss = 72"

definition tf_get :: "u32 \<Rightarrow> u32 \<Rightarrow> u32 kop" where
  "tf_get t fld = gets (\<lambda>k. load32 (pmem k) (t + fld))"

definition tf_put :: "u32 \<Rightarrow> u32 \<Rightarrow> u32 \<Rightarrow> unit kop" where
  "tf_put t fld v = upd_mem (\<lambda>m. store32 m (t + fld) v)"

section \<open>Switching, sleeping and waking\<close>

text \<open>
  \<^verbatim>\<open>sched\<close>: control goes to the scheduler, which drops the process from the processor. The caller's
  remaining code runs when the scheduler picks the process again.
\<close>

definition sched :: "unit kop" where
  "sched =
     bnd cur (\<lambda>p.
     bnd (pfld p pstate) (\<lambda>st.
       if st = RUNNING then stop (Panic ''sched running'')
       else modify (\<lambda>k. (switchkvm k)\<lparr>curproc := None\<rparr>)))"

definition yield :: "unit kop" where
  "yield = bnd cur (\<lambda>p. bnd (upd_proc p (\<lambda>x. x\<lparr>pstate := RUNNABLE\<rparr>)) (\<lambda>_. sched))"

text \<open>
  \<^verbatim>\<open>sleep\<close> up to \<^verbatim>\<open>sched\<close>, and what follows it when the process runs again.
\<close>

definition sleep :: "channel \<Rightarrow> unit kop" where
  "sleep ch k =
     (case curproc k of
        None \<Rightarrow> Inl (Panic ''sleep'')
      | Some p \<Rightarrow> bnd (upd_proc p (\<lambda>x. x\<lparr>chan := ch, pstate := SLEEPING\<rparr>)) (\<lambda>_. sched) k)"

definition sleep_return :: "unit kop" where
  "sleep_return = bnd cur (\<lambda>p. upd_proc p (\<lambda>x. x\<lparr>chan := ChNone\<rparr>))"

definition wakeup1 :: "channel \<Rightarrow> unit kop" where
  "wakeup1 ch =
     modify (\<lambda>k. k\<lparr>ptable := map (\<lambda>p. if pstate p = SLEEPING \<and> chan p = ch then p\<lparr>pstate := RUNNABLE\<rparr> else p)
                               (ptable k)\<rparr>)"

definition wakeup :: "channel \<Rightarrow> unit kop" where
  "wakeup ch = wakeup1 ch"

definition kill :: "int \<Rightarrow> int kop" where
  "kill n k =
     (case List.find (\<lambda>p. pid (proc_at p k) = n) [0..<NPROC] of
        None \<Rightarrow> Inr (-1, k)
      | Some p \<Rightarrow>
          bnd (upd_proc p (\<lambda>x. x\<lparr>killed := True\<rparr>)) (\<lambda>_.
          bnd (pfld p pstate) (\<lambda>st.
          bnd (if st = SLEEPING then upd_proc p (\<lambda>x. x\<lparr>pstate := RUNNABLE\<rparr>) else ret ()) (\<lambda>_. ret 0))) k)"

section \<open>The scheduler\<close>

text \<open>
  \<^verbatim>\<open>scheduler\<close>: one round goes through the table from the loop variable on; \<open>scheduler_pick\<close> is the next
  runnable process of the round, and a round that finds none starts again at 0.
\<close>

definition scheduler_pick :: "kernel \<Rightarrow> nat option" where
  "scheduler_pick k = List.find (\<lambda>p. pstate (proc_at p k) = RUNNABLE) [sched_pos k..<NPROC]"

definition scheduler_init :: "unit kop" where
  "scheduler_init = modify (\<lambda>k. k\<lparr>curproc := None, sched_pos := 0\<rparr>)"

definition scheduler :: "unit kop" where
  "scheduler k =
     (case scheduler_pick k of
        None \<Rightarrow> Inr ((), k\<lparr>sched_pos := 0\<rparr>)
      | Some p \<Rightarrow>
          bnd (modify (\<lambda>k. k\<lparr>curproc := Some p, sched_pos := p + 1\<rparr>)) (\<lambda>_.
          bnd (\<lambda>k. bindE (switchuvm (Some (kstack (proc_at p k), pgdir (proc_at p k))) k) (\<lambda>k. Inr ((), k))) (\<lambda>_.
            upd_proc p (\<lambda>x. x\<lparr>pstate := RUNNING\<rparr>))) k)"

text \<open>\<^verbatim>\<open>forkret\<close>: the first process to run reads the superblock and recovers the log.\<close>

definition forkret :: "unit kop" where
  "forkret =
     bnd (gets first) (\<lambda>f.
       if f
       then bnd (modify (\<lambda>k. k\<lparr>first := False\<rparr>)) (\<lambda>_.
            bnd (on_fs (iinit ROOTDEV)) (\<lambda>_. on_fs (initlog ROOTDEV)))
       else ret ())"

section \<open>Creating processes\<close>

text \<open>\<^verbatim>\<open>nextpid\<close> is an \<^verbatim>\<open>int\<close> and wraps around at 32 bits.\<close>

definition allocproc :: "nat option kop" where
  "allocproc k =
     (case List.find (\<lambda>p. pstate (proc_at p k) = UNUSED) [0..<NPROC] of
        None \<Rightarrow> Inr (None, k)
      | Some p \<Rightarrow>
          bnd (upd_proc p (\<lambda>x. x\<lparr>pstate := EMBRYO, pid := nextpid k, scheduler_fn := 0\<rparr>)) (\<lambda>_.
          bnd (modify (\<lambda>k. k\<lparr>nextpid := sint (word_of_int (nextpid k + 1) :: u32)\<rparr>)) (\<lambda>_.
          bnd kalloc_op (\<lambda>ks.
          bnd (upd_proc p (\<lambda>x. x\<lparr>kstack := ks\<rparr>)) (\<lambda>_.
            if ks = 0 then bnd (upd_proc p (\<lambda>x. x\<lparr>pstate := UNUSED\<rparr>)) (\<lambda>_. ret None)
            else let sp = ks + KSTACKSIZE - TF_SIZE
                 in bnd (upd_proc p (\<lambda>x. x\<lparr>tf := sp\<rparr>)) (\<lambda>_.
                    bnd (gets (\<lambda>k. (sym_trapret k, sym_forkret k))) (\<lambda>(trapret, fkret).
                    bnd (upd_mem (\<lambda>m. store32 m (sp - 4) trapret)) (\<lambda>_.
                    bnd (upd_proc p (\<lambda>x. x\<lparr>pcontext := sp - 4 - 20\<rparr>)) (\<lambda>_.
                    bnd (upd_mem (memset (sp - 4 - 20) 0 20)) (\<lambda>_.
                    bnd (upd_mem (\<lambda>m. store32 m (sp - 4 - 20 + 16) fkret)) (\<lambda>_.
                      ret (Some p)))))))))))  k)"

text \<open>
  \<^verbatim>\<open>safestrcpy\<close> into the 16-byte name: at most 15 bytes of the source. When the loop copies the terminating 0 the pointer has
  moved past it and a second 0 is stored behind it; bytes behind keep their values.
\<close>

definition set_name :: "u8 list \<Rightarrow> proc \<Rightarrow> proc" where
  "set_name src x =
     (let c = takeWhile (\<lambda>b. b \<noteq> 0) (take 15 src);
          z = (if length c < 15 then [0, 0] else [0])
      in x\<lparr>pname := c @ z @ drop (length c + length z) (pname x)\<rparr>)"

text \<open>\<^verbatim>\<open>userinit\<close>; \<open>code\<close> and \<open>len\<close> are the linked-in \<^verbatim>\<open>initcode\<close> and its size.\<close>

definition userinit :: "u32 \<Rightarrow> u32 \<Rightarrow> unit kop" where
  "userinit code len =
     bnd allocproc (\<lambda>r.
     bnd (modify (\<lambda>k. k\<lparr>initproc := r\<rparr>)) (\<lambda>_.
       case r of
         None \<Rightarrow> stop (Fault ''userinit'')
       | Some p \<Rightarrow>
           bnd setupkvm (\<lambda>pg.
           bnd (upd_proc p (\<lambda>x. x\<lparr>pgdir := pg\<rparr>)) (\<lambda>_.
             if pg = 0 then stop (Panic ''userinit: out of memory?'')
             else bnd (\<lambda>k. bindE (inituvm pg code len k) (\<lambda>k. Inr ((), k))) (\<lambda>_.
                  bnd (upd_proc p (\<lambda>x. x\<lparr>psz := PGSIZE\<rparr>)) (\<lambda>_.
                  bnd (pfld p tf) (\<lambda>t.
                  bnd (upd_mem (memset t 0 TF_SIZE)) (\<lambda>_.
                  bnd (upd_mem (\<lambda>m. store16 m (t + tf_cs) (push_bit 3 3 OR 3))) (\<lambda>_.
                  bnd (upd_mem (\<lambda>m. store16 m (t + tf_ds) (push_bit 3 4 OR 3))) (\<lambda>_.
                  bnd (upd_mem (\<lambda>m. store16 m (t + tf_es) (load16 m (t + tf_ds)))) (\<lambda>_.
                  bnd (upd_mem (\<lambda>m. store16 m (t + tf_ss) (load16 m (t + tf_ds)))) (\<lambda>_.
                  bnd (tf_put t tf_eflags 0x200) (\<lambda>_.
                  bnd (tf_put t tf_esp PGSIZE) (\<lambda>_.
                  bnd (tf_put t tf_eip 0) (\<lambda>_.
                  bnd (upd_proc p (set_name (map (\<lambda>c. of_nat (of_char c)) ''initcode''))) (\<lambda>_.
                  bnd (on_fs (namei 0 [slash])) (\<lambda>ip.
                  bnd (upd_proc p (\<lambda>x. x\<lparr>cwd := ip\<rparr>)) (\<lambda>_.
                    upd_proc p (\<lambda>x. x\<lparr>pstate := RUNNABLE\<rparr>)))))))))))))))))))"

definition growproc :: "int \<Rightarrow> int kop" where
  "growproc n =
     bnd cur (\<lambda>p.
     bnd (pfld p (\<lambda>x. (psz x, pgdir x))) (\<lambda>(sz, pg).
     bnd (if n > 0 then bnd (allocuvm pg sz (sz + of_int n)) (\<lambda>r. ret (r, r = 0))
          else if n < 0 then bnd (deallocuvm pg sz (sz + of_int n)) (\<lambda>r. ret (r, r = 0))
          else ret (sz, False)) (\<lambda>(sz, failed).
       if failed then ret (-1)
       else bnd (upd_proc p (\<lambda>x. x\<lparr>psz := sz\<rparr>)) (\<lambda>_.
            bnd (pfld p (\<lambda>x. (kstack x, pgdir x))) (\<lambda>kp.
            bnd (\<lambda>k. bindE (switchuvm (Some kp) k) (\<lambda>k. Inr ((), k))) (\<lambda>_. ret 0))))))"

end
