(* ===== verification/File.thy ===== *)
theory File
  imports Kernel
begin

text \<open>
  Open files (\<^verbatim>\<open>xv6/file.c\<close>) and the creation of pipes (\<^verbatim>\<open>pipealloc\<close> of \<^verbatim>\<open>xv6/pipe.c\<close>). File pointers are
  indices into the file table. A read or write of a pipe that has to wait puts the current process to
  sleep and reports the channel and the position at which the call continues.
\<close>

unbundle bit_operations_syntax

datatype 'a outcome = Done 'a | Blocked channel nat

definition file_at :: "nat \<Rightarrow> kernel \<Rightarrow> kfile" where
  "file_at f k = files k ! f"

definition upd_file :: "nat \<Rightarrow> (kfile \<Rightarrow> kfile) \<Rightarrow> unit kop" where
  "upd_file f g = modify (\<lambda>k. k\<lparr>files := (files k)[f := g (files k ! f)]\<rparr>)"

definition ffld :: "nat \<Rightarrow> (kfile \<Rightarrow> 'a) \<Rightarrow> 'a kop" where
  "ffld f g = gets (\<lambda>k. g (file_at f k))"

definition filealloc_pick :: "kernel \<Rightarrow> nat option" where
  "filealloc_pick k = List.find (\<lambda>f. fref (file_at f k) = 0) [0..<NFILE]"

definition filealloc :: "nat option kop" where
  "filealloc k =
     (case filealloc_pick k of
        None \<Rightarrow> Inr (None, k)
      | Some f \<Rightarrow> bnd (upd_file f (\<lambda>x. x\<lparr>fref := 1\<rparr>)) (\<lambda>_. ret (Some f)) k)"

definition filedup :: "nat \<Rightarrow> nat kop" where
  "filedup f =
     bnd (ffld f fref) (\<lambda>r.
       if r < 1 then stop (Panic ''filedup'')
       else bnd (upd_file f (\<lambda>x. x\<lparr>fref := fref x + 1\<rparr>)) (\<lambda>_. ret f))"

section \<open>Pipes in the kernel\<close>

definition pipe_chan :: "u32 \<Rightarrow> pchan \<Rightarrow> channel" where
  "pipe_chan p c = (case c of CNread \<Rightarrow> ChNread p | CNwrite \<Rightarrow> ChNwrite p)"

primrec wake_all :: "u32 \<Rightarrow> pchan list \<Rightarrow> unit kop" where
  "wake_all p [] = ret ()"
| "wake_all p (c # cs) = bnd (wakeup (pipe_chan p c)) (\<lambda>_. wake_all p cs)"

definition set_pipe :: "u32 \<Rightarrow> pipe \<Rightarrow> unit kop" where
  "set_pipe p x = modify (\<lambda>k. k\<lparr>pipes := (pipes k)(p := x)\<rparr>)"

definition close_pipe :: "u32 \<Rightarrow> bool \<Rightarrow> unit kop" where
  "close_pipe p wr =
     bnd (gets (\<lambda>k. pipeclose wr (pipes k p))) (\<lambda>(last, ws, x).
     bnd (set_pipe p x) (\<lambda>_.
     bnd (wake_all p ws) (\<lambda>_. if last then kfree_op p else ret ())))"

definition write_pipe :: "u32 \<Rightarrow> u8 list \<Rightarrow> nat \<Rightarrow> int outcome kop" where
  "write_pipe p src i =
     bnd cur (\<lambda>q.
     bnd (pfld q killed) (\<lambda>kd.
     bnd (gets (\<lambda>k. pipewrite kd src i (pipes k p))) (\<lambda>r.
       case r of
         PRet n ws x \<Rightarrow> bnd (set_pipe p x) (\<lambda>_. bnd (wake_all p ws) (\<lambda>_. ret (Done n)))
       | PSleep j ws x \<Rightarrow>
           bnd (set_pipe p x) (\<lambda>_.
           bnd (wake_all p ws) (\<lambda>_.
           bnd (sleep (ChNwrite p)) (\<lambda>_. ret (Blocked (ChNwrite p) j)))))))"

definition read_pipe :: "u32 \<Rightarrow> nat \<Rightarrow> (int \<times> u8 list) outcome kop" where
  "read_pipe p n =
     bnd cur (\<lambda>q.
     bnd (pfld q killed) (\<lambda>kd.
     bnd (gets (\<lambda>k. piperead kd n (pipes k p))) (\<lambda>r.
       case r of
         PRet bs ws x \<Rightarrow>
           bnd (set_pipe p x) (\<lambda>_.
           bnd (wake_all p ws) (\<lambda>_.
             ret (Done (case bs of None \<Rightarrow> (-1, []) | Some b \<Rightarrow> (int (length b), b)))))
       | PSleep j ws x \<Rightarrow>
           bnd (set_pipe p x) (\<lambda>_.
           bnd (wake_all p ws) (\<lambda>_.
           bnd (sleep (ChNread p)) (\<lambda>_. ret (Blocked (ChNread p) j)))))))"

section \<open>Operations on open files\<close>

definition fileclose :: "nat \<Rightarrow> unit kop" where
  "fileclose f =
     bnd (ffld f fref) (\<lambda>r.
       if r < 1 then stop (Panic ''fileclose'')
       else bnd (upd_file f (\<lambda>x. x\<lparr>fref := fref x - 1\<rparr>)) (\<lambda>_.
            if r - 1 > 0 then ret ()
            else bnd (gets (file_at f)) (\<lambda>ff.
                 bnd (upd_file f (\<lambda>x. x\<lparr>fref := 0, ftype := FD_NONE\<rparr>)) (\<lambda>_.
                   case ftype ff of
                     FD_PIPE \<Rightarrow> close_pipe (fpipe ff) (writable ff)
                   | FD_INODE \<Rightarrow>
                       bnd (on_fs begin_op) (\<lambda>_.
                       bnd (on_fs (iput (fip ff))) (\<lambda>_. on_fs end_op))
                   | FD_NONE \<Rightarrow> ret ()))))"

definition filestat :: "nat \<Rightarrow> (int \<times> stat option) kop" where
  "filestat f =
     bnd (gets (file_at f)) (\<lambda>x.
       if ftype x = FD_INODE
       then bnd (on_fs (ilock (fip x))) (\<lambda>_.
            bnd (on_fs (stati (fip x))) (\<lambda>st.
            bnd (on_fs (iunlock (fip x))) (\<lambda>_. ret (0, Some st))))
       else ret (-1, None))"

text \<open>\<^verbatim>\<open>fileread\<close>: the value returned and the bytes stored at \<^verbatim>\<open>addr\<close>.\<close>

definition fileread :: "nat \<Rightarrow> nat \<Rightarrow> (int \<times> u8 list) outcome kop" where
  "fileread f n =
     bnd (gets (file_at f)) (\<lambda>x.
       if \<not> readable x then ret (Done (-1, []))
       else case ftype x of
              FD_PIPE \<Rightarrow> read_pipe (fpipe x) n
            | FD_INODE \<Rightarrow>
                bnd (on_fs (ilock (fip x))) (\<lambda>_.
                bnd (on_fs (readi (fip x) (foff x) (of_nat n))) (\<lambda>(r, bs).
                bnd (if r > 0 then upd_file f (\<lambda>x. x\<lparr>foff := foff x + of_int r\<rparr>) else ret ()) (\<lambda>_.
                bnd (on_fs (iunlock (fip x))) (\<lambda>_. ret (Done (r, bs))))))
            | FD_NONE \<Rightarrow> stop (Panic ''fileread''))"

definition MAXWRITE :: nat where "MAXWRITE = ((10 - 1 - 1 - 2) div 2) * 512"

text \<open>The loop of \<^verbatim>\<open>filewrite\<close> on an inode: \<open>i\<close> bytes of \<open>src\<close> are written so far.\<close>

function filewrite_loop :: "nat \<Rightarrow> nat \<Rightarrow> u8 list \<Rightarrow> nat \<Rightarrow> int kop" where
  "filewrite_loop f ip src i =
     (if i < length src
      then let n1 = min (length src - i) MAXWRITE
           in bnd (on_fs begin_op) (\<lambda>_.
              bnd (on_fs (ilock ip)) (\<lambda>_.
              bnd (ffld f foff) (\<lambda>off.
              bnd (on_fs (writei ip (take n1 (drop i src)) off)) (\<lambda>r.
              bnd (if r > 0 then upd_file f (\<lambda>x. x\<lparr>foff := foff x + of_int r\<rparr>) else ret ()) (\<lambda>_.
              bnd (on_fs (iunlock ip)) (\<lambda>_.
              bnd (on_fs end_op) (\<lambda>_.
                if r < 0 then ret (-1)
                else if r \<noteq> int n1 then stop (Panic ''short filewrite'')
                else filewrite_loop f ip src (i + n1))))))))
      else ret (int (length src)))"
  by pat_completeness auto

termination
  by (relation "measure (\<lambda>(_, _, src, i). length src - i)") (auto simp: MAXWRITE_def)

declare filewrite_loop.simps [simp del]

text \<open>\<^verbatim>\<open>filewrite\<close> of the bytes \<open>src\<close>; a pipe is written from position \<open>i\<close> on.\<close>

definition filewrite :: "nat \<Rightarrow> u8 list \<Rightarrow> nat \<Rightarrow> int outcome kop" where
  "filewrite f src i =
     bnd (gets (file_at f)) (\<lambda>x.
       if \<not> writable x then ret (Done (-1))
       else case ftype x of
              FD_PIPE \<Rightarrow> write_pipe (fpipe x) src i
            | FD_INODE \<Rightarrow> bnd (filewrite_loop f (fip x) src 0) (\<lambda>r. ret (Done r))
            | FD_NONE \<Rightarrow> stop (Panic ''filewrite''))"

definition close_opt :: "nat option \<Rightarrow> unit kop" where
  "close_opt f = (case f of None \<Rightarrow> ret () | Some f \<Rightarrow> fileclose f)"

text \<open>\<^verbatim>\<open>pipealloc\<close>: the two files, or \<open>None\<close> for the return value \<open>-1\<close>.\<close>

definition pipealloc :: "(nat \<times> nat) option kop" where
  "pipealloc =
     bnd filealloc (\<lambda>f0.
       case f0 of
         None \<Rightarrow> ret None
       | Some a \<Rightarrow>
           bnd filealloc (\<lambda>f1.
             case f1 of
               None \<Rightarrow> bnd (close_opt f0) (\<lambda>_. ret None)
             | Some b \<Rightarrow>
                 bnd kalloc_op (\<lambda>p.
                   if p = 0 then bnd (close_opt f0) (\<lambda>_. bnd (close_opt f1) (\<lambda>_. ret None))
                   else bnd (modify (\<lambda>k. k\<lparr>pipes := (pipes k)(p := pipe_init (pdata (pipes k p)))\<rparr>)) (\<lambda>_.
                        bnd (upd_file a (\<lambda>x. x\<lparr>ftype := FD_PIPE, readable := True, writable := False, fpipe := p\<rparr>)) (\<lambda>_.
                        bnd (upd_file b (\<lambda>x. x\<lparr>ftype := FD_PIPE, readable := False, writable := True, fpipe := p\<rparr>)) (\<lambda>_.
                          ret (Some (a, b))))))))"

end
