(* ===== verification/Proc.thy ===== *)
theory Proc
  imports File
begin

text \<open>
  Process creation, exit and wait (\<^verbatim>\<open>fork\<close>, \<^verbatim>\<open>exit\<close>, \<^verbatim>\<open>wait\<close> of \<^verbatim>\<open>xv6/proc.c\<close>). \<^verbatim>\<open>wait\<close> is one pass of its loop:
  it either returns or puts the process to sleep; the pass is repeated when the process is woken.
\<close>

unbundle bit_operations_syntax

section \<open>fork\<close>

primrec dup_files :: "nat list \<Rightarrow> nat \<Rightarrow> nat \<Rightarrow> unit kop" where
  "dup_files [] p np = ret ()"
| "dup_files (i # is) p np =
     bnd (pfld p (\<lambda>x. ofile x ! i)) (\<lambda>fo.
     bnd (case fo of
            None \<Rightarrow> ret ()
          | Some f \<Rightarrow> bnd (filedup f) (\<lambda>f. upd_proc np (\<lambda>x. x\<lparr>ofile := (ofile x)[i := Some f]\<rparr>))) (\<lambda>_.
       dup_files is p np))"

definition fork :: "int kop" where
  "fork =
     bnd cur (\<lambda>p.
     bnd allocproc (\<lambda>r.
       case r of
         None \<Rightarrow> ret (-1)
       | Some np \<Rightarrow>
           bnd (pfld p (\<lambda>x. (pgdir x, psz x))) (\<lambda>(pg, sz).
           bnd (copyuvm pg sz) (\<lambda>d.
           bnd (upd_proc np (\<lambda>x. x\<lparr>pgdir := d\<rparr>)) (\<lambda>_.
             if d = 0
             then bnd (pfld np kstack) (\<lambda>ks.
                  bnd (kfree_op ks) (\<lambda>_.
                  bnd (upd_proc np (\<lambda>x. x\<lparr>kstack := 0, pstate := UNUSED\<rparr>)) (\<lambda>_. ret (-1))))
             else bnd (upd_proc np (\<lambda>x. x\<lparr>psz := sz, parent := Some p\<rparr>)) (\<lambda>_.
                  bnd (pfld p tf) (\<lambda>t.
                  bnd (pfld np tf) (\<lambda>nt.
                  bnd (upd_mem (memmove nt t TF_SIZE)) (\<lambda>_.
                  bnd (tf_put nt tf_eax 0) (\<lambda>_.
                  bnd (dup_files [0..<NOFILE] p np) (\<lambda>_.
                  bnd (pfld p cwd) (\<lambda>c.
                  bnd (case c of None \<Rightarrow> stop (Fault ''idup'') | Some ip \<Rightarrow> on_fs (idup ip)) (\<lambda>ip.
                  bnd (upd_proc np (\<lambda>x. x\<lparr>cwd := Some ip\<rparr>)) (\<lambda>_.
                  bnd (pfld p pname) (\<lambda>nm.
                  bnd (upd_proc np (set_name nm)) (\<lambda>_.
                  bnd (pfld np pid) (\<lambda>n.
                  bnd (upd_proc np (\<lambda>x. x\<lparr>pstate := RUNNABLE\<rparr>)) (\<lambda>_. ret n))))))))))))))))))"

section \<open>exit\<close>

primrec close_files :: "nat list \<Rightarrow> nat \<Rightarrow> unit kop" where
  "close_files [] p = ret ()"
| "close_files (fd # fds) p =
     bnd (pfld p (\<lambda>x. ofile x ! fd)) (\<lambda>fo.
     bnd (case fo of
            None \<Rightarrow> ret ()
          | Some f \<Rightarrow> bnd (fileclose f) (\<lambda>_. upd_proc p (\<lambda>x. x\<lparr>ofile := (ofile x)[fd := None]\<rparr>))) (\<lambda>_.
       close_files fds p))"

text \<open>Handing the children of \<open>p\<close> over to \<^verbatim>\<open>init\<close>, and waking it for those that are zombies.\<close>

primrec reparent :: "nat list \<Rightarrow> nat \<Rightarrow> unit kop" where
  "reparent [] p = ret ()"
| "reparent (q # qs) p =
     bnd (gets (\<lambda>k. (proc_at q k, initproc k))) (\<lambda>(x, ini).
     bnd (if parent x = Some p
          then bnd (upd_proc q (\<lambda>x. x\<lparr>parent := ini\<rparr>)) (\<lambda>_.
               if pstate x = ZOMBIE
               then wakeup1 (case ini of Some i \<Rightarrow> ChProc i | None \<Rightarrow> ChNone) else ret ())
          else ret ()) (\<lambda>_. reparent qs p))"

definition exit :: "unit kop" where
  "exit =
     bnd cur (\<lambda>p.
     bnd (gets initproc) (\<lambda>ini.
       if Some p = ini then stop (Panic ''init exiting'')
       else bnd (close_files [0..<NOFILE] p) (\<lambda>_.
            bnd (on_fs begin_op) (\<lambda>_.
            bnd (pfld p cwd) (\<lambda>c.
            bnd (case c of None \<Rightarrow> stop (Fault ''iput'') | Some ip \<Rightarrow> on_fs (iput ip)) (\<lambda>_.
            bnd (on_fs end_op) (\<lambda>_.
            bnd (upd_proc p (\<lambda>x. x\<lparr>cwd := None\<rparr>)) (\<lambda>_.
            bnd (pfld p parent) (\<lambda>par.
            bnd (wakeup1 (case par of Some q \<Rightarrow> ChProc q | None \<Rightarrow> ChNone)) (\<lambda>_.
            bnd (reparent [0..<NPROC] p) (\<lambda>_.
            bnd (upd_proc p (\<lambda>x. x\<lparr>pstate := ZOMBIE\<rparr>)) (\<lambda>_. sched))))))))))))"

section \<open>wait\<close>

text \<open>
  The scan of \<^verbatim>\<open>wait\<close>: the first zombie child, and whether there is a child before it or at all.
\<close>

definition wait :: "int outcome kop" where
  "wait =
     bnd cur (\<lambda>p.
     bnd (gets (\<lambda>k. List.find (\<lambda>q. parent (proc_at q k) = Some p \<and> pstate (proc_at q k) = ZOMBIE) [0..<NPROC])) (\<lambda>z.
       case z of
         Some q \<Rightarrow>
           bnd (pfld q (\<lambda>x. (pid x, kstack x, pgdir x))) (\<lambda>(n, ks, pg).
           bnd (kfree_op ks) (\<lambda>_.
           bnd (upd_proc q (\<lambda>x. x\<lparr>kstack := 0\<rparr>)) (\<lambda>_.
           bnd (\<lambda>k. bindE (freevm pg k) (\<lambda>k. Inr ((), k))) (\<lambda>_.
           bnd (upd_proc q (\<lambda>x. x\<lparr>pid := 0, parent := None, pname := (pname x)[0 := 0], killed := False,
                               pstate := UNUSED\<rparr>)) (\<lambda>_. ret (Done n))))))
       | None \<Rightarrow>
           bnd (gets (\<lambda>k. \<exists>q<NPROC. parent (proc_at q k) = Some p)) (\<lambda>kids.
           bnd (pfld p killed) (\<lambda>kd.
             if \<not> kids \<or> kd then ret (Done (-1))
             else bnd (sleep (ChProc p)) (\<lambda>_. ret (Blocked (ChProc p) 0))))))"

end
