(* ===== verification/Syscall.thy ===== *)
theory Syscall
  imports Proc
begin

text \<open>
  System-call arguments (\<^verbatim>\<open>xv6/syscall.c\<close>) and the system calls on processes (\<^verbatim>\<open>xv6/sysproc.c\<close>). The kernel
  reads and writes user memory through the page table of the current process; an access to an address
  that is not mapped is a trap in kernel mode, which panics.
\<close>

unbundle bit_operations_syntax

section \<open>User memory\<close>

definition uaddr :: "u32 \<Rightarrow> u32 \<Rightarrow> mem \<Rightarrow> u32 res" where
  "uaddr pg va m =
     (if va \<ge> KERNBASE then Inr va
      else if present (pte_of m pg va) then Inr (P2V (PTE_ADDR (pte_of m pg va)) + (va AND 0xFFF))
      else Inl (Panic ''trap''))"

definition ubyte :: "u32 \<Rightarrow> u8 kop" where
  "ubyte va =
     bnd cur (\<lambda>p.
     bnd (pfld p pgdir) (\<lambda>pg k.
       bindE (uaddr pg va (pmem k)) (\<lambda>a. Inr (pmem k a, k))))"

primrec ubytes :: "nat \<Rightarrow> u32 \<Rightarrow> u8 list kop" where
  "ubytes 0 va = ret []"
| "ubytes (Suc n) va = bnd (ubyte va) (\<lambda>b. bnd (ubytes n (va + 1)) (\<lambda>bs. ret (b # bs)))"

definition put_ubyte :: "u32 \<Rightarrow> u8 \<Rightarrow> unit kop" where
  "put_ubyte va b =
     bnd cur (\<lambda>p.
     bnd (pfld p pgdir) (\<lambda>pg k.
       bindE (uaddr pg va (pmem k)) (\<lambda>a. Inr ((), k\<lparr>pmem := (pmem k)(a := b)\<rparr>))))"

primrec put_ubytes :: "u32 \<Rightarrow> u8 list \<Rightarrow> unit kop" where
  "put_ubytes va [] = ret ()"
| "put_ubytes va (b # bs) = bnd (put_ubyte va b) (\<lambda>_. put_ubytes (va + 1) bs)"

definition uword :: "u32 \<Rightarrow> u32 kop" where
  "uword va = bnd (ubytes 4 va) (\<lambda>bs. ret (get32 bs 0))"

definition put_uword :: "u32 \<Rightarrow> u32 \<Rightarrow> unit kop" where
  "put_uword va v = put_ubytes va (put32 0 v (replicate 4 0))"

section \<open>Arguments\<close>

text \<open>\<open>None\<close> is the return value \<open>-1\<close>.\<close>

definition fetchint :: "u32 \<Rightarrow> u32 option kop" where
  "fetchint addr =
     bnd cur (\<lambda>p.
     bnd (pfld p psz) (\<lambda>sz.
       if addr \<ge> sz \<or> addr + 4 > sz then ret None
       else bnd (uword addr) (\<lambda>v. ret (Some v))))"

text \<open>
  The loop of \<^verbatim>\<open>fetchstr\<close> on the number of bytes up to the end of the process: the characters before
  the terminating 0.
\<close>

primrec fetchstr_loop :: "nat \<Rightarrow> u32 \<Rightarrow> u8 list option kop" where
  "fetchstr_loop 0 s = ret None"
| "fetchstr_loop (Suc n) s =
     bnd (ubyte s) (\<lambda>c.
       if c = 0 then ret (Some [])
       else bnd (fetchstr_loop n (s + 1)) (\<lambda>r. ret (map_option ((#) c) r)))"

definition fetchstr :: "u32 \<Rightarrow> u8 list option kop" where
  "fetchstr addr =
     bnd cur (\<lambda>p.
     bnd (pfld p psz) (\<lambda>sz.
       if addr \<ge> sz then ret None else fetchstr_loop (unat (sz - addr)) addr))"

definition argint :: "nat \<Rightarrow> u32 option kop" where
  "argint n =
     bnd cur (\<lambda>p.
     bnd (pfld p tf) (\<lambda>t.
     bnd (tf_get t tf_esp) (\<lambda>sp. fetchint (sp + 4 + 4 * of_nat n))))"

definition argptr :: "nat \<Rightarrow> int \<Rightarrow> u32 option kop" where
  "argptr n sz =
     bnd cur (\<lambda>p.
     bnd (argint n) (\<lambda>r.
       case r of
         None \<Rightarrow> ret None
       | Some i \<Rightarrow>
           bnd (pfld p psz) (\<lambda>psize.
             if sz < 0 \<or> i \<ge> psize \<or> i + of_int sz > psize then ret None else ret (Some i))))"

definition argstr :: "nat \<Rightarrow> u8 list option kop" where
  "argstr n =
     bnd (argint n) (\<lambda>r. case r of None \<Rightarrow> ret None | Some addr \<Rightarrow> fetchstr addr)"

section \<open>System calls on processes\<close>

definition sys_fork :: "int outcome kop" where
  "sys_fork = bnd fork (\<lambda>r. ret (Done r))"

definition sys_exit :: "int outcome kop" where
  "sys_exit = bnd exit (\<lambda>_. stop Exited)"

definition sys_wait :: "int outcome kop" where
  "sys_wait = wait"

definition sys_kill :: "int outcome kop" where
  "sys_kill =
     bnd (argint 0) (\<lambda>r.
       case r of None \<Rightarrow> ret (Done (-1)) | Some n \<Rightarrow> bnd (kill (sint n)) (\<lambda>r. ret (Done r)))"

definition sys_getpid :: "int outcome kop" where
  "sys_getpid = bnd cur (\<lambda>p. bnd (pfld p pid) (\<lambda>n. ret (Done n)))"

definition sys_sbrk :: "int outcome kop" where
  "sys_sbrk =
     bnd (argint 0) (\<lambda>r.
       case r of
         None \<Rightarrow> ret (Done (-1))
       | Some n \<Rightarrow>
           bnd cur (\<lambda>p.
           bnd (pfld p psz) (\<lambda>addr.
           bnd (growproc (sint n)) (\<lambda>r.
             if r < 0 then ret (Done (-1)) else ret (Done (sint addr))))))"

text \<open>
  \<^verbatim>\<open>sys_sleep\<close>: one test of the loop condition, which compares unsigned numbers; a call that goes to sleep
  continues with its starting time.
\<close>

definition sys_sleep_test :: "u32 \<Rightarrow> u32 \<Rightarrow> int outcome kop" where
  "sys_sleep_test n ticks0 =
     bnd (gets ticks) (\<lambda>t.
       if t - ticks0 < n
       then bnd cur (\<lambda>p.
            bnd (pfld p killed) (\<lambda>kd.
              if kd then ret (Done (-1))
              else bnd (sleep ChTicks) (\<lambda>_. ret (Blocked ChTicks (unat ticks0)))))
       else ret (Done 0))"

definition sys_sleep :: "int outcome kop" where
  "sys_sleep =
     bnd (argint 0) (\<lambda>r.
       case r of
         None \<Rightarrow> ret (Done (-1))
       | Some n \<Rightarrow> bnd (gets ticks) (\<lambda>ticks0. sys_sleep_test n ticks0))"

definition sys_uptime :: "int outcome kop" where
  "sys_uptime = bnd (gets ticks) (\<lambda>t. ret (Done (sint t)))"

definition sys_uthread_init :: "int outcome kop" where
  "sys_uthread_init =
     bnd cur (\<lambda>p.
     bnd (argint 0) (\<lambda>r.
       case r of
         None \<Rightarrow> ret (Done (-1))
       | Some a \<Rightarrow> bnd (upd_proc p (\<lambda>x. x\<lparr>scheduler_fn := a\<rparr>)) (\<lambda>_. ret (Done 0))))"

end
