(* ===== verification/Sysfile.thy ===== *)
theory Sysfile
  imports Syscall
begin

text \<open>
  System calls on files (\<^verbatim>\<open>xv6/sysfile.c\<close>), loading of programs (\<^verbatim>\<open>xv6/exec.c\<close>, \<^verbatim>\<open>loaduvm\<close> of \<^verbatim>\<open>xv6/vm.c\<close>) and the
  dispatch of system calls (\<^verbatim>\<open>syscall\<close> of \<^verbatim>\<open>xv6/syscall.c\<close>).
\<close>

unbundle bit_operations_syntax

section \<open>File descriptors\<close>

text \<open>\<^verbatim>\<open>argfd\<close>: the descriptor and its file, \<open>None\<close> for the return value \<open>-1\<close>.\<close>

definition argfd :: "nat \<Rightarrow> (nat \<times> nat) option kop" where
  "argfd n =
     bnd (argint n) (\<lambda>r.
       case r of
         None \<Rightarrow> ret None
       | Some w \<Rightarrow>
           if sint w < 0 \<or> sint w \<ge> int NOFILE then ret None
           else bnd cur (\<lambda>p.
                bnd (pfld p (\<lambda>x. ofile x ! unat w)) (\<lambda>f. ret (map_option (\<lambda>f. (unat w, f)) f))))"

definition fdalloc :: "nat \<Rightarrow> nat option kop" where
  "fdalloc f =
     bnd cur (\<lambda>p.
     bnd (pfld p (\<lambda>x. List.find (\<lambda>fd. ofile x ! fd = None) [0..<NOFILE])) (\<lambda>r.
       case r of
         None \<Rightarrow> ret None
       | Some fd \<Rightarrow> bnd (upd_proc p (\<lambda>x. x\<lparr>ofile := (ofile x)[fd := Some f]\<rparr>)) (\<lambda>_. ret (Some fd))))"

definition sys_dup :: "int outcome kop" where
  "sys_dup =
     bnd (argfd 0) (\<lambda>r.
       case r of
         None \<Rightarrow> ret (Done (-1))
       | Some (_, f) \<Rightarrow>
           bnd (fdalloc f) (\<lambda>fd.
             case fd of
               None \<Rightarrow> ret (Done (-1))
             | Some fd \<Rightarrow> bnd (filedup f) (\<lambda>_. ret (Done (int fd)))))"

text \<open>The arguments of \<^verbatim>\<open>sys_read\<close> and \<^verbatim>\<open>sys_write\<close>: file, pointer, count.\<close>

definition rw_args :: "(nat \<times> u32 \<times> int) option kop" where
  "rw_args =
     bnd (argfd 0) (\<lambda>r.
       case r of
         None \<Rightarrow> ret None
       | Some (_, f) \<Rightarrow>
           bnd (argint 2) (\<lambda>r.
             case r of
               None \<Rightarrow> ret None
             | Some n \<Rightarrow>
                 bnd (argptr 1 (sint n)) (\<lambda>r.
                   case r of None \<Rightarrow> ret None | Some p \<Rightarrow> ret (Some (f, p, sint n)))))"

definition sys_read :: "int outcome kop" where
  "sys_read =
     bnd rw_args (\<lambda>r.
       case r of
         None \<Rightarrow> ret (Done (-1))
       | Some (f, p, n) \<Rightarrow>
           bnd (fileread f (nat n)) (\<lambda>x.
             case x of
               Blocked ch j \<Rightarrow> ret (Blocked ch j)
             | Done (r, bs) \<Rightarrow> bnd (put_ubytes p bs) (\<lambda>_. ret (Done r))))"

text \<open>A write of a pipe that was put to sleep continues at position \<open>i\<close>.\<close>

definition sys_write :: "nat \<Rightarrow> int outcome kop" where
  "sys_write i =
     bnd rw_args (\<lambda>r.
       case r of
         None \<Rightarrow> ret (Done (-1))
       | Some (f, p, n) \<Rightarrow> bnd (ubytes (nat n) p) (\<lambda>src. filewrite f src i))"

definition sys_close :: "int outcome kop" where
  "sys_close =
     bnd (argfd 0) (\<lambda>r.
       case r of
         None \<Rightarrow> ret (Done (-1))
       | Some (fd, f) \<Rightarrow>
           bnd cur (\<lambda>p.
           bnd (upd_proc p (\<lambda>x. x\<lparr>ofile := (ofile x)[fd := None]\<rparr>)) (\<lambda>_.
           bnd (fileclose f) (\<lambda>_. ret (Done 0)))))"

text \<open>\<^verbatim>\<open>struct stat\<close> as it lies in memory, with its padding left alone: offset and bytes of each field.\<close>

definition stat_fields :: "stat \<Rightarrow> (u32 \<times> u8 list) list" where
  "stat_fields st =
     [(0, put16 0 (st_type st) (replicate 2 0)), (4, put32 0 (st_dev st) (replicate 4 0)),
      (8, put32 0 (st_ino st) (replicate 4 0)), (12, put16 0 (st_nlink st) (replicate 2 0)),
      (16, put32 0 (st_size st) (replicate 4 0))]"

primrec put_fields :: "u32 \<Rightarrow> (u32 \<times> u8 list) list \<Rightarrow> unit kop" where
  "put_fields p [] = ret ()"
| "put_fields p (x # xs) = bnd (put_ubytes (p + fst x) (snd x)) (\<lambda>_. put_fields p xs)"

definition sys_fstat :: "int outcome kop" where
  "sys_fstat =
     bnd (argfd 0) (\<lambda>r.
       case r of
         None \<Rightarrow> ret (Done (-1))
       | Some (_, f) \<Rightarrow>
           bnd (argptr 1 20) (\<lambda>r.
             case r of
               None \<Rightarrow> ret (Done (-1))
             | Some p \<Rightarrow>
                 bnd (filestat f) (\<lambda>(r, st).
                 bnd (case st of None \<Rightarrow> ret () | Some st \<Rightarrow> put_fields p (stat_fields st)) (\<lambda>_. ret (Done r)))))"

section \<open>Links\<close>

text \<open>The current directory, for path lookup; a process without one does not exist here.\<close>

definition cur_cwd :: "nat kop" where
  "cur_cwd = bnd cur (\<lambda>p. bnd (pfld p cwd) (\<lambda>c. case c of None \<Rightarrow> stop (Fault ''cwd'') | Some ip \<Rightarrow> ret ip))"

text \<open>Common endings of the calls: end the transaction and return \<open>-1\<close>.\<close>

definition fail_op :: "int outcome kop" where
  "fail_op = bnd (on_fs end_op) (\<lambda>_. ret (Done (-1)))"

definition link_bad :: "nat \<Rightarrow> int outcome kop" where
  "link_bad ip =
     bnd (on_fs (ilock ip)) (\<lambda>_.
     bnd (on_fs (upd_inode ip (\<lambda>x. x\<lparr>nlink := nlink x - 1\<rparr>))) (\<lambda>_.
     bnd (on_fs (iupdate ip)) (\<lambda>_.
     bnd (on_fs (iunlockput ip)) (\<lambda>_. fail_op))))"

definition link_paths :: "nat \<Rightarrow> u8 list \<Rightarrow> u8 list \<Rightarrow> int outcome kop" where
  "link_paths cw old new =
     bnd (on_fs begin_op) (\<lambda>_.
     bnd (on_fs (namei cw old)) (\<lambda>r.
       case r of
         None \<Rightarrow> fail_op
       | Some ip \<Rightarrow>
           bnd (on_fs (ilock ip)) (\<lambda>_.
           bnd (on_fs (ifld ip itype)) (\<lambda>ty.
             if ty = T_DIR then bnd (on_fs (iunlockput ip)) (\<lambda>_. fail_op)
             else bnd (on_fs (upd_inode ip (\<lambda>x. x\<lparr>nlink := nlink x + 1\<rparr>))) (\<lambda>_.
                  bnd (on_fs (iupdate ip)) (\<lambda>_.
                  bnd (on_fs (iunlock ip)) (\<lambda>_.
                  bnd (on_fs (nameiparent cw new (replicate DIRSIZ 0))) (\<lambda>(r, nm).
                    case r of
                      None \<Rightarrow> link_bad ip
                    | Some dp \<Rightarrow>
                        bnd (on_fs (ilock dp)) (\<lambda>_.
                        bnd (on_fs (gets (\<lambda>s. (idev (inode_at dp s), idev (inode_at ip s), inum (inode_at ip s))))) (\<lambda>(dd, di, ino).
                        bnd (if dd \<noteq> di then ret (-1) else on_fs (dirlink dp nm ino)) (\<lambda>r.
                          if r < 0 then bnd (on_fs (iunlockput dp)) (\<lambda>_. link_bad ip)
                          else bnd (on_fs (iunlockput dp)) (\<lambda>_.
                               bnd (on_fs (iput ip)) (\<lambda>_.
                               bnd (on_fs end_op) (\<lambda>_. ret (Done 0)))))))))))))))"

definition sys_link :: "int outcome kop" where
  "sys_link =
     bnd (argstr 0) (\<lambda>r.
       case r of
         None \<Rightarrow> ret (Done (-1))
       | Some old \<Rightarrow>
           bnd (argstr 1) (\<lambda>r.
             case r of
               None \<Rightarrow> ret (Done (-1))
             | Some new \<Rightarrow> bnd cur_cwd (\<lambda>cw. link_paths cw old new)))"

text \<open>The loop of \<^verbatim>\<open>isdirempty\<close>.\<close>

function isdirempty_loop :: "nat \<Rightarrow> nat \<Rightarrow> nat \<Rightarrow> ('a fs_scheme, bool) op" where
  "isdirempty_loop dp off sz =
     (if off < sz
      then bnd (readi dp (of_nat off) 16) (\<lambda>(r, de).
             if r \<noteq> 16 then stop (Panic ''isdirempty: readi'')
             else if de_inum de \<noteq> 0 then ret False
             else isdirempty_loop dp (off + 16) sz)
      else ret True)"
  by pat_completeness auto

termination
  by (relation "measure (\<lambda>(_, off, sz). sz - off)") auto

declare isdirempty_loop.simps [simp del]

definition isdirempty :: "nat \<Rightarrow> ('a fs_scheme, bool) op" where
  "isdirempty dp = bnd (ifld dp isize) (\<lambda>sz. isdirempty_loop dp 32 (unat sz))"

definition bytes_of :: "string \<Rightarrow> u8 list" where
  "bytes_of cs = map (\<lambda>c. of_nat (of_char c)) cs"

definition unlink_path :: "nat \<Rightarrow> u8 list \<Rightarrow> int outcome kop" where
  "unlink_path cw path =
     bnd (on_fs begin_op) (\<lambda>_.
     bnd (on_fs (nameiparent cw path (replicate DIRSIZ 0))) (\<lambda>(r, nm).
       case r of
         None \<Rightarrow> fail_op
       | Some dp \<Rightarrow>
           bnd (on_fs (ilock dp)) (\<lambda>_.
             if namecmp nm (bytes_of ''.'') = 0 \<or> namecmp nm (bytes_of ''..'') = 0
             then bnd (on_fs (iunlockput dp)) (\<lambda>_. fail_op)
             else bnd (on_fs (dirlookup dp nm)) (\<lambda>hit.
               case hit of
                 None \<Rightarrow> bnd (on_fs (iunlockput dp)) (\<lambda>_. fail_op)
               | Some (ip, off) \<Rightarrow>
                   bnd (on_fs (ilock ip)) (\<lambda>_.
                   bnd (on_fs (gets (inode_at ip))) (\<lambda>x.
                     if sint (nlink x) < 1 then stop (Panic ''unlink: nlink < 1'')
                     else bnd (if itype x = T_DIR then on_fs (isdirempty ip) else ret True) (\<lambda>emp.
                       if \<not> emp
                       then bnd (on_fs (iunlockput ip)) (\<lambda>_.
                            bnd (on_fs (iunlockput dp)) (\<lambda>_. fail_op))
                       else bnd (on_fs (writei dp (replicate 16 0) off)) (\<lambda>r.
                         if r \<noteq> 16 then stop (Panic ''unlink: writei'')
                         else bnd (if itype x = T_DIR
                                   then bnd (on_fs (upd_inode dp (\<lambda>x. x\<lparr>nlink := nlink x - 1\<rparr>))) (\<lambda>_.
                                        on_fs (iupdate dp))
                                   else ret ()) (\<lambda>_.
                              bnd (on_fs (iunlockput dp)) (\<lambda>_.
                              bnd (on_fs (upd_inode ip (\<lambda>x. x\<lparr>nlink := nlink x - 1\<rparr>))) (\<lambda>_.
                              bnd (on_fs (iupdate ip)) (\<lambda>_.
                              bnd (on_fs (iunlockput ip)) (\<lambda>_.
                              bnd (on_fs end_op) (\<lambda>_. ret (Done 0)))))))))))))))"

definition sys_unlink :: "int outcome kop" where
  "sys_unlink =
     bnd (argstr 0) (\<lambda>r.
       case r of
         None \<Rightarrow> ret (Done (-1))
       | Some path \<Rightarrow> bnd cur_cwd (\<lambda>cw. unlink_path cw path))"

section \<open>Creating and opening\<close>

definition create :: "nat \<Rightarrow> u8 list \<Rightarrow> u16 \<Rightarrow> u16 \<Rightarrow> u16 \<Rightarrow> ('a fs_scheme, nat option) op" where
  "create cw path ty maj mnr =
     bnd (nameiparent cw path (replicate DIRSIZ 0)) (\<lambda>(r, nm).
       case r of
         None \<Rightarrow> ret None
       | Some dp \<Rightarrow>
           bnd (ilock dp) (\<lambda>_.
           bnd (dirlookup dp nm) (\<lambda>hit.
             case hit of
               Some (ip, _) \<Rightarrow>
                 bnd (iunlockput dp) (\<lambda>_.
                 bnd (ilock ip) (\<lambda>_.
                 bnd (ifld ip itype) (\<lambda>t.
                   if ty = T_FILE \<and> t = T_FILE then ret (Some ip)
                   else bnd (iunlockput ip) (\<lambda>_. ret None))))
             | None \<Rightarrow>
                 bnd (ifld dp idev) (\<lambda>dev.
                 bnd (ialloc dev ty) (\<lambda>ip.
                 bnd (ilock ip) (\<lambda>_.
                 bnd (upd_inode ip (\<lambda>x. x\<lparr>major := maj, minor := mnr, nlink := 1\<rparr>)) (\<lambda>_.
                 bnd (iupdate ip) (\<lambda>_.
                 bnd (if ty = T_DIR
                      then bnd (upd_inode dp (\<lambda>x. x\<lparr>nlink := nlink x + 1\<rparr>)) (\<lambda>_.
                           bnd (iupdate dp) (\<lambda>_.
                           bnd (gets (\<lambda>s. (inum (inode_at ip s), inum (inode_at dp s)))) (\<lambda>(ino, dino).
                           bnd (dirlink ip (bytes_of ''.'') ino) (\<lambda>r.
                             if r < 0 then stop (Panic ''create dots'')
                             else bnd (dirlink ip (bytes_of ''..'') dino) (\<lambda>r.
                               if r < 0 then stop (Panic ''create dots'') else ret ())))))
                      else ret ()) (\<lambda>_.
                 bnd (ifld ip inum) (\<lambda>ino.
                 bnd (dirlink dp nm ino) (\<lambda>r.
                   if r < 0 then stop (Panic ''create: dirlink'')
                   else bnd (iunlockput dp) (\<lambda>_. ret (Some ip)))))))))))))"

definition O_WRONLY :: u32 where "O_WRONLY = 1"
definition O_RDWR :: u32 where "O_RDWR = 2"
definition O_CREATE :: u32 where "O_CREATE = 0x200"

text \<open>\<^verbatim>\<open>sys_open\<close>: first the inode, locked; \<open>None\<close> where the call has already failed.\<close>

definition open_inode :: "nat \<Rightarrow> u8 list \<Rightarrow> u32 \<Rightarrow> (fs, nat option) op" where
  "open_inode cw path omode =
     (if omode AND O_CREATE \<noteq> 0 then create cw path T_FILE 0 0
      else bnd (namei cw path) (\<lambda>r.
        case r of
          None \<Rightarrow> ret None
        | Some ip \<Rightarrow>
            bnd (ilock ip) (\<lambda>_.
            bnd (ifld ip itype) (\<lambda>ty.
              if ty = T_DIR \<and> omode \<noteq> 0 then bnd (iunlockput ip) (\<lambda>_. ret None)
              else ret (Some ip)))))"

definition open_path :: "nat \<Rightarrow> u8 list \<Rightarrow> u32 \<Rightarrow> int outcome kop" where
  "open_path cw path omode =
     bnd (on_fs begin_op) (\<lambda>_.
     bnd (on_fs (open_inode cw path omode)) (\<lambda>r.
       case r of
         None \<Rightarrow> fail_op
       | Some ip \<Rightarrow>
           bnd filealloc (\<lambda>fo.
           bnd (case fo of None \<Rightarrow> ret None | Some f \<Rightarrow> fdalloc f) (\<lambda>fd.
             case (fo, fd) of
               (Some f, Some fd) \<Rightarrow>
                 bnd (on_fs (iunlock ip)) (\<lambda>_.
                 bnd (on_fs end_op) (\<lambda>_.
                 bnd (upd_file f (\<lambda>x. x\<lparr>ftype := FD_INODE, fip := ip, foff := 0,
                        readable := omode AND O_WRONLY = 0,
                        writable := omode AND O_WRONLY \<noteq> 0 \<or> omode AND O_RDWR \<noteq> 0\<rparr>)) (\<lambda>_.
                   ret (Done (int fd)))))
             | _ \<Rightarrow>
                 bnd (close_opt fo) (\<lambda>_.
                 bnd (on_fs (iunlockput ip)) (\<lambda>_. fail_op))))))"

definition sys_open :: "int outcome kop" where
  "sys_open =
     bnd (argstr 0) (\<lambda>r.
       case r of
         None \<Rightarrow> ret (Done (-1))
       | Some path \<Rightarrow>
           bnd (argint 1) (\<lambda>r.
             case r of
               None \<Rightarrow> ret (Done (-1))
             | Some omode \<Rightarrow> bnd cur_cwd (\<lambda>cw. open_path cw path omode)))"

definition sys_mkdir :: "int outcome kop" where
  "sys_mkdir =
     bnd (on_fs begin_op) (\<lambda>_.
     bnd (argstr 0) (\<lambda>r.
     bnd (case r of None \<Rightarrow> ret None | Some path \<Rightarrow> bnd cur_cwd (\<lambda>cw. on_fs (create cw path T_DIR 0 0))) (\<lambda>ip.
       case ip of
         None \<Rightarrow> fail_op
       | Some ip \<Rightarrow>
           bnd (on_fs (iunlockput ip)) (\<lambda>_.
           bnd (on_fs end_op) (\<lambda>_. ret (Done 0))))))"

definition sys_mknod :: "int outcome kop" where
  "sys_mknod =
     bnd (on_fs begin_op) (\<lambda>_.
     bnd (argstr 0) (\<lambda>path.
     bnd (if path = None then ret None else argint 1) (\<lambda>maj.
     bnd (if maj = None then ret None else argint 2) (\<lambda>mnr.
     bnd (case (path, maj, mnr) of
            (Some path, Some maj, Some mnr) \<Rightarrow>
              bnd cur_cwd (\<lambda>cw. on_fs (create cw path T_DEV (ucast maj) (ucast mnr)))
          | _ \<Rightarrow> ret None) (\<lambda>ip.
       case ip of
         None \<Rightarrow> fail_op
       | Some ip \<Rightarrow>
           bnd (on_fs (iunlockput ip)) (\<lambda>_.
           bnd (on_fs end_op) (\<lambda>_. ret (Done 0))))))))"

definition sys_chdir :: "int outcome kop" where
  "sys_chdir =
     bnd cur (\<lambda>p.
     bnd (on_fs begin_op) (\<lambda>_.
     bnd (argstr 0) (\<lambda>r.
     bnd (case r of None \<Rightarrow> ret None | Some path \<Rightarrow> bnd cur_cwd (\<lambda>cw. on_fs (namei cw path))) (\<lambda>ip.
       case ip of
         None \<Rightarrow> fail_op
       | Some ip \<Rightarrow>
           bnd (on_fs (ilock ip)) (\<lambda>_.
           bnd (on_fs (ifld ip itype)) (\<lambda>ty.
             if ty \<noteq> T_DIR then bnd (on_fs (iunlockput ip)) (\<lambda>_. fail_op)
             else bnd (on_fs (iunlock ip)) (\<lambda>_.
                  bnd cur_cwd (\<lambda>old.
                  bnd (on_fs (iput old)) (\<lambda>_.
                  bnd (on_fs end_op) (\<lambda>_.
                  bnd (upd_proc p (\<lambda>x. x\<lparr>cwd := Some ip\<rparr>)) (\<lambda>_. ret (Done 0))))))))))))"

definition sys_pipe :: "int outcome kop" where
  "sys_pipe =
     bnd (argptr 0 8) (\<lambda>r.
       case r of
         None \<Rightarrow> ret (Done (-1))
       | Some fdp \<Rightarrow>
           bnd pipealloc (\<lambda>r.
             case r of
               None \<Rightarrow> ret (Done (-1))
             | Some (rf, wrf) \<Rightarrow>
                 bnd (fdalloc rf) (\<lambda>fd0.
                 bnd (if fd0 = None then ret None else fdalloc wrf) (\<lambda>fd1.
                   case (fd0, fd1) of
                     (Some a, Some b) \<Rightarrow>
                       bnd (put_uword fdp (of_nat a)) (\<lambda>_.
                       bnd (put_uword (fdp + 4) (of_nat b)) (\<lambda>_. ret (Done 0)))
                   | _ \<Rightarrow>
                       bnd cur (\<lambda>p.
                       bnd (case fd0 of None \<Rightarrow> ret () | Some a \<Rightarrow> upd_proc p (\<lambda>x. x\<lparr>ofile := (ofile x)[a := None]\<rparr>)) (\<lambda>_.
                       bnd (fileclose rf) (\<lambda>_.
                       bnd (fileclose wrf) (\<lambda>_. ret (Done (-1))))))))))"

end
