(* ===== verification/Exec.thy ===== *)
theory Exec
  imports Sysfile
begin

text \<open>
  Loading a program (\<^verbatim>\<open>xv6/exec.c\<close>, \<^verbatim>\<open>loaduvm\<close> of \<^verbatim>\<open>xv6/vm.c\<close>), \<^verbatim>\<open>sys_exec\<close>, the dispatch of system calls and
  \<^verbatim>\<open>trap\<close> (\<^verbatim>\<open>xv6/trap.c\<close>) with the upcall into a user-level scheduler.
\<close>

unbundle bit_operations_syntax

section \<open>Loading segments\<close>

text \<open>The loop of \<^verbatim>\<open>loaduvm\<close>; \<open>i\<close> stays below the size, so it never wraps.\<close>

function loaduvm_loop :: "u32 \<Rightarrow> u32 \<Rightarrow> nat \<Rightarrow> u32 \<Rightarrow> nat \<Rightarrow> nat \<Rightarrow> int kop" where
  "loaduvm_loop pg addr ip offset i sz =
     (if i < sz
      then bnd (gets (\<lambda>k. (fst (walkpgdir pg (addr + of_nat i) False k), pmem k))) (\<lambda>(pte, m).
             if pte = 0 then stop (Panic ''loaduvm: address should exist'')
             else let pa = PTE_ADDR (load32 m pte); n = min (sz - i) 4096
                  in bnd (on_fs (readi ip (offset + of_nat i) (of_nat n))) (\<lambda>(r, bs).
                     bnd (upd_mem (put_mem (P2V pa) bs)) (\<lambda>_.
                       if r \<noteq> int n then ret (-1)
                       else loaduvm_loop pg addr ip offset (i + 4096) sz)))
      else ret 0)"
  by pat_completeness auto

termination
  by (relation "measure (\<lambda>(_, _, _, _, i, sz). sz - i)") auto

declare loaduvm_loop.simps [simp del]

definition loaduvm :: "u32 \<Rightarrow> u32 \<Rightarrow> nat \<Rightarrow> u32 \<Rightarrow> u32 \<Rightarrow> int kop" where
  "loaduvm pg addr ip offset sz =
     (if addr mod PGSIZE \<noteq> 0 then stop (Panic ''loaduvm: addr must be page aligned'')
      else loaduvm_loop pg addr ip offset 0 (unat sz))"

text \<open>
  The loop of \<^verbatim>\<open>exec\<close> over the program headers, on the number left: the size reached, \<open>None\<close> for a jump
  to \<^verbatim>\<open>bad\<close>.
\<close>

primrec load_segments :: "nat \<Rightarrow> u32 \<Rightarrow> nat \<Rightarrow> u32 \<Rightarrow> u32 \<Rightarrow> u32 option kop" where
  "load_segments 0 pg ip off sz = ret (Some sz)"
| "load_segments (Suc i) pg ip off sz =
     bnd (on_fs (readi ip off 32)) (\<lambda>(r, ph).
       if r \<noteq> 32 then ret None
       else if get32 ph 0 \<noteq> 1 then load_segments i pg ip (off + 32) sz
       else let foff = get32 ph 4; vaddr = get32 ph 8; filesz = get32 ph 16; memsz = get32 ph 20
            in if memsz < filesz then ret None
               else if vaddr + memsz < vaddr then ret None
               else bnd (allocuvm pg sz (vaddr + memsz)) (\<lambda>sz.
                 if sz = 0 then ret None
                 else if vaddr mod PGSIZE \<noteq> 0 then ret None
                 else bnd (loaduvm pg vaddr ip foff filesz) (\<lambda>r.
                   if r < 0 then ret None else load_segments i pg ip (off + 32) sz)))"

section \<open>The user stack\<close>

definition MAXARG :: nat where "MAXARG = 32"

text \<open>
  The loop of \<^verbatim>\<open>exec\<close> that pushes the argument strings; \<open>us\<close> are the entries of \<^verbatim>\<open>ustack\<close> set so far.
\<close>

primrec push_args :: "u8 list list \<Rightarrow> u32 \<Rightarrow> u32 \<Rightarrow> u32 list \<Rightarrow> (u32 \<times> u32 list) option kop" where
  "push_args [] pg sp us = ret (Some (sp, us))"
| "push_args (a # as) pg sp us =
     (if length us \<ge> MAXARG then ret None
      else let sp = (sp - of_nat (length a + 1)) AND NOT 3
           in bnd (copyout pg sp (a @ [0])) (\<lambda>r.
                if r < 0 then ret None else push_args as pg sp (us @ [sp])))"

definition words_bytes :: "u32 list \<Rightarrow> u8 list" where
  "words_bytes ws = concat (map (\<lambda>w. put32 0 w (replicate 4 0)) ws)"

text \<open>Two pages above the program, the lower one closed to the user; strings, pointers and the frame of \<^verbatim>\<open>main\<close>.\<close>

definition build_stack :: "u32 \<Rightarrow> u32 \<Rightarrow> u8 list list \<Rightarrow> (u32 \<times> u32) option kop" where
  "build_stack pg sz argv =
     (let sz = PGROUNDUP sz
      in bnd (allocuvm pg sz (sz + 2 * PGSIZE)) (\<lambda>sz.
           if sz = 0 then ret None
           else bnd (\<lambda>k. bindE (clearpteu pg (sz - 2 * PGSIZE) k) (\<lambda>k. Inr ((), k))) (\<lambda>_.
                bnd (push_args argv pg sz []) (\<lambda>r.
                  case r of
                    None \<Rightarrow> ret None
                  | Some (sp, us) \<Rightarrow>
                      let argc = of_nat (length us);
                          ustack = [0xffffffff, argc, sp - (argc + 1) * 4] @ us @ [0];
                          sp = sp - (3 + argc + 1) * 4
                      in bnd (copyout pg sp (words_bytes ustack)) (\<lambda>r.
                           if r < 0 then ret None else ret (Some (sz, sp)))))))"

text \<open>The part of a path behind its last slash.\<close>

definition last_elem :: "u8 list \<Rightarrow> u8 list" where
  "last_elem path = rev (takeWhile (\<lambda>c. c \<noteq> slash) (rev path))"

text \<open>The label \<^verbatim>\<open>bad\<close>; \<open>ip\<close> is the inode while it is still locked.\<close>

definition exec_bad :: "u32 \<Rightarrow> nat option \<Rightarrow> int kop" where
  "exec_bad pg ip =
     bnd (if pg \<noteq> 0 then (\<lambda>k. bindE (freevm pg k) (\<lambda>k. Inr ((), k))) else ret ()) (\<lambda>_.
     bnd (case ip of
            None \<Rightarrow> ret ()
          | Some ip \<Rightarrow> bnd (on_fs (iunlockput ip)) (\<lambda>_. on_fs end_op)) (\<lambda>_. ret (-1)))"

text \<open>Replacing the image of the current process.\<close>

definition exec_commit :: "nat \<Rightarrow> u8 list \<Rightarrow> u32 \<Rightarrow> u32 \<Rightarrow> u32 \<Rightarrow> u32 \<Rightarrow> int kop" where
  "exec_commit p path pg sz sp ent =
     bnd (upd_proc p (set_name (last_elem path))) (\<lambda>_.
     bnd (pfld p (\<lambda>x. (pgdir x, tf x))) (\<lambda>(oldpg, t).
     bnd (upd_proc p (\<lambda>x. x\<lparr>pgdir := pg, psz := sz\<rparr>)) (\<lambda>_.
     bnd (tf_put t tf_eip ent) (\<lambda>_.
     bnd (tf_put t tf_esp sp) (\<lambda>_.
     bnd (pfld p (\<lambda>x. (kstack x, pgdir x))) (\<lambda>kp.
     bnd (\<lambda>k. bindE (switchuvm (Some kp) k) (\<lambda>k. Inr ((), k))) (\<lambda>_.
     bnd (\<lambda>k. bindE (freevm oldpg k) (\<lambda>k. Inr ((), k))) (\<lambda>_. ret 0))))))))"

definition ELF_MAGIC :: u32 where "ELF_MAGIC = 0x464C457F"

definition exec :: "u8 list \<Rightarrow> u8 list list \<Rightarrow> int kop" where
  "exec path argv =
     bnd cur (\<lambda>p.
     bnd (on_fs begin_op) (\<lambda>_.
     bnd cur_cwd (\<lambda>cw.
     bnd (on_fs (namei cw path)) (\<lambda>r.
       case r of
         None \<Rightarrow> bnd (on_fs end_op) (\<lambda>_. ret (-1))
       | Some ip \<Rightarrow>
           bnd (on_fs (ilock ip)) (\<lambda>_.
           bnd (on_fs (readi ip 0 52)) (\<lambda>(r, elf).
             if r \<noteq> 52 then exec_bad 0 (Some ip)
             else if get32 elf 0 \<noteq> ELF_MAGIC then exec_bad 0 (Some ip)
             else bnd setupkvm (\<lambda>pg.
               if pg = 0 then exec_bad 0 (Some ip)
               else bnd (load_segments (unat (get16 elf 44)) pg ip (get32 elf 28) 0) (\<lambda>r.
                 case r of
                   None \<Rightarrow> exec_bad pg (Some ip)
                 | Some sz \<Rightarrow>
                     bnd (on_fs (iunlockput ip)) (\<lambda>_.
                     bnd (on_fs end_op) (\<lambda>_.
                     bnd (build_stack pg sz argv) (\<lambda>r.
                       case r of
                         None \<Rightarrow> exec_bad pg None
                       | Some (sz, sp) \<Rightarrow> exec_commit p path pg sz sp (get32 elf 24))))))))))))"

text \<open>The loop of \<^verbatim>\<open>sys_exec\<close> over the argument pointers, on the number of slots left in \<^verbatim>\<open>argv\<close>.\<close>

primrec fetch_argv :: "nat \<Rightarrow> u32 \<Rightarrow> u8 list list option kop" where
  "fetch_argv 0 ua = ret None"
| "fetch_argv (Suc n) ua =
     bnd (fetchint ua) (\<lambda>r.
       case r of
         None \<Rightarrow> ret None
       | Some uarg \<Rightarrow>
           if uarg = 0 then ret (Some [])
           else bnd (fetchstr uarg) (\<lambda>r.
             case r of
               None \<Rightarrow> ret None
             | Some a \<Rightarrow> bnd (fetch_argv n (ua + 4)) (\<lambda>r. ret (map_option ((#) a) r))))"

definition sys_exec :: "int outcome kop" where
  "sys_exec =
     bnd (argstr 0) (\<lambda>r.
       case r of
         None \<Rightarrow> ret (Done (-1))
       | Some path \<Rightarrow>
           bnd (argint 1) (\<lambda>r.
             case r of
               None \<Rightarrow> ret (Done (-1))
             | Some uargv \<Rightarrow>
                 bnd (fetch_argv MAXARG uargv) (\<lambda>r.
                   case r of
                     None \<Rightarrow> ret (Done (-1))
                   | Some argv \<Rightarrow> bnd (exec path argv) (\<lambda>r. ret (Done r)))))"

section \<open>Dispatch\<close>

definition syscalls :: "(int outcome kop) option list" where
  "syscalls =
     [None, Some sys_fork, Some sys_exit, Some sys_wait, Some sys_pipe, Some sys_read, Some sys_kill,
      Some sys_exec, Some sys_fstat, Some sys_chdir, Some sys_dup, Some sys_getpid, Some sys_sbrk,
      Some sys_sleep, Some sys_uptime, Some sys_open, Some (sys_write 0), Some sys_mknod, Some sys_unlink,
      Some sys_link, Some sys_mkdir, Some sys_close, Some sys_uthread_init]"

text \<open>
  \<^verbatim>\<open>syscall\<close>: a call that has finished leaves its result in \<^verbatim>\<open>eax\<close>; \<open>False\<close> says that the process was put to
  sleep inside the call.
\<close>

definition syscall :: "bool kop" where
  "syscall =
     bnd cur (\<lambda>p.
     bnd (pfld p tf) (\<lambda>t.
     bnd (tf_get t tf_eax) (\<lambda>w.
       let num = sint w
       in case (if num > 0 \<and> num < int (length syscalls) then syscalls ! nat num else None) of
            Some f \<Rightarrow>
              bnd f (\<lambda>r.
                case r of
                  Done v \<Rightarrow> bnd (tf_put t tf_eax (of_int v)) (\<lambda>_. ret True)
                | Blocked _ _ \<Rightarrow> ret False)
          | None \<Rightarrow> bnd (tf_put t tf_eax (- 1)) (\<lambda>_. ret True))))"

section \<open>Traps\<close>

definition T_SYSCALL :: u32 where "T_SYSCALL = 64"
definition T_IRQ0 :: u32 where "T_IRQ0 = 32"
definition IRQ_TIMER :: u32 where "IRQ_TIMER = 0"
definition IRQ_KBD :: u32 where "IRQ_KBD = 1"
definition IRQ_COM1 :: u32 where "IRQ_COM1 = 4"
definition IRQ_IDE :: u32 where "IRQ_IDE = 14"
definition IRQ_SPURIOUS :: u32 where "IRQ_SPURIOUS = 31"

text \<open>
  How far a trap got: \<open>Returned\<close> to the interrupted code, \<open>Gone\<close> in \<^verbatim>\<open>exit\<close>, \<open>Waiting\<close> inside a system call,
  or off the processor in one of the two calls of \<^verbatim>\<open>yield\<close>, after which the trap continues.
\<close>

datatype trap_stop = Returned | Gone | Waiting | Yielded1 | Yielded2

definition user_mode :: "u32 \<Rightarrow> bool kop" where
  "user_mode t = gets (\<lambda>k. load16 (pmem k) (t + tf_cs) AND 3 = 3)"

text \<open>\<^verbatim>\<open>if(myproc() && myproc()->killed && (tf->cs & 3) == DPL_USER) exit();\<close>\<close>

definition exit_if_killed :: "u32 \<Rightarrow> trap_stop kop \<Rightarrow> trap_stop kop" where
  "exit_if_killed t rest =
     bnd (gets curproc) (\<lambda>p.
     bnd (user_mode t) (\<lambda>u.
     bnd (gets (\<lambda>k. case p of None \<Rightarrow> False | Some p \<Rightarrow> killed (proc_at p k))) (\<lambda>kd.
       if kd \<and> u then bnd exit (\<lambda>_. ret Gone) else rest)))"

text \<open>The end of \<^verbatim>\<open>trap\<close>, after the second \<^verbatim>\<open>yield\<close> and after the switch.\<close>

definition trap_tail2 :: "u32 \<Rightarrow> trap_stop kop" where
  "trap_tail2 t = exit_if_killed t (ret Returned)"

definition trap_tail :: "u32 \<Rightarrow> trap_stop kop" where
  "trap_tail t =
     exit_if_killed t (
       bnd (gets curproc) (\<lambda>p.
       bnd (gets (\<lambda>k. case p of None \<Rightarrow> False | Some p \<Rightarrow> pstate (proc_at p k) = RUNNING)) (\<lambda>run.
       bnd (tf_get t tf_trapno) (\<lambda>no.
         if run \<and> no = T_IRQ0 + IRQ_TIMER then bnd yield (\<lambda>_. ret Yielded2) else trap_tail2 t))))"

text \<open>The timer case from the label \<^verbatim>\<open>check_exit\<close> on.\<close>

definition check_exit :: "u32 \<Rightarrow> trap_stop kop" where
  "check_exit t = exit_if_killed t (trap_tail t)"

text \<open>
  The upcall: push the interrupted \<^verbatim>\<open>eip\<close> on the user stack and continue at the registered scheduler. The
  result says whether \<^verbatim>\<open>copyout\<close> succeeded.
\<close>

definition upcall :: "nat \<Rightarrow> u32 \<Rightarrow> bool kop" where
  "upcall p t =
     bnd (tf_get t tf_eip) (\<lambda>original_eip.
     bnd (tf_get t tf_esp) (\<lambda>esp.
     bnd (pfld p (\<lambda>x. (pgdir x, scheduler_fn x))) (\<lambda>(pg, fn).
     bnd (copyout pg (esp - 4) (put32 0 original_eip (replicate 4 0))) (\<lambda>r.
       if r < 0 then bnd (upd_proc p (\<lambda>x. x\<lparr>killed := True\<rparr>)) (\<lambda>_. ret False)
       else bnd (tf_put t tf_esp (esp - 4)) (\<lambda>_.
            bnd (tf_put t tf_eip fn) (\<lambda>_. ret True))))))"

text \<open>\<open>cpu0\<close> says whether the interrupt arrived on the first processor, which keeps the time.\<close>

definition trap_timer :: "bool \<Rightarrow> u32 \<Rightarrow> trap_stop kop" where
  "trap_timer cpu0 t =
     bnd (if cpu0 then bnd (modify (\<lambda>k. k\<lparr>ticks := ticks k + 1\<rparr>)) (\<lambda>_. wakeup ChTicks) else ret ()) (\<lambda>_.
     bnd (gets curproc) (\<lambda>po.
     bnd (user_mode t) (\<lambda>u.
       case po of
         None \<Rightarrow> check_exit t
       | Some p \<Rightarrow>
           bnd (pfld p (\<lambda>x. (pstate x = RUNNING, scheduler_fn x))) (\<lambda>(run, fn).
           bnd (if run \<and> u \<and> fn \<noteq> 0 then upcall p t else ret False) (\<lambda>up.
             if up then check_exit t
             else if run then bnd yield (\<lambda>_. ret Yielded1)
             else check_exit t)))))"

text \<open>
  \<^verbatim>\<open>trap\<close>. \<open>intr\<close> stands for the device interrupt handlers \<^verbatim>\<open>ideintr\<close>, \<^verbatim>\<open>kbdintr\<close>, \<^verbatim>\<open>uartintr\<close> and \<^verbatim>\<open>i8254_intr\<close>, given
  the interrupt number.
\<close>

definition trap :: "(u32 \<Rightarrow> unit kop) \<Rightarrow> bool \<Rightarrow> u32 \<Rightarrow> trap_stop kop" where
  "trap intr cpu0 t =
     bnd (tf_get t tf_trapno) (\<lambda>no.
       if no = T_SYSCALL
       then bnd cur (\<lambda>p.
            bnd (pfld p killed) (\<lambda>kd.
              if kd then bnd exit (\<lambda>_. ret Gone)
              else bnd (upd_proc p (\<lambda>x. x\<lparr>tf := t\<rparr>)) (\<lambda>_.
                   bnd syscall (\<lambda>done.
                     if \<not> done then ret Waiting
                     else bnd (pfld p killed) (\<lambda>kd. if kd then bnd exit (\<lambda>_. ret Gone) else ret Returned)))))
       else if no = T_IRQ0 + IRQ_TIMER then trap_timer cpu0 t
       else if no = T_IRQ0 + IRQ_IDE + 1 then trap_tail t
       else if no = T_IRQ0 + IRQ_IDE \<or> no = T_IRQ0 + IRQ_KBD \<or> no = T_IRQ0 + IRQ_COM1 \<or> no = T_IRQ0 + 0xB
       then bnd (intr no) (\<lambda>_. trap_tail t)
       else if no = T_IRQ0 + IRQ_SPURIOUS then trap_tail t
       else bnd (gets curproc) (\<lambda>po.
            bnd (gets (\<lambda>k. load16 (pmem k) (t + tf_cs) AND 3 = 0)) (\<lambda>kern.
              case po of
                None \<Rightarrow> stop (Panic ''trap'')
              | Some p \<Rightarrow>
                  if kern then stop (Panic ''trap'')
                  else bnd (upd_proc p (\<lambda>x. x\<lparr>killed := True\<rparr>)) (\<lambda>_. trap_tail t))))"

text \<open>What follows when a process that left the processor inside \<^verbatim>\<open>trap\<close> runs again.\<close>

definition trap_resume :: "trap_stop \<Rightarrow> u32 \<Rightarrow> trap_stop kop" where
  "trap_resume st t =
     (case st of Yielded1 \<Rightarrow> check_exit t | Yielded2 \<Rightarrow> trap_tail2 t | _ \<Rightarrow> ret st)"

end
