(* ===== verification/Upcall.thy ===== *)
theory Upcall
  imports Exec
begin

text \<open>
  The timer interrupt that calls the user-level scheduler (\<^verbatim>\<open>xv6/trap.c\<close>): what it leaves on the user stack and in
  the trap frame, and where the interrupted process goes.
\<close>

unbundle bit_operations_syntax

section \<open>Writing to the user stack\<close>

text \<open>The kernel address of the byte that a process sees at \<open>va\<close>.\<close>

definition user_ka :: "mem \<Rightarrow> u32 \<Rightarrow> u32 \<Rightarrow> u32" where
  "user_ka m pg va = P2V (PTE_ADDR (pte_of m pg va)) + (va - PGROUNDDOWN va)"

definition user_page :: "mem \<Rightarrow> u32 \<Rightarrow> u32 \<Rightarrow> bool" where
  "user_page m pg va \<longleftrightarrow> has_table m pg (PDX va) \<and> table_of m pg (PDX va) \<noteq> 0
     \<and> pte_of m pg va AND PTE_P \<noteq> 0 \<and> pte_of m pg va AND PTE_U \<noteq> 0 \<and> P2V (PTE_ADDR (pte_of m pg va)) \<noteq> 0"

lemma PGROUNDDOWN_idem [simp]: "PGROUNDDOWN (PGROUNDDOWN va) = PGROUNDDOWN va"
  by (simp add: word_unat_eq_iff PGROUNDDOWN_unat)

lemma index_rounddown: "PDX (PGROUNDDOWN va) = PDX va" "PTX (PGROUNDDOWN va) = PTX va"
  using same_page_iff [of "PGROUNDDOWN va" va] by auto

lemma uva2ka_user:
  assumes "user_page (pmem s) pg va"
  shows "uva2ka pg (PGROUNDDOWN va) s = Inr (P2V (PTE_ADDR (pte_of (pmem s) pg va)))"
proof -
  have h: "has_table (pmem s) pg (PDX va)" using assms by (simp add: user_page_def)
  have w: "walkpgdir pg (PGROUNDDOWN va) False s = (entry (table_of (pmem s) pg (PDX va)) (PTX va), s)"
    using walkpgdir_present [of s pg "PGROUNDDOWN va"] h by (simp add: index_rounddown)
  have e: "load32 (pmem s) (entry (table_of (pmem s) pg (PDX va)) (PTX va)) = pte_of (pmem s) pg va"
    using h by (simp add: pte_of_def has_table_def)
  have "entry (table_of (pmem s) pg (PDX va)) (PTX va) \<noteq> 0"
    using assms by (intro entry_nonnull) (auto simp: user_page_def table_of_mod PTX_less)
  then show ?thesis using assms w e by (simp add: uva2ka_def user_page_def)
qed

lemma copyout_in_page:
  assumes "user_page (pmem s) pg va" "length src \<le> unat (PGSIZE - (va - PGROUNDDOWN va))"
  shows "copyout pg va src s = Inr (0, s\<lparr>pmem := put_mem (user_ka (pmem s) pg va) src (pmem s)\<rparr>)"
proof (cases "src = []")
  case True
  then show ?thesis by (simp add: copyout.simps [of pg va])
next
  case False
  have "copyout pg va src s = copyout pg (PGROUNDDOWN va + PGSIZE) []
      (s\<lparr>pmem := put_mem (user_ka (pmem s) pg va) src (pmem s)\<rparr>)"
    using False assms uva2ka_user [OF assms(1)]
    by (simp add: copyout.simps [of pg va src] user_ka_def user_page_def min_def Let_def)
  then show ?thesis by (simp add: copyout.simps [of pg _ "[]"])
qed

lemma put_mem_word: "put_mem a (put32 0 v (replicate 4 0)) m = store32 m a v"
proof -
  have "put32 0 v (replicate 4 0) = [ucast v, ucast (drop_bit 8 v), ucast (drop_bit 16 v), ucast (drop_bit 24 v)]"
    by (simp add: put32_def numeral_eq_Suc)
  then show ?thesis by (simp add: store32_def add.assoc)
qed

lemma aligned_fits:
  assumes "va mod 4 = 0"
  shows "4 \<le> unat (PGSIZE - (va - PGROUNDDOWN va))"
proof -
  have "unat (va mod 4) = 0" using assms by simp
  then have "unat va mod 4 = 0" by (simp add: unat_mod_distrib)
  then have "unat va mod 4096 mod 4 = 0" by (simp add: mod_mod_cancel)
  then obtain q where "unat va mod 4096 = 4 * q" by (auto simp: mod_eq_0_iff_dvd dvd_def)
  moreover have "unat va mod 4096 < 4096" by simp
  ultimately have "unat va mod 4096 \<le> 4092" by simp
  moreover have "unat (PGSIZE - (va - PGROUNDDOWN va)) = 4096 - unat va mod 4096"
    using page_offset [of va] by (subst unat_sub) (auto simp: page_offset_unat PGSIZE_def)
  ultimately show ?thesis by simp
qed

lemma aligned_below:
  assumes "(x :: u32) mod 4 = 0"
  shows "(x - 4) mod 4 = 0"
proof (cases "x = 0")
  case False
  have "unat (x mod 4) = 0" using assms by simp
  then have x: "unat x mod 4 = 0" by (simp add: unat_mod_distrib)
  then have "4 \<le> unat x" using False by (metis mod_less not_le unat_eq_zero)
  then have "unat (x - 4) = unat x - 4" by (subst unat_sub) (simp_all add: word_le_nat_alt)
  then have "unat ((x - 4) mod 4) = 0" using x \<open>4 \<le> unat x\<close> by (simp add: unat_mod_distrib le_mod_geq)
  then show ?thesis by (simp add: unat_eq_zero)
qed simp

section \<open>The upcall\<close>

definition upcall_mem :: "u32 \<Rightarrow> u32 \<Rightarrow> u32 \<Rightarrow> mem \<Rightarrow> mem" where
  "upcall_mem pg fn t m =
     (let esp = load32 m (t + tf_esp) - 4; ka = user_ka m pg esp
      in store32 (store32 (store32 m ka (load32 m (t + tf_eip))) (t + tf_esp) esp) (t + tf_eip) fn)"

lemma upcall_runs:
  fixes k :: kernel
  assumes "load32 (pmem k) (t + tf_esp) mod 4 = 0"
    "user_page (pmem k) (pgdir (proc_at p k)) (load32 (pmem k) (t + tf_esp) - 4)"
  shows "upcall p t k = Inr (True, k\<lparr>pmem := upcall_mem (pgdir (proc_at p k)) (scheduler_fn (proc_at p k)) t (pmem k)\<rparr>)"
proof -
  let ?esp = "load32 (pmem k) (t + tf_esp)"
  have "(?esp - 4) mod 4 = 0" by (rule aligned_below [OF assms(1)])
  then have fits: "length (put32 0 v (replicate 4 0)) \<le> unat (PGSIZE - (?esp - 4 - PGROUNDDOWN (?esp - 4)))" for v
    using aligned_fits [of "?esp - 4"] by (simp add: put32_def)
  have "copyout (pgdir (proc_at p k)) (?esp - 4) (put32 0 (load32 (pmem k) (t + tf_eip)) (replicate 4 0)) k
      = Inr (0, k\<lparr>pmem := store32 (pmem k) (user_ka (pmem k) (pgdir (proc_at p k)) (?esp - 4)) (load32 (pmem k) (t + tf_eip))\<rparr>)"
    using copyout_in_page [OF assms(2) fits] by (simp only: put_mem_word)
  then show ?thesis
    by (simp add: upcall_def tf_get_def tf_put_def pfld_def upd_mem_def upcall_mem_def Let_def)
qed

lemma frame_cells:
  "cell (t + tf_eip) \<inter> cell (t + tf_esp) = {}" "cell (t + tf_trapno) \<inter> cell (t + tf_esp) = {}"
  "cell (t + tf_trapno) \<inter> cell (t + tf_eip) = {}"
  "t + tf_cs \<notin> cell (t + tf_esp) \<union> cell (t + tf_eip)" "t + tf_cs + 1 \<notin> cell (t + tf_esp) \<union> cell (t + tf_eip)"
  by (auto simp: cell_def tf_eip_def tf_esp_def tf_trapno_def tf_cs_def add.assoc)

lemma frame_fields:
  "cell (t + tf_eip) \<subseteq> block_at t 76" "cell (t + tf_esp) \<subseteq> block_at t 76" "cell (t + tf_trapno) \<subseteq> block_at t 76"
  "t + tf_cs \<in> block_at t 76" "t + tf_cs + 1 \<in> block_at t 76"
proof -
  have b: "t + of_nat i \<in> block_at t 76" if "i < 76" for i using that by (auto simp: block_at_def)
  show "cell (t + tf_eip) \<subseteq> block_at t 76" "cell (t + tf_esp) \<subseteq> block_at t 76" "cell (t + tf_trapno) \<subseteq> block_at t 76"
    "t + tf_cs \<in> block_at t 76" "t + tf_cs + 1 \<in> block_at t 76"
    using b [of 56] b [of 57] b [of 58] b [of 59] b [of 68] b [of 69] b [of 70] b [of 71] b [of 48] b [of 49] b [of 50] b [of 51]
      b [of 60] b [of 61]
    by (simp_all add: cell_def tf_eip_def tf_esp_def tf_trapno_def tf_cs_def add.assoc)
qed

text \<open>What the upcall leaves in memory.\<close>

lemma upcall_mem_fields:
  assumes "block_at t 76 \<inter> cell (user_ka m pg (load32 m (t + tf_esp) - 4)) = {}"
  shows "load32 (upcall_mem pg fn t m) (t + tf_eip) = fn"
    "load32 (upcall_mem pg fn t m) (t + tf_esp) = load32 m (t + tf_esp) - 4"
    "load32 (upcall_mem pg fn t m) (user_ka m pg (load32 m (t + tf_esp) - 4)) = load32 m (t + tf_eip)"
    "load32 (upcall_mem pg fn t m) (t + tf_trapno) = load32 m (t + tf_trapno)"
    "load16 (upcall_mem pg fn t m) (t + tf_cs) = load16 m (t + tf_cs)"
    "x \<notin> cell (user_ka m pg (load32 m (t + tf_esp) - 4)) \<union> cell (t + tf_esp) \<union> cell (t + tf_eip) \<Longrightarrow>
      upcall_mem pg fn t m x = m x"
proof -
  let ?ka = "user_ka m pg (load32 m (t + tf_esp) - 4)"
  note c = frame_cells [of t] and f = frame_fields [of t]
  have d: "cell ?ka \<inter> cell (t + tf_eip) = {}" "cell ?ka \<inter> cell (t + tf_esp) = {}" "cell (t + tf_trapno) \<inter> cell ?ka = {}"
    "t + tf_cs \<notin> cell ?ka" "t + tf_cs + 1 \<notin> cell ?ka"
    using assms f by blast+
  have c': "cell (t + tf_esp) \<inter> cell (t + tf_eip) = {}" using c(1) by blast
  show "load32 (upcall_mem pg fn t m) (t + tf_eip) = fn" by (simp add: upcall_mem_def Let_def)
  show "load32 (upcall_mem pg fn t m) (t + tf_esp) = load32 m (t + tf_esp) - 4"
    by (simp add: upcall_mem_def Let_def load32_store32_other [OF c'])
  show "load32 (upcall_mem pg fn t m) ?ka = load32 m (t + tf_eip)"
    by (simp add: upcall_mem_def Let_def load32_store32_other [OF d(1)] load32_store32_other [OF d(2)])
  show "load32 (upcall_mem pg fn t m) (t + tf_trapno) = load32 m (t + tf_trapno)"
    by (simp add: upcall_mem_def Let_def load32_store32_other [OF d(3)] load32_store32_other [OF c(2)] load32_store32_other [OF c(3)])
  show "load16 (upcall_mem pg fn t m) (t + tf_cs) = load16 m (t + tf_cs)"
    using c(4,5) d(4,5) by (simp add: upcall_mem_def Let_def load16_def store32_outside)
  show "upcall_mem pg fn t m x = m x" if "x \<notin> cell ?ka \<union> cell (t + tf_esp) \<union> cell (t + tf_eip)"
    using that by (simp add: upcall_mem_def Let_def store32_outside)
qed

lemma exit_if_not_killed:
  assumes "curproc k = Some p" "\<not> killed (proc_at p k)"
  shows "exit_if_killed t rest k = rest k"
  using assms by (simp add: exit_if_killed_def user_mode_def)

lemma wakeup_keeps_running:
  assumes "p < length (ptable k)" "pstate (proc_at p k) = RUNNING"
  shows "\<exists>pt. wakeup ch k = Inr ((), k\<lparr>ptable := pt\<rparr>) \<and> length pt = length (ptable k) \<and> pt ! p = ptable k ! p"
  using assms
  by (intro exI [of _ "map (\<lambda>p. if pstate p = SLEEPING \<and> chan p = ch then p\<lparr>pstate := RUNNABLE\<rparr> else p) (ptable k)"])
     (simp add: wakeup_def wakeup1_def proc_at_def)

text \<open>
  Claim C20. A timer interrupt in a user process that has registered a scheduler, is not killed and has an aligned
  stack in its memory: the interrupted instruction pointer is pushed on the user stack and execution will
  resume at the scheduler with the stack pointer below it. Nothing else of the process is saved or changed,
  and the process gives up the processor all the same: the \<^verbatim>\<open>goto\<close> around the first \<^verbatim>\<open>yield\<close> does not avoid
  the one at the end of \<^verbatim>\<open>trap\<close>.
\<close>

theorem timer_upcall:
  fixes k :: kernel
  assumes cur: "curproc k = Some p" "p < length (ptable k)" "pstate (proc_at p k) = RUNNING"
    and sch: "scheduler_fn (proc_at p k) \<noteq> 0" "\<not> killed (proc_at p k)"
    and frame: "load16 (pmem k) (t + tf_cs) AND 3 = 3" "load32 (pmem k) (t + tf_trapno) = T_IRQ0 + IRQ_TIMER"
    and stack: "load32 (pmem k) (t + tf_esp) mod 4 = 0"
      "user_page (pmem k) (pgdir (proc_at p k)) (load32 (pmem k) (t + tf_esp) - 4)"
    and sep: "block_at t 76 \<inter> cell (user_ka (pmem k) (pgdir (proc_at p k)) (load32 (pmem k) (t + tf_esp) - 4)) = {}"
  shows "\<exists>k'. trap intr bsp t k = Inr (Yielded2, k') \<and> curproc k' = None \<and> pstate (proc_at p k') = RUNNABLE
    \<and> load32 (pmem k') (t + tf_eip) = scheduler_fn (proc_at p k)
    \<and> load32 (pmem k') (t + tf_esp) = load32 (pmem k) (t + tf_esp) - 4
    \<and> load32 (pmem k') (user_ka (pmem k) (pgdir (proc_at p k)) (load32 (pmem k) (t + tf_esp) - 4)) = load32 (pmem k) (t + tf_eip)
    \<and> (\<forall>x. x \<notin> cell (user_ka (pmem k) (pgdir (proc_at p k)) (load32 (pmem k) (t + tf_esp) - 4))
          \<union> cell (t + tf_esp) \<union> cell (t + tf_eip) \<longrightarrow> pmem k' x = pmem k x)"
proof -
  let ?x = "proc_at p k"
  define tick :: "unit kop" where
    "tick = (if bsp then bnd (modify (\<lambda>k. k\<lparr>ticks := ticks k + 1\<rparr>)) (\<lambda>_. wakeup ChTicks) else ret ())"
  have "\<exists>tk pt. tick k = Inr ((), k\<lparr>ticks := tk, ptable := pt\<rparr>) \<and> length pt = length (ptable k) \<and> pt ! p = ?x"
  proof (cases bsp)
    case True
    obtain pt where "wakeup ChTicks (k\<lparr>ticks := ticks k + 1\<rparr>) = Inr ((), k\<lparr>ticks := ticks k + 1, ptable := pt\<rparr>)"
      "length pt = length (ptable k)" "pt ! p = ?x"
      using wakeup_keeps_running [of p "k\<lparr>ticks := ticks k + 1\<rparr>" ChTicks] cur(2,3) by (auto simp: proc_at_def)
    then show ?thesis using True by (intro exI [of _ "ticks k + 1"] exI [of _ pt]) (simp add: tick_def)
  next
    case False
    then show ?thesis by (intro exI [of _ "ticks k"] exI [of _ "ptable k"]) (simp add: tick_def proc_at_def)
  qed
  then obtain tk pt where tick: "tick k = Inr ((), k\<lparr>ticks := tk, ptable := pt\<rparr>)" "length pt = length (ptable k)" "pt ! p = ?x"
    by blast
  define k1 where "k1 = k\<lparr>ticks := tk, ptable := pt\<rparr>"
  have k1: "curproc k1 = Some p" "proc_at p k1 = ?x" "pmem k1 = pmem k" "p < length (ptable k1)"
    using cur tick by (simp_all add: k1_def proc_at_def)
  define m where "m = upcall_mem (pgdir ?x) (scheduler_fn ?x) t (pmem k)"
  note M = upcall_mem_fields [OF sep, where fn = "scheduler_fn ?x", folded m_def]
  have up: "upcall p t k1 = Inr (True, k1\<lparr>pmem := m\<rparr>)"
    using upcall_runs [of k1 t p] stack by (simp add: k1(2,3) m_def)
  let ?k2 = "k1\<lparr>pmem := m\<rparr>"
  have k2: "curproc ?k2 = Some p" "proc_at p ?k2 = ?x" using k1 by (simp_all add: proc_at_def)
  have timer: "trap_timer bsp t k = check_exit t ?k2"
    unfolding trap_timer_def tick_def [symmetric]
    using tick(1) k1 up cur(3) sch(1) frame(1) by (simp add: k1_def [symmetric] user_mode_def pfld_def)
  have yl: "yield ?k2 = Inr ((), (switchkvm (?k2\<lparr>ptable := (ptable k1)[p := ?x\<lparr>pstate := RUNNABLE\<rparr>]\<rparr>))\<lparr>curproc := None\<rparr>)"
    using k2(1) k1(2,4) by (simp add: yield_def cur_def upd_proc_def sched_def pfld_def proc_at_def)
  have "trap intr bsp t k = check_exit t ?k2"
    using frame(2) timer by (simp add: trap_def tf_get_def T_IRQ0_def IRQ_TIMER_def T_SYSCALL_def)
  also have "\<dots> = Inr (Yielded2, (switchkvm (?k2\<lparr>ptable := (ptable k1)[p := ?x\<lparr>pstate := RUNNABLE\<rparr>]\<rparr>))\<lparr>curproc := None\<rparr>)"
    using k2 sch(2) cur(3) frame(2) M(4) yl
    by (simp add: check_exit_def trap_tail_def exit_if_not_killed tf_get_def)
  finally show ?thesis using M k1(4) by (simp add: switchkvm_def proc_at_def)
qed

text \<open>A process whose stack page is mapped at 0, stopped with its stack pointer at the end of that page.\<close>

definition upcall_demo_mem :: mem where
  "upcall_demo_mem =
     (let m = store32 (\<lambda>_. 0) 0x80001000 0x2007;
          m = store32 m 0x80002000 0x3007;
          m = store32 m (0x80005000 + tf_esp) 0x1000;
          m = store32 m (0x80005000 + tf_trapno) 32;
          m = store32 m (0x80005000 + tf_eip) 0x123
      in store16 m (0x80005000 + tf_cs) 0x1B)"

definition upcall_demo_proc :: proc where
  "upcall_demo_proc = \<lparr>psz = 0x1000, pgdir = 0x80001000, kstack = 0x80005000, pstate = RUNNING, pid = 3, parent = None,
     tf = 0x80005000, pcontext = 0, chan = ChNone, killed = False, ofile = [], cwd = None, pname = [], scheduler_fn = 0x40\<rparr>"

lemma upcall_demo_facts:
  "load32 upcall_demo_mem (0x80005000 + tf_esp) = 0x1000" "load32 upcall_demo_mem (0x80005000 + tf_trapno) = 32"
  "load32 upcall_demo_mem (0x80005000 + tf_eip) = 0x123" "load16 upcall_demo_mem (0x80005000 + tf_cs) = 0x1B"
  "user_page upcall_demo_mem 0x80001000 0xFFC" "user_ka upcall_demo_mem 0x80001000 0xFFC = 0x80003FFC"
  by code_simp+

theorem timer_upcall_witness:
  "\<exists>(k :: kernel) k'. curproc k = Some 0 \<and> ptable k = [upcall_demo_proc] \<and> pmem k = upcall_demo_mem
    \<and> trap (\<lambda>_. ret ()) True 0x80005000 k = Inr (Yielded2, k')
    \<and> load32 (pmem k') (0x80005000 + tf_eip) = 0x40 \<and> load32 (pmem k') 0x80003FFC = 0x123"
proof -
  define k :: kernel where "k = undefined\<lparr>pmem := upcall_demo_mem, ptable := [upcall_demo_proc], curproc := Some 0\<rparr>"
  note d = upcall_demo_facts
  have k: "curproc k = Some 0" "ptable k = [upcall_demo_proc]" "pmem k = upcall_demo_mem" "proc_at 0 k = upcall_demo_proc"
    by (simp_all add: k_def proc_at_def)
  have sep: "block_at (0x80005000 :: u32) 76 \<inter> cell 0x80003FFC = {}"
    by (auto simp: cell_def block_at_word_iff [of 76])
  have "\<exists>k'. trap (\<lambda>_. ret ()) True 0x80005000 k = Inr (Yielded2, k')
    \<and> load32 (pmem k') (0x80005000 + tf_eip) = 0x40 \<and> load32 (pmem k') 0x80003FFC = 0x123"
    using timer_upcall [where k = k and p = 0 and t = "0x80005000" and intr = "\<lambda>_. ret ()" and bsp = True] d sep unfolding k
    by (auto simp: upcall_demo_proc_def T_IRQ0_def IRQ_TIMER_def)
  then show ?thesis using k by blast
qed

end
