(* ===== verification/Schedule.thy ===== *)
theory Schedule
  imports Proc
begin

text \<open>
  Properties of the process scheduler and of the wake-up paths of \<^verbatim>\<open>xv6/proc.c\<close>.
\<close>

section \<open>Round robin\<close>

text \<open>
  One pass of the scheduler that does not pick \<open>q\<close>, and what the machine does until the next one: anything that
  leaves the loop variable alone and \<open>q\<close> runnable.
\<close>

definition passed_over :: "nat \<Rightarrow> kernel \<Rightarrow> kernel \<Rightarrow> bool" where
  "passed_over q k k' \<longleftrightarrow> scheduler_pick k \<noteq> Some q \<and> pstate (proc_at q k) = RUNNABLE
     \<and> (\<exists>k1. scheduler k = Inr ((), k1) \<and> sched_pos k' = sched_pos k1)
     \<and> pstate (proc_at q k') = RUNNABLE"

text \<open>How many passes are left before \<open>q\<close> has to be picked.\<close>

definition passes_left :: "nat \<Rightarrow> nat \<Rightarrow> nat" where
  "passes_left q pos = (if pos \<le> q then q - pos else NPROC + 1 - pos + q)"

lemma find_upt_Some:
  "List.find P [a..<b] = Some i \<longleftrightarrow> a \<le> i \<and> i < b \<and> P i \<and> (\<forall>j. a \<le> j \<longrightarrow> j < i \<longrightarrow> \<not> P j)"
  (is "?l \<longleftrightarrow> ?r")
proof
  assume ?l
  then obtain n where n: "n < b - a" "i = a + n" "P (a + n)" "\<forall>m<n. \<not> P (a + m)"
    by (auto simp: find_Some_iff)
  have "\<not> P j" if "a \<le> j" "j < i" for j using n(4) [rule_format, of "j - a"] that n(2) by simp
  then show ?r using n by auto
next
  assume ?r
  then show ?l by (auto simp: find_Some_iff intro!: exI [of _ "i - a"])
qed

lemma find_upt_None: "List.find P [a..<b] = None \<longleftrightarrow> (\<forall>i. a \<le> i \<longrightarrow> i < b \<longrightarrow> \<not> P i)"
  by (auto simp: find_None_iff)

lemma scheduler_pos:
  assumes "scheduler k = Inr ((), k')"
  shows "sched_pos k' = (case scheduler_pick k of None \<Rightarrow> 0 | Some p \<Rightarrow> p + 1)"
proof (cases "scheduler_pick k")
  case None
  then show ?thesis using assms by (auto simp: scheduler_def)
next
  case (Some p)
  let ?k = "k\<lparr>curproc := Some p, sched_pos := p + 1\<rparr>" and ?x = "proc_at p k"
  have x: "proc_at p (k\<lparr>curproc := Some p, sched_pos := Suc p\<rparr>) = ?x" by (simp add: proc_at_def)
  obtain k1 where k1: "switchuvm (Some (kstack ?x, pgdir ?x)) ?k = Inr k1"
      "k' = k1\<lparr>ptable := (ptable k1)[p := (ptable k1 ! p)\<lparr>pstate := RUNNING\<rparr>]\<rparr>"
    using assms Some
    by (auto simp: scheduler_def bnd_eq_Inr_iff bindE_eq_Inr_iff upd_proc_def x)
  then have "sched_pos k1 = p + 1" by (auto simp: switchuvm_def split: if_splits)
  then show ?thesis using Some k1(2) by simp
qed

lemma passed_over_decreases:
  assumes "passed_over q k k'" "q < NPROC" "sched_pos k \<le> NPROC"
  shows "passes_left q (sched_pos k') < passes_left q (sched_pos k)" "sched_pos k' \<le> NPROC"
proof -
  have r: "pstate (proc_at q k) = RUNNABLE" "scheduler_pick k \<noteq> Some q" using assms(1) by (auto simp: passed_over_def)
  have pos: "sched_pos k' = (case scheduler_pick k of None \<Rightarrow> 0 | Some p \<Rightarrow> p + 1)"
    using assms(1) scheduler_pos by (auto simp: passed_over_def)
  have "passes_left q (sched_pos k') < passes_left q (sched_pos k) \<and> sched_pos k' \<le> NPROC"
  proof (cases "scheduler_pick k")
    case None
    then have "q < sched_pos k" using r(1) assms(2) by (auto simp: scheduler_pick_def find_upt_None not_less[symmetric])
    then show ?thesis using None pos assms(3) by (simp add: passes_left_def)
  next
    case (Some p)
    then have p: "sched_pos k \<le> p" "p < NPROC" "p \<noteq> q" "\<not> (sched_pos k \<le> q \<and> q < p)"
      using r by (auto simp: scheduler_pick_def find_upt_Some)
    then show ?thesis using Some pos by (auto simp: passes_left_def)
  qed
  then show "passes_left q (sched_pos k') < passes_left q (sched_pos k)" "sched_pos k' \<le> NPROC" by auto
qed

lemma passed_over_chain:
  "(passed_over q ^^ n) k k' \<Longrightarrow> q < NPROC \<Longrightarrow> sched_pos k \<le> NPROC \<Longrightarrow>
    n + passes_left q (sched_pos k') \<le> passes_left q (sched_pos k) \<and> sched_pos k' \<le> NPROC"
proof (induction n arbitrary: k')
  case (Suc n)
  then obtain k1 where k1: "(passed_over q ^^ n) k k1" "passed_over q k1 k'" by auto
  then show ?case using Suc.IH [OF k1(1)] Suc.prems(2,3) passed_over_decreases [OF k1(2)] by fastforce
qed simp

text \<open>
  Claim C21. The process scheduler is fair: a process that stays runnable is passed over at most \<^verbatim>\<open>NPROC\<close> times in a row,
  whatever the other processes do in between, and if it was passed over that often it is the next one picked.
\<close>

theorem scheduler_bounded_waiting:
  assumes "q < NPROC" "sched_pos k \<le> NPROC" "(passed_over q ^^ n) k k'"
  shows "n \<le> NPROC \<and> (n = NPROC \<longrightarrow> scheduler_pick k' = Some q)"
proof -
  have c: "n + passes_left q (sched_pos k') \<le> passes_left q (sched_pos k)" "sched_pos k' \<le> NPROC"
    using passed_over_chain [OF assms(3,1,2)] by auto
  have le: "passes_left q (sched_pos k) \<le> NPROC" using assms(1,2) by (auto simp: passes_left_def)
  have "scheduler_pick k' = Some q" if full: "n = NPROC"
  proof -
    have pos: "sched_pos k' = q" using c le full assms(1) by (auto simp: passes_left_def split: if_splits)
    have "n \<noteq> 0" using full by (simp add: NPROC_def)
    then obtain m where "n = Suc m" by (cases n) auto
    then have "pstate (proc_at q k') = RUNNABLE" using assms(3) by (auto simp: passed_over_def)
    then show ?thesis using pos assms(1) by (auto simp: scheduler_pick_def find_upt_Some)
  qed
  then show ?thesis using c(1) le by auto
qed

definition idle_proc :: proc where
  "idle_proc = \<lparr>psz = 0, pgdir = 0x80001000, kstack = 0x80002000, pstate = UNUSED, pid = 0, parent = None,
     tf = 0, pcontext = 0, chan = ChNone, killed = False, ofile = [], cwd = None, pname = [], scheduler_fn = 0\<rparr>"

theorem scheduler_bounded_waiting_witness:
  "\<exists>k k'. (passed_over 1 ^^ 1) k k' \<and> scheduler_pick k = Some 0 \<and> scheduler_pick k' = Some 1 \<and> 1 \<le> NPROC"
proof -
  define k :: kernel where "k = undefined\<lparr>ptable := (replicate NPROC idle_proc)
    [0 := idle_proc\<lparr>pstate := RUNNABLE\<rparr>, 1 := idle_proc\<lparr>pstate := RUNNABLE\<rparr>], sched_pos := 0\<rparr>"
  have p: "proc_at 0 k = idle_proc\<lparr>pstate := RUNNABLE\<rparr>" "proc_at 1 k = idle_proc\<lparr>pstate := RUNNABLE\<rparr>"
    by (simp_all add: k_def proc_at_def NPROC_def)
  have pick: "scheduler_pick k = Some 0" using p by (simp add: scheduler_pick_def find_upt_Some k_def NPROC_def)
  obtain k' where k': "scheduler k = Inr ((), k')" "proc_at 1 k' = proc_at 1 k" "sched_pos k' = 1"
    using p by (simp add: scheduler_def pick switchuvm_def idle_proc_def upd_proc_def proc_at_def)
  have one: "(passed_over 1 ^^ 1) k k'" using k' p pick by (auto simp: passed_over_def)
  have "1 \<le> NPROC" using scheduler_bounded_waiting [OF _ _ one] by (auto simp: NPROC_def k_def)
  moreover have "scheduler_pick k' = Some 1" using k' p by (simp add: scheduler_pick_def find_upt_Some NPROC_def)
  ultimately show ?thesis using one pick by blast
qed

section \<open>Process slots\<close>

interpretation free_slot: first_fit "\<lambda>k. List.find (\<lambda>p. pstate (proc_at p k) = UNUSED) [0..<NPROC]"
  "\<lambda>k p. pstate (proc_at p k) = UNUSED" NPROC
  by unfold_locales simp

interpretation pid_slot: first_fit "\<lambda>(n, k). List.find (\<lambda>p. pid (proc_at p k) = n) [0..<NPROC]"
  "\<lambda>(n, k) p. pid (proc_at p k) = n" NPROC
  by unfold_locales auto

text \<open>What \<^verbatim>\<open>allocproc\<close> writes into the slot it takes; every other field keeps what the last owner left there.\<close>

lemma allocproc_slot:
  assumes "List.find (\<lambda>p. pstate (proc_at p k) = UNUSED) [0..<NPROC] = Some p" "p < length (ptable k)" "freelist k \<noteq> 0"
  shows "\<exists>k'. allocproc k = Inr (Some p, k') \<and> nextpid k' = sint (word_of_int (nextpid k + 1) :: u32)
    \<and> ptable k' = (ptable k)[p := (ptable k ! p)\<lparr>pstate := EMBRYO, pid := nextpid k, scheduler_fn := 0,
         kstack := freelist k, tf := freelist k + KSTACKSIZE - TF_SIZE,
         pcontext := freelist k + KSTACKSIZE - TF_SIZE - 4 - 20\<rparr>]"
  using assms
  by (simp add: allocproc_def proc_at_def upd_proc_def kalloc_op_def upd_mem_def kalloc_def Let_def algebra_simps)

text \<open>
  \<^verbatim>\<open>kill(0)\<close> hits a free slot: when exactly the free slots carry pid 0, it reports success although no process has
  that pid, and leaves its mark in the slot that \<^verbatim>\<open>allocproc\<close> takes next, so that the next process is born killed.
\<close>

theorem kill_zero_marks_next_process:
  assumes "length (ptable k) = NPROC" "freelist k \<noteq> 0"
    and "\<forall>p < NPROC. pid (proc_at p k) = 0 \<longleftrightarrow> pstate (proc_at p k) = UNUSED"
    and "p < NPROC" "pstate (proc_at p k) = UNUSED"
  shows "\<exists>k1 k2 q. kill 0 k = Inr (0, k1) \<and> allocproc k1 = Inr (Some q, k2)
    \<and> pid (proc_at q k2) = nextpid k \<and> killed (proc_at q k2)"
proof -
  obtain q where q: "List.find (\<lambda>p. pstate (proc_at p k) = UNUSED) [0..<NPROC] = Some q"
    using free_slot.pick_total [OF assms(4,5)] by auto
  then have u: "q < NPROC" "pstate (proc_at q k) = UNUSED" "\<forall>j<q. pstate (proc_at j k) \<noteq> UNUSED"
    by (auto simp: free_slot.pick_Some_iff)
  have "(case (0, k) of (n, k) \<Rightarrow> List.find (\<lambda>p. pid (proc_at p k) = n) [0..<NPROC]) = Some q"
    unfolding pid_slot.pick_Some_iff using u assms(3) by auto
  then have f: "List.find (\<lambda>p. pid (proc_at p k) = 0) [0..<NPROC] = Some q" by simp
  let ?k1 = "k\<lparr>ptable := (ptable k)[q := (ptable k ! q)\<lparr>killed := True\<rparr>]\<rparr>"
  have kill: "kill 0 k = Inr (0, ?k1)"
    using u(1,2) assms(1) unfolding kill_def f by (simp add: upd_proc_def pfld_def proc_at_def)
  have "List.find (\<lambda>p. pstate (proc_at p ?k1) = UNUSED) [0..<NPROC] = Some q"
    unfolding free_slot.pick_Some_iff using u assms(1) by (auto simp: proc_at_def nth_list_update)
  from allocproc_slot [OF this] obtain k2 where "allocproc ?k1 = Inr (Some q, k2)"
      "ptable k2 ! q = (ptable k ! q)\<lparr>killed := True, pstate := EMBRYO, pid := nextpid k, scheduler_fn := 0,
         kstack := freelist k, tf := freelist k + KSTACKSIZE - TF_SIZE,
         pcontext := freelist k + KSTACKSIZE - TF_SIZE - 4 - 20\<rparr>"
    using u(1) assms(1,2) by auto
  then show ?thesis using kill by (fastforce simp: proc_at_def)
qed

theorem kill_zero_marks_next_process_witness:
  "\<exists>k. ptable k = replicate NPROC idle_proc \<and> freelist k = 0x80010000
    \<and> (\<exists>k1 k2 q. kill 0 k = Inr (0, k1) \<and> allocproc k1 = Inr (Some q, k2)
        \<and> pid (proc_at q k2) = nextpid k \<and> killed (proc_at q k2))"
proof -
  define k :: kernel where "k = undefined\<lparr>freelist := 0x80010000, ptable := replicate NPROC idle_proc\<rparr>"
  have "\<exists>k1 k2 q. kill 0 k = Inr (0, k1) \<and> allocproc k1 = Inr (Some q, k2)
        \<and> pid (proc_at q k2) = nextpid k \<and> killed (proc_at q k2)"
    by (rule kill_zero_marks_next_process [where p = 0]) (simp_all add: k_def proc_at_def idle_proc_def NPROC_def)
  moreover have "ptable k = replicate NPROC idle_proc" "freelist k = 0x80010000" by (simp_all add: k_def)
  ultimately show ?thesis by blast
qed

end
