(* ===== verification/Shell.thy ===== *)
theory Shell
  imports Userlib
begin

text \<open>
  The command line parser of the shell (\<^verbatim>\<open>xv6/sh.c\<close>). A pointer into the line is an index; the line is given without its
  terminating NUL, so that reading at its length (\<^verbatim>\<open>es\<close>) gives the NUL. The pairs in a command are the
  start and the end of a word, as \<^verbatim>\<open>argv\<close>/\<^verbatim>\<open>eargv\<close> and \<^verbatim>\<open>file\<close>/\<^verbatim>\<open>efile\<close>. \<^verbatim>\<open>malloc\<close> is taken to succeed.
\<close>

section \<open>Commands\<close>

definition MAXARGS :: nat where "MAXARGS = 10"

type_synonym span = "nat \<times> nat"

datatype cmd =
    EXEC "span list"
  | REDIR cmd span int int
  | PIPE cmd cmd
  | LIST cmd cmd
  | BACK cmd

definition whitespace :: string where
  "whitespace = [CHR '' '', CHR 0x09, CHR 0x0D, CHR 0x0A, CHR 0x0B]"

definition symbols :: string where
  "symbols = ''<|>&;()''"

definition at :: "string \<Rightarrow> nat \<Rightarrow> char" where
  "at b i = (if i < length b then b ! i else CHR 0x00)"

text \<open>The truth value of \<^verbatim>\<open>strchr\<close>.\<close>

definition occurs :: "string \<Rightarrow> char \<Rightarrow> bool" where
  "occurs t c \<longleftrightarrow> strchr t c \<noteq> None"

section \<open>Tokens\<close>

function skip_while :: "(char \<Rightarrow> bool) \<Rightarrow> string \<Rightarrow> nat \<Rightarrow> nat" where
  "skip_while P b s = (if s < length b \<and> P (at b s) then skip_while P b (s + 1) else s)"
  by pat_completeness auto
termination
  by (relation "measure (\<lambda>(P, b, s). length b - s)") auto

declare skip_while.simps [simp del]

definition skip_space :: "string \<Rightarrow> nat \<Rightarrow> nat" where
  "skip_space b s = skip_while (occurs whitespace) b s"

definition word_end :: "string \<Rightarrow> nat \<Rightarrow> nat" where
  "word_end b s = skip_while (\<lambda>c. \<not> occurs whitespace c \<and> \<not> occurs symbols c) b s"

text \<open>\<^verbatim>\<open>gettoken\<close>: the token, the span of its text and the new position.\<close>

definition gettoken :: "string \<Rightarrow> nat \<Rightarrow> char \<times> span \<times> nat" where
  "gettoken b s =
     (let q = skip_space b s;
          c = at b q;
          (tok, eq) =
            (if c = CHR 0x00 then (c, q)
             else if c \<in> {CHR ''|'', CHR ''('', CHR '')'', CHR '';'', CHR ''&'', CHR ''<''} then (c, q + 1)
             else if c = CHR ''>''
             then if at b (q + 1) = CHR ''>'' then (CHR ''+'', q + 2) else (c, q + 1)
             else (CHR ''a'', word_end b q))
      in (tok, (q, eq), skip_space b eq))"

definition peek :: "string \<Rightarrow> string \<Rightarrow> nat \<Rightarrow> bool \<times> nat" where
  "peek toks b s =
     (let s = skip_space b s in (at b s \<noteq> CHR 0x00 \<and> occurs toks (at b s), s))"

lemma skip_while_bounds: "s \<le> skip_while P b s" "s \<le> length b \<Longrightarrow> skip_while P b s \<le> length b"
proof (induction P b s rule: skip_while.induct)
  case (1 P b s)
  { case 1 show ?case using "1.IH"(1) by (subst skip_while.simps) auto
  next
    case 2 then show ?case using "1.IH"(2) by (subst skip_while.simps) auto }
qed

lemma skip_while_stops: "skip_while P b s < length b \<Longrightarrow> \<not> P (at b (skip_while P b s))"
proof (induction P b s rule: skip_while.induct)
  case (1 P b s)
  then show ?case by (cases "s < length b \<and> P (at b s)") (auto simp: skip_while.simps [of P b s])
qed

lemma skip_space_bounds: "s \<le> skip_space b s" "s \<le> length b \<Longrightarrow> skip_space b s \<le> length b"
  by (simp_all add: skip_space_def skip_while_bounds)

lemma at_beyond [simp]: "length b \<le> i \<Longrightarrow> at b i = CHR 0x00"
  by (simp add: at_def)

lemma at_nonnull_less: "at b i \<noteq> CHR 0x00 \<Longrightarrow> i < length b"
  by (auto simp: at_def split: if_splits)

lemma peek_eq: "peek toks b s = (at b (skip_space b s) \<noteq> CHR 0x00 \<and> occurs toks (at b (skip_space b s)), skip_space b s)"
  by (simp add: peek_def Let_def)

lemma word_end_progress:
  "q < length b \<Longrightarrow> \<not> occurs whitespace (at b q) \<Longrightarrow> \<not> occurs symbols (at b q) \<Longrightarrow> q < word_end b q"
  using skip_while_bounds(1) [of "q + 1" "\<lambda>c. \<not> occurs whitespace c \<and> \<not> occurs symbols c" b]
  by (simp add: word_end_def skip_while.simps [of _ b q])

lemma occurs_symbols: "occurs symbols c \<longleftrightarrow> c \<in> {CHR ''<'', CHR ''|'', CHR ''>'', CHR ''&'', CHR '';'', CHR ''('', CHR '')''}"
  by (auto simp: occurs_def symbols_def)

lemma occurs_whitespace: "occurs whitespace c \<longleftrightarrow> c \<in> {CHR '' '', CHR 0x09, CHR 0x0D, CHR 0x0A, CHR 0x0B}"
  by (auto simp: occurs_def whitespace_def)

text \<open>What a token is, and that every token but the end of the line moves on.\<close>

lemma gettoken_progress:
  assumes "gettoken b s = (tok, (q, eq), s')"
  shows "s \<le> q" "q \<le> eq" "eq \<le> s'" "s \<le> length b \<Longrightarrow> s' \<le> length b" "tok \<noteq> CHR 0x00 \<Longrightarrow> q < eq"
proof -
  have qe: "q = skip_space b s" "s' = skip_space b eq" using assms by (auto simp: gettoken_def Let_def split: if_splits)
  have nsp: "\<not> occurs whitespace (at b q)" if "q < length b"
    using skip_while_stops that by (auto simp: qe(1) skip_space_def)
  have "q < eq \<or> tok = CHR 0x00 \<and> q = eq"
  proof (cases "at b q = CHR 0x00")
    case True
    then show ?thesis using assms by (auto simp: gettoken_def Let_def qe(1))
  next
    case False
    then show ?thesis
      using assms word_end_progress [of q b] nsp at_nonnull_less [OF False]
      by (auto simp: gettoken_def Let_def qe(1) [symmetric] occurs_symbols split: if_splits)
  qed
  then show "q \<le> eq" "tok \<noteq> CHR 0x00 \<Longrightarrow> q < eq" by auto
  show "s \<le> q" "eq \<le> s'" using qe skip_space_bounds by auto
  show "s' \<le> length b" if "s \<le> length b"
  proof -
    have "q \<le> length b" using qe(1) skip_space_bounds(2) that by simp
    then have "eq \<le> length b"
      using assms skip_while_bounds(2) at_nonnull_less [of b q] at_nonnull_less [of b "q + 1"]
      by (auto simp: gettoken_def Let_def qe(1) [symmetric] word_end_def split: if_splits)
    then show ?thesis using qe(2) skip_space_bounds(2) by simp
  qed
qed

section \<open>Redirections\<close>

definition O_RDONLY :: int where "O_RDONLY = 0"
definition O_WRONLY_CREATE :: int where "O_WRONLY_CREATE = 513"

text \<open>The \<^verbatim>\<open>switch\<close> of \<^verbatim>\<open>parseredirs\<close>.\<close>

definition redir_of :: "char \<Rightarrow> span \<Rightarrow> cmd \<Rightarrow> cmd" where
  "redir_of tok w c =
     (if tok = CHR ''<'' then REDIR c w O_RDONLY 0
      else if tok = CHR ''>'' then REDIR c w O_WRONLY_CREATE 1
      else if tok = CHR ''+'' then REDIR c w O_WRONLY_CREATE 1
      else c)"

text \<open>A token read behind a successful \<^verbatim>\<open>peek\<close> moves on.\<close>

lemma peek_gettoken:
  assumes "peek toks b s = (True, s0)" "gettoken b s0 = (tok, w, s1)"
  shows "s < s1" "s < length b" "s \<le> length b \<Longrightarrow> s1 \<le> length b"
proof -
  obtain q eq where w: "w = (q, eq)" by (cases w)
  have p: "s0 = skip_space b s" "at b s0 \<noteq> CHR 0x00" using assms(1) by (auto simp: peek_eq)
  have l: "s0 < length b" using p(2) at_nonnull_less by auto
  have "\<not> occurs whitespace (at b s0)" using l skip_while_stops by (auto simp: p(1) skip_space_def)
  then have "skip_space b s0 = s0" by (simp add: skip_space_def skip_while.simps [of _ b s0])
  then have "tok \<noteq> CHR 0x00" using assms(2) p(2) by (auto simp: gettoken_def Let_def split: if_splits)
  then show "s < s1" "s < length b" using gettoken_progress [OF assms(2) [unfolded w]] skip_space_bounds(1) [of s b] p(1) l by auto
  show "s1 \<le> length b" if "s \<le> length b"
    using gettoken_progress(4) [OF assms(2) [unfolded w]] skip_space_bounds(2) [OF that] p(1) by simp
qed

lemma redir_decreases:
  assumes "(True, s0) = peek toks b s" "(tok, x) = gettoken b s0" "(w, s1) = x" "(tok2, y) = gettoken b s1" "(w2, s2) = y"
  shows "length b - s2 < length b - s"
  using peek_gettoken [of toks b s s0 tok w s1] gettoken_progress(1,2,3) [of b s1 tok2 "fst w2" "snd w2" s2] assms
  by force

function parseredirs :: "string \<Rightarrow> cmd \<Rightarrow> nat \<Rightarrow> (cmd \<times> nat) res" where
  "parseredirs b c s =
     (case peek ''<>'' b s of
        (False, s) \<Rightarrow> Inr (c, s)
      | (True, s) \<Rightarrow>
          (case gettoken b s of (tok, _, s1) \<Rightarrow>
           case gettoken b s1 of (tok2, w, s2) \<Rightarrow>
             if tok2 \<noteq> CHR ''a'' then Inl (Panic ''missing file for redirection'')
             else parseredirs b (redir_of tok w c) s2))"
  by pat_completeness auto
termination
  by (relation "measure (\<lambda>(b, c, s). length b - s)") (simp, simp, rule redir_decreases)

declare parseredirs.simps [simp del]

section \<open>Simple commands\<close>

text \<open>
  \<^verbatim>\<open>parseexec\<close> keeps a pointer to the \<^verbatim>\<open>execcmd\<close> at the bottom of the redirections that are wrapped around it, and
  stores the arguments through it.
\<close>

primrec add_arg :: "span \<Rightarrow> cmd \<Rightarrow> cmd" where
  "add_arg w (EXEC ws) = EXEC (ws @ [w])"
| "add_arg w (REDIR c f m fd) = REDIR (add_arg w c) f m fd"
| "add_arg w (PIPE l r) = PIPE l r"
| "add_arg w (LIST l r) = LIST l r"
| "add_arg w (BACK c) = BACK c"

function exec_loop :: "string \<Rightarrow> cmd \<Rightarrow> nat \<Rightarrow> nat \<Rightarrow> (cmd \<times> nat) res" where
  "exec_loop b c argc s =
     (case peek ''|)&;'' b s of
        (True, s) \<Rightarrow> Inr (c, s)
      | (False, s) \<Rightarrow>
          (case gettoken b s of (tok, w, s) \<Rightarrow>
             if tok = CHR 0x00 then Inr (c, s)
             else if tok \<noteq> CHR ''a'' then Inl (Panic ''syntax'')
             else if argc + 1 \<ge> MAXARGS then Inl (Panic ''too many args'')
             else bindE (parseredirs b (add_arg w c) s) (\<lambda>(c, s). exec_loop b c (argc + 1) s)))"
  by pat_completeness auto
termination
  by (relation "measure (\<lambda>(b, ret, argc, s). MAXARGS - argc)") auto

declare exec_loop.simps [simp del]

lemma token_decreases:
  assumes "(True, s0) = peek toks b s" "(tok, x) = gettoken b s0" "(w, s1) = x"
  shows "length b - s1 < length b - s"
  using peek_gettoken [of toks b s s0 tok w s1] assms by force

function back_loop :: "string \<Rightarrow> cmd \<Rightarrow> nat \<Rightarrow> cmd \<times> nat" where
  "back_loop b c s =
     (case peek ''&'' b s of
        (False, s) \<Rightarrow> (c, s)
      | (True, s) \<Rightarrow> (case gettoken b s of (_, _, s) \<Rightarrow> back_loop b (BACK c) s))"
  by pat_completeness auto
termination
  by (relation "measure (\<lambda>(b, c, s). length b - s)") (simp, simp, rule token_decreases)

declare back_loop.simps [simp del]

section \<open>The grammar\<close>

definition bindO :: "'a res option \<Rightarrow> ('a \<Rightarrow> 'b res option) \<Rightarrow> 'b res option" where
  "bindO m f = (case m of None \<Rightarrow> None | Some (Inl h) \<Rightarrow> Some (Inl h) | Some (Inr x) \<Rightarrow> f x)"

lemma bindO_simps [simp]:
  "bindO None f = None" "bindO (Some (Inl h)) f = Some (Inl h)" "bindO (Some (Inr x)) f = f x"
  by (simp_all add: bindO_def)

text \<open>
  The mutually recursive functions take the depth of the recursion they may use; running out of it is \<open>None\<close>.
\<close>

fun parseline :: "nat \<Rightarrow> string \<Rightarrow> nat \<Rightarrow> (cmd \<times> nat) res option"
  and parsepipe :: "nat \<Rightarrow> string \<Rightarrow> nat \<Rightarrow> (cmd \<times> nat) res option"
  and parseblock :: "nat \<Rightarrow> string \<Rightarrow> nat \<Rightarrow> (cmd \<times> nat) res option"
  and parseexec :: "nat \<Rightarrow> string \<Rightarrow> nat \<Rightarrow> (cmd \<times> nat) res option"
where
  "parseline 0 b s = None"
| "parseline (Suc n) b s =
     bindO (parsepipe n b s) (\<lambda>(c, s).
       case back_loop b c s of (c, s) \<Rightarrow>
       case peek '';'' b s of
         (False, s) \<Rightarrow> Some (Inr (c, s))
       | (True, s) \<Rightarrow>
           (case gettoken b s of (_, _, s) \<Rightarrow>
              bindO (parseline n b s) (\<lambda>(r, s). Some (Inr (LIST c r, s)))))"
| "parsepipe 0 b s = None"
| "parsepipe (Suc n) b s =
     bindO (parseexec n b s) (\<lambda>(c, s).
       case peek ''|'' b s of
         (False, s) \<Rightarrow> Some (Inr (c, s))
       | (True, s) \<Rightarrow>
           (case gettoken b s of (_, _, s) \<Rightarrow>
              bindO (parsepipe n b s) (\<lambda>(r, s). Some (Inr (PIPE c r, s)))))"
| "parseblock 0 b s = None"
| "parseblock (Suc n) b s =
     (case peek ''('' b s of
        (False, s) \<Rightarrow> Some (Inl (Panic ''parseblock''))
      | (True, s) \<Rightarrow>
          (case gettoken b s of (_, _, s) \<Rightarrow>
           bindO (parseline n b s) (\<lambda>(c, s).
             case peek '')'' b s of
               (False, s) \<Rightarrow> Some (Inl (Panic ''syntax - missing )''))
             | (True, s) \<Rightarrow> (case gettoken b s of (_, _, s) \<Rightarrow> Some (parseredirs b c s)))))"
| "parseexec 0 b s = None"
| "parseexec (Suc n) b s =
     (case peek ''('' b s of
        (True, s) \<Rightarrow> parseblock n b s
      | (False, s) \<Rightarrow>
          Some (bindE (parseredirs b (EXEC []) s) (\<lambda>(c, s). exec_loop b c 0 s)))"

text \<open>\<^verbatim>\<open>nulterminate\<close> on the array that holds the line and its NUL.\<close>

primrec nulterminate :: "cmd \<Rightarrow> string \<Rightarrow> string" where
  "nulterminate (EXEC ws) buf = foldl (\<lambda>buf (q, eq). buf[eq := CHR 0x00]) buf ws"
| "nulterminate (REDIR c f m fd) buf = (nulterminate c buf)[snd f := CHR 0x00]"
| "nulterminate (PIPE l r) buf = nulterminate r (nulterminate l buf)"
| "nulterminate (LIST l r) buf = nulterminate r (nulterminate l buf)"
| "nulterminate (BACK c) buf = nulterminate c buf"

definition parsecmd :: "nat \<Rightarrow> string \<Rightarrow> (cmd \<times> string) res option" where
  "parsecmd n b =
     bindO (parseline n b 0) (\<lambda>(c, s).
       case peek '''' b s of (_, s) \<Rightarrow>
         if s \<noteq> length b then Some (Inl (Panic ''syntax''))
         else Some (Inr (c, nulterminate c (b @ [CHR 0x00]))))"

section \<open>The parser ends\<close>

lemma peek_le: "peek t b s = (x, s') \<Longrightarrow> s \<le> s'"
  using skip_space_bounds(1) by (auto simp: peek_eq)

lemma gettoken_le: "gettoken b s = (t, w, s') \<Longrightarrow> s \<le> s'"
  using gettoken_progress(1,2,3) [of b s t "fst w" "snd w" s'] by auto

lemma peek_bound: "peek t b s = (x, s') \<Longrightarrow> s \<le> length b \<Longrightarrow> s' \<le> length b"
  using skip_space_bounds(2) by (auto simp: peek_eq)

lemma gettoken_bound: "gettoken b s = (t, w, s') \<Longrightarrow> s \<le> length b \<Longrightarrow> s' \<le> length b"
  using gettoken_progress(4) [of b s t "fst w" "snd w" s'] by auto

lemma parseredirs_run [consumes 1, case_names stop step]:
  assumes "parseredirs b c s = Inr (c', s')"
    and "\<And>c s s'. peek ''<>'' b s = (False, s') \<Longrightarrow> P c s c s'"
    and "\<And>c s s0 tok w0 s1 w s2 c' s'. peek ''<>'' b s = (True, s0) \<Longrightarrow> gettoken b s0 = (tok, w0, s1) \<Longrightarrow>
      gettoken b s1 = (CHR ''a'', w, s2) \<Longrightarrow> P (redir_of tok w c) s2 c' s' \<Longrightarrow> P c s c' s'"
  shows "P c s c' s'"
  using assms(1)
proof (induction "length b - s" arbitrary: c s rule: less_induct)
  case less
  obtain more s0 tok w0 s1 tok2 w s2 where
    t: "peek ''<>'' b s = (more, s0)" "gettoken b s0 = (tok, w0, s1)" "gettoken b s1 = (tok2, w, s2)"
    by (metis prod_cases3 surj_pair)
  show ?case
  proof (cases more)
    case False
    then show ?thesis using t(1) less.prems assms(2) by (simp add: parseredirs.simps [of b c s])
  next
    case True
    then have r: "tok2 = CHR ''a''" "parseredirs b (redir_of tok w c) s2 = Inr (c', s')"
      using t less.prems by (auto simp: parseredirs.simps [of b c s] split: if_splits)
    have "length b - s2 < length b - s" using redir_decreases [of s0 "''<>''" b s] t True by simp
    from less.hyps [OF this r(2)] show ?thesis
      by (rule assms(3) [OF t(1) [unfolded eqTrueI [OF True]] t(2) t(3) [unfolded r(1)]])
  qed
qed

text \<open>The same for the loops of \<^verbatim>\<open>parseexec\<close> and \<^verbatim>\<open>parseline\<close>.\<close>

lemma exec_loop_run [consumes 1, case_names stop step]:
  assumes "exec_loop b c argc s = Inr (c', s')"
    and "\<And>c argc s s'. s \<le> s' \<Longrightarrow> peek ''|)&;'' b s = (True, s') \<or> (\<exists>s0 tok w. peek ''|)&;'' b s = (False, s0) \<and> gettoken b s0 = (tok, w, s'))
      \<Longrightarrow> P c argc s c s'"
    and "\<And>c argc s s0 w s1 c1 s2 c' s'. peek ''|)&;'' b s = (False, s0) \<Longrightarrow> gettoken b s0 = (CHR ''a'', w, s1) \<Longrightarrow>
      argc + 1 < MAXARGS \<Longrightarrow> parseredirs b (add_arg w c) s1 = Inr (c1, s2) \<Longrightarrow> P c1 (argc + 1) s2 c' s' \<Longrightarrow> P c argc s c' s'"
  shows "P c argc s c' s'"
  using assms(1)
proof (induction "MAXARGS - argc" arbitrary: c argc s rule: less_induct)
  case less
  obtain stop s0 tok w s1 where t: "peek ''|)&;'' b s = (stop, s0)" "gettoken b s0 = (tok, w, s1)"
    by (metis prod_cases3 surj_pair)
  have le: "s \<le> s0" "s \<le> s1" using peek_le [OF t(1)] gettoken_le [OF t(2)] by auto
  show ?case
  proof (cases "stop \<or> tok = CHR 0x00")
    case True
    then have "c' = c" "s' = s0 \<and> stop \<or> s' = s1 \<and> \<not> stop"
      using t less.prems by (auto simp: exec_loop.simps [of b c argc s] split: if_splits bool.splits)
    then show ?thesis using assms(2) [of s s'] le t by auto
  next
    case False
    then obtain c1 s2 where r: "tok = CHR ''a''" "argc + 1 < MAXARGS" "parseredirs b (add_arg w c) s1 = Inr (c1, s2)"
        "exec_loop b c1 (argc + 1) s2 = Inr (c', s')"
      using t less.prems by (auto simp: exec_loop.simps [of b c argc s] bindE_eq_Inr_iff split: if_splits)
    have dec: "MAXARGS - (argc + 1) < MAXARGS - argc" using r(2) by simp
    have st: "peek ''|)&;'' b s = (False, s0)" using t(1) False by simp
    show ?thesis
      by (rule assms(3) [OF st t(2) [unfolded r(1)] r(2,3) less.hyps [OF dec r(4)]])
  qed
qed

lemma back_loop_run [case_names stop step]:
  assumes "\<And>c s s'. peek ''&'' b s = (False, s') \<Longrightarrow> P c s (c, s')"
    and "\<And>c s s0 tok w s1 r. peek ''&'' b s = (True, s0) \<Longrightarrow> gettoken b s0 = (tok, w, s1) \<Longrightarrow> P (BACK c) s1 r \<Longrightarrow> P c s r"
  shows "P c s (back_loop b c s)"
proof (induction "length b - s" arbitrary: c s rule: less_induct)
  case less
  obtain more s0 tok w s1 where t: "peek ''&'' b s = (more, s0)" "gettoken b s0 = (tok, w, s1)"
    by (metis prod_cases3 surj_pair)
  show ?case
  proof (cases more)
    case False
    then show ?thesis using t(1) assms(1) by (simp add: back_loop.simps [of b c s])
  next
    case True
    have "length b - s1 < length b - s" using token_decreases [of s0 "''&''" b s] t True by simp
    then show ?thesis using less.hyps assms(2) t True by (simp add: back_loop.simps [of b c s])
  qed
qed

lemma parseredirs_le: "parseredirs b c s = Inr (c', s') \<Longrightarrow> s \<le> s'"
  by (induction rule: parseredirs_run) (force dest: peek_le gettoken_le)+

lemma exec_loop_le: "exec_loop b c argc s = Inr (c', s') \<Longrightarrow> s \<le> s'"
  by (induction rule: exec_loop_run) (force dest: peek_le gettoken_le parseredirs_le)+

lemma back_loop_le: "s \<le> snd (back_loop b c s)"
  by (rule back_loop_run) (force dest: peek_le gettoken_le)+

text \<open>The successful runs of the mutually recursive functions, as derivations of a grammar.\<close>

inductive line :: "string \<Rightarrow> nat \<Rightarrow> cmd \<Rightarrow> nat \<Rightarrow> bool"
  and pipeline :: "string \<Rightarrow> nat \<Rightarrow> cmd \<Rightarrow> nat \<Rightarrow> bool"
  and block :: "string \<Rightarrow> nat \<Rightarrow> cmd \<Rightarrow> nat \<Rightarrow> bool"
  and simple :: "string \<Rightarrow> nat \<Rightarrow> cmd \<Rightarrow> nat \<Rightarrow> bool"
  for b where
  line_one: "pipeline b s c s1 \<Longrightarrow> back_loop b c s1 = (c', s2) \<Longrightarrow> peek '';'' b s2 = (False, s') \<Longrightarrow> line b s c' s'"
| line_list: "pipeline b s c s1 \<Longrightarrow> back_loop b c s1 = (c', s2) \<Longrightarrow> peek '';'' b s2 = (True, s3) \<Longrightarrow>
    gettoken b s3 = (tok, w, s4) \<Longrightarrow> line b s4 r s' \<Longrightarrow> line b s (LIST c' r) s'"
| pipe_one: "simple b s c s1 \<Longrightarrow> peek ''|'' b s1 = (False, s') \<Longrightarrow> pipeline b s c s'"
| pipe_more: "simple b s c s1 \<Longrightarrow> peek ''|'' b s1 = (True, s2) \<Longrightarrow> gettoken b s2 = (tok, w, s3) \<Longrightarrow>
    pipeline b s3 r s' \<Longrightarrow> pipeline b s (PIPE c r) s'"
| block: "peek ''('' b s = (True, s1) \<Longrightarrow> gettoken b s1 = (tok, w, s2) \<Longrightarrow> line b s2 c s3 \<Longrightarrow>
    peek '')'' b s3 = (True, s4) \<Longrightarrow> gettoken b s4 = (tok', w', s5) \<Longrightarrow> parseredirs b c s5 = Inr (c', s') \<Longrightarrow> block b s c' s'"
| simple_block: "peek ''('' b s = (True, s1) \<Longrightarrow> block b s1 c s' \<Longrightarrow> simple b s c s'"
| simple_exec: "peek ''('' b s = (False, s1) \<Longrightarrow> parseredirs b (EXEC []) s1 = Inr (c, s2) \<Longrightarrow>
    exec_loop b c 0 s2 = Inr (c', s') \<Longrightarrow> simple b s c' s'"

lemma bindO_eq_Some_Inr_iff: "bindO m f = Some (Inr y) \<longleftrightarrow> (\<exists>x. m = Some (Inr x) \<and> f x = Some (Inr y))"
  by (auto simp: bindO_def split: option.splits sum.splits)

lemma parse_derives:
  "(parseline n b s = Some (Inr (c, s')) \<longrightarrow> line b s c s') \<and> (parsepipe n b s = Some (Inr (c, s')) \<longrightarrow> pipeline b s c s')
   \<and> (parseblock n b s = Some (Inr (c, s')) \<longrightarrow> block b s c s') \<and> (parseexec n b s = Some (Inr (c, s')) \<longrightarrow> simple b s c s')"
proof (induction n arbitrary: s c s')
  case (Suc n)
  note ih = Suc.IH [THEN conjunct1, rule_format] Suc.IH [THEN conjunct2, THEN conjunct1, rule_format]
    Suc.IH [THEN conjunct2, THEN conjunct2, THEN conjunct1, rule_format] Suc.IH [THEN conjunct2, THEN conjunct2, THEN conjunct2, rule_format]
  have "line b s c s'" if "parseline (Suc n) b s = Some (Inr (c, s'))"
  proof -
    obtain c1 s1 where p1: "parsepipe n b s = Some (Inr (c1, s1))"
      using \<open>parseline (Suc n) b s = Some (Inr (c, s'))\<close> by (auto simp: bindO_eq_Some_Inr_iff)
    obtain c2 s2 where p2: "back_loop b c1 s1 = (c2, s2)" by (rule prod.exhaust)
    obtain more s3 where p3: "peek '';'' b s2 = (more, s3)" by (rule prod.exhaust)
    obtain tok w s4 where p4: "gettoken b s3 = (tok, w, s4)" by (rule prod_cases3)
    note p = p1 p2 p3 p4
    then show ?thesis using that line_one [OF ih(2) [OF p(1)] p(2)] line_list [OF ih(2) [OF p(1)] p(2) _ p(4) ih(1)]
      by (cases more) (auto simp: bindO_eq_Some_Inr_iff)
  qed
  moreover have "pipeline b s c s'" if "parsepipe (Suc n) b s = Some (Inr (c, s'))"
  proof -
    obtain c1 s1 where p1: "parseexec n b s = Some (Inr (c1, s1))"
      using \<open>parsepipe (Suc n) b s = Some (Inr (c, s'))\<close> by (auto simp: bindO_eq_Some_Inr_iff)
    obtain more s3 where p2: "peek ''|'' b s1 = (more, s3)" by (rule prod.exhaust)
    obtain tok w s4 where p3: "gettoken b s3 = (tok, w, s4)" by (rule prod_cases3)
    note p = p1 p2 p3
    then show ?thesis using that pipe_one [OF ih(4) [OF p(1)]] pipe_more [OF ih(4) [OF p(1)] _ p(3) ih(2)]
      by (cases more) (auto simp: bindO_eq_Some_Inr_iff)
  qed
  moreover have "block b s c s'" if "parseblock (Suc n) b s = Some (Inr (c, s'))"
  proof -
    obtain more s1 where p1: "peek ''('' b s = (more, s1)" by (rule prod.exhaust)
    obtain tok w s2 where p2: "gettoken b s1 = (tok, w, s2)" by (rule prod_cases3)
    obtain c1 s3 where p3: more "parseline n b s2 = Some (Inr (c1, s3))"
      using \<open>parseblock (Suc n) b s = Some (Inr (c, s'))\<close> p1 p2 by (cases more) (auto simp: bindO_eq_Some_Inr_iff)
    obtain more2 s4 where p4: "peek '')'' b s3 = (more2, s4)" by (rule prod.exhaust)
    obtain tok2 w2 s5 where p5: "gettoken b s4 = (tok2, w2, s5)" by (rule prod_cases3)
    have "more2" "parseredirs b c1 s5 = Inr (c, s')"
      using that p1 p2 p3 p4 p5 by (cases more2; auto)+
    then show ?thesis using block [OF _ p2 ih(1) [OF p3(2)] _ p5] p1 p3(1) p4 by auto
  qed
  moreover have "simple b s c s'" if "parseexec (Suc n) b s = Some (Inr (c, s'))"
    using that by (auto simp: bindE_eq_Inr_iff split: prod.splits bool.splits intro: simple_block simple_exec dest: ih(3))
  ultimately show ?case by blast
qed simp

lemma derives_le:
  "line b s c s' \<Longrightarrow> s \<le> s'" "pipeline b s c s' \<Longrightarrow> s \<le> s'" "block b s c s' \<Longrightarrow> s \<le> s'" "simple b s c s' \<Longrightarrow> s \<le> s'"
proof (induction rule: line_pipeline_block_simple.inducts)
  case (line_one s c s1 c' s2 s')
  then show ?case using back_loop_le [of s1 b c] peek_le [OF line_one(4)] by simp
next
  case (line_list s c s1 c' s2 s3 tok w s4 r s')
  then show ?case using back_loop_le [of s1 b c] peek_le [OF line_list(4)] gettoken_le [OF line_list(5)] by simp
next
  case (pipe_one s c s1 s')
  then show ?case using peek_le [OF pipe_one(3)] by simp
next
  case (pipe_more s c s1 s2 tok w s3 r s')
  then show ?case using peek_le [OF pipe_more(3)] gettoken_le [OF pipe_more(4)] by simp
next
  case (block s s1 tok w s2 c s3 s4 tok' w' s5 c' s')
  then show ?case using peek_le [OF block(1)] gettoken_le [OF block(2)] peek_le [OF block(5)] gettoken_le [OF block(6)]
      parseredirs_le [OF block(7)] by simp
next
  case (simple_block s s1 c s')
  then show ?case using peek_le [OF simple_block(1)] by simp
next
  case (simple_exec s s1 c s2 c' s')
  then show ?case using peek_le [OF simple_exec(1)] parseredirs_le [OF simple_exec(2)] exec_loop_le [OF simple_exec(3)] by simp
qed

lemmas parse_le = derives_le(1) [OF parse_derives [THEN conjunct1, rule_format]]
  derives_le(2) [OF parse_derives [THEN conjunct2, THEN conjunct1, rule_format]]
  derives_le(4) [OF parse_derives [THEN conjunct2, THEN conjunct2, THEN conjunct2, rule_format]]

lemma parse_terminates:
  "(4 * (length b - s) + 4 \<le> n \<longrightarrow> parseline n b s \<noteq> None) \<and> (4 * (length b - s) + 3 \<le> n \<longrightarrow> parsepipe n b s \<noteq> None)
   \<and> (4 * (length b - s) + 1 \<le> n \<longrightarrow> parseblock n b s \<noteq> None) \<and> (4 * (length b - s) + 2 \<le> n \<longrightarrow> parseexec n b s \<noteq> None)"
proof (induction n arbitrary: s)
  case (Suc n)
  have line: "parseline (Suc n) b s \<noteq> None" if n: "4 * (length b - s) + 4 \<le> Suc n"
  proof -
    have "parsepipe n b s \<noteq> None" using Suc.IH [of s] n by simp
    moreover have "parseline n b s4 \<noteq> None" if "parsepipe n b s = Some (Inr (c, s1))" "back_loop b c s1 = (c', s2)"
      "peek '';'' b s2 = (True, s3)" "gettoken b s3 = (tok, w, s4)" for c s1 c' s2 s3 tok w s4
      using Suc.IH [of s4] n peek_gettoken(1,2) [OF that(3,4)] parse_le(2) [OF that(1)] back_loop_le [of s1 b c] that(2) by simp
    ultimately show ?thesis by (fastforce simp: bindO_def split: option.splits sum.splits prod.splits bool.splits)
  qed
  have pipe: "parsepipe (Suc n) b s \<noteq> None" if n: "4 * (length b - s) + 3 \<le> Suc n"
  proof -
    have "parseexec n b s \<noteq> None" using Suc.IH [of s] n by simp
    moreover have "parsepipe n b s3 \<noteq> None" if "parseexec n b s = Some (Inr (c, s1))"
      "peek ''|'' b s1 = (True, s2)" "gettoken b s2 = (tok, w, s3)" for c s1 s2 tok w s3
      using Suc.IH [of s3] n peek_gettoken(1,2) [OF that(2,3)] parse_le(3) [OF that(1)] by simp
    ultimately show ?thesis by (fastforce simp: bindO_def split: option.splits sum.splits prod.splits bool.splits)
  qed
  have block: "parseblock (Suc n) b s \<noteq> None" if n: "4 * (length b - s) + 1 \<le> Suc n"
  proof -
    have "parseline n b s2 \<noteq> None" if "peek ''('' b s = (True, s1)" "gettoken b s1 = (tok, w, s2)" for s1 tok w s2
      using Suc.IH [of s2] n peek_gettoken(1,2) [OF that] by simp
    then show ?thesis by (fastforce simp: bindO_def split: option.splits sum.splits prod.splits bool.splits)
  qed
  have "parseexec (Suc n) b s \<noteq> None" if n: "4 * (length b - s) + 2 \<le> Suc n"
  proof -
    have "parseblock n b s1 \<noteq> None" if "peek ''('' b s = (True, s1)" for s1
      using Suc.IH [of s1] n peek_le [OF that] by simp
    then show ?thesis by (auto split: prod.splits bool.splits)
  qed
  then show ?case using line pipe block by simp
qed simp

text \<open>More depth does not change a result.\<close>

lemma bindO_mono: "(\<And>r. m = Some r \<Longrightarrow> m' = Some r) \<Longrightarrow> (\<And>x r. f x = Some r \<Longrightarrow> f' x = Some r) \<Longrightarrow>
    bindO m f = Some r \<Longrightarrow> bindO m' f' = Some r"
  by (auto simp: bindO_def split: option.splits sum.splits)

lemma parse_more_depth:
  "(parseline n b s = Some r \<longrightarrow> parseline (Suc n) b s = Some r) \<and> (parsepipe n b s = Some r \<longrightarrow> parsepipe (Suc n) b s = Some r)
   \<and> (parseblock n b s = Some r \<longrightarrow> parseblock (Suc n) b s = Some r) \<and> (parseexec n b s = Some r \<longrightarrow> parseexec (Suc n) b s = Some r)"
proof (induction n arbitrary: s r)
  case (Suc n)
  have ih: "\<And>s r. parseline n b s = Some r \<Longrightarrow> parseline (Suc n) b s = Some r"
    "\<And>s r. parsepipe n b s = Some r \<Longrightarrow> parsepipe (Suc n) b s = Some r"
    "\<And>s r. parseblock n b s = Some r \<Longrightarrow> parseblock (Suc n) b s = Some r"
    "\<And>s r. parseexec n b s = Some r \<Longrightarrow> parseexec (Suc n) b s = Some r"
    using Suc.IH by blast+
  have "parseline (Suc (Suc n)) b s = Some r" if "parseline (Suc n) b s = Some r"
    by (subst parseline.simps(2), rule bindO_mono [OF ih(2) _ that [unfolded parseline.simps(2)]])
      (auto simp del: parseline.simps split: prod.splits bool.splits elim!: bindO_mono [OF ih(1), rotated 2])
  moreover have "parsepipe (Suc (Suc n)) b s = Some r" if "parsepipe (Suc n) b s = Some r"
    by (subst parsepipe.simps(2), rule bindO_mono [OF ih(4) _ that [unfolded parsepipe.simps(2)]])
      (auto simp del: parsepipe.simps split: prod.splits bool.splits elim!: bindO_mono [OF ih(2), rotated 2])
  moreover have "parseblock (Suc (Suc n)) b s = Some r" if "parseblock (Suc n) b s = Some r"
    by (subst parseblock.simps(2), insert that [unfolded parseblock.simps(2)])
      (auto simp del: parseline.simps split: prod.splits bool.splits elim!: bindO_mono [OF ih(1), rotated 2])
  moreover have "parseexec (Suc (Suc n)) b s = Some r" if "parseexec (Suc n) b s = Some r"
    by (subst parseexec.simps(2), insert that [unfolded parseexec.simps(2)])
      (auto simp del: parseblock.simps split: prod.splits bool.splits dest: ih(3))
  ultimately show ?case by blast
qed simp

lemma parseline_depth: "parseline n b s = Some r \<Longrightarrow> n \<le> m \<Longrightarrow> parseline m b s = Some r"
  by (rotate_tac 1, induction m rule: dec_induct) (use parse_more_depth in blast)+

text \<open>
  Claim C28. The parser of the shell ends on every line, with a command or a syntax error: recursion deeper than four times
  the length of the line does not occur.
\<close>

theorem parsecmd_terminates:
  "\<exists>r. \<forall>n \<ge> 4 * length b + 4. parsecmd n b = Some r"
proof -
  obtain r where "parseline (4 * length b + 4) b 0 = Some r"
    using parse_terminates [of b 0 "4 * length b + 4"] by auto
  then have "parseline n b 0 = Some r" if "n \<ge> 4 * length b + 4" for n using parseline_depth that by blast
  then show ?thesis by (cases r) (auto simp: parsecmd_def split_beta)
qed

theorem parsecmd_terminates_witness:
  "\<exists>r. parsecmd 36 ''ls | wc;'' = Some r \<and> parsecmd 1000 ''ls | wc;'' = Some r"
  using parsecmd_terminates [of "''ls | wc;''"] by force

section \<open>The words of a command\<close>

definition word_char :: "char \<Rightarrow> bool" where
  "word_char c \<longleftrightarrow> c \<noteq> CHR 0x00 \<and> \<not> occurs whitespace c \<and> \<not> occurs symbols c"

text \<open>A maximal run of word characters of the line: neither the character before it nor the one behind it belongs to a word.\<close>

definition wf_span :: "string \<Rightarrow> span \<Rightarrow> bool" where
  "wf_span b w \<longleftrightarrow> fst w < snd w \<and> snd w \<le> length b \<and> (\<forall>i. fst w \<le> i \<longrightarrow> i < snd w \<longrightarrow> word_char (b ! i))
     \<and> (0 < fst w \<longrightarrow> \<not> word_char (b ! (fst w - 1))) \<and> (snd w < length b \<longrightarrow> \<not> word_char (b ! snd w))"

text \<open>The positions of the parser: none lies between two characters of a word.\<close>

definition edge :: "string \<Rightarrow> nat \<Rightarrow> bool" where
  "edge b s \<longleftrightarrow> s \<le> length b \<and> (0 < s \<longrightarrow> s < length b \<longrightarrow> word_char (b ! s) \<longrightarrow> \<not> word_char (b ! (s - 1)))"

primrec spans :: "cmd \<Rightarrow> span set" where
  "spans (EXEC ws) = set ws"
| "spans (REDIR c f m fd) = insert f (spans c)"
| "spans (PIPE l r) = spans l \<union> spans r"
| "spans (LIST l r) = spans l \<union> spans r"
| "spans (BACK c) = spans c"

lemma skip_while_inside: "s \<le> i \<Longrightarrow> i < skip_while P b s \<Longrightarrow> P (at b i)"
proof (induction P b s rule: skip_while.induct)
  case (1 P b s)
  then show ?case by (cases "s < length b \<and> P (at b s)"; cases "s = i") (auto simp: skip_while.simps [of P b s] skip_while.simps [of P b i])
qed

lemma edge_0 [simp]: "edge b 0"
  by (simp add: edge_def)

lemma skip_space_edge: "edge b s \<Longrightarrow> edge b (skip_space b s)"
proof (cases "skip_space b s = s")
  case False
  assume e: "edge b s"
  let ?q = "skip_space b s"
  have q: "s < ?q" "?q \<le> length b" using False e skip_space_bounds [of s b] by (auto simp: edge_def)
  then have "occurs whitespace (at b (?q - 1))" using skip_while_inside [of s "?q - 1" "occurs whitespace" b] by (auto simp: skip_space_def)
  moreover have "?q - 1 < length b" using q by linarith
  ultimately have "\<not> word_char (b ! (?q - 1))" by (simp add: word_char_def at_def)
  then show ?thesis using q(2) by (simp add: edge_def)
qed simp

lemma peek_edge: "peek t b s = (x, s') \<Longrightarrow> edge b s \<Longrightarrow> edge b s'"
  using skip_space_edge by (auto simp: peek_eq)

lemma gettoken_edge:
  assumes "gettoken b s = (t, w, s')" "edge b s"
  shows "edge b s'"
proof -
  obtain q eq where w: "w = (q, eq)" by (cases w)
  have qe: "q = skip_space b s" "s' = skip_space b eq" using assms(1) by (auto simp: gettoken_def Let_def w split: if_splits)
  have q: "edge b q" using skip_space_edge [OF assms(2)] qe(1) by simp
  consider "eq = q" | "eq = q + 1" "at b q \<noteq> CHR 0x00" "occurs symbols (at b q)"
    | "eq = q + 2" "at b (q + 1) = CHR ''>''" | "eq = word_end b q"
    using assms(1) by (auto simp: gettoken_def Let_def w qe(1) [symmetric] occurs_symbols split: if_splits)
  then have "edge b eq"
  proof cases
    case 4
    then have "eq \<le> length b" using skip_while_bounds(2) q by (auto simp: word_end_def edge_def)
    moreover have "\<not> word_char (b ! eq)" if "eq < length b"
      using skip_while_stops [of _ b q] that 4 by (force simp: word_end_def word_char_def at_def)
    ultimately show ?thesis by (auto simp: edge_def)
  next
    case 3
    then have "q + 1 < length b" by (intro at_nonnull_less) simp
    then show ?thesis using 3 by (auto simp: edge_def word_char_def at_def occurs_symbols)
  next
    case 2
    then have "q < length b" by (intro at_nonnull_less) simp
    then show ?thesis using 2 by (simp add: edge_def word_char_def at_def)
  next
    case 1
    then show ?thesis using q by simp
  qed
  then show ?thesis using skip_space_edge qe(2) by simp
qed

lemma gettoken_word:
  assumes "gettoken b s = (CHR ''a'', w, s')" "edge b s" "CHR 0x00 \<notin> set b"
  shows "wf_span b w"
proof -
  obtain q eq where w: "w = (q, eq)" by (cases w)
  have q: "q < eq" "eq \<le> length b" using gettoken_progress [OF assms(1) [unfolded w]] assms(2) by (auto simp: edge_def)
  have "edge b q" using skip_space_edge [OF assms(2)] assms(1) by (auto simp: gettoken_def Let_def w split: if_splits)
  have eq: "eq = word_end b q" using assms(1) by (auto simp: gettoken_def Let_def w split: if_splits)
  have nz: "b ! i \<noteq> CHR 0x00" if "i < length b" for i using assms(3) that by (metis nth_mem)
  have wc: "word_char (b ! i)" if "q \<le> i" "i < eq" for i
    using skip_while_inside [of q i _ b] that eq q(2) nz by (force simp: word_end_def word_char_def at_def)
  moreover have "\<not> word_char (b ! eq)" if "eq < length b"
    using skip_while_stops [of _ b q] that eq by (force simp: word_end_def word_char_def at_def)
  moreover have "\<not> word_char (b ! (q - 1))" if "0 < q" using \<open>edge b q\<close> that q wc [of q] by (auto simp: edge_def)
  ultimately show ?thesis using q by (simp add: wf_span_def w)
qed

lemma spans_redir_of: "spans (redir_of tok w c) \<subseteq> insert w (spans c)"
  by (auto simp: redir_of_def)

lemma spans_add_arg: "spans (add_arg w c) \<subseteq> insert w (spans c)"
  by (induction c) auto

text \<open>What a parser does to a command all of whose words are words of the line.\<close>

definition good :: "string \<Rightarrow> nat \<Rightarrow> cmd \<Rightarrow> bool" where
  "good b s c \<longleftrightarrow> edge b s \<and> (\<forall>w \<in> spans c. wf_span b w)"

lemma parseredirs_good:
  "parseredirs b c s = Inr (c', s') \<Longrightarrow> CHR 0x00 \<notin> set b \<Longrightarrow> good b s c \<Longrightarrow> good b s' c'"
proof (induction rule: parseredirs_run)
  case (stop c s s')
  then show ?case using peek_edge by (auto simp: good_def)
next
  case (step c s s0 tok w0 s1 w s2 c' s')
  have s1: "edge b s1" using gettoken_edge [OF step(2) peek_edge [OF step(1)]] step.prems by (simp add: good_def)
  have "good b s2 (redir_of tok w c)"
    using gettoken_word [OF step(3) s1 step.prems(1)] gettoken_edge [OF step(3) s1] spans_redir_of step.prems by (fastforce simp: good_def)
  then show ?case using step.IH step.prems(1) by simp
qed

lemma exec_loop_good:
  "exec_loop b c argc s = Inr (c', s') \<Longrightarrow> CHR 0x00 \<notin> set b \<Longrightarrow> good b s c \<Longrightarrow> good b s' c'"
proof (induction rule: exec_loop_run)
  case (stop c argc s s')
  then show ?case using peek_edge gettoken_edge by (auto simp: good_def)
next
  case (step c argc s s0 w s1 c1 s2 c' s')
  have s0: "edge b s0" using peek_edge [OF step(1)] step.prems by (simp add: good_def)
  have "good b s1 (add_arg w c)"
    using gettoken_word [OF step(2) s0 step.prems(1)] gettoken_edge [OF step(2) s0] spans_add_arg step.prems by (fastforce simp: good_def)
  from parseredirs_good [OF step(4) step.prems(1) this] show ?case using step.IH step.prems by simp
qed

lemma back_loop_good: "good b s c \<longrightarrow> good b (snd (back_loop b c s)) (fst (back_loop b c s))"
proof (rule back_loop_run [of b "\<lambda>c s r. good b s c \<longrightarrow> good b (snd r) (fst r)"], goal_cases)
  case (1 c s s')
  then show ?case using peek_edge by (auto simp: good_def)
next
  case (2 c s s0 tok w s1 r)
  then show ?case using peek_edge [OF 2(1)] gettoken_edge [OF 2(2)] by (auto simp: good_def)
qed

lemma derives_good:
  assumes "CHR 0x00 \<notin> set b"
  shows "line b s c s' \<Longrightarrow> edge b s \<Longrightarrow> good b s' c" "pipeline b s c s' \<Longrightarrow> edge b s \<Longrightarrow> good b s' c"
    "block b s c s' \<Longrightarrow> edge b s \<Longrightarrow> good b s' c" "simple b s c s' \<Longrightarrow> edge b s \<Longrightarrow> good b s' c"
proof (induction rule: line_pipeline_block_simple.inducts)
  case (line_one s c s1 c' s2 s')
  then show ?case using back_loop_good [of b s1 c] peek_edge [OF line_one(4)] by (simp add: good_def)
next
  case (line_list s c s1 c' s2 s3 tok w s4 r s')
  then show ?case using back_loop_good [of b s1 c] peek_edge [OF line_list(4)] gettoken_edge [OF line_list(5)] by (auto simp: good_def)
next
  case (pipe_one s c s1 s')
  then show ?case using peek_edge [OF pipe_one(3)] by (simp add: good_def)
next
  case (pipe_more s c s1 s2 tok w s3 r s')
  then show ?case using peek_edge [OF pipe_more(3)] gettoken_edge [OF pipe_more(4)] by (auto simp: good_def)
next
  case (block s s1 tok w s2 c s3 s4 tok' w' s5 c' s')
  have "good b s3 c" using block.IH gettoken_edge [OF block(2)] peek_edge [OF block(1)] block.prems by simp
  then have "good b s5 c" using gettoken_edge [OF block(6)] peek_edge [OF block(5)] by (simp add: good_def)
  then show ?case using parseredirs_good [OF block(7)] assms by simp
next
  case (simple_block s s1 c s')
  then show ?case using peek_edge [OF simple_block(1)] by simp
next
  case (simple_exec s s1 c s2 c' s')
  then have "good b s1 (EXEC [])" using peek_edge [OF simple_exec(1)] by (simp add: good_def)
  then show ?case using parseredirs_good [OF simple_exec(2) assms] exec_loop_good [OF simple_exec(3) assms] by simp
qed

text \<open>\<^verbatim>\<open>nulterminate\<close> writes a NUL behind each word and nothing else.\<close>

lemma nulterminate_length [simp]: "length (nulterminate c buf) = length buf"
proof (induction c arbitrary: buf)
  case (EXEC ws)
  show ?case by (induction ws arbitrary: buf) auto
qed auto

lemma nth_list_update_any: "j < length xs \<Longrightarrow> xs[i := x] ! j = (if i = j then x else xs ! j)"
  by (cases "i = j") auto

lemma nulterminate_nth:
  "i < length buf \<Longrightarrow> nulterminate c buf ! i = (if i \<in> snd ` spans c then CHR 0x00 else buf ! i)"
proof (induction c arbitrary: buf)
  case (EXEC ws)
  then show ?case by (induction ws arbitrary: buf) (force simp: nth_list_update_any)+
qed (auto simp: nth_list_update_any rev_image_eqI)

text \<open>The C string at an index, and the text of a span.\<close>

definition string_at :: "string \<Rightarrow> nat \<Rightarrow> string" where
  "string_at buf q = takeWhile (\<lambda>c. c \<noteq> CHR 0x00) (drop q buf)"

definition slice :: "string \<Rightarrow> span \<Rightarrow> string" where
  "slice b w = take (snd w - fst w) (drop (fst w) b)"

lemma nulterminate_words:
  assumes wf: "\<forall>w \<in> spans c. wf_span b w" and w: "w \<in> spans c"
  shows "string_at (nulterminate c (b @ [CHR 0x00])) (fst w) = slice b w"
proof -
  let ?buf = "nulterminate c (b @ [CHR 0x00])"
  have s: "fst w < snd w" "snd w \<le> length b" using wf w by (auto simp: wf_span_def)
  have ends: "\<not> (b ! e = ch \<and> e < length b \<and> word_char ch)" if "e \<in> snd ` spans c" for e ch
    using that wf by (auto simp: wf_span_def)
  have inside: "?buf ! i = b ! i \<and> word_char (b ! i)" if "fst w \<le> i" "i < snd w" for i
  proof -
    have "word_char (b ! i)" using that wf w by (auto simp: wf_span_def)
    then show ?thesis using that s ends [of i "b ! i"] by (auto simp: nulterminate_nth nth_append)
  qed
  have stop: "?buf ! snd w = CHR 0x00" using s(2) w by (auto simp: nulterminate_nth)
  have "takeWhile (\<lambda>c. c \<noteq> CHR 0x00) (drop (fst w) ?buf) = take (snd w - fst w) (drop (fst w) ?buf)"
  proof (rule takeWhile_eq_take_P_nth)
    fix i assume "i < snd w - fst w" "i < length (drop (fst w) ?buf)"
    then show "drop (fst w) ?buf ! i \<noteq> CHR 0x00" using inside [of "fst w + i"] s by (auto simp: word_char_def)
  qed (use stop s in simp)
  also have "\<dots> = slice b w"
    unfolding slice_def using inside s by (intro nth_equalityI) auto
  finally show ?thesis by (simp add: string_at_def)
qed

text \<open>
  Claim C27. When the shell has parsed a line without NUL characters, every argument and file name of the command is, as a NUL-terminated string in the
  shared line buffer, exactly a maximal run of characters that are neither white space nor symbols, bounded on both sides: no argument is part of a
  word, and terminating one word never cuts into another.
\<close>

theorem parsecmd_words:
  assumes "CHR 0x00 \<notin> set b" "parsecmd n b = Some (Inr (c, buf))" "w \<in> spans c"
  shows "wf_span b w \<and> string_at buf (fst w) = slice b w"
proof -
  obtain s where "parseline n b 0 = Some (Inr (c, s))" "buf = nulterminate c (b @ [CHR 0x00])"
    using assms(2) by (auto simp: parsecmd_def bindO_eq_Some_Inr_iff split_beta split: if_splits)
  then have "\<forall>w \<in> spans c. wf_span b w" "buf = nulterminate c (b @ [CHR 0x00])"
    using derives_good(1) [OF assms(1) parse_derives [THEN conjunct1, rule_format]] by (auto simp: good_def)
  then show ?thesis using nulterminate_words assms(3) by blast
qed

theorem parsecmd_words_witness:
  "\<exists>c buf. parsecmd 20 ''ls>out;x'' = Some (Inr (c, buf)) \<and> spans c = {(0, 2), (3, 6), (7, 8)}
    \<and> string_at buf 0 = ''ls'' \<and> string_at buf 3 = ''out''"
proof -
  define buf where "buf = ''ls'' @ [CHR 0x00] @ ''out'' @ [CHR 0x00] @ ''x'' @ [CHR 0x00]"
  have b: "parsecmd 20 ''ls>out;x'' = Some (Inr (LIST (REDIR (EXEC [(0, 2)]) (3, 6) 513 1) (EXEC [(7, 8)]), buf))"
    unfolding buf_def by code_simp
  have z: "CHR 0x00 \<notin> set ''ls>out;x''" by simp
  have "string_at buf 0 = ''ls''" "string_at buf 3 = ''out''"
    using parsecmd_words [OF z b, of "(0, 2)"] parsecmd_words [OF z b, of "(3, 6)"] by (simp_all add: slice_def)
  then show ?thesis using b by auto
qed

end
