(* ===== verification/ShellPrint.thy ===== *)
theory ShellPrint
  imports Shell
begin

text \<open>
  Printing commands and parsing them back: a command whose words are words of the shell can be written as a line, with
  parentheses where the grammar needs them, and \<^verbatim>\<open>parsecmd\<close> of \<^verbatim>\<open>xv6/sh.c\<close> returns that command.
\<close>

section \<open>Commands with their words\<close>

datatype acmd =
    AExec "string list"
  | ARedir acmd string int int
  | APipe acmd acmd
  | AList acmd acmd
  | ABack acmd

text \<open>What \<^verbatim>\<open>runcmd\<close> reads from the line buffer.\<close>

primrec resolve :: "(span \<Rightarrow> string) \<Rightarrow> cmd \<Rightarrow> acmd" where
  "resolve f (EXEC ws) = AExec (map f ws)"
| "resolve f (REDIR c w m fd) = ARedir (resolve f c) (f w) m fd"
| "resolve f (PIPE l r) = APipe (resolve f l) (resolve f r)"
| "resolve f (LIST l r) = AList (resolve f l) (resolve f r)"
| "resolve f (BACK c) = ABack (resolve f c)"

lemma resolve_cong: "(\<And>w. w \<in> spans c \<Longrightarrow> f w = g w) \<Longrightarrow> resolve f c = resolve g c"
  by (induction c) auto

text \<open>The redirections around a command, innermost first.\<close>

fun base :: "acmd \<Rightarrow> acmd" where
  "base (ARedir c f m fd) = base c"
| "base c = c"

fun redirs :: "acmd \<Rightarrow> (string \<times> int) list" where
  "redirs (ARedir c f m fd) = redirs c @ [(f, m)]"
| "redirs c = []"

lemma base_not_redir [simp]: "base a \<noteq> ARedir c f m fd"
  by (induction a) auto

lemma base_smaller: "base a = a \<or> size (base a) < size a"
  by (induction a) auto

section \<open>Tokens of a command\<close>

datatype level = Line | Backs | Pipes | Simple

definition redir_tokens :: "(string \<times> int) list \<Rightarrow> string list" where
  "redir_tokens rs = concat (map (\<lambda>(f, m). [if m = O_RDONLY then ''<'' else ''>'', f]) rs)"

text \<open>How far a level is from the one at which the command is printed without parentheses.\<close>

fun level_of :: "level \<Rightarrow> acmd \<Rightarrow> nat" where
  "level_of Line (AList _ _) = 0"
| "level_of Simple (AList _ _) = 1"
| "level_of Pipes (AList _ _) = 2"
| "level_of Backs (AList _ _) = 3"
| "level_of Backs (ABack _) = 0"
| "level_of Line (ABack _) = 1"
| "level_of Simple (ABack _) = 2"
| "level_of Pipes (ABack _) = 3"
| "level_of Pipes (APipe _ _) = 0"
| "level_of Backs (APipe _ _) = 1"
| "level_of Line (APipe _ _) = 2"
| "level_of Simple (APipe _ _) = 3"
| "level_of Simple _ = 0"
| "level_of Pipes _ = 1"
| "level_of Backs _ = 2"
| "level_of Line _ = 3"

lemma level_of_le: "level_of l a \<le> 3"
  by (cases "(l, a)" rule: level_of.cases) auto

lemma level_of_less: "level_of l a < 4" "level_of l a < 4 + n"
  using level_of_le [of l a] by simp_all

lemma base_decreases:
  "base a = c \<Longrightarrow> level_of Line c < level_of Simple c \<Longrightarrow> 4 * size c + level_of Line c < 4 * size a + level_of Simple a"
  using base_smaller [of a] level_of_le [of Line c] by auto

function tokens :: "level \<Rightarrow> acmd \<Rightarrow> string list" where
  "tokens Line a = (case a of AList l r \<Rightarrow> tokens Backs l @ '';'' # tokens Line r | _ \<Rightarrow> tokens Backs a)"
| "tokens Backs a = (case a of ABack c \<Rightarrow> tokens Backs c @ [''&''] | _ \<Rightarrow> tokens Pipes a)"
| "tokens Pipes a = (case a of APipe l r \<Rightarrow> tokens Simple l @ ''|'' # tokens Pipes r | _ \<Rightarrow> tokens Simple a)"
| "tokens Simple a =
     (case base a of AExec ws \<Rightarrow> ws | _ \<Rightarrow> ''('' # tokens Line (base a) @ ['')'']) @ redir_tokens (redirs a)"
  by pat_completeness auto
termination
proof (relation "measure (\<lambda>(l, a). 4 * size a + level_of l a)", goal_cases)
qed (auto split: acmd.splits simp: level_of_less dest: base_decreases)

section \<open>Reading a line of tokens\<close>

definition word :: "string \<Rightarrow> bool" where
  "word t \<longleftrightarrow> t \<noteq> [] \<and> (\<forall>c \<in> set t. word_char c)"

definition is_token :: "string \<Rightarrow> bool" where
  "is_token t \<longleftrightarrow> word t \<or> t \<in> {''<'', ''>'', ''|'', ''&'', '';'', ''('', '')''}"

text \<open>Tokens are printed with a space behind each.\<close>

definition spaced :: "string list \<Rightarrow> string" where
  "spaced ts = concat (map (\<lambda>t. t @ '' '') ts)"

lemma spaced_simps [simp]: "spaced [] = []" "spaced (t # ts) = t @ CHR '' '' # spaced ts"
  by (simp_all add: spaced_def)

text \<open>At position \<open>s\<close> the rest of the line consists of the tokens \<open>ts\<close>.\<close>

definition lexed :: "string \<Rightarrow> nat \<Rightarrow> string list \<Rightarrow> bool" where
  "lexed b s ts \<longleftrightarrow> s \<le> length b \<and> drop s b = spaced ts \<and> (\<forall>t \<in> set ts. is_token t)"

definition token_code :: "string \<Rightarrow> char" where
  "token_code t = (if word t then CHR ''a'' else hd t)"

lemma at_drop: "at b (s + i) = at (drop s b) i"
  by (auto simp: at_def)

lemma skip_while_run:
  "(\<And>i. i < n \<Longrightarrow> s + i < length b \<and> P (at b (s + i))) \<Longrightarrow> (s + n < length b \<Longrightarrow> \<not> P (at b (s + n))) \<Longrightarrow>
    skip_while P b s = s + n"
proof (induction n arbitrary: s)
  case 0
  then show ?case by (subst skip_while.simps) auto
next
  case (Suc n)
  have "skip_while P b (Suc s) = Suc s + n" using Suc.prems(1) [of "Suc _"] Suc.prems(2) by (intro Suc.IH) auto
  then show ?case using Suc.prems(1) [of 0] by (simp add: skip_while.simps [of P b s])
qed

lemma token_first: "is_token t \<Longrightarrow> t \<noteq> [] \<and> \<not> occurs whitespace (hd t) \<and> hd t \<noteq> CHR 0x00"
  unfolding is_token_def
proof (elim disjE)
  assume "word t"
  then show ?thesis by (cases t) (auto simp: word_def word_char_def)
qed (auto simp: occurs_whitespace)

lemma lexed_at: "lexed b s (t # ts) \<Longrightarrow> at b s = hd t" "lexed b s [] \<Longrightarrow> at b s = CHR 0x00"
proof -
  assume l: "lexed b s (t # ts)"
  then have "t \<noteq> []" using token_first by (auto simp: lexed_def)
  then show "at b s = hd t" using at_drop [of b s 0] l by (cases t) (auto simp: lexed_def at_def)
next
  assume "lexed b s []"
  then show "at b s = CHR 0x00" by (simp add: lexed_def)
qed

lemma lexed_token: "lexed b s (t # ts) \<Longrightarrow> is_token t"
  by (simp add: lexed_def)

lemma lexed_skip: "lexed b s ts \<Longrightarrow> skip_space b s = s"
proof (cases ts)
  case Nil
  assume "lexed b s ts"
  then show ?thesis using Nil by (simp add: skip_space_def skip_while.simps [of _ b s] lexed_def)
next
  case (Cons t ts')
  assume l: "lexed b s ts"
  then have "\<not> occurs whitespace (at b s)" using Cons lexed_at(1) token_first [OF lexed_token] by metis
  then show ?thesis by (simp add: skip_space_def skip_while.simps [of _ b s])
qed

lemma lexed_peek:
  assumes "lexed b s ts"
  shows "peek toks b s = ((case ts of [] \<Rightarrow> False | t # _ \<Rightarrow> occurs toks (hd t)), s)"
proof (cases ts)
  case Nil
  then show ?thesis using assms lexed_at(2) by (simp add: peek_eq lexed_skip [OF assms])
next
  case (Cons t ts')
  then have "at b s = hd t" "hd t \<noteq> CHR 0x00" using assms lexed_at(1) token_first [OF lexed_token] by auto
  then show ?thesis using Cons by (simp add: peek_eq lexed_skip [OF assms])
qed

lemma lexed_next:
  assumes "lexed b s (t # ts)"
  shows "lexed b (s + length t + 1) ts" "slice b (s, s + length t) = t" "skip_space b (s + length t) = s + length t + 1"
    "\<And>i. i < length t \<Longrightarrow> at b (s + i) = t ! i" "at b (s + length t) = CHR '' ''" "s + length t < length b"
proof -
  have d: "drop s b = t @ CHR '' '' # spaced ts" using assms by (simp add: lexed_def)
  have "length b - s = length t + 1 + length (spaced ts)" using arg_cong [OF d, of length] by simp
  moreover have "s \<le> length b" using assms by (simp add: lexed_def)
  ultimately have len: "length b = s + length t + 1 + length (spaced ts)" by simp
  have "drop (s + length t + 1) b = drop (length t + 1) (drop s b)" by (simp add: add.commute add.left_commute)
  also have "\<dots> = spaced ts" by (simp add: d)
  finally show n: "lexed b (s + length t + 1) ts" using assms len by (simp add: lexed_def)
  show "slice b (s, s + length t) = t" by (simp add: slice_def d)
  show "at b (s + i) = t ! i" if "i < length t" for i using that unfolding at_drop d by (simp add: at_def nth_append)
  show a: "at b (s + length t) = CHR '' ''" unfolding at_drop d by (simp add: at_def)
  show "s + length t < length b" using len by simp
  then have "skip_space b (s + length t) = skip_space b (s + length t + 1)"
    using a by (simp add: skip_space_def skip_while.simps [of _ b "s + length t"] occurs_whitespace)
  then show "skip_space b (s + length t) = s + length t + 1" using lexed_skip [OF n] by simp
qed

lemma lexed_gettoken:
  assumes l: "lexed b s (t # ts)"
  shows "gettoken b s = (token_code t, (s, s + length t), s + length t + 1)"
proof (cases "word t")
  case True
  then have "word_end b s = s + length t"
    unfolding word_end_def using lexed_next(4,5,6) [OF l]
    by (intro skip_while_run) (auto simp: word_def word_char_def occurs_whitespace)
  moreover have "word_char (hd t)" using True by (simp add: word_def)
  ultimately show ?thesis
    using True lexed_at(1) [OF l] lexed_skip [OF l] lexed_next(3) [OF l]
    by (auto simp: gettoken_def Let_def token_code_def word_char_def occurs_symbols)
next
  case False
  then have "t \<in> {''<'', ''>'', ''|'', ''&'', '';'', ''('', '')''}" using l by (auto simp: lexed_def is_token_def)
  then show ?thesis
    using False lexed_at(1) [OF l] lexed_skip [OF l] lexed_next(3,5) [OF l]
    by (auto simp: gettoken_def Let_def token_code_def)
qed

lemma lexed_end: "lexed b s [] \<Longrightarrow> gettoken b s = (CHR 0x00, (s, s), s)"
  by (simp add: gettoken_def Let_def lexed_skip lexed_at)

section \<open>Parsing what was printed\<close>

text \<open>The commands that can be written down.\<close>

primrec wf_acmd :: "acmd \<Rightarrow> bool" where
  "wf_acmd (AExec ws) \<longleftrightarrow> length ws < MAXARGS \<and> (\<forall>w \<in> set ws. word w)"
| "wf_acmd (ARedir c f m fd) \<longleftrightarrow> wf_acmd c \<and> word f \<and> (m = O_RDONLY \<and> fd = 0 \<or> m = O_WRONLY_CREATE \<and> fd = 1)"
| "wf_acmd (APipe l r) \<longleftrightarrow> wf_acmd l \<and> wf_acmd r"
| "wf_acmd (AList l r) \<longleftrightarrow> wf_acmd l \<and> wf_acmd r"
| "wf_acmd (ABack c) \<longleftrightarrow> wf_acmd c"

definition rewrap :: "acmd \<Rightarrow> (string \<times> int) list \<Rightarrow> acmd" where
  "rewrap = foldl (\<lambda>c (f, m). ARedir c f m (if m = O_RDONLY then 0 else 1))"

definition wf_redirs :: "(string \<times> int) list \<Rightarrow> bool" where
  "wf_redirs rs \<longleftrightarrow> (\<forall>(f, m) \<in> set rs. word f \<and> (m = O_RDONLY \<or> m = O_WRONLY_CREATE))"

lemma rewrap_redirs: "wf_acmd a \<Longrightarrow> rewrap (base a) (redirs a) = a \<and> wf_acmd (base a) \<and> wf_redirs (redirs a)"
  by (induction a) (auto simp: rewrap_def wf_redirs_def O_RDONLY_def O_WRONLY_CREATE_def)

text \<open>The tokens that may follow.\<close>

definition ends :: "string \<Rightarrow> string list \<Rightarrow> bool" where
  "ends t ts \<longleftrightarrow> (case ts of [] \<Rightarrow> True | x # _ \<Rightarrow> occurs t (hd x))"

definition avoids :: "string \<Rightarrow> string list \<Rightarrow> bool" where
  "avoids t ts \<longleftrightarrow> (case ts of [] \<Rightarrow> True | x # _ \<Rightarrow> \<not> occurs t (hd x))"

lemma word_hd: "word w \<Longrightarrow> word_char (hd w)"
  by (simp add: word_def)

lemma occurs_iff: "CHR 0x00 \<notin> set t \<Longrightarrow> occurs t c \<longleftrightarrow> c \<in> set t"
  unfolding occurs_def by (induction t) auto

lemma avoids_word: "word w \<Longrightarrow> set t \<subseteq> set symbols \<Longrightarrow> avoids t (w # ts)"
proof -
  assume w: "word w" and t: "set t \<subseteq> set symbols"
  then have "occurs t (hd w) \<longleftrightarrow> hd w \<in> set t" by (intro occurs_iff) (auto simp: symbols_def)
  moreover have "hd w \<notin> set symbols" using word_hd [OF w] by (simp add: word_char_def occurs_iff symbols_def)
  ultimately show ?thesis using t by (auto simp: avoids_def)
qed

lemma parseredirs_none: "lexed b s ts \<Longrightarrow> avoids ''<>'' ts \<Longrightarrow> parseredirs b c s = Inr (c, s)"
  by (simp add: parseredirs.simps [of b c s] lexed_peek avoids_def split: list.splits)

lemma parseredirs_lexed:
  "lexed b s (redir_tokens rs @ ts) \<Longrightarrow> wf_redirs rs \<Longrightarrow> avoids ''<>'' ts \<Longrightarrow>
    \<exists>c' s'. parseredirs b c s = Inr (c', s') \<and> lexed b s' ts \<and> resolve (slice b) c' = rewrap (resolve (slice b) c) rs"
proof (induction rs arbitrary: c s)
  case Nil
  then show ?case using parseredirs_none by (simp add: redir_tokens_def rewrap_def)
next
  case (Cons r rs)
  obtain f m where r: "r = (f, m)" by (cases r)
  let ?t = "if m = O_RDONLY then ''<'' else ''>''"
  have l: "lexed b s (?t # f # redir_tokens rs @ ts)" using Cons.prems(1) by (simp add: redir_tokens_def r)
  have l1: "lexed b (s + 2) (f # redir_tokens rs @ ts)" using lexed_next(1) [OF l] by (auto split: if_splits)
  have f: "word f" "m = O_RDONLY \<or> m = O_WRONLY_CREATE" using Cons.prems(2) by (auto simp: wf_redirs_def r)
  let ?c = "redir_of (hd ?t) (s + 2, s + 2 + length f) c"
  have "\<not> word ?t" by (auto simp: word_def word_char_def occurs_symbols)
  then have step: "parseredirs b c s = parseredirs b ?c (s + 2 + length f + 1)"
    using lexed_peek [OF l, of "''<>''"] lexed_gettoken [OF l] lexed_gettoken [OF l1] f(1)
    by (simp add: parseredirs.simps [of b c s] token_code_def occurs_def)
  have "resolve (slice b) ?c = ARedir (resolve (slice b) c) f m (if m = O_RDONLY then 0 else 1)"
    using f(2) lexed_next(2) [OF l1] by (auto simp: redir_of_def O_RDONLY_def O_WRONLY_CREATE_def)
  then show ?case
    using Cons.IH [OF lexed_next(1) [OF l1], of ?c] Cons.prems(2,3) step by (simp add: wf_redirs_def r rewrap_def)
qed

lemma exec_loop_stop:
  assumes "lexed b s ts" "ends ''|)&;'' ts"
  shows "exec_loop b c argc s = Inr (c, s)"
proof (cases ts)
  case Nil
  then show ?thesis using assms lexed_peek [OF assms(1)] lexed_end by (simp add: exec_loop.simps [of b c argc s])
next
  case (Cons t ts')
  then show ?thesis using assms lexed_peek [OF assms(1)] by (simp add: exec_loop.simps [of b c argc s] ends_def)
qed

lemma ends_avoids: "ends ''|)&;'' ts \<Longrightarrow> avoids ''<>'' ts"
  by (auto simp: ends_def avoids_def occurs_iff split: list.splits)

lemma exec_loop_lexed:
  assumes "lexed b s (w # ws @ redir_tokens rs @ ts)" "\<forall>w \<in> set (w # ws). word w" "argc + length (w # ws) < MAXARGS"
    "wf_redirs rs" "ends ''|)&;'' ts"
  shows "\<exists>c' s'. exec_loop b (EXEC sp) argc s = Inr (c', s') \<and> lexed b s' ts
    \<and> resolve (slice b) c' = rewrap (AExec (map (slice b) sp @ w # ws)) rs"
  using assms
proof (induction ws arbitrary: s w argc sp)
  case Nil
  have l: "lexed b s (w # redir_tokens rs @ ts)" using Nil.prems(1) by simp
  let ?c = "EXEC (sp @ [(s, s + length w)])"
  obtain c1 s1 where c1: "parseredirs b ?c (s + length w + 1) = Inr (c1, s1)" "lexed b s1 ts"
      "resolve (slice b) c1 = rewrap (resolve (slice b) ?c) rs"
    using parseredirs_lexed [OF lexed_next(1) [OF l] Nil.prems(4) ends_avoids [OF Nil.prems(5)], of ?c] by blast
  then show ?case
    using Nil.prems avoids_word [of w "''|)&;''"] lexed_peek [OF l] lexed_gettoken [OF l] exec_loop_stop [OF c1(2) Nil.prems(5)]
      lexed_next(2) [OF l]
    by (simp add: exec_loop.simps [of b "EXEC sp" argc s] avoids_def token_code_def symbols_def)
next
  case (Cons w2 ws)
  have l: "lexed b s (w # w2 # ws @ redir_tokens rs @ ts)" using Cons.prems(1) by simp
  have l1: "lexed b (s + length w + 1) (w2 # ws @ redir_tokens rs @ ts)" using lexed_next(1) [OF l] .
  let ?sp = "sp @ [(s, s + length w)]"
  have "parseredirs b (EXEC ?sp) (s + length w + 1) = Inr (EXEC ?sp, s + length w + 1)"
    using parseredirs_none [OF l1] avoids_word [of w2 "''<>''"] Cons.prems(2) by (simp add: symbols_def)
  then have "exec_loop b (EXEC sp) argc s = exec_loop b (EXEC ?sp) (argc + 1) (s + length w + 1)"
    using Cons.prems avoids_word [of w "''|)&;''"] lexed_peek [OF l] lexed_gettoken [OF l]
    by (simp add: exec_loop.simps [of b "EXEC sp" argc s] avoids_def token_code_def symbols_def)
  then show ?case using Cons.IH [OF l1, of "argc + 1" ?sp] Cons.prems lexed_next(2) [OF l] by simp
qed

text \<open>A parser that has read \<open>a\<close> and stands before \<open>ts\<close>.\<close>

definition parsed :: "string \<Rightarrow> (cmd \<times> nat) res \<Rightarrow> string list \<Rightarrow> acmd \<Rightarrow> bool" where
  "parsed b r ts a \<longleftrightarrow> (\<exists>c s. r = Inr (c, s) \<and> lexed b s ts \<and> resolve (slice b) c = a)"

definition parses_simple :: "acmd \<Rightarrow> bool" where
  "parses_simple a \<longleftrightarrow> (\<forall>b s ts n r. lexed b s (tokens Simple a @ ts) \<longrightarrow> ends ''|)&;'' ts \<longrightarrow>
     parseexec n b s = Some r \<longrightarrow> parsed b r ts a)"

definition parses_pipes :: "acmd \<Rightarrow> bool" where
  "parses_pipes a \<longleftrightarrow> (\<forall>b s ts n r. lexed b s (tokens Pipes a @ ts) \<longrightarrow> ends '')&;'' ts \<longrightarrow>
     parsepipe n b s = Some r \<longrightarrow> parsed b r ts a)"

text \<open>The loop over \<^verbatim>\<open>&\<close> goes on behind the tokens of \<open>a\<close>.\<close>

definition parses_backs :: "acmd \<Rightarrow> bool" where
  "parses_backs a \<longleftrightarrow> (\<forall>b s ts n r. lexed b s (tokens Backs a @ ts) \<longrightarrow> ends '')&;'' ts \<longrightarrow> parsepipe n b s = Some r \<longrightarrow>
     (\<exists>c1 s1 c s'. r = Inr (c1, s1) \<and> back_loop b c1 s1 = back_loop b c s' \<and> lexed b s' ts \<and> resolve (slice b) c = a))"

definition parses_line :: "acmd \<Rightarrow> bool" where
  "parses_line a \<longleftrightarrow> (\<forall>b s ts n r. lexed b s (tokens Line a @ ts) \<longrightarrow> ends '')'' ts \<longrightarrow>
     parseline n b s = Some r \<longrightarrow> parsed b r ts a)"

declare tokens.simps [simp del]

lemmas occurs_simps = occurs_iff [of "''|''"] occurs_iff [of "''('' "] occurs_iff [of "'')''"] occurs_iff [of "'';''"]
  occurs_iff [of "''&''"] occurs_iff [of "'')&;''"] occurs_iff [of "''|)&;''"] occurs_iff [of "''<>''"]

lemma avoids_open:
  assumes "\<forall>w \<in> set ws. word w" "ends ''|)&;'' ts"
  shows "avoids ''('' (ws @ redir_tokens rs @ ts)"
proof (cases ws)
  case Nil
  then show ?thesis using assms(2)
    by (cases rs) (auto simp: redir_tokens_def avoids_def ends_def occurs_simps split: list.splits if_splits)
next
  case (Cons w ws')
  then show ?thesis using avoids_word [of w "''(''"] assms(1) by (simp add: symbols_def)
qed

lemma simple_exec_parses:
  assumes "wf_acmd a" "base a = AExec ws"
  shows "parses_simple a"
  unfolding parses_simple_def
proof (intro allI impI)
  fix b s ts n r
  assume l: "lexed b s (tokens Simple a @ ts)" and e: "ends ''|)&;'' ts" and p: "parseexec n b s = Some r"
  have wf: "\<forall>w \<in> set ws. word w" "length ws < MAXARGS" "wf_redirs (redirs a)" "rewrap (AExec ws) (redirs a) = a"
    using rewrap_redirs [OF assms(1)] assms(2) by auto
  have l: "lexed b s (ws @ redir_tokens (redirs a) @ ts)" using l assms(2) by (simp add: tokens.simps)
  obtain n' where n: "n = Suc n'" using p by (cases n) auto
  have "avoids ''('' (ws @ redir_tokens (redirs a) @ ts)" using avoids_open [OF wf(1) e] .
  then have np: "peek ''('' b s = (False, s)" using lexed_peek [OF l] by (auto simp: avoids_def split: list.splits)
  show "parsed b r ts a"
  proof (cases ws)
    case Nil
    then obtain c' s' where "parseredirs b (EXEC []) s = Inr (c', s')" "lexed b s' ts" "resolve (slice b) c' = a"
      using parseredirs_lexed [of b s "redirs a" ts "EXEC []"] l wf(3,4) ends_avoids [OF e] by auto
    moreover from this have "r = Inr (c', s')" using p np exec_loop_stop [OF _ e, of b s' c' 0] by (simp add: n)
    ultimately show ?thesis by (auto simp: parsed_def)
  next
    case (Cons w ws')
    have "parseredirs b (EXEC []) s = Inr (EXEC [], s)"
      using parseredirs_none [OF l] avoids_word [of w "''<>''"] wf(1) Cons by (simp add: symbols_def)
    moreover obtain c' s' where "exec_loop b (EXEC []) 0 s = Inr (c', s')" "lexed b s' ts" "resolve (slice b) c' = a"
      using exec_loop_lexed [of b s w ws' "redirs a" ts 0 "[]"] l wf e Cons by auto
    moreover from calculation have "r = Inr (c', s')" using p np by (simp add: n)
    ultimately show ?thesis by (auto simp: parsed_def)
  qed
qed

lemma simple_block_parses:
  assumes "wf_acmd a" "\<And>ws. base a \<noteq> AExec ws" "parses_line (base a)"
  shows "parses_simple a"
  unfolding parses_simple_def
proof (intro allI impI)
  fix b s ts n r
  assume l: "lexed b s (tokens Simple a @ ts)" and e: "ends ''|)&;'' ts" and p: "parseexec n b s = Some r"
  have "(case base a of AExec ws \<Rightarrow> ws | _ \<Rightarrow> ''('' # tokens Line (base a) @ ['')'']) = ''('' # tokens Line (base a) @ ['')'']"
    using assms(2) by (cases "base a") auto
  then have l: "lexed b s (''('' # tokens Line (base a) @ '')'' # redir_tokens (redirs a) @ ts)"
    using l by (simp add: tokens.simps)
  note g = lexed_gettoken [OF l] lexed_peek [OF l, of "''(''"]
  have l1: "lexed b (s + 2) (tokens Line (base a) @ '')'' # redir_tokens (redirs a) @ ts)" using lexed_next(1) [OF l] by simp
  obtain n' where n: "n = Suc (Suc n')" "parseblock (Suc n') b s = Some r"
    using p g by (cases n; cases "n - 1") (auto simp: occurs_simps)
  obtain r1 where r1: "parseline n' b (s + 2) = Some r1"
    using n(2) g by (cases "parseline n' b (s + 2)") (auto simp: occurs_simps)
  then have "parsed b r1 ('')'' # redir_tokens (redirs a) @ ts) (base a)"
    using assms(3) l1 unfolding parses_line_def by (auto simp: ends_def occurs_simps)
  then obtain c1 s1 where c1: "r1 = Inr (c1, s1)" "lexed b s1 ('')'' # redir_tokens (redirs a) @ ts)"
      "resolve (slice b) c1 = base a" by (auto simp: parsed_def)
  have wf: "wf_redirs (redirs a)" "rewrap (base a) (redirs a) = a" using rewrap_redirs [OF assms(1)] by auto
  have l2: "lexed b (s1 + 2) (redir_tokens (redirs a) @ ts)" using lexed_next(1) [OF c1(2)] by simp
  obtain c2 s2 where "parseredirs b c1 (s1 + 2) = Inr (c2, s2)" "lexed b s2 ts" "resolve (slice b) c2 = a"
    using parseredirs_lexed [OF l2 wf(1) ends_avoids [OF e], of c1] c1(3) wf(2) by auto
  moreover from this(1) have "r = Inr (c2, s2)"
    using n(2) g r1 c1(1) lexed_peek [OF c1(2), of "'')''"] lexed_gettoken [OF c1(2)] by (simp add: occurs_simps)
  ultimately show "parsed b r ts a" by (auto simp: parsed_def)
qed

lemma pipe_one_parses:
  assumes "parses_simple a" "tokens Pipes a = tokens Simple a"
  shows "parses_pipes a"
  unfolding parses_pipes_def
proof (intro allI impI)
  fix b s ts n r
  assume l: "lexed b s (tokens Pipes a @ ts)" and e: "ends '')&;'' ts" and p: "parsepipe n b s = Some r"
  obtain n' r1 where n: "n = Suc n'" "parseexec n' b s = Some r1"
    using p by (cases n; cases "parseexec (n - 1) b s") auto
  have "ends ''|)&;'' ts" using e by (auto simp: ends_def occurs_simps split: list.splits)
  then obtain c s' where c: "r1 = Inr (c, s')" "lexed b s' ts" "resolve (slice b) c = a"
    using assms l n(2) unfolding parses_simple_def parsed_def by metis
  have "peek ''|'' b s' = (False, s')"
    using lexed_peek [OF c(2), of "''|''"] e by (auto simp: ends_def occurs_simps split: list.splits)
  then have "r = Inr (c, s')" using p n c(1) by simp
  then show "parsed b r ts a" using c by (auto simp: parsed_def)
qed

lemma pipe_more_parses:
  assumes "parses_simple l" "parses_pipes r"
  shows "parses_pipes (APipe l r)"
  unfolding parses_pipes_def
proof (intro allI impI)
  fix b s ts n res
  assume x: "lexed b s (tokens Pipes (APipe l r) @ ts)" and e: "ends '')&;'' ts" and p: "parsepipe n b s = Some res"
  have x: "lexed b s (tokens Simple l @ ''|'' # tokens Pipes r @ ts)" using x by (simp add: tokens.simps [of "APipe l r"])
  obtain n' r1 where n: "n = Suc n'" "parseexec n' b s = Some r1"
    using p by (cases n; cases "parseexec (n - 1) b s") auto
  have "ends ''|)&;'' (''|'' # tokens Pipes r @ ts)" by (simp add: ends_def occurs_simps)
  then obtain c s' where c: "r1 = Inr (c, s')" "lexed b s' (''|'' # tokens Pipes r @ ts)" "resolve (slice b) c = l"
    using assms(1) x n(2) unfolding parses_simple_def parsed_def by metis
  have l1: "lexed b (s' + 2) (tokens Pipes r @ ts)" using lexed_next(1) [OF c(2)] by simp
  note g = lexed_peek [OF c(2), of "''|''"] lexed_gettoken [OF c(2)]
  obtain r2 where r2: "parsepipe n' b (s' + 2) = Some r2"
    using p n c(1) g by (cases "parsepipe n' b (s' + 2)") (auto simp: occurs_simps)
  then obtain c2 s2 where c2: "r2 = Inr (c2, s2)" "lexed b s2 ts" "resolve (slice b) c2 = r"
    using assms(2) l1 e unfolding parses_pipes_def parsed_def by metis
  have "res = Inr (PIPE c c2, s2)" using p n c(1) g r2 c2(1) by (simp add: occurs_simps)
  then show "parsed b res ts (APipe l r)" using c(3) c2 by (auto simp: parsed_def)
qed

lemma backs_one_parses:
  assumes "parses_pipes a" "tokens Backs a = tokens Pipes a"
  shows "parses_backs a"
  using assms unfolding parses_pipes_def parses_backs_def parsed_def by metis

lemma backs_more_parses:
  assumes "parses_backs a"
  shows "parses_backs (ABack a)"
  unfolding parses_backs_def
proof (intro allI impI)
  fix b s ts n r
  assume x: "lexed b s (tokens Backs (ABack a) @ ts)" and e: "ends '')&;'' ts" and p: "parsepipe n b s = Some r"
  have x: "lexed b s (tokens Backs a @ ''&'' # ts)" using x by (simp add: tokens.simps [of "ABack a"])
  have "ends '')&;'' (''&'' # ts)" by (simp add: ends_def occurs_simps)
  then obtain c1 s1 c s' where c: "r = Inr (c1, s1)" "back_loop b c1 s1 = back_loop b c s'" "lexed b s' (''&'' # ts)" "resolve (slice b) c = a"
    using assms x p unfolding parses_backs_def by metis
  have "back_loop b c s' = back_loop b (BACK c) (s' + 2)"
    using lexed_peek [OF c(3), of "''&''"] lexed_gettoken [OF c(3)] by (simp add: back_loop.simps [of b c s'] occurs_simps)
  then show "\<exists>c1 s1 c s'. r = Inr (c1, s1) \<and> back_loop b c1 s1 = back_loop b c s' \<and> lexed b s' ts \<and> resolve (slice b) c = ABack a"
    using c lexed_next(1) [OF c(3)]
    by (intro exI [of _ c1] exI [of _ s1] exI [of _ "BACK c"] exI [of _ "s' + 2"]) simp
qed

lemma back_loop_stop: "lexed b s ts \<Longrightarrow> ends '');'' ts \<Longrightarrow> back_loop b c s = (c, s)"
  using lexed_peek [of b s ts "''&''"]
  by (auto simp: back_loop.simps [of b c s] ends_def occurs_simps occurs_iff [of "'');''"] split: list.splits)

text \<open>What the two cases of a line share.\<close>

lemma line_prefix:
  assumes "parses_backs a" "lexed b s (tokens Backs a @ ts)" "ends '');'' ts" "parseline n b s = Some r"
  shows "\<exists>n' c1 s1 c s'. n = Suc n' \<and> parsepipe n' b s = Some (Inr (c1, s1)) \<and> back_loop b c1 s1 = (c, s')
    \<and> lexed b s' ts \<and> resolve (slice b) c = a"
proof -
  obtain n' r1 where n: "n = Suc n'" "parsepipe n' b s = Some r1"
    using assms(4) by (cases n; cases "parsepipe (n - 1) b s") auto
  have "ends '')&;'' ts" using assms(3) by (auto simp: ends_def occurs_simps occurs_iff [of "'');''"] split: list.splits)
  then obtain c1 s1 c s' where c: "r1 = Inr (c1, s1)" "back_loop b c1 s1 = back_loop b c s'" "lexed b s' ts" "resolve (slice b) c = a"
    using assms(1,2) n(2) unfolding parses_backs_def by metis
  then show ?thesis using n back_loop_stop [OF c(3) assms(3)] by auto
qed

lemma line_one_parses:
  assumes "parses_backs a" "tokens Line a = tokens Backs a"
  shows "parses_line a"
  unfolding parses_line_def
proof (intro allI impI)
  fix b s ts n r
  assume l: "lexed b s (tokens Line a @ ts)" and e: "ends '')'' ts" and p: "parseline n b s = Some r"
  have "ends '');'' ts" using e by (auto simp: ends_def occurs_simps occurs_iff [of "'');''"] split: list.splits)
  then obtain n' c1 s1 c s' where c: "n = Suc n'" "parsepipe n' b s = Some (Inr (c1, s1))" "back_loop b c1 s1 = (c, s')"
      "lexed b s' ts" "resolve (slice b) c = a"
    using line_prefix [OF assms(1) l [unfolded assms(2)] _ p] by blast
  have "peek '';'' b s' = (False, s')"
    using lexed_peek [OF c(4), of "'';''"] e by (auto simp: ends_def occurs_simps split: list.splits)
  then have "r = Inr (c, s')" using p c by simp
  then show "parsed b r ts a" using c by (auto simp: parsed_def)
qed

lemma line_list_parses:
  assumes "parses_backs l" "parses_line r"
  shows "parses_line (AList l r)"
  unfolding parses_line_def
proof (intro allI impI)
  fix b s ts n res
  assume x: "lexed b s (tokens Line (AList l r) @ ts)" and e: "ends '')'' ts" and p: "parseline n b s = Some res"
  have x: "lexed b s (tokens Backs l @ '';'' # tokens Line r @ ts)" using x by (simp add: tokens.simps [of "AList l r"])
  have "ends '');'' ('';'' # tokens Line r @ ts)" by (simp add: ends_def occurs_iff [of "'');''"])
  then obtain n' c1 s1 c s' where c: "n = Suc n'" "parsepipe n' b s = Some (Inr (c1, s1))" "back_loop b c1 s1 = (c, s')"
      "lexed b s' ('';'' # tokens Line r @ ts)" "resolve (slice b) c = l"
    using line_prefix [OF assms(1) x _ p] by blast
  note g = lexed_peek [OF c(4), of "'';''"] lexed_gettoken [OF c(4)]
  have l1: "lexed b (s' + 2) (tokens Line r @ ts)" using lexed_next(1) [OF c(4)] by simp
  obtain r2 where r2: "parseline n' b (s' + 2) = Some r2"
    using p c g by (cases "parseline n' b (s' + 2)") (auto simp: occurs_simps)
  then obtain c2 s2 where c2: "r2 = Inr (c2, s2)" "lexed b s2 ts" "resolve (slice b) c2 = r"
    using assms(2) l1 e unfolding parses_line_def parsed_def by metis
  have "res = Inr (LIST c c2, s2)" using p c g r2 c2(1) by (simp add: occurs_simps)
  then show "parsed b res ts (AList l r)" using c(5) c2 by (auto simp: parsed_def)
qed

lemma tokens_parse:
  "wf_acmd a \<Longrightarrow> (case l of Line \<Rightarrow> parses_line a | Backs \<Rightarrow> parses_backs a | Pipes \<Rightarrow> parses_pipes a | Simple \<Rightarrow> parses_simple a)"
proof (induction l a rule: tokens.induct)
  case (1 a)
  show ?case
    using 1 tokens.simps(1) [of a] by (cases a) (simp_all add: line_list_parses line_one_parses)
next
  case (2 a)
  show ?case
    using 2 tokens.simps(2) [of a] by (cases a) (simp_all add: backs_more_parses backs_one_parses)
next
  case (3 a)
  show ?case
    using 3 tokens.simps(3) [of a] by (cases a) (simp_all add: pipe_more_parses pipe_one_parses)
next
  case (4 a)
  show ?case
  proof (cases "\<exists>ws. base a = AExec ws")
    case True
    then show ?thesis using simple_exec_parses [OF "4.prems"] by auto
  next
    case False
    then have "parses_line (base a)" using 4 rewrap_redirs [OF "4.prems"] by (cases "base a") auto
    then show ?thesis using simple_block_parses [OF "4.prems"] False by auto
  qed
qed

lemma is_token_symbols:
  "is_token ''<''" "is_token ''>''" "is_token ''|''" "is_token ''&''" "is_token '';''" "is_token ''(''" "is_token '')''"
  by (simp_all add: is_token_def)

lemma words_are_tokens: "\<forall>w \<in> set ws. word w \<Longrightarrow> list_all is_token ws"
  by (simp add: list_all_iff is_token_def)

lemma tokens_are_tokens: "wf_acmd a \<Longrightarrow> list_all is_token (tokens l a)"
proof (induction l a rule: tokens.induct)
  case (1 a)
  then show ?case using tokens.simps(1) [of a] by (cases a) (simp_all add: is_token_symbols)
next
  case (2 a)
  then show ?case using tokens.simps(2) [of a] by (cases a) (simp_all add: is_token_symbols)
next
  case (3 a)
  then show ?case using tokens.simps(3) [of a] by (cases a) (simp_all add: is_token_symbols)
next
  case (4 a)
  have wf: "wf_acmd (base a)" "wf_redirs (redirs a)" using rewrap_redirs [OF "4.prems"] by auto
  have "list_all is_token (redir_tokens (redirs a))"
    using wf(2) by (auto simp: redir_tokens_def wf_redirs_def is_token_def list_all_iff)
  then show ?case using 4(1-4) wf(1) tokens.simps(4) [of a] by (cases "base a") (simp_all add: is_token_symbols words_are_tokens)
qed

definition print_cmd :: "acmd \<Rightarrow> string" where
  "print_cmd a = spaced (tokens Line a)"

lemma token_no_nul: "is_token t \<Longrightarrow> CHR 0x00 \<notin> set t"
  by (auto simp: is_token_def word_def word_char_def)

lemma print_cmd_no_nul: "wf_acmd a \<Longrightarrow> CHR 0x00 \<notin> set (print_cmd a)"
  using tokens_are_tokens [of a Line] token_no_nul by (auto simp: print_cmd_def spaced_def list_all_iff)

text \<open>
  Claim C26. Printing and parsing round trip: for every command whose words are non-empty runs of word characters and that has
  fewer than ten arguments per program, the line that writes it down (with parentheses where the grammar needs them) is
  parsed, whatever the depth allowed once it is enough, into that command: the strings that the resulting structure
  points to in the line buffer are the words of the command.
\<close>

theorem parsecmd_print_roundtrip:
  assumes "wf_acmd a" "n \<ge> 4 * length (print_cmd a) + 4"
  shows "\<exists>c buf. parsecmd n (print_cmd a) = Some (Inr (c, buf)) \<and> resolve (\<lambda>w. string_at buf (fst w)) c = a"
proof -
  let ?b = "print_cmd a"
  obtain r where r: "parseline n ?b 0 = Some r" using parse_terminates [of ?b 0 n] assms(2) by auto
  have l: "lexed ?b 0 (tokens Line a @ [])" using tokens_are_tokens [OF assms(1)] by (simp add: lexed_def print_cmd_def list_all_iff)
  have "parses_line a" using tokens_parse [OF assms(1), of Line] by simp
  moreover have "ends '')'' []" by (simp add: ends_def)
  ultimately obtain c s where c: "r = Inr (c, s)" "lexed ?b s []" "resolve (slice ?b) c = a"
    using l r unfolding parses_line_def parsed_def by blast
  let ?buf = "nulterminate c (?b @ [CHR 0x00])"
  have p: "parsecmd n ?b = Some (Inr (c, ?buf))"
    using r c(1) lexed_peek [OF c(2), of "''''"] c(2) by (simp add: parsecmd_def lexed_def)
  have "line ?b 0 c s" using parse_derives [THEN conjunct1, rule_format] r c(1) by blast
  then have "\<forall>w \<in> spans c. wf_span ?b w" using derives_good(1) [OF print_cmd_no_nul [OF assms(1)]] by (auto simp: good_def)
  then have "resolve (\<lambda>w. string_at ?buf (fst w)) c = resolve (slice ?b) c" by (intro resolve_cong nulterminate_words)
  then show ?thesis using p c(3) by auto
qed

theorem parsecmd_print_roundtrip_witness:
  "print_cmd (APipe (AExec [''ls'']) (ARedir (ABack (AExec [''wc''])) ''f'' 513 1)) = ''ls | ( wc & ) > f '' \<and>
   (\<exists>c buf. parsecmd 100 ''ls | ( wc & ) > f '' = Some (Inr (c, buf)) \<and>
      resolve (\<lambda>w. string_at buf (fst w)) c = APipe (AExec [''ls'']) (ARedir (ABack (AExec [''wc''])) ''f'' 513 1))"
proof -
  let ?a = "APipe (AExec [''ls'']) (ARedir (ABack (AExec [''wc''])) ''f'' 513 1)"
  have p: "print_cmd ?a = ''ls | ( wc & ) > f ''" by code_simp
  have "wf_acmd ?a" by code_simp
  then show ?thesis using parsecmd_print_roundtrip [of ?a 100] unfolding p by simp
qed

end
