(* ===== verification/Font.thy ===== *)
theory Font
  imports Vm
begin

text \<open>
  Drawing characters on the frame buffer: \<^verbatim>\<open>xv6/font.c\<close>, the table of \<^verbatim>\<open>xv6/font_bin.h\<close> and \<^verbatim>\<open>xv6/graphic.c\<close>.
\<close>

unbundle bit_operations_syntax

section \<open>The font\<close>

definition font_bin :: "nat list list" where
  "font_bin = [
    [0, 0, 0, 0, 0, 0, 0, 0, 0, 0, 0, 0, 0, 0, 0, 0, 0, 0, 0, 0, 0, 0, 0, 0, 0, 0, 0, 0, 0, 0],
    [0, 0x1C0, 0x1C0, 0x1C0, 0x1C0, 0x1C0, 0x1C0, 0x1C0, 0x1C0, 0x1C0, 0x1C0, 0x180, 0x180, 0x180, 0x180, 0x180, 0, 0, 0, 0x1C0, 0x3C0, 0x3C0, 0x1C0, 0, 0, 0, 0, 0, 0, 0],
    [0xC38, 0x1E38, 0x1E38, 0xE38, 0xE38, 0xC38, 0xC38, 0xC38, 0xC30, 0xC10, 0, 0, 0, 0, 0, 0, 0, 0, 0, 0, 0, 0, 0, 0, 0, 0, 0, 0, 0, 0],
    [0, 0, 0x318, 0x318, 0x318, 0x210, 0x630, 0x738, 0x3FFE, 0x3FFE, 0x630, 0x630, 0x630, 0x630, 0x3FFC, 0x3FFC, 0x3FFC, 0xC60, 0xC60, 0xC60, 0xC60, 0xC60, 0x18C0, 0, 0, 0, 0, 0, 0, 0],
    [0x180, 0x180, 0x3E0, 0x7F0, 0xFF8, 0xE18, 0x1C00, 0x1C00, 0x1E00, 0xF00, 0xF80, 0x7C0, 0x3F0, 0x1F8, 0x78, 0x3C, 0x1C, 0x1C, 0x1C, 0x183C, 0x1FF8, 0x1FF0, 0x7E0, 0x180, 0x180, 0x180, 0x80, 0, 0, 0],
    [0, 0, 0x1E00, 0x3F04, 0x330E, 0x730C, 0x6318, 0x6338, 0x6330, 0x3320, 0x3700, 0x1E00, 0x800, 0x3C, 0x7C, 0x6C6, 0xCC6, 0x1CC6, 0x18C6, 0x38C6, 0x30C6, 0x7C, 0x3C, 0, 0, 0, 0, 0, 0, 0],
    [0, 0x380, 0x7C0, 0xFE0, 0xC60, 0xC60, 0xC60, 0xC60, 0xEE0, 0xFC0, 0xF80, 0x70E, 0xF0E, 0x1F8E, 0x1F8C, 0x39DC, 0x39FC, 0x38F8, 0x3878, 0x387C, 0x3CFE, 0x1FFE, 0xFC4, 0, 0, 0, 0, 0, 0, 0],
    [0x1C0, 0x1C0, 0x1C0, 0x1C0, 0x1C0, 0x1C0, 0x1C0, 0x180, 0x180, 0x80, 0, 0, 0, 0, 0, 0, 0, 0, 0, 0, 0, 0, 0, 0, 0, 0, 0, 0, 0, 0],
    [0x38, 0x70, 0xE0, 0x1E0, 0x1C0, 0x380, 0x380, 0x380, 0x700, 0x700, 0x700, 0x700, 0x700, 0x700, 0x700, 0x700, 0x700, 0x700, 0x700, 0x300, 0x380, 0x380, 0x180, 0x1C0, 0xE0, 0xE0, 0x70, 0x38, 0, 0],
    [0xE00, 0xF00, 0x700, 0x380, 0x1C0, 0x1C0, 0xC0, 0xE0, 0xE0, 0xE0, 0x60, 0x70, 0x70, 0x70, 0x70, 0x70, 0x70, 0x60, 0xE0, 0xE0, 0xE0, 0xC0, 0x1C0, 0x380, 0x380, 0x700, 0xE00, 0xE00, 0, 0],
    [0x180, 0x180, 0x180, 0x1FF8, 0xFF8, 0x3E0, 0x3E0, 0x760, 0x630, 0x420, 0, 0, 0, 0, 0, 0, 0, 0, 0, 0, 0, 0, 0, 0, 0, 0, 0, 0, 0, 0],
    [0, 0, 0, 0, 0, 0x180, 0x180, 0x180, 0x180, 0x180, 0x180, 0x3FFE, 0x3FFE, 0x1C0, 0x180, 0x180, 0x180, 0x180, 0x180, 0x180, 0, 0, 0, 0, 0, 0, 0, 0, 0, 0],
    [0, 0, 0, 0, 0, 0, 0, 0, 0, 0, 0, 0, 0, 0, 0, 0, 0, 0, 0, 0x3C0, 0x3E0, 0x3E0, 0x1E0, 0x60, 0xC0, 0xC0, 0x380, 0x300, 0x200, 0],
    [0, 0, 0, 0, 0, 0, 0, 0, 0, 0, 0, 0, 0, 0xFF0, 0xFF0, 0xFF0, 0, 0, 0, 0, 0, 0, 0, 0, 0, 0, 0, 0, 0, 0],
    [0, 0, 0, 0, 0, 0, 0, 0, 0, 0, 0, 0, 0, 0, 0, 0, 0, 0, 0, 0x1C0, 0x3C0, 0x3C0, 0x1C0, 0, 0, 0, 0, 0, 0, 0],
    [0xC, 0xC, 0x1C, 0x18, 0x18, 0x30, 0x30, 0x30, 0x60, 0x60, 0xE0, 0xC0, 0xC0, 0x180, 0x180, 0x180, 0x300, 0x300, 0x300, 0x600, 0x600, 0xE00, 0xC00, 0xC00, 0x1800, 0x1800, 0x1800, 0x3000, 0, 0],
    [0, 0, 0x3E0, 0x7F0, 0xFF0, 0xE38, 0x1C38, 0x1C1C, 0x1C1C, 0x1C1C, 0x3C1C, 0x3C1C, 0x3C1C, 0x3C1C, 0x1C1C, 0x1C1C, 0x1C1C, 0x1C1C, 0x1C38, 0xE38, 0xF78, 0x7F0, 0x3E0, 0, 0, 0, 0, 0, 0, 0],
    [0, 0, 0x1C0, 0x7C0, 0xFC0, 0xFC0, 0x1C0, 0x1C0, 0x1C0, 0x1C0, 0x1C0, 0x1C0, 0x1C0, 0x1C0, 0x1C0, 0x1C0, 0x1C0, 0x1C0, 0x1C0, 0x1C0, 0x1FFC, 0x1FFC, 0x1FFC, 0, 0, 0, 0, 0, 0, 0],
    [0, 0, 0x7E0, 0x1FF0, 0x3FF0, 0x1838, 0x38, 0x38, 0x38, 0x38, 0x38, 0x78, 0x70, 0xF0, 0xE0, 0x1C0, 0x3C0, 0x780, 0x700, 0xE00, 0x1FFC, 0x3FFC, 0x3FFC, 0, 0, 0, 0, 0, 0, 0],
    [0, 0, 0x7E0, 0x1FF0, 0x1FF8, 0x1838, 0x38, 0x38, 0x38, 0x38, 0xF0, 0x3E0, 0x3E0, 0x3F0, 0x78, 0x38, 0x1C, 0x1C, 0x1C, 0x1838, 0x3EF8, 0x1FF0, 0xFE0, 0, 0, 0, 0, 0, 0, 0],
    [0, 0, 0xF0, 0xF0, 0x1F0, 0x1F0, 0x3F0, 0x370, 0x770, 0x670, 0xE70, 0xC70, 0x1C70, 0x1870, 0x3878, 0x3FFC, 0x3FFC, 0x78, 0x70, 0x70, 0x70, 0x70, 0x70, 0, 0, 0, 0, 0, 0, 0],
    [0, 0, 0xFF8, 0xFF8, 0xFF8, 0xE00, 0xE00, 0xE00, 0xC00, 0xC00, 0xFE0, 0x1FF0, 0xC78, 0x38, 0x3C, 0x1C, 0x1C, 0x1C, 0x3C, 0x1038, 0x3EF8, 0x1FF0, 0xFE0, 0, 0, 0, 0, 0, 0, 0],
    [0, 0, 0x1F0, 0x7F8, 0x7F8, 0xE08, 0x1E00, 0x1C00, 0x1C00, 0x1C00, 0x1CE0, 0x1FF0, 0x1FF8, 0x1E3C, 0x1C1C, 0x1C1C, 0x1C1C, 0x1C1C, 0x1C1C, 0xE1C, 0xF78, 0x7F0, 0x3E0, 0, 0, 0, 0, 0, 0, 0],
    [0, 0, 0x1FFC, 0x1FFC, 0x1FFC, 0x38, 0x38, 0x70, 0x70, 0xE0, 0xE0, 0xE0, 0x1C0, 0x1C0, 0x1C0, 0x1C0, 0x3C0, 0x380, 0x380, 0x380, 0x380, 0x380, 0x380, 0, 0, 0, 0, 0, 0, 0],
    [0, 0, 0x7E0, 0xFF0, 0xE78, 0x1C38, 0x1C18, 0x1C18, 0x1C18, 0x1E38, 0xF30, 0x7F0, 0x7E0, 0xFF0, 0x1C78, 0x1C3C, 0x381C, 0x381C, 0x381C, 0x1C1C, 0x1E3C, 0xFF8, 0x7F0, 0, 0, 0, 0, 0, 0, 0],
    [0, 0, 0x7C0, 0xFE0, 0x1E70, 0x1C38, 0x1C38, 0x381C, 0x381C, 0x381C, 0x1C1C, 0x1C3C, 0x1FFC, 0xFFC, 0x79C, 0x1C, 0x1C, 0x38, 0x38, 0x878, 0x1CF0, 0x1FE0, 0xFC0, 0, 0, 0, 0, 0, 0, 0],
    [0, 0, 0, 0, 0, 0, 0, 0x180, 0x3C0, 0x3C0, 0x3C0, 0x1C0, 0, 0, 0, 0, 0, 0, 0, 0x1C0, 0x3C0, 0x3C0, 0x1C0, 0, 0, 0, 0, 0, 0, 0],
    [0, 0, 0, 0, 0, 0, 0, 0x180, 0x3C0, 0x3C0, 0x3C0, 0x1C0, 0, 0, 0, 0, 0, 0, 0, 0x3C0, 0x3E0, 0x3E0, 0x1E0, 0x60, 0xC0, 0xC0, 0x380, 0x300, 0x200, 0],
    [0, 0, 0, 0, 0, 0, 6, 0x1E, 0xFE, 0x3F0, 0x1F80, 0x3E00, 0x3C00, 0x3F00, 0x7E0, 0x1FC, 0x3E, 0xE, 0, 0, 0, 0, 0, 0, 0, 0, 0, 0, 0, 0],
    [0, 0, 0, 0, 0, 0, 0, 0x3FFC, 0x3FFE, 0x3FFE, 0, 0, 0, 0, 0, 0x3FFE, 0x3FFE, 0, 0, 0, 0, 0, 0, 0, 0, 0, 0, 0, 0, 0],
    [0, 0, 0, 0, 0, 0, 0x2000, 0x3C00, 0x3F00, 0xFE0, 0x1F8, 0x3C, 0x1C, 0xFC, 0x7F0, 0x3F80, 0x3E00, 0x3000, 0, 0, 0, 0, 0, 0, 0, 0, 0, 0, 0, 0],
    [0, 0x7E0, 0xFF0, 0x1E78, 0x838, 0x38, 0x38, 0x38, 0x38, 0x70, 0xF0, 0xE0, 0x1C0, 0x1C0, 0x380, 0x380, 0, 0, 0, 0x3C0, 0x3C0, 0x3C0, 0x3C0, 0, 0, 0, 0, 0, 0, 0],
    [0, 0, 0x1E0, 0x7F0, 0xF38, 0xC1C, 0x1C0C, 0x180C, 0x380C, 0x380C, 0x301C, 0x307C, 0x31FC, 0x31CC, 0x338C, 0x338C, 0x338C, 0x339C, 0x31FC, 0x31E4, 0x3800, 0x1800, 0x1800, 0x1C00, 0xE00, 0x738, 0x3F8, 0xE0, 0, 0],
    [0, 0, 0x3E0, 0x3E0, 0x7E0, 0x7E0, 0x770, 0x770, 0x670, 0xE70, 0xE70, 0xE38, 0xE38, 0xC38, 0x1FF8, 0x1FF8, 0x1FFC, 0x1C1C, 0x381C, 0x381C, 0x381C, 0x380E, 0x380E, 0, 0, 0, 0, 0, 0, 0],
    [0, 0, 0x1FE0, 0x1FF8, 0x1C78, 0x1C3C, 0x1C3C, 0x1C3C, 0x1C38, 0x1C38, 0x1EF0, 0x1FE0, 0x1FF8, 0x1C3C, 0x1C1C, 0x1C1C, 0x1C1C, 0x1C1C, 0x1C1C, 0x1C3C, 0x1FF8, 0x1FF0, 0x1FE0, 0, 0, 0, 0, 0, 0, 0],
    [0, 0xE0, 0x3F8, 0x7FC, 0xF9C, 0xE00, 0x1E00, 0x1C00, 0x1C00, 0x1C00, 0x3C00, 0x3C00, 0x3C00, 0x3C00, 0x3C00, 0x1C00, 0x1C00, 0x1C00, 0x1E00, 0xF0C, 0xFFE, 0x7FC, 0x1F8, 0, 0, 0, 0, 0, 0, 0],
    [0, 0, 0x1FC0, 0x1FF0, 0x1CF0, 0x1C78, 0x1C38, 0x1C3C, 0x1C1C, 0x1C1C, 0x1C1C, 0x1C1C, 0x1C1C, 0x1C1C, 0x1C1C, 0x1C1C, 0x1C1C, 0x1C3C, 0x1C38, 0x1C78, 0x1FF0, 0x1FE0, 0x1F80, 0, 0, 0, 0, 0, 0, 0],
    [0, 0, 0x1FFC, 0x1FFC, 0x1E00, 0x1E00, 0x1E00, 0x1E00, 0x1E00, 0x1E00, 0x1FF0, 0x1FF0, 0x1FF0, 0x1E00, 0x1E00, 0x1E00, 0x1E00, 0x1E00, 0x1E00, 0x1E00, 0x1FFC, 0x1FFC, 0x1FFC, 0, 0, 0, 0, 0, 0, 0],
    [0, 0, 0xFFC, 0xFFC, 0xE00, 0xE00, 0xE00, 0xE00, 0xE00, 0xE00, 0xE00, 0xFF8, 0xFF8, 0xFF8, 0xE00, 0xE00, 0xE00, 0xE00, 0xE00, 0xE00, 0xE00, 0xE00, 0xE00, 0, 0, 0, 0, 0, 0, 0],
    [0, 0xE0, 0x3F8, 0x7FC, 0xF1C, 0x1E08, 0x1C00, 0x1C00, 0x1C00, 0x3C00, 0x3C00, 0x3800, 0x387C, 0x3C7C, 0x3C1C, 0x3C1C, 0x1C1C, 0x1C1C, 0x1E1C, 0xE1C, 0xFFC, 0x7FC, 0x3F8, 0, 0, 0, 0, 0, 0, 0],
    [0, 0, 0x1C1C, 0x1C1C, 0x1C1C, 0x1C1C, 0x1C1C, 0x1C1C, 0x1C1C, 0x1C1C, 0x1FFC, 0x1FFC, 0x1FFC, 0x1C1C, 0x1C1C, 0x1C1C, 0x1C1C, 0x1C1C, 0x1C1C, 0x1C1C, 0x1C1C, 0x1C1C, 0x1C1C, 0, 0, 0, 0, 0, 0, 0],
    [0, 0, 0x1FFC, 0x1FFC, 0x3C0, 0x1C0, 0x1C0, 0x1C0, 0x1C0, 0x1C0, 0x1C0, 0x1C0, 0x1C0, 0x1C0, 0x1C0, 0x1C0, 0x1C0, 0x1C0, 0x1C0, 0x1C0, 0x1FFC, 0x1FFC, 0x1FFC, 0, 0, 0, 0, 0, 0, 0],
    [0, 0, 0x38, 0x38, 0x38, 0x38, 0x38, 0x38, 0x38, 0x38, 0x38, 0x38, 0x38, 0x38, 0x38, 0x38, 0x38, 0x38, 0x38, 0x1838, 0x1FF8, 0x1FF0, 0x7E0, 0, 0, 0, 0, 0, 0, 0],
    [0, 0, 0x1C1C, 0x1C3C, 0x1C38, 0x1C70, 0x1C70, 0x1CE0, 0x1CE0, 0x1DC0, 0x1DE0, 0x1FE0, 0x1FE0, 0x1FF0, 0x1E70, 0x1E70, 0x1C38, 0x1C38, 0x1C38, 0x1C1C, 0x1C1C, 0x1C1C, 0x1C0E, 0, 0, 0, 0, 0, 0, 0],
    [0, 0, 0xE00, 0xE00, 0xE00, 0xE00, 0xE00, 0xE00, 0xE00, 0xE00, 0xE00, 0xE00, 0xE00, 0xE00, 0xE00, 0xE00, 0xE00, 0xE00, 0xE00, 0xE00, 0xFFC, 0xFFC, 0xFFC, 0, 0, 0, 0, 0, 0, 0],
    [0, 0, 0x3C1C, 0x3C1C, 0x3C3C, 0x3C3C, 0x3E3C, 0x3E3C, 0x3E7C, 0x3E6C, 0x3B6C, 0x3B4C, 0x3BCC, 0x39CC, 0x39CC, 0x398C, 0x398C, 0x380C, 0x380C, 0x380C, 0x380C, 0x380C, 0x380C, 0, 0, 0, 0, 0, 0, 0],
    [0, 0, 0x1C1C, 0x1E1C, 0x1E1C, 0x1E1C, 0x1F1C, 0x1F1C, 0x1B1C, 0x1B1C, 0x199C, 0x199C, 0x199C, 0x18DC, 0x18DC, 0x18DC, 0x18FC, 0x187C, 0x187C, 0x187C, 0x183C, 0x183C, 0x183C, 0, 0, 0, 0, 0, 0, 0],
    [0, 0x1C0, 0x7F0, 0xFF0, 0x1E78, 0x1C38, 0x1C1C, 0x3C1C, 0x3C1C, 0x381C, 0x381C, 0x381C, 0x381C, 0x381C, 0x381C, 0x381C, 0x3C1C, 0x1C1C, 0x1C3C, 0x1E38, 0xFF8, 0xFF0, 0x3E0, 0, 0, 0, 0, 0, 0, 0],
    [0, 0, 0x1FF0, 0x1FF8, 0x1C7C, 0x1C1C, 0x1C1C, 0x1C1E, 0x1C1E, 0x1C1C, 0x1C1C, 0x1C3C, 0x1FF8, 0x1FF0, 0x1FC0, 0x1C00, 0x1C00, 0x1C00, 0x1C00, 0x1C00, 0x1C00, 0x1C00, 0x1C00, 0, 0, 0, 0, 0, 0, 0],
    [0, 0x1C0, 0x7F0, 0xFF0, 0x1E78, 0x1C38, 0x1C1C, 0x3C1C, 0x3C1C, 0x381C, 0x381C, 0x381C, 0x381C, 0x381C, 0x381C, 0x381C, 0x3C1C, 0x1C1C, 0x1C3C, 0x1C38, 0xF78, 0xFF0, 0x3E0, 0x1C0, 0x1C0, 0xF0, 0x7E, 0x3E, 0xC, 0],
    [0, 0, 0x1FF0, 0x1FF8, 0x1C7C, 0x1C3C, 0x1C1C, 0x1C1C, 0x1C1C, 0x1C1C, 0x1C3C, 0x1C78, 0x1FF8, 0x1FE0, 0x1CE0, 0x1CF0, 0x1C70, 0x1C70, 0x1C38, 0x1C38, 0x1C3C, 0x1C1C, 0x1C1E, 0, 0, 0, 0, 0, 0, 0],
    [0, 0x1C0, 0x7F0, 0xFF8, 0x1E38, 0x1C00, 0x1C00, 0x1C00, 0x1E00, 0x1F00, 0xF80, 0x7E0, 0x3F0, 0xF8, 0x7C, 0x3C, 0x1C, 0x1C, 0x81C, 0x1C3C, 0x3FF8, 0x1FF8, 0x7E0, 0, 0, 0, 0, 0, 0, 0],
    [0, 0, 0x3FFE, 0x3FFE, 0x3C0, 0x1C0, 0x1C0, 0x1C0, 0x1C0, 0x1C0, 0x1C0, 0x1C0, 0x1C0, 0x1C0, 0x1C0, 0x1C0, 0x1C0, 0x1C0, 0x1C0, 0x1C0, 0x1C0, 0x1C0, 0x1C0, 0, 0, 0, 0, 0, 0, 0],
    [0, 0, 0x1C1C, 0x1C1C, 0x1C1C, 0x1C1C, 0x1C1C, 0x1C1C, 0x1C1C, 0x1C1C, 0x1C1C, 0x1C1C, 0x1C1C, 0x1C1C, 0x1C1C, 0x1C1C, 0x1C1C, 0x1C1C, 0x1C1C, 0x1C3C, 0x1FF8, 0xFF8, 0x7E0, 0, 0, 0, 0, 0, 0, 0],
    [0, 0, 0x381E, 0x381C, 0x381C, 0x3C1C, 0x1C1C, 0x1C1C, 0x1C38, 0x1C38, 0xE38, 0xE38, 0xE38, 0xE30, 0xE70, 0x670, 0x770, 0x760, 0x760, 0x7E0, 0x3E0, 0x3E0, 0x3C0, 0, 0, 0, 0, 0, 0, 0],
    [0, 0, 0x7006, 0x7006, 0x3006, 0x300E, 0x300E, 0x31CE, 0x31CE, 0x39CE, 0x39CC, 0x39CC, 0x3BCC, 0x3BCC, 0x3B6C, 0x1B6C, 0x1A6C, 0x1E7C, 0x1E7C, 0x1E3C, 0x1E3C, 0x1E38, 0x1C38, 0, 0, 0, 0, 0, 0, 0],
    [0, 0, 0x3C1C, 0x1C1C, 0x1C38, 0xE38, 0xE38, 0xE70, 0x770, 0x7E0, 0x3E0, 0x3E0, 0x3C0, 0x3E0, 0x7E0, 0x770, 0xE70, 0xE70, 0xE38, 0x1C38, 0x1C3C, 0x3C1C, 0x381C, 0, 0, 0, 0, 0, 0, 0],
    [0, 0, 0x381E, 0x3C1C, 0x1C1C, 0x1C38, 0x1C38, 0xE38, 0xE30, 0xE70, 0x770, 0x7E0, 0x3E0, 0x3E0, 0x3C0, 0x1C0, 0x1C0, 0x1C0, 0x1C0, 0x1C0, 0x1C0, 0x1C0, 0x1C0, 0, 0, 0, 0, 0, 0, 0],
    [0, 0, 0x1FFC, 0x1FFC, 0x3C, 0x38, 0x78, 0x70, 0xF0, 0xE0, 0x1E0, 0x1C0, 0x3C0, 0x380, 0x780, 0x700, 0x700, 0xE00, 0xE00, 0x1C00, 0x1FFC, 0x3FFC, 0x3FFC, 0, 0, 0, 0, 0, 0, 0],
    [0x3F8, 0x3F8, 0x300, 0x300, 0x300, 0x300, 0x300, 0x300, 0x300, 0x300, 0x300, 0x300, 0x300, 0x300, 0x300, 0x300, 0x300, 0x300, 0x300, 0x300, 0x300, 0x300, 0x300, 0x300, 0x300, 0x300, 0x3F8, 0x3F8, 0, 0],
    [0x3000, 0x1800, 0x1800, 0x1800, 0xC00, 0xC00, 0xE00, 0x600, 0x600, 0x300, 0x300, 0x300, 0x180, 0x180, 0x180, 0xC0, 0xC0, 0xE0, 0x60, 0x60, 0x30, 0x30, 0x30, 0x18, 0x18, 0x18, 0xC, 0xC, 0, 0],
    [0xFC0, 0xFC0, 0xC0, 0xC0, 0xC0, 0xC0, 0xC0, 0xC0, 0xC0, 0xC0, 0xC0, 0xC0, 0xC0, 0xC0, 0xC0, 0xC0, 0xC0, 0xC0, 0xC0, 0xC0, 0xC0, 0xC0, 0xC0, 0xC0, 0xC0, 0xC0, 0xFC0, 0xFC0, 0, 0],
    [0, 0x1C0, 0x3C0, 0x3C0, 0x3E0, 0x760, 0x660, 0x670, 0xE30, 0xE30, 0xC38, 0x1C18, 0x1C1C, 0x181C, 0, 0, 0, 0, 0, 0, 0, 0, 0, 0, 0, 0, 0, 0, 0, 0],
    [0, 0, 0, 0, 0, 0, 0, 0, 0, 0, 0, 0, 0, 0, 0, 0, 0, 0, 0, 0, 0, 0, 0, 0, 0, 0x1FFC, 0x1FFC, 0, 0, 0],
    [0x780, 0x380, 0x180, 0x1C0, 0, 0, 0, 0, 0, 0, 0, 0, 0, 0, 0, 0, 0, 0, 0, 0, 0, 0, 0, 0, 0, 0, 0, 0, 0, 0],
    [0, 0, 0, 0, 0, 0, 0, 0x7E0, 0x1FF8, 0xE78, 0x38, 0x3C, 0x1C, 0xFC, 0x7FC, 0xF1C, 0x1C1C, 0x1C1C, 0x1C1C, 0x1C3C, 0x1E7C, 0x1FFC, 0xF9C, 0, 0, 0, 0, 0, 0, 0],
    [0, 0x1C00, 0x1C00, 0x1C00, 0x1C00, 0x1C00, 0x1C00, 0x1DF0, 0x1FF8, 0x1F78, 0x1E3C, 0x1C1C, 0x1C1C, 0x1C1C, 0x1C1C, 0x1C1C, 0x1C1C, 0x1C1C, 0x1C3C, 0x1C3C, 0x1F78, 0x1FF0, 0x19E0, 0, 0, 0, 0, 0, 0, 0],
    [0, 0, 0, 0, 0, 0, 0, 0x3F8, 0x7FC, 0xF98, 0xE00, 0x1E00, 0x1C00, 0x1C00, 0x1C00, 0x1C00, 0x1C00, 0x1C00, 0x1E00, 0xE00, 0xF9C, 0x7FC, 0x3F8, 0, 0, 0, 0, 0, 0, 0],
    [0, 0x3C, 0x3C, 0x3C, 0x3C, 0x3C, 0x3C, 0x7FC, 0xFFC, 0x1F7C, 0x1E3C, 0x1C3C, 0x3C3C, 0x3C3C, 0x3C3C, 0x3C3C, 0x3C3C, 0x3C3C, 0x1C3C, 0x1C3C, 0x1E7C, 0xFFC, 0x79C, 0, 0, 0, 0, 0, 0, 0],
    [0, 0, 0, 0, 0, 0, 0, 0x3F0, 0x7F8, 0xF38, 0x1C1C, 0x1C1C, 0x1C1C, 0x3C1C, 0x3FFC, 0x3FFC, 0x3C00, 0x1C00, 0x1C00, 0x1E00, 0xF18, 0x7F8, 0x3F8, 0, 0, 0, 0, 0, 0, 0],
    [0x38, 0xFE, 0x1FE, 0x1C0, 0x3C0, 0x380, 0x380, 0x1FFC, 0x1FFC, 0x1FF8, 0x380, 0x380, 0x380, 0x380, 0x380, 0x380, 0x380, 0x380, 0x380, 0x380, 0x380, 0x380, 0x380, 0, 0, 0, 0, 0, 0, 0],
    [0, 0, 0, 0, 0, 0, 0, 0x7FE, 0xFFE, 0x1E7C, 0x1C30, 0x1C38, 0x1C38, 0x1C38, 0x1C30, 0xE70, 0xFE0, 0xD80, 0x1C00, 0x1C00, 0x1E00, 0xFFC, 0xFFC, 0x1C1E, 0x180E, 0x380E, 0x381C, 0x1E7C, 0xFF8, 0x3C0],
    [0, 0x1C00, 0x1C00, 0x1C00, 0x1C00, 0x1C00, 0x1C00, 0x1CF8, 0x1FF8, 0x1FFC, 0x1E1C, 0x1C1C, 0x1C1C, 0x1C1C, 0x1C1C, 0x1C1C, 0x1C1C, 0x1C1C, 0x1C1C, 0x1C1C, 0x1C1C, 0x1C1C, 0x1C1C, 0, 0, 0, 0, 0, 0, 0],
    [0xE0, 0x1E0, 0x1E0, 0xE0, 0, 0, 0, 0x1FE0, 0x1FE0, 0x1FE0, 0xE0, 0xE0, 0xE0, 0xE0, 0xE0, 0xE0, 0xE0, 0xE0, 0xE0, 0xE0, 0xE0, 0xE0, 0xE0, 0, 0, 0, 0, 0, 0, 0],
    [0xE0, 0x1E0, 0x1E0, 0xE0, 0, 0, 0, 0x1FE0, 0x1FE0, 0x1FE0, 0xE0, 0xE0, 0xE0, 0xE0, 0xE0, 0xE0, 0xE0, 0xE0, 0xE0, 0xE0, 0xE0, 0xE0, 0xE0, 0xE0, 0xE0, 0xE0, 0x1BE0, 0x3FC0, 0x3F80, 0],
    [0, 0x1C00, 0x1C00, 0x1C00, 0x1C00, 0x1C00, 0x1C00, 0x1C1C, 0x1C3C, 0x1C38, 0x1C70, 0x1CF0, 0x1CE0, 0x1DC0, 0x1FE0, 0x1FE0, 0x1FF0, 0x1E70, 0x1C38, 0x1C38, 0x1C1C, 0x1C1C, 0x1C1E, 0, 0, 0, 0, 0, 0, 0],
    [0, 0x1F80, 0x1F80, 0x380, 0x380, 0x380, 0x380, 0x380, 0x380, 0x380, 0x380, 0x380, 0x380, 0x380, 0x380, 0x380, 0x380, 0x380, 0x380, 0x3C0, 0x1E8, 0x1FC, 0xFC, 0, 0, 0, 0, 0, 0, 0],
    [0, 0, 0, 0, 0, 0, 0, 0x37BC, 0x3FFC, 0x3FFE, 0x39CE, 0x398E, 0x398E, 0x398E, 0x398E, 0x398E, 0x398E, 0x398E, 0x398E, 0x398E, 0x398E, 0x398E, 0x398E, 0, 0, 0, 0, 0, 0, 0],
    [0, 0, 0, 0, 0, 0, 0, 0x18F8, 0x1FF8, 0x1FFC, 0x1E1C, 0x1C1C, 0x1C1C, 0x1C1C, 0x1C1C, 0x1C1C, 0x1C1C, 0x1C1C, 0x1C1C, 0x1C1C, 0x1C1C, 0x1C1C, 0x1C1C, 0, 0, 0, 0, 0, 0, 0],
    [0, 0, 0, 0, 0, 0, 0, 0x7E0, 0xFF0, 0x1F78, 0x1C3C, 0x1C1C, 0x3C1C, 0x3C1C, 0x381C, 0x381C, 0x3C1C, 0x3C1C, 0x1C1C, 0x1C3C, 0x1F78, 0xFF0, 0x7E0, 0, 0, 0, 0, 0, 0, 0],
    [0, 0, 0, 0, 0, 0, 0, 0x19F0, 0x1FF8, 0x1F78, 0x1E3C, 0x1C1C, 0x1C1C, 0x1C1C, 0x1C1C, 0x1C1C, 0x1C1C, 0x1C1C, 0x1C3C, 0x1C3C, 0x1F78, 0x1FF0, 0x1DE0, 0x1C00, 0x1C00, 0x1C00, 0x1C00, 0x1C00, 0x1C00, 0],
    [0, 0, 0, 0, 0, 0, 0, 0x7DC, 0xFFC, 0x1F7C, 0x1C3C, 0x1C3C, 0x3C3C, 0x3C3C, 0x383C, 0x383C, 0x3C3C, 0x3C3C, 0x1C3C, 0x1C3C, 0x1E7C, 0xFFC, 0x7BC, 0x3C, 0x3C, 0x3C, 0x3C, 0x3C, 0x3C, 0],
    [0, 0, 0, 0, 0, 0, 0, 0xE7C, 0xEFC, 0xFFC, 0xF80, 0xF00, 0xF00, 0xE00, 0xE00, 0xE00, 0xE00, 0xE00, 0xE00, 0xE00, 0xE00, 0xE00, 0xE00, 0, 0, 0, 0, 0, 0, 0],
    [0, 0, 0, 0, 0, 0, 0, 0x7F0, 0xFF8, 0x1E38, 0x1C00, 0x1C00, 0x1E00, 0xF80, 0x7E0, 0x1F8, 0x78, 0x3C, 0x1C, 0x1C, 0x1C3C, 0x1FF8, 0xFF0, 0, 0, 0, 0, 0, 0, 0],
    [0, 0, 0, 0x380, 0x380, 0x380, 0x380, 0x3FFC, 0x3FFC, 0x1FF8, 0x780, 0x780, 0x780, 0x780, 0x780, 0x780, 0x780, 0x780, 0x780, 0x380, 0x3C0, 0x3FC, 0x1FC, 0, 0, 0, 0, 0, 0, 0],
    [0, 0, 0, 0, 0, 0, 0, 0x3C3C, 0x3C3C, 0x3C3C, 0x3C3C, 0x3C3C, 0x3C3C, 0x3C3C, 0x3C3C, 0x3C3C, 0x3C3C, 0x3C3C, 0x3C3C, 0x3C7C, 0x1FFC, 0x1FDC, 0xF9C, 0, 0, 0, 0, 0, 0, 0],
    [0, 0, 0, 0, 0, 0, 0, 0x381E, 0x381C, 0x3C1C, 0x1C1C, 0x1C18, 0x1C38, 0xE38, 0xE38, 0xE30, 0xE70, 0x770, 0x760, 0x7E0, 0x3E0, 0x3E0, 0x3C0, 0, 0, 0, 0, 0, 0, 0],
    [0, 0, 0, 0, 0, 0, 0, 0x7006, 0x7186, 0x71CE, 0x31CE, 0x31CE, 0x31CE, 0x3BCE, 0x3B4C, 0x3B4C, 0x3B6C, 0x1A7C, 0x1E7C, 0x1E7C, 0x1E3C, 0x1E38, 0x1E38, 0, 0, 0, 0, 0, 0, 0],
    [0, 0, 0, 0, 0, 0, 0, 0x3C1C, 0x1C3C, 0x1E38, 0xE38, 0x770, 0x7E0, 0x3E0, 0x3C0, 0x3C0, 0x7E0, 0x7F0, 0xE70, 0xE78, 0x1C38, 0x1C3C, 0x381C, 0, 0, 0, 0, 0, 0, 0],
    [0, 0, 0, 0, 0, 0, 0, 0x381E, 0x381C, 0x1C1C, 0x1C1C, 0x1C18, 0xE38, 0xE38, 0xE38, 0x630, 0x770, 0x770, 0x370, 0x3E0, 0x3E0, 0x1E0, 0x1C0, 0x1C0, 0x1C0, 0x380, 0x1F80, 0x1F00, 0x1E00, 0],
    [0, 0, 0, 0, 0, 0, 0, 0xFFC, 0xFFC, 0xFF8, 0x38, 0x70, 0xE0, 0xE0, 0x1C0, 0x3C0, 0x380, 0x700, 0xF00, 0xE00, 0x1FFC, 0x1FFC, 0x1FFC, 0, 0, 0, 0, 0, 0, 0],
    [0xF8, 0x1F8, 0x1C0, 0x180, 0x180, 0x180, 0x180, 0x180, 0x180, 0x180, 0x180, 0x180, 0x380, 0xF00, 0xF00, 0x380, 0x180, 0x180, 0x180, 0x180, 0x180, 0x180, 0x180, 0x180, 0x180, 0x1C0, 0x1F8, 0xF8, 0, 0],
    [0x180, 0x180, 0x180, 0x180, 0x180, 0x180, 0x180, 0x180, 0x180, 0x180, 0x180, 0x180, 0x180, 0x180, 0x180, 0x180, 0x180, 0x180, 0x180, 0x180, 0x180, 0x180, 0x180, 0x180, 0x180, 0x180, 0x180, 0x180, 0x180, 0x180],
    [0xF00, 0xF80, 0x1C0, 0x1C0, 0x1C0, 0x1C0, 0x1C0, 0x1C0, 0x180, 0x180, 0x180, 0x1C0, 0x1E0, 0x78, 0xF8, 0x1E0, 0x1C0, 0x180, 0x180, 0x1C0, 0x1C0, 0x1C0, 0x1C0, 0x1C0, 0x1C0, 0x1C0, 0xF80, 0xF00, 0, 0],
    [0, 0, 0, 0, 0, 0, 0, 0, 0, 0, 0x1F00, 0x3F86, 0x31FE, 0x20FC, 0x30, 0, 0, 0, 0, 0, 0, 0, 0, 0, 0, 0, 0, 0, 0, 0]]"

lemma font_bin_shape: "length font_bin = 95 \<and> list_all (\<lambda>r. length r = 30) font_bin"
  by (simp add: font_bin_def)

section \<open>The frame buffer\<close>

record graphic_pixel =
  blue :: u8
  green :: u8
  red :: u8
  black :: u8

definition black_pixel :: graphic_pixel where
  "black_pixel = \<lparr>blue = 0, green = 0, red = 0, black = 0\<rparr>"

definition white_pixel :: graphic_pixel where
  "white_pixel = \<lparr>blue = 0xFF, green = 0xFF, red = 0xFF, black = 0\<rparr>"

record graphic_config =
  frame_base :: "64 word"
  frame_size :: "64 word"
  cfg_horizontal :: "64 word"
  cfg_vertical :: "64 word"
  cfg_pixels :: "64 word"

text \<open>
  The rest of \<^verbatim>\<open>struct gpu\<close>; the frame buffer is part of the kernel's memory. \<^verbatim>\<open>font_render\<close> does not check its index: what
  the kernel image holds before and behind the table is \<open>around\<close>, by the row number that is used.
\<close>

record screen = vm +
  vvram_addr :: u32
  horizontal_resolution :: u32
  vertical_resolution :: u32
  pixels_per_line :: u32
  around :: "int \<Rightarrow> nat list"

text \<open>\<open>cfg\<close> is what the boot loader left in \<^verbatim>\<open>boot_param->graphic_config\<close>.\<close>

definition graphic_init :: "graphic_config \<Rightarrow> 'a screen_scheme \<Rightarrow> 'a screen_scheme" where
  "graphic_init cfg s =
     (let s = s\<lparr>pvram_addr := ucast (frame_base cfg)\<rparr>;
          s = s\<lparr>vram_size := ucast (frame_size cfg)\<rparr>;
          s = s\<lparr>vvram_addr := DEVSPACE - vram_size s\<rparr>;
          s = s\<lparr>horizontal_resolution := ucast (cfg_horizontal cfg AND 0xFFFFFFFF)\<rparr>;
          s = s\<lparr>vertical_resolution := ucast (cfg_vertical cfg AND 0xFFFFFFFF)\<rparr>
      in s\<lparr>pixels_per_line := ucast (cfg_pixels cfg AND 0xFFFFFFFF)\<rparr>)"

definition graphic_draw_pixel :: "int \<Rightarrow> int \<Rightarrow> graphic_pixel \<Rightarrow> 'a screen_scheme \<Rightarrow> 'a screen_scheme" where
  "graphic_draw_pixel x y px s =
     (let a = vvram_addr s + 4 * (of_int y * pixels_per_line s + of_int x)
      in s\<lparr>pmem := (pmem s)(a := blue px, a + 1 := green px, a + 2 := red px)\<rparr>)"

definition graphic_scroll_up :: "int \<Rightarrow> 'a screen_scheme \<Rightarrow> 'a screen_scheme" where
  "graphic_scroll_up height s =
     (let addr_diff = 4 * pixels_per_line s * of_int height;
          m = memmove (vvram_addr s) (vvram_addr s + addr_diff) (vram_size s - addr_diff) (pmem s)
      in s\<lparr>pmem := memset (vvram_addr s + vram_size s - addr_diff) 0 addr_diff m\<rparr>)"

text \<open>\<^verbatim>\<open>font_render\<close>: the body of its loops and the order in which they visit the dots.\<close>

definition draw_dot :: "int \<Rightarrow> int \<Rightarrow> nat list \<Rightarrow> nat \<times> nat \<Rightarrow> 'a screen_scheme \<Rightarrow> 'a screen_scheme" where
  "draw_dot x y glyph ij s =
     (case ij of (i, j) \<Rightarrow>
        let bin = (glyph ! i) AND push_bit j 1
        in if bin = push_bit j 1
           then graphic_draw_pixel (x + (14 - int j)) (y + int i) white_pixel s
           else graphic_draw_pixel (x + (14 - int j)) (y + int i) black_pixel s)"

definition dots :: "(nat \<times> nat) list" where
  "dots = List.product [0..<30] (rev [0..<15])"

definition font_row :: "'a screen_scheme \<Rightarrow> int \<Rightarrow> nat list" where
  "font_row s k = (if 0 \<le> k \<and> k < 95 then font_bin ! nat k else around s k)"

definition font_render :: "int \<Rightarrow> int \<Rightarrow> int \<Rightarrow> 'a screen_scheme \<Rightarrow> 'a screen_scheme" where
  "font_render x y index s = fold (draw_dot x y (font_row s (index - 0x20))) dots s"

text \<open>A \<^verbatim>\<open>char\<close> is signed.\<close>

definition signed_char :: "char \<Rightarrow> int" where
  "signed_char c = (let k = of_char c in if k < 128 then k else k - 256)"

primrec render_string :: "int \<Rightarrow> nat \<Rightarrow> string \<Rightarrow> 'a screen_scheme \<Rightarrow> 'a screen_scheme" where
  "render_string row i [] s = s"
| "render_string row i (c # cs) s =
     (if i < 52 then render_string row (i + 1) cs (font_render (int i * 15 + 2) (row * 30) (signed_char c) s) else s)"

definition font_render_string :: "string \<Rightarrow> int \<Rightarrow> 'a screen_scheme \<Rightarrow> 'a screen_scheme" where
  "font_render_string str row s = render_string row 0 str s"

section \<open>Drawing stays on the screen\<close>

text \<open>A frame buffer for at least 800 by 600 pixels that does not wrap around the address space.\<close>

definition frame_ok :: "'a screen_scheme \<Rightarrow> bool" where
  "frame_ok s \<longleftrightarrow> 800 \<le> unat (pixels_per_line s) \<and> 4 * unat (pixels_per_line s) * 600 \<le> unat (vram_size s)
     \<and> unat (vvram_addr s) + unat (vram_size s) \<le> 2 ^ 32"

definition in_frame :: "'a screen_scheme \<Rightarrow> u32 \<Rightarrow> bool" where
  "in_frame s a \<longleftrightarrow> a - vvram_addr s < vram_size s"

text \<open>Two states that differ in the pixels only.\<close>

definition drawn :: "'a screen_scheme \<Rightarrow> 'a screen_scheme \<Rightarrow> bool" where
  "drawn s s' \<longleftrightarrow> (\<exists>m. s' = s\<lparr>pmem := m\<rparr> \<and> (\<forall>a. \<not> in_frame s a \<longrightarrow> m a = pmem s a))"

lemma drawnI: "(\<And>a. \<not> in_frame s a \<Longrightarrow> m a = pmem s a) \<Longrightarrow> drawn s (s\<lparr>pmem := m\<rparr>)"
  by (auto simp: drawn_def)

lemma drawn_refl [simp]: "drawn s s"
  by (auto simp: drawn_def intro!: exI [of _ "pmem s"])

lemma drawn_fields:
  "drawn s s' \<Longrightarrow> frame_ok s' = frame_ok s" "drawn s s' \<Longrightarrow> in_frame s' = in_frame s"
  by (auto simp: drawn_def frame_ok_def in_frame_def fun_eq_iff)

lemma drawn_trans: "drawn s s' \<Longrightarrow> drawn s' s'' \<Longrightarrow> drawn s s''"
  by (auto simp: drawn_def in_frame_def)

lemma unat_less32: "unat (w :: u32) < 4294967296"
  using unsigned_less [of w, where 'a = nat] by simp

lemma pixel_offset:
  assumes "frame_ok s" "0 \<le> x" "x < 800" "0 \<le> y" "y < 600" "k < 4"
  shows "in_frame s (vvram_addr s + 4 * (of_int y * pixels_per_line s + of_int x) + of_nat k)"
proof -
  let ?p = "unat (pixels_per_line s)" and ?n = "4 * (nat y * unat (pixels_per_line s) + nat x) + k"
  have b: "nat y * ?p + nat x < 600 * ?p"
  proof -
    have "nat y * ?p + nat x < nat y * ?p + ?p" using assms(1-3) nat_less_iff [of x 800] by (simp add: frame_ok_def)
    also have "\<dots> \<le> 600 * ?p" using assms(4,5) mult_le_mono1 [of "Suc (nat y)" 600 ?p] nat_less_iff [of y 600] by simp
    finally show ?thesis .
  qed
  then have n: "?n < unat (vram_size s)" using assms(1,6) by (simp add: frame_ok_def)
  have "4 * (of_int y * pixels_per_line s + of_int x) + of_nat k = (of_nat ?n :: u32)"
    using assms(2,4) by simp
  then have "unat (vvram_addr s + 4 * (of_int y * pixels_per_line s + of_int x) + of_nat k - vvram_addr s) = ?n"
    using n unat_less32 [of "vram_size s"] by (simp add: add.assoc unat_of_nat take_bit_eq_mod del: of_nat_add of_nat_mult)
  then show ?thesis using n by (simp add: in_frame_def word_less_nat_alt)
qed

lemma draw_pixel_drawn:
  assumes "frame_ok s" "0 \<le> x" "x < 800" "0 \<le> y" "y < 600"
  shows "drawn s (graphic_draw_pixel x y px s)"
  using pixel_offset [OF assms, of 0] pixel_offset [OF assms, of 1] pixel_offset [OF assms, of 2]
  by (auto simp: drawn_def graphic_draw_pixel_def Let_def)

lemma draw_dot_drawn:
  assumes "frame_ok s" "0 \<le> x" "x \<le> 782" "0 \<le> y" "y \<le> 570" "ij \<in> set dots"
  shows "drawn s (draw_dot x y glyph ij s)"
  using assms by (auto simp: draw_dot_def dots_def Let_def intro!: draw_pixel_drawn)

lemma dots_drawn:
  assumes "0 \<le> x" "x \<le> 782" "0 \<le> y" "y \<le> 570" "set ds \<subseteq> set dots" "frame_ok s"
  shows "drawn s (fold (draw_dot x y glyph) ds s)"
  using assms(5,6)
proof (induction ds arbitrary: s)
  case (Cons d ds)
  have "drawn s (draw_dot x y glyph d s)" using draw_dot_drawn [OF Cons.prems(2) assms(1-4)] Cons.prems(1) by simp
  then show ?case using Cons drawn_fields(1) drawn_trans by fastforce
qed simp

lemma font_render_drawn:
  assumes "frame_ok s" "0 \<le> x" "x \<le> 782" "0 \<le> y" "y \<le> 570"
  shows "drawn s (font_render x y c s)"
  using assms dots_drawn [of x y dots s] by (simp add: font_render_def)

lemma scroll_up_drawn:
  assumes "frame_ok s"
  shows "drawn s (graphic_scroll_up 30 s)"
proof -
  let ?d = "4 * pixels_per_line s * 30"
  have p: "120 * unat (pixels_per_line s) \<le> unat (vram_size s)" using assms by (simp add: frame_ok_def)
  then have d: "unat ?d = 120 * unat (pixels_per_line s)"
    using unat_less32 [of "vram_size s"] by (simp add: unat_word_ariths)
  then have le: "?d \<le> vram_size s" using p by (simp add: word_le_nat_alt)
  have "in_frame s a" if "a - vvram_addr s < vram_size s - ?d" for a
    using that le by (simp add: in_frame_def) (meson less_le_trans word_le_minus_mono word_sub_le)
  moreover have "in_frame s a" if "a - (vvram_addr s + vram_size s - ?d) < ?d" for a
  proof -
    let ?t = "a - (vvram_addr s + vram_size s - ?d)"
    have "a - vvram_addr s = (vram_size s - ?d) + ?t" by simp
    moreover have "unat (vram_size s - ?d) = unat (vram_size s) - unat ?d" by (rule unat_sub [OF le])
    moreover have "unat ?t < unat ?d" using that by (simp add: word_less_nat_alt)
    ultimately have "unat (a - vvram_addr s) < unat (vram_size s)"
      using d p unat_less32 [of "vram_size s"] unat_add_of_nat [of "vram_size s - ?d" "unat ?t"] by simp
    then show ?thesis by (simp add: in_frame_def word_less_nat_alt)
  qed
  ultimately show ?thesis
    unfolding graphic_scroll_up_def Let_def by (intro drawnI) (auto simp: memset_fills intro!: memmove_outside)
qed

end
