(* ===== verification/Console.thy ===== *)
theory Console
  imports Font
begin

text \<open>
  The console (\<^verbatim>\<open>xv6/console.c\<close>): output to the serial line and the screen, and the line editing of the input. The bytes
  that \<^verbatim>\<open>uartputc\<close> writes to the data port and the calls of \<^verbatim>\<open>wakeup\<close> are recorded; what the line status port returns is a
  parameter, the field \<open>lsr\<close>; the section between \<^verbatim>\<open>acquire\<close> and \<^verbatim>\<open>release\<close> of
  \<^verbatim>\<open>cons.lock\<close> is one step. Formatted printing is in \<open>Userlib\<close>.
\<close>

unbundle bit_operations_syntax

section \<open>Output\<close>

definition INPUT_BUF :: nat where "INPUT_BUF = 128"
definition BACKSPACE :: int where "BACKSPACE = 0x100"
definition CONSOLE_HORIZONTAL_MAX :: int where "CONSOLE_HORIZONTAL_MAX = 53"
definition CONSOLE_VERTICAL_MAX :: int where "CONSOLE_VERTICAL_MAX = 20"
definition FONT_WIDTH :: int where "FONT_WIDTH = 15"
definition FONT_HEIGHT :: int where "FONT_HEIGHT = 30"

record input_buf =
  ibuf :: "u8 list"
  ir :: u32
  iw :: u32
  ie :: u32

record console = screen +
  console_pos :: int
  panicked :: bool
  input :: input_buf
  uart :: bool
  lsr :: "nat \<Rightarrow> u8"
  lsr_reads :: nat
  sent :: "u8 list"
  wakeups :: nat

definition graphic_putc :: "int \<Rightarrow> console \<Rightarrow> console" where
  "graphic_putc c s =
     (let full = CONSOLE_VERTICAL_MAX * CONSOLE_HORIZONTAL_MAX in
      if c = 10
      then let s = s\<lparr>console_pos := console_pos s + (CONSOLE_HORIZONTAL_MAX - console_pos s mod CONSOLE_HORIZONTAL_MAX)\<rparr>
           in if console_pos s \<ge> full
              then graphic_scroll_up 30 (s\<lparr>console_pos := console_pos s - CONSOLE_HORIZONTAL_MAX\<rparr>) else s
      else if c = BACKSPACE
      then if console_pos s > 0 then s\<lparr>console_pos := console_pos s - 1\<rparr> else s
      else let s = (if console_pos s \<ge> full
                    then graphic_scroll_up 30 (s\<lparr>console_pos := console_pos s - CONSOLE_HORIZONTAL_MAX\<rparr>) else s);
               x = (console_pos s mod CONSOLE_HORIZONTAL_MAX) * FONT_WIDTH + 2;
               y = (console_pos s div CONSOLE_HORIZONTAL_MAX) * FONT_HEIGHT;
               s = font_render x y c s
           in s\<lparr>console_pos := console_pos s + 1\<rparr>)"

text \<open>
  \<^verbatim>\<open>uartputc\<close>: the loop that waits for the port at most 128 times (\<open>lsr s n\<close> is the result of the \<open>n\<close>-th read of the line
  status port), and the write of the byte.
\<close>

primrec uart_poll :: "nat \<Rightarrow> console \<Rightarrow> console" where
  "uart_poll 0 s = s"
| "uart_poll (Suc k) s =
     (let r = lsr s (lsr_reads s); s = s\<lparr>lsr_reads := lsr_reads s + 1\<rparr>
      in if r AND 0x20 \<noteq> 0 then s else uart_poll k s)"

definition uartputc :: "int \<Rightarrow> console \<Rightarrow> console" where
  "uartputc c s =
     (if \<not> uart s then s
      else let s = uart_poll 128 s in s\<lparr>sent := sent s @ [word_of_int c]\<rparr>)"

lemma uart_poll_reads: "\<exists>n. uart_poll k s = s\<lparr>lsr_reads := n\<rparr>"
proof (induction k arbitrary: s)
  case 0
  show ?case by (rule exI [of _ "lsr_reads s"]) simp
next
  case (Suc k)
  obtain n where "uart_poll k (s\<lparr>lsr_reads := lsr_reads s + 1\<rparr>) = s\<lparr>lsr_reads := n\<rparr>"
    using Suc.IH [of "s\<lparr>lsr_reads := lsr_reads s + 1\<rparr>"] by auto
  then show ?case by (auto simp: Let_def)
qed

lemma uartputc_effect:
  obtains n where "uartputc c s = s\<lparr>lsr_reads := n, sent := sent s @ (if uart s then [word_of_int c] else [])\<rparr>"
proof (cases "uart s")
  case True
  then show ?thesis using uart_poll_reads [of 128 s] that by (auto simp: uartputc_def)
next
  case False
  then show ?thesis by (intro that [of "lsr_reads s"]) (simp add: uartputc_def)
qed

lemma uartputc_fields [simp]:
  "input (uartputc c s) = input s" "console_pos (uartputc c s) = console_pos s" "panicked (uartputc c s) = panicked s"
  "uart (uartputc c s) = uart s" "sent (uartputc c s) = sent s @ (if uart s then [word_of_int c] else [])"
  "wakeups (uartputc c s) = wakeups s" "pmem (uartputc c s) = pmem s" "vram_size (uartputc c s) = vram_size s"
  "vvram_addr (uartputc c s) = vvram_addr s" "pixels_per_line (uartputc c s) = pixels_per_line s"
  by (rule uartputc_effect [of c s], simp)+

text \<open>A processor that finds \<^verbatim>\<open>panicked\<close> set stops for good.\<close>

definition consputc :: "int \<Rightarrow> console \<Rightarrow> console res" where
  "consputc c s =
     (if panicked s then Inl (Panic ''frozen'')
      else let s = (if c = BACKSPACE then uartputc 8 (uartputc 32 (uartputc 8 s)) else uartputc c s)
           in Inr (graphic_putc c s))"

primrec consolewrite_loop :: "u8 list \<Rightarrow> console \<Rightarrow> console res" where
  "consolewrite_loop [] s = Inr s"
| "consolewrite_loop (b # bs) s = bindE (consputc (uint b) s) (consolewrite_loop bs)"

definition consolewrite :: "u8 list \<Rightarrow> console \<Rightarrow> (int \<times> console) res" where
  "consolewrite buf s = bindE (consolewrite_loop buf s) (\<lambda>s. Inr (int (length buf), s))"

section \<open>Input\<close>

text \<open>\<^verbatim>\<open>C(x)\<close>.\<close>

definition Ctl :: "char \<Rightarrow> int" where "Ctl x = of_char x - of_char CHR ''@''"

definition ibyte :: "input_buf \<Rightarrow> u32 \<Rightarrow> u8" where
  "ibyte i k = ibuf i ! unat (k mod of_nat INPUT_BUF)"

lemma bindE_cong [fundef_cong]:
  "m = m' \<Longrightarrow> (\<And>x. m' = Inr x \<Longrightarrow> f x = f' x) \<Longrightarrow> bindE m f = bindE m' f'"
  by (auto simp: bindE_def split: sum.splits)

text \<open>Output leaves the rest of the console alone.\<close>

lemma input_draw [simp]: "input (graphic_draw_pixel x y px s) = input s" "input (graphic_scroll_up h s) = input s"
  by (simp_all add: graphic_draw_pixel_def graphic_scroll_up_def Let_def)

lemma input_draw_dots: "input (fold (draw_dot x y g) ds s) = input s"
  by (induction ds arbitrary: s) (auto simp: draw_dot_def Let_def)

lemma graphic_putc_input: "input (graphic_putc c s) = input s"
  by (simp add: graphic_putc_def Let_def font_render_def input_draw_dots)

lemma consputc_input: "consputc c s = Inr s' \<Longrightarrow> input s' = input s"
  by (auto simp: consputc_def Let_def graphic_putc_input split: if_splits)

text \<open>The loop of \<^verbatim>\<open>C('U')\<close>. The edit index counts down to the write index.\<close>

function kill_line :: "console \<Rightarrow> console res" where
  "kill_line s =
     (let i = input s in
      if ie i \<noteq> iw i \<and> ibyte i (ie i - 1) \<noteq> 10
      then bindE (consputc BACKSPACE (s\<lparr>input := i\<lparr>ie := ie i - 1\<rparr>\<rparr>)) kill_line
      else Inr s)"
  by pat_completeness auto
termination
proof (relation "measure (\<lambda>s. unat (ie (input s) - iw (input s)))", goal_cases)
  case (2 s i s')
  have "input s' = (input s)\<lparr>ie := ie (input s) - 1\<rparr>" using 2 consputc_input by force
  moreover have "ie (input s) - iw (input s) \<noteq> 0" using 2 by auto
  then have "unat (ie (input s) - iw (input s) - 1) < unat (ie (input s) - iw (input s))"
    by (metis unat_minus_one unat_gt_0 diff_less zero_less_one)
  ultimately show ?case using 2 by (simp add: algebra_simps)
qed simp

declare kill_line.simps [simp del]

text \<open>One key of \<^verbatim>\<open>consoleintr\<close>; the flag is \<^verbatim>\<open>doprocdump\<close>.\<close>

definition console_key :: "int \<Rightarrow> bool \<times> console \<Rightarrow> (bool \<times> console) res" where
  "console_key c ds =
     (case ds of (dump, s) \<Rightarrow>
      let i = input s in
      if c = Ctl CHR ''P'' then Inr (True, s)
      else if c = Ctl CHR ''U'' then bindE (kill_line s) (\<lambda>s. Inr (dump, s))
      else if c = Ctl CHR ''H'' \<or> c = 0x7F
      then if ie i \<noteq> iw i
           then bindE (consputc BACKSPACE (s\<lparr>input := i\<lparr>ie := ie i - 1\<rparr>\<rparr>)) (\<lambda>s. Inr (dump, s))
           else Inr (dump, s)
      else if c \<noteq> 0 \<and> ie i - ir i < of_nat INPUT_BUF
      then let c = (if c = 13 then 10 else c);
               i = i\<lparr>ibuf := (ibuf i)[unat (ie i mod of_nat INPUT_BUF) := word_of_int c], ie := ie i + 1\<rparr>
           in bindE (consputc c (s\<lparr>input := i\<rparr>)) (\<lambda>s.
                if c = 10 \<or> c = Ctl CHR ''D'' \<or> ie i = ir i + of_nat INPUT_BUF
                then Inr (dump, s\<lparr>input := (input s)\<lparr>iw := ie (input s)\<rparr>, wakeups := wakeups s + 1\<rparr>)
                else Inr (dump, s))
      else Inr (dump, s))"

text \<open>\<^verbatim>\<open>consoleintr\<close> on the keys \<^verbatim>\<open>getc\<close> returns before its first negative result.\<close>

primrec consoleintr_loop :: "int list \<Rightarrow> bool \<times> console \<Rightarrow> (bool \<times> console) res" where
  "consoleintr_loop [] ds = Inr ds"
| "consoleintr_loop (c # cs) ds = bindE (console_key c ds) (consoleintr_loop cs)"

definition consoleintr :: "int list \<Rightarrow> console \<Rightarrow> (bool \<times> console) res" where
  "consoleintr cs s = consoleintr_loop cs (False, s)"

text \<open>
  \<^verbatim>\<open>consoleread\<close> up to its return or to the next \<^verbatim>\<open>sleep\<close>: \<open>n\<close> bytes are wanted out of \<open>target\<close>, and the bytes stored at
  \<^verbatim>\<open>dst\<close> are returned. After \<open>Waiting\<close> the call continues with what is left of \<open>n\<close>.
\<close>

datatype read_result = Count int | Failed | Waiting nat

primrec consoleread_loop :: "bool \<Rightarrow> nat \<Rightarrow> nat \<Rightarrow> input_buf \<Rightarrow> read_result \<times> u8 list \<times> input_buf" where
  "consoleread_loop kd target 0 i = (Count (int target), [], i)"
| "consoleread_loop kd target (Suc n) i =
     (if ir i = iw i then (if kd then Failed else Waiting (Suc n), [], i)
      else let c = ibyte i (ir i); i = i\<lparr>ir := ir i + 1\<rparr>
           in if c = word_of_int (Ctl CHR ''D'')
              then (Count (int target - int (Suc n)), [], if Suc n < target then i\<lparr>ir := ir i - 1\<rparr> else i)
              else if c = 10 then (Count (int target - int n), [c], i)
              else (case consoleread_loop kd target n i of (r, bs, i) \<Rightarrow> (r, c # bs, i)))"

definition consoleread :: "bool \<Rightarrow> nat \<Rightarrow> console \<Rightarrow> read_result \<times> u8 list \<times> console" where
  "consoleread kd n s =
     (case consoleread_loop kd n n (input s) of (r, bs, i) \<Rightarrow> (r, bs, s\<lparr>input := i\<rparr>))"

definition consoleinit :: "console \<Rightarrow> console" where
  "consoleinit s = fold (\<lambda>c. graphic_putc (of_char c)) (''Starting XV6_UEFI...'' @ [CHR 0x0A]) (s\<lparr>panicked := False\<rparr>)"

section \<open>The screen\<close>

definition pos_ok :: "console \<Rightarrow> bool" where
  "pos_ok s \<longleftrightarrow> 0 \<le> console_pos s \<and> console_pos s \<le> CONSOLE_VERTICAL_MAX * CONSOLE_HORIZONTAL_MAX"

text \<open>What one character of output does: pixels and the cursor.\<close>

definition shown :: "console \<Rightarrow> console \<Rightarrow> bool" where
  "shown s s' \<longleftrightarrow> pos_ok s' \<and> (\<exists>m p. s' = s\<lparr>pmem := m, console_pos := p\<rparr> \<and> (\<forall>a. \<not> in_frame s a \<longrightarrow> m a = pmem s a))"

lemma shown_drawn:
  assumes "drawn (s\<lparr>console_pos := p\<rparr>) s'" "0 \<le> p" "p \<le> 1060"
  shows "shown s s'"
proof -
  obtain m where "s' = s\<lparr>console_pos := p, pmem := m\<rparr>" "\<forall>a. \<not> in_frame s a \<longrightarrow> m a = pmem s a"
    using assms(1) by (auto simp: drawn_def in_frame_def)
  then show ?thesis using assms(2,3)
    by (auto simp: shown_def pos_ok_def CONSOLE_VERTICAL_MAX_def CONSOLE_HORIZONTAL_MAX_def intro!: exI [of _ m] exI [of _ p])
qed

lemma shown_trans:
  assumes "shown s s'" "shown s' s''"
  shows "shown s s''"
proof -
  obtain m p where s': "s' = s\<lparr>pmem := m, console_pos := p\<rparr>" "\<forall>a. \<not> in_frame s a \<longrightarrow> m a = pmem s a"
    using assms(1) by (auto simp: shown_def)
  obtain m2 p2 where s'': "s'' = s'\<lparr>pmem := m2, console_pos := p2\<rparr>" "\<forall>a. \<not> in_frame s' a \<longrightarrow> m2 a = pmem s' a"
    using assms(2) by (auto simp: shown_def)
  have "\<forall>a. \<not> in_frame s a \<longrightarrow> m2 a = pmem s a" using s' s'' by (simp add: in_frame_def)
  then show ?thesis using assms(2) s'(1) s''(1)
    unfolding shown_def by (intro conjI exI [of _ m2] exI [of _ p2]) auto
qed

lemma shown_frame_ok: "shown s s' \<Longrightarrow> frame_ok s' = frame_ok s"
  by (auto simp: shown_def frame_ok_def)

lemma font_render_pos: "console_pos (font_render x y c s) = console_pos s"
proof -
  have "console_pos (fold (draw_dot x y g) ds s) = console_pos s" for g ds
    by (induction ds arbitrary: s) (auto simp: draw_dot_def Let_def graphic_draw_pixel_def)
  then show ?thesis by (simp add: font_render_def)
qed

lemma graphic_putc_char:
  assumes "frame_ok s" "0 \<le> console_pos s" "console_pos s < 1060"
  shows "shown s ((font_render (console_pos s mod 53 * 15 + 2) (console_pos s div 53 * 30) c s)\<lparr>console_pos := console_pos s + 1\<rparr>)"
proof -
  have "console_pos s mod 53 \<le> 52" using pos_mod_bound [of 53 "console_pos s"] by simp
  moreover have "console_pos s div 53 \<le> 19" using assms(3) by linarith
  moreover have "0 \<le> console_pos s div 53" "0 \<le> console_pos s mod 53" using assms(2) by (simp_all add: pos_imp_zdiv_nonneg_iff)
  ultimately have "drawn s (font_render (console_pos s mod 53 * 15 + 2) (console_pos s div 53 * 30) c s)"
    using assms(1) by (intro font_render_drawn) auto
  then obtain m where "font_render (console_pos s mod 53 * 15 + 2) (console_pos s div 53 * 30) c s = s\<lparr>pmem := m\<rparr>"
      "\<forall>a. \<not> in_frame s a \<longrightarrow> m a = pmem s a" by (auto simp: drawn_def)
  then show ?thesis using assms(2,3)
    by (auto simp: shown_def pos_ok_def CONSOLE_VERTICAL_MAX_def CONSOLE_HORIZONTAL_MAX_def intro!: exI [of _ m])
qed

lemma graphic_putc_shown:
  assumes "frame_ok s" "pos_ok s"
  shows "shown s (graphic_putc c s)"
proof -
  note d = CONSOLE_VERTICAL_MAX_def CONSOLE_HORIZONTAL_MAX_def FONT_WIDTH_def FONT_HEIGHT_def
  have p: "0 \<le> console_pos s" "console_pos s \<le> 1060" using assms(2) by (auto simp: pos_ok_def d)
  have up: "shown s (graphic_scroll_up 30 (s\<lparr>console_pos := q\<rparr>))" if "0 \<le> q" "q \<le> 1060" for q
    using that assms(1) by (intro shown_drawn [OF scroll_up_drawn]) (auto simp: frame_ok_def)
  have mv: "shown s (s\<lparr>console_pos := q\<rparr>)" if "0 \<le> q" "q \<le> 1060" for q using that by (intro shown_drawn) auto
  consider (newline) "c = 10" | (bksp) "c = BACKSPACE" "c \<noteq> 10" | (full) "c \<noteq> 10" "c \<noteq> BACKSPACE" "console_pos s \<ge> 1060"
    | (room) "c \<noteq> 10" "c \<noteq> BACKSPACE" "console_pos s < 1060" by linarith
  then show ?thesis
  proof cases
    case newline
    have "console_pos s + (53 - console_pos s mod 53) \<le> 1113" "0 \<le> console_pos s + (53 - console_pos s mod 53)"
      using p pos_mod_bound [of 53 "console_pos s"] pos_mod_sign [of 53 "console_pos s"] by linarith+
    then show ?thesis using newline by (auto simp: graphic_putc_def Let_def d intro!: up mv)
  next
    case bksp
    then show ?thesis using p mv mv [of "console_pos s"] by (simp add: graphic_putc_def Let_def d BACKSPACE_def)
  next
    case full
    let ?s = "graphic_scroll_up 30 (s\<lparr>console_pos := console_pos s - 53\<rparr>)"
    have s: "shown s ?s" using p full by (intro up) auto
    have q: "console_pos ?s = 1007" using full(3) p(2) by (simp add: graphic_scroll_up_def Let_def)
    have "shown ?s ((font_render (console_pos ?s mod 53 * 15 + 2) (console_pos ?s div 53 * 30) c ?s)\<lparr>console_pos := console_pos ?s + 1\<rparr>)"
      using shown_frame_ok [OF s] assms(1) by (intro graphic_putc_char) (auto simp: q)
    from shown_trans [OF s this] show ?thesis
      using full by (simp add: graphic_putc_def Let_def d font_render_pos)
  next
    case room
    then show ?thesis using graphic_putc_char [OF assms(1) p(1), of c] by (simp add: graphic_putc_def Let_def d font_render_pos)
  qed
qed

lemma uartputc_frame: "frame_ok (uartputc c s) = frame_ok s" "pos_ok (uartputc c s) = pos_ok s"
  by (simp_all add: frame_ok_def pos_ok_def)

lemma consputc_shown:
  assumes "frame_ok s" "pos_ok s" "\<not> panicked s" "c \<noteq> BACKSPACE"
  shows "\<exists>s'. consputc c s = Inr s' \<and> shown (uartputc c s) s'"
  using assms graphic_putc_shown [of "uartputc c s" c] by (simp add: consputc_def uartputc_frame)

text \<open>
  Claim C30. Writing to the console draws on the screen only: for any bytes, on a frame buffer of at least 800 by 600 pixels,
  \<^verbatim>\<open>consolewrite\<close> returns the number of bytes, writes exactly them to the serial port if there is one and nothing otherwise,
  however often the port has to be waited for, leaves every byte of memory outside
  the frame buffer and the pending input alone, and keeps the cursor on the screen.
\<close>

theorem consolewrite_on_screen:
  assumes "frame_ok s" "pos_ok s" "\<not> panicked s"
  shows "\<exists>s'. consolewrite bs s = Inr (int (length bs), s') \<and> sent s' = sent s @ (if uart s then bs else []) \<and> pos_ok s'
    \<and> (\<forall>a. \<not> in_frame s a \<longrightarrow> pmem s' a = pmem s a) \<and> input s' = input s"
proof -
  have "\<exists>s'. consolewrite_loop bs s = Inr s' \<and> sent s' = sent s @ (if uart s then bs else []) \<and> pos_ok s'
    \<and> (\<forall>a. \<not> in_frame s a \<longrightarrow> pmem s' a = pmem s a) \<and> input s' = input s"
    using assms
  proof (induction bs arbitrary: s)
    case (Cons b bs)
    have "uint b \<noteq> BACKSPACE" using unsigned_less [of b, where 'a = int] by (auto simp: BACKSPACE_def)
    then obtain s1 where s1: "consputc (uint b) s = Inr s1" "shown (uartputc (uint b) s) s1"
      using consputc_shown [OF Cons.prems] by blast
    then have f: "frame_ok s1" "pos_ok s1" "\<not> panicked s1" "sent s1 = sent s @ (if uart s then [b] else [])" "input s1 = input s" "uart s1 = uart s"
        "in_frame s1 = in_frame s" "\<forall>a. \<not> in_frame s a \<longrightarrow> pmem s1 a = pmem s a"
      using Cons.prems shown_frame_ok [OF s1(2)]
      by (auto simp: shown_def frame_ok_def in_frame_def fun_eq_iff)
    from Cons.IH [OF f(1-3)] show ?case using s1(1) f(4-8) by auto
  qed simp
  then show ?thesis by (auto simp: consolewrite_def)
qed

definition blank_console :: console where
  "blank_console = undefined\<lparr>pmem := \<lambda>_. 0, vram_size := 0x1D4C00, vvram_addr := 0xFDE2B400, pixels_per_line := 800,
     console_pos := 1060, panicked := False, input := \<lparr>ibuf = replicate 128 0, ir = 0, iw = 0, ie = 0\<rparr>, uart := True, sent := []\<rparr>"

theorem consolewrite_on_screen_witness:
  "\<exists>s'. consolewrite [0x68, 0x69] blank_console = Inr (2, s') \<and> sent s' = [0x68, 0x69] \<and> pmem s' 0x80000000 = 0"
proof -
  have "frame_ok blank_console" "pos_ok blank_console" "\<not> panicked blank_console" "\<not> in_frame blank_console 0x80000000" "uart blank_console"
    by (simp_all add: blank_console_def frame_ok_def pos_ok_def CONSOLE_VERTICAL_MAX_def CONSOLE_HORIZONTAL_MAX_def in_frame_def)
  then obtain s' where "consolewrite [0x68, 0x69] blank_console = Inr (2, s')" "sent s' = sent blank_console @ [0x68, 0x69]"
      "pmem s' 0x80000000 = pmem blank_console 0x80000000"
    using consolewrite_on_screen [of blank_console "[0x68, 0x69]"] by auto
  then show ?thesis by (auto simp: blank_console_def)
qed

section \<open>Line editing\<close>

text \<open>
  The input as two queues: what readers may take, and the line that is still being edited. \<open>key\<close> says what a key does to
  them.
\<close>

definition window :: "input_buf \<Rightarrow> u32 \<Rightarrow> u32 \<Rightarrow> u8 list" where
  "window i a b = map (\<lambda>k. ibyte i (a + of_nat k)) [0..<unat (b - a)]"

definition committed :: "input_buf \<Rightarrow> u8 list" where "committed i = window i (ir i) (iw i)"
definition editing :: "input_buf \<Rightarrow> u8 list" where "editing i = window i (iw i) (ie i)"

definition input_ok :: "input_buf \<Rightarrow> bool" where
  "input_ok i \<longleftrightarrow> length (ibuf i) = INPUT_BUF \<and> unat (iw i - ir i) + unat (ie i - iw i) \<le> INPUT_BUF \<and> 10 \<notin> set (editing i)"

definition key :: "int \<Rightarrow> u8 list \<times> u8 list \<Rightarrow> u8 list \<times> u8 list" where
  "key c qe =
     (case qe of (q, e) \<Rightarrow>
      if c = Ctl CHR ''P'' then (q, e)
      else if c = Ctl CHR ''U'' then (q, [])
      else if c = Ctl CHR ''H'' \<or> c = 0x7F then (q, butlast e)
      else if c \<noteq> 0 \<and> length q + length e < INPUT_BUF
      then let b = (if c = 13 then 10 else word_of_int c)
           in if b = 10 \<or> b = 4 \<or> length q + length e + 1 = INPUT_BUF then (q @ e @ [b], []) else (q, e @ [b])
      else (q, e))"

lemma window_length [simp]: "length (window i a b) = unat (b - a)"
  by (simp add: window_def)

lemma unat_Suc: "(a :: u32) \<noteq> 0 \<Longrightarrow> unat (a - 1) + 1 = unat a"
  using unat_minus_one [of a] unat_gt_0 [of a] by simp

lemma window_butlast: "b \<noteq> a \<Longrightarrow> window i a (b - 1) = butlast (window i a b)"
proof -
  assume "b \<noteq> a"
  then have "unat (b - a) = Suc (unat (b - 1 - a))" using unat_Suc [of "b - a"] by (simp add: algebra_simps)
  then show ?thesis by (simp add: window_def)
qed

lemma window_last: "b \<noteq> a \<Longrightarrow> last (window i a b) = ibyte i (b - 1)"
proof -
  assume "b \<noteq> a"
  then have n: "unat (b - a) = Suc (unat (b - 1 - a))" using unat_Suc [of "b - a"] by (simp add: algebra_simps)
  then show ?thesis by (simp add: window_def)
qed

lemma window_index: "unat ((a :: u32) mod of_nat INPUT_BUF) = unat a mod 128"
  by (simp add: INPUT_BUF_def unat_mod_distrib)

lemma mod_window:
  assumes "(a + j) mod n = (a + k) mod n" "j < n" "k < (n :: nat)"
  shows "j = k"
proof -
  have "j mod n = k mod n" using assms(1) by (simp add: nat_mod_eq_iff)
  then show ?thesis using assms(2,3) by simp
qed

lemma window_pos: "unat ((a :: u32) + of_nat n) mod 128 = (unat a + n) mod 128"
proof -
  have "(unat a + n) mod 2 ^ 32 mod 128 = (unat a + n) mod 128" by (rule mod_mod_cancel) simp
  then show ?thesis by (simp add: unat_word_ariths unat_of_nat take_bit_eq_mod mod_simps)
qed

lemma window_distinct: "j < 128 \<Longrightarrow> k < 128 \<Longrightarrow> unat (a + of_nat j :: u32) mod 128 = unat (a + of_nat k) mod 128 \<Longrightarrow> j = k"
  using mod_window unfolding window_pos by blast

lemma ibyte_buf: "ibyte (i\<lparr>ibuf := (ibuf i)[unat ((e :: u32) mod of_nat INPUT_BUF) := v]\<rparr>) k
    = (if unat e mod 128 = unat k mod 128 \<and> unat e mod 128 < length (ibuf i) then v else ibyte i k)"
  by (cases "unat e mod 128 < length (ibuf i)") (auto simp: ibyte_def window_index list_update_beyond)

text \<open>Storing at the end of a window that is not full.\<close>

lemma window_frame:
  assumes "unat (e - a) < 128" "unat (b - a) \<le> unat (e - a)"
  shows "window (i\<lparr>ibuf := (ibuf i)[unat (e mod of_nat INPUT_BUF) := v]\<rparr>) a b = window i a b"
proof -
  have "unat e mod 128 \<noteq> unat (a + of_nat k) mod 128" if "k < unat (b - a)" for k
    using window_distinct [of "unat (e - a)" k a] that assms by auto
  then show ?thesis unfolding window_def by (auto simp: ibyte_buf)
qed

lemma window_snoc:
  assumes "unat (e - a) < 128" "length (ibuf i) = 128"
  shows "window (i\<lparr>ibuf := (ibuf i)[unat (e mod of_nat INPUT_BUF) := v]\<rparr>) a (e + 1) = window i a e @ [v]"
proof -
  have "unat (e + 1 - a) = Suc (unat (e - a))" using unat_add_of_nat [of "e - a" 1] assms(1) by (simp add: algebra_simps)
  moreover have "ibyte (i\<lparr>ibuf := (ibuf i)[unat (e mod of_nat INPUT_BUF) := v]\<rparr>) (a + of_nat (unat (e - a))) = v"
    using assms(2) by (simp add: ibyte_buf)
  ultimately show ?thesis using window_frame [OF assms(1) order_refl, of i v] by (simp add: window_def)
qed

lemma window_append:
  assumes "unat (b - a) + unat (c - b) < 2 ^ 32"
  shows "window i a c = window i a b @ window i b c"
proof -
  have "unat (c - a) = unat (b - a) + unat (c - b)"
    using unat_add_of_nat [of "b - a" "unat (c - b)"] assms by simp
  moreover have "map (\<lambda>k. ibyte i (a + of_nat k)) [unat (b - a)..<unat (b - a) + unat (c - b)]
      = map (\<lambda>k. ibyte i (b + of_nat k)) [0..<unat (c - b)]"
    by (rule nth_equalityI) auto
  ultimately show ?thesis by (simp add: window_def upt_add_eq_append [of 0])
qed

lemma window_fields [simp]: "window (i\<lparr>ir := x\<rparr>) a b = window i a b" "window (i\<lparr>iw := x\<rparr>) a b = window i a b" "window (i\<lparr>ie := x\<rparr>) a b = window i a b"
  by (simp_all add: window_def ibyte_def)

lemma window_empty [simp]: "window i a a = []"
  by (simp add: window_def)

lemma draw_fields:
  "panicked (graphic_putc c s) = panicked s" "wakeups (graphic_putc c s) = wakeups s"
proof -
  have "panicked (fold (draw_dot x y g) ds s) = panicked s" "wakeups (fold (draw_dot x y g) ds s) = wakeups s" for x y g ds and s :: console
    by (induction ds arbitrary: s) (simp_all add: draw_dot_def Let_def graphic_draw_pixel_def split_beta)
  then show "panicked (graphic_putc c s) = panicked s" "wakeups (graphic_putc c s) = wakeups s"
    by (simp_all add: graphic_putc_def Let_def font_render_def graphic_scroll_up_def)
qed

lemma consputc_fields:
  "\<not> panicked s \<Longrightarrow> \<exists>s'. consputc c s = Inr s' \<and> input s' = input s \<and> \<not> panicked s' \<and> wakeups s' = wakeups s"
  by (auto simp: consputc_def graphic_putc_input draw_fields)

lemma kill_line_clears:
  "\<not> panicked s \<Longrightarrow> 10 \<notin> set (editing (input s)) \<Longrightarrow>
    \<exists>s'. kill_line s = Inr s' \<and> input s' = (input s)\<lparr>ie := iw (input s)\<rparr> \<and> \<not> panicked s' \<and> wakeups s' = wakeups s"
proof (induction s rule: kill_line.induct)
  case (1 s)
  let ?i = "input s" and ?s = "s\<lparr>input := (input s)\<lparr>ie := ie (input s) - 1\<rparr>\<rparr>"
  show ?case
  proof (cases "ie ?i = iw ?i")
    case True
    then show ?thesis using "1.prems" by (auto simp: kill_line.simps [of s])
  next
    case False
    have e: "editing ?i \<noteq> []" using False by (simp add: editing_def unat_gt_0 flip: length_greater_0_conv)
    have "ibyte ?i (ie ?i - 1) = last (editing ?i)" using window_last [OF False] by (simp add: editing_def)
    then have nl: "ibyte ?i (ie ?i - 1) \<noteq> 10" using last_in_set [OF e] "1.prems"(2) by metis
    obtain s1 where s1: "consputc BACKSPACE ?s = Inr s1" "input s1 = ?i\<lparr>ie := ie ?i - 1\<rparr>" "\<not> panicked s1" "wakeups s1 = wakeups s"
      using consputc_fields [of ?s BACKSPACE] "1.prems"(1) by auto
    have "editing (input s1) = butlast (editing ?i)" using window_butlast [OF False] s1(2) by (simp add: editing_def)
    then have "10 \<notin> set (editing (input s1))" using "1.prems"(2) in_set_butlastD by metis
    from "1.IH" [OF refl _ s1(1) s1(3) this] False nl s1 show ?thesis by (auto simp: kill_line.simps [of s])
  qed
qed

lemma Ctl_simps: "Ctl CHR ''P'' = 16" "Ctl CHR ''U'' = 21" "Ctl CHR ''H'' = 8" "Ctl CHR ''D'' = 4"
  by (simp_all add: Ctl_def)

text \<open>What storing a key and handing over the line do to the two queues.\<close>

lemma store_key:
  assumes ok: "input_ok i" and room: "unat (ie i - ir i) < 128"
    and j_def: "j = i\<lparr>ibuf := (ibuf i)[unat (ie i mod of_nat INPUT_BUF) := v], ie := ie i + 1\<rparr>"
  shows "committed j = committed i" "editing j = editing i @ [v]" "length (ibuf j) = 128"
    "unat (iw j - ir j) + unat (ie j - iw j) = length (committed i) + length (editing i) + 1"
    "committed (j\<lparr>iw := ie j\<rparr>) = committed i @ editing i @ [v]" "editing (j\<lparr>iw := ie j\<rparr>) = []"
proof -
  let ?b = "(ibuf i)[unat (ie i mod of_nat INPUT_BUF) := v]"
  have len: "length (ibuf i) = 128" and sum: "unat (iw i - ir i) + unat (ie i - iw i) \<le> 128"
    using ok by (auto simp: input_ok_def INPUT_BUF_def)
  have tot: "unat (ie i - ir i) = unat (iw i - ir i) + unat (ie i - iw i)"
    using unat_add_of_nat [of "iw i - ir i" "unat (ie i - iw i)"] sum by simp
  have e: "unat (ie i - iw i) < 128" using room tot by simp
  show c: "committed j = committed i"
    using window_frame [OF room, of "iw i" i v] tot by (simp add: committed_def j_def)
  show ed: "editing j = editing i @ [v]"
    using window_snoc [OF e len, of v] by (simp add: editing_def j_def)
  show "length (ibuf j) = 128" using len by (simp add: j_def)
  have e1: "unat (ie i + 1 - iw i) = unat (ie i - iw i) + 1"
    using unat_add_of_nat [of "ie i - iw i" 1] e by (simp add: algebra_simps)
  then show "unat (iw j - ir j) + unat (ie j - iw j) = length (committed i) + length (editing i) + 1"
    by (simp add: j_def committed_def editing_def)
  have "window j (ir j) (ie j) = window j (ir j) (iw j) @ window j (iw j) (ie j)"
    using e1 sum by (intro window_append) (simp add: j_def)
  then show "committed (j\<lparr>iw := ie j\<rparr>) = committed i @ editing i @ [v]"
    using c ed by (simp add: committed_def editing_def)
  show "editing (j\<lparr>iw := ie j\<rparr>) = []" by (simp add: editing_def)
qed

lemma word_of_int_byte: "0 \<le> c \<Longrightarrow> c \<le> 255 \<Longrightarrow> 0 \<le> d \<Longrightarrow> d \<le> 255 \<Longrightarrow> (word_of_int c :: u8) = word_of_int d \<longleftrightarrow> c = d"
  by (simp add: word_of_int_eq_iff take_bit_eq_mod)

text \<open>One key does to the two queues what \<open>key\<close> says.\<close>

definition key_refined :: "int \<Rightarrow> bool \<Rightarrow> console \<Rightarrow> bool" where
  "key_refined c d s \<longleftrightarrow> (\<exists>s'. console_key c (d, s) = Inr (d \<or> c = Ctl CHR ''P'', s') \<and> input_ok (input s') \<and> \<not> panicked s'
    \<and> (committed (input s'), editing (input s')) = key c (committed (input s), editing (input s))
    \<and> wakeups s' = wakeups s + (if committed (input s') = committed (input s) then 0 else 1))"

lemma input_okD:
  assumes "input_ok i"
  shows "length (ibuf i) = 128" "unat (iw i - ir i) + unat (ie i - iw i) \<le> 128" "10 \<notin> set (editing i)"
    "unat (ie i - ir i) = length (committed i) + length (editing i)"
  using assms unat_add_of_nat [of "iw i - ir i" "unat (ie i - iw i)"] by (auto simp: input_ok_def INPUT_BUF_def committed_def editing_def)

lemma erase_refined:
  assumes ok: "input_ok (input s)" and p: "\<not> panicked s" and c: "c = 8 \<or> c = 0x7F"
  shows "key_refined c d s"
proof -
  let ?i = "input s"
  note len = input_okD(1) [OF ok] and sum = input_okD(2) [OF ok] and nl = input_okD(3) [OF ok]
  show ?thesis
  proof (cases "ie ?i = iw ?i")
    case True
    then show ?thesis using c ok p by (auto simp: key_refined_def console_key_def key_def Ctl_simps editing_def)
  next
    case False
    obtain s' where s': "consputc BACKSPACE (s\<lparr>input := ?i\<lparr>ie := ie ?i - 1\<rparr>\<rparr>) = Inr s'" "input s' = ?i\<lparr>ie := ie ?i - 1\<rparr>"
        "\<not> panicked s'" "wakeups s' = wakeups s"
      using consputc_fields [of "s\<lparr>input := ?i\<lparr>ie := ie ?i - 1\<rparr>\<rparr>" BACKSPACE] p by auto
    have e: "editing (input s') = butlast (editing ?i)" "committed (input s') = committed ?i"
      using window_butlast [OF False] s'(2) by (simp_all add: editing_def committed_def)
    have "unat (ie ?i - 1 - iw ?i) \<le> unat (ie ?i - iw ?i)"
      using window_butlast [OF False, of ?i] arg_cong [of _ _ length] by (metis diff_le_self length_butlast window_length)
    then have "input_ok (input s')" using s'(2) e(1) len sum nl by (auto simp: input_ok_def INPUT_BUF_def dest: in_set_butlastD)
    then show ?thesis using c False s' e by (auto simp: key_refined_def console_key_def key_def Ctl_simps Let_def)
  qed
qed

lemma store_refined:
  assumes ok: "input_ok (input s)" and p: "\<not> panicked s" and c: "0 \<le> c" "c \<le> 255" "c \<notin> {0, 8, 16, 21, 0x7F}" and room: "unat (ie (input s) - ir (input s)) < 128"
  shows "key_refined c d s"
proof -
  let ?i = "input s"
  note nl = input_okD(3) [OF ok] and tot = input_okD(4) [OF ok]
  define v :: u8 where "v = (if c = 13 then 10 else word_of_int c)"
  define c' where "c' = (if c = 13 then 10 else c)"
  define j where "j = ?i\<lparr>ibuf := (ibuf ?i)[unat (ie ?i mod of_nat INPUT_BUF) := v], ie := ie ?i + 1\<rparr>"
  have v: "word_of_int c' = v" "v = 10 \<longleftrightarrow> c' = 10" "v = 4 \<longleftrightarrow> c' = 4"
    using c(1,2) word_of_int_byte [of c 10] word_of_int_byte [of c 4] by (auto simp: v_def c'_def)
  note k = store_key [OF ok room j_def]
  obtain s1 where s1: "consputc c' (s\<lparr>input := j\<rparr>) = Inr s1" "input s1 = j" "\<not> panicked s1" "wakeups s1 = wakeups s"
    using consputc_fields [of "s\<lparr>input := j\<rparr>" c'] p by auto
  have full: "ie j = ir j + 128 \<longleftrightarrow> length (committed ?i) + length (editing ?i) + 1 = 128"
  proof -
    have "unat (ie j - ir j) = length (committed ?i) + length (editing ?i) + 1"
      using unat_add_of_nat [of "iw j - ir j" "unat (ie j - iw j)"] k(4) room tot by simp
    then have "ie j - ir j = 128 \<longleftrightarrow> length (committed ?i) + length (editing ?i) + 1 = 128"
      by (simp add: word_unat_eq_iff)
    then show ?thesis by (auto simp: algebra_simps)
  qed
  have lt: "ie ?i - ir ?i < 128" using room by (simp add: word_less_nat_alt)
  have run: "console_key c (d, s) = Inr (d, if c' = 10 \<or> c' = 4 \<or> ie j = ir j + 128
      then s1\<lparr>input := j\<lparr>iw := ie j\<rparr>, wakeups := wakeups s1 + 1\<rparr> else s1)"
    using c(3) lt s1 v(1) by (simp add: console_key_def Ctl_simps INPUT_BUF_def Let_def c'_def [symmetric] j_def)
  show ?thesis
  proof (cases "c' = 10 \<or> c' = 4 \<or> ie j = ir j + 128")
    case True
    let ?s = "s1\<lparr>input := j\<lparr>iw := ie j\<rparr>, wakeups := wakeups s1 + 1\<rparr>"
    have "console_key c (d, s) = Inr (d, ?s)" using run True by simp
    moreover have "unat (ie j - ir j) \<le> 128"
      using unat_add_of_nat [of "iw j - ir j" "unat (ie j - iw j)"] k(4) room tot by simp
    then have "input_ok (input ?s)" using k(3,6) by (simp add: input_ok_def INPUT_BUF_def)
    moreover have "key c (committed ?i, editing ?i) = (committed ?i @ editing ?i @ [v], [])"
      using c(3) room tot True full v by (auto simp: key_def Ctl_simps INPUT_BUF_def v_def [symmetric] Let_def)
    ultimately show ?thesis using k(5,6) s1(3,4) c(3) by (simp add: key_refined_def Ctl_simps)
  next
    case False
    have "console_key c (d, s) = Inr (d, s1)" using run False by simp
    moreover have "input_ok (input s1)"
      using k(2,3,4) s1(2) nl False v room tot by (simp add: input_ok_def INPUT_BUF_def)
    moreover have "key c (committed ?i, editing ?i) = (committed ?i, editing ?i @ [v])"
      using c(3) room tot False full v by (auto simp: key_def Ctl_simps INPUT_BUF_def v_def [symmetric] Let_def)
    ultimately show ?thesis using k(1,2) s1(2,3,4) c(3) by (simp add: key_refined_def Ctl_simps)
  qed
qed

lemma console_key_refines:
  assumes ok: "input_ok (input s)" and p: "\<not> panicked s" and c: "0 \<le> c" "c \<le> 255"
  shows "key_refined c d s"
proof -
  let ?i = "input s"
  note len = input_okD(1) [OF ok] and sum = input_okD(2) [OF ok] and nl = input_okD(3) [OF ok] and tot = input_okD(4) [OF ok]
  consider (dump) "c = 16" | (kill) "c = 21" | (erase) "c = 8 \<or> c = 0x7F" | (store) "c \<notin> {0, 8, 16, 21, 0x7F}" "unat (ie ?i - ir ?i) < 128"
    | (ignore) "c \<notin> {8, 16, 21, 0x7F}" "c = 0 \<or> unat (ie ?i - ir ?i) \<ge> 128" by fastforce
  then show ?thesis
  proof cases
    case dump
    then show ?thesis using ok p by (simp add: key_refined_def console_key_def key_def Ctl_simps)
  next
    case kill
    obtain s' where "kill_line s = Inr s'" "input s' = ?i\<lparr>ie := iw ?i\<rparr>" "\<not> panicked s'" "wakeups s' = wakeups s"
      using kill_line_clears [OF p nl] by blast
    then show ?thesis using kill len sum
      by (auto simp: key_refined_def console_key_def key_def Ctl_simps input_ok_def editing_def committed_def INPUT_BUF_def)
  next
    case ignore
    then have "\<not> (c \<noteq> 0 \<and> ie ?i - ir ?i < 128)" by (auto simp: word_less_nat_alt)
    then show ?thesis using ignore ok p tot by (auto simp: key_refined_def console_key_def key_def Ctl_simps INPUT_BUF_def)
  next
    case erase
    then show ?thesis by (rule erase_refined [OF ok p])
  next
    case store
    then show ?thesis by (rule store_refined [OF ok p c])
  qed
qed

lemma consoleintr_loop_refines:
  "input_ok (input s) \<Longrightarrow> \<not> panicked s \<Longrightarrow> \<forall>c \<in> set cs. 0 \<le> c \<and> c \<le> 255 \<Longrightarrow>
    \<exists>s'. consoleintr_loop cs (d, s) = Inr (d \<or> Ctl CHR ''P'' \<in> set cs, s') \<and> input_ok (input s')
      \<and> (committed (input s'), editing (input s')) = fold key cs (committed (input s), editing (input s))"
proof (induction cs arbitrary: s d)
  case (Cons c cs)
  obtain s1 where s1: "console_key c (d, s) = Inr (d \<or> c = Ctl CHR ''P'', s1)" "input_ok (input s1)" "\<not> panicked s1"
      "(committed (input s1), editing (input s1)) = key c (committed (input s), editing (input s))"
    using console_key_refines [OF Cons.prems(1,2), of c d] Cons.prems(3) by (auto simp: key_refined_def)
  from Cons.IH [OF s1(2,3), of "d \<or> c = Ctl CHR ''P''"] Cons.prems(3) s1(1,4) show ?case by auto
qed simp

text \<open>
  Claim C29. Line editing refines two queues: whatever keys arrive, \<^verbatim>\<open>consoleintr\<close> does to the circular buffer and its three
  wrapping indices what \<open>key\<close> does to the lines readers may take and the line being edited: erase and kill never touch
  a line that was handed over, a newline, \<^verbatim>\<open>^D\<close> or a full buffer hands the line over, nothing is stored when the
  buffer is full, and nothing is overwritten.
\<close>

theorem consoleintr_refines:
  assumes "input_ok (input s)" "\<not> panicked s" "\<forall>c \<in> set cs. 0 \<le> c \<and> c \<le> 255"
  shows "\<exists>s'. consoleintr cs s = Inr (Ctl CHR ''P'' \<in> set cs, s') \<and> input_ok (input s')
    \<and> (committed (input s'), editing (input s')) = fold key cs (committed (input s), editing (input s))"
  using consoleintr_loop_refines [OF assms, of False] by (simp add: consoleintr_def)

theorem consoleintr_refines_witness:
  "\<exists>s'. consoleintr [0x68, 0x6A, 8, 0x69, 13, 0x78] blank_console = Inr (False, s')
    \<and> committed (input s') = [0x68, 0x69, 10] \<and> editing (input s') = [0x78]"
proof -
  have i: "input_ok (input blank_console)" "\<not> panicked blank_console" "committed (input blank_console) = []" "editing (input blank_console) = []"
    by (simp_all add: blank_console_def input_ok_def INPUT_BUF_def committed_def editing_def)
  have "fold key [0x68, 0x6A, 8, 0x69, 13, 0x78] ([], []) = ([0x68, 0x69, 10], [0x78])"
    by (simp add: key_def Ctl_simps INPUT_BUF_def Let_def)
  then show ?thesis
    using consoleintr_refines [OF i(1,2), of "[0x68, 0x6A, 8, 0x69, 13, 0x78]"] i(3,4) by (auto simp: Ctl_simps)
qed

section \<open>Reading a line\<close>

text \<open>What a read of at most \<open>n\<close> bytes takes from the queue, if it can return: a line up to its newline or before \<^verbatim>\<open>^D\<close>.\<close>

primrec take_line :: "nat \<Rightarrow> u8 list \<Rightarrow> u8 list" where
  "take_line n [] = []"
| "take_line n (c # cs) = (if n = 0 \<or> c = 4 then [] else if c = 10 then [c] else c # take_line (n - 1) cs)"

text \<open>Whether the queue has the end of such an answer: \<open>n\<close> bytes, a newline or \<^verbatim>\<open>^D\<close>.\<close>

primrec has_line :: "nat \<Rightarrow> u8 list \<Rightarrow> bool" where
  "has_line n [] \<longleftrightarrow> n = 0"
| "has_line n (c # cs) \<longleftrightarrow> n = 0 \<or> c = 4 \<or> c = 10 \<or> has_line (n - 1) cs"

lemma has_line_0 [simp]: "has_line 0 q"
  by (cases q) auto

lemma take_line_0 [simp]: "take_line 0 q = []"
  by (cases q) auto

lemma window_Cons:
  assumes "a \<noteq> b"
  shows "window i a b = ibyte i a # window i (a + 1) b"
proof -
  have "unat (b - a) = Suc (unat (b - (a + 1)))" using unat_Suc [of "b - a"] assms by (simp add: diff_diff_eq)
  then show ?thesis unfolding window_def by (simp add: upt_conv_Cons map_Suc_upt [symmetric] add.assoc o_def del: upt_Suc)
qed

lemma consoleread_loop_line:
  assumes "n \<le> target" and l: "consoleread_loop kd target n i = (r, bs, i')"
  shows "bs = take_line n (committed i)" "iw i' = iw i" "ie i' = ie i" "ibuf i' = ibuf i"
    "r = (if has_line n (committed i) then Count (int target - int n + int (length bs))
          else if kd then Failed else Waiting (n - length bs))"
    "committed i = bs @ (if has_line n (committed i) \<and> n = target \<and> bs = [] \<and> 0 < n then [4] else []) @ committed i'"
proof -
  have "bs = take_line n (committed i) \<and> iw i' = iw i \<and> ie i' = ie i \<and> ibuf i' = ibuf i
    \<and> r = (if has_line n (committed i) then Count (int target - int n + int (length bs))
          else if kd then Failed else Waiting (n - length bs))
    \<and> committed i = bs @ (if has_line n (committed i) \<and> n = target \<and> bs = [] \<and> 0 < n then [4] else []) @ committed i'"
    using assms
  proof (induction n arbitrary: i r bs i')
    case (Suc n)
    show ?case
    proof (cases "ir i = iw i")
      case True
      then show ?thesis using Suc.prems(2) by (auto simp: committed_def)
    next
      case False
      let ?j = "i\<lparr>ir := ir i + 1\<rparr>"
      have c: "committed i = ibyte i (ir i) # committed ?j" using window_Cons [OF False] by (simp add: committed_def)
      consider (eof) "ibyte i (ir i) = 4" | (nl) "ibyte i (ir i) = 10" | (more) "ibyte i (ir i) \<noteq> 4" "ibyte i (ir i) \<noteq> 10" by blast
      then show ?thesis
      proof cases
        case more
        obtain bs1 where l1: "consoleread_loop kd target n ?j = (r, bs1, i')" and bs: "bs = ibyte i (ir i) # bs1"
          using False more Suc.prems(2) by (auto simp: Ctl_simps split: prod.splits)
        define q where "q = committed ?j"
        have t: "n \<noteq> target" "n \<le> target" using Suc.prems(1) by auto
        note ih = Suc.IH [OF t(2) l1, folded q_def]
        have h: "take_line n q = bs1" "iw i' = iw i" "ie i' = ie i" "ibuf i' = ibuf i"
          "r = (if has_line n q then Count (int target - int n + int (length bs1)) else if kd then Failed else Waiting (n - length bs1))"
          "bs1 @ (if has_line n q \<and> n = target \<and> bs1 = [] \<and> 0 < n then [4] else []) @ committed i' = q"
          using ih by (metis input_buf.select_convs input_buf.update_convs(2) input_buf.surjective)+
        have "bs1 @ committed i' = q" using h(6) t(1) by simp
        then show ?thesis using h(1-5) more unfolding c [folded q_def] bs by simp
      qed (use False Suc.prems c in \<open>auto simp: Ctl_simps Let_def split: if_splits\<close>)
    qed
  qed simp
  then show "bs = take_line n (committed i)" "iw i' = iw i" "ie i' = ie i" "ibuf i' = ibuf i"
    "r = (if has_line n (committed i) then Count (int target - int n + int (length bs))
          else if kd then Failed else Waiting (n - length bs))"
    "committed i = bs @ (if has_line n (committed i) \<and> n = target \<and> bs = [] \<and> 0 < n then [4] else []) @ committed i'"
    by blast+
qed

text \<open>
  Claim C32. Reading from the console: \<^verbatim>\<open>consoleread\<close> takes the first line of the committed input, cut at the size of the
  caller's buffer and before a \<^verbatim>\<open>^D\<close>, and leaves the rest queued. If the committed input has the whole answer (\<open>n\<close> bytes, a
  newline or \<^verbatim>\<open>^D\<close>) it returns the number of bytes; otherwise it sleeps for the rest, or gives up when it was killed. A \<^verbatim>\<open>^D\<close> is taken off
  the queue only by the read that returns 0 for it. The line that is being edited is left alone.
\<close>

theorem consoleread_line:
  "case consoleread kd n s of (r, bs, s') \<Rightarrow>
     let q = committed (input s) in
      bs = take_line n q
    \<and> r = (if has_line n q then Count (int (length bs)) else if kd then Failed else Waiting (n - length bs))
    \<and> q = bs @ (if has_line n q \<and> bs = [] \<and> 0 < n then [4] else []) @ committed (input s')
    \<and> editing (input s') = editing (input s)"
proof -
  obtain r bs i where l: "consoleread_loop kd n n (input s) = (r, bs, i)" by (rule prod_cases3)
  note h = consoleread_loop_line [OF order_refl l]
  have "editing i = editing (input s)" using h(2-4) by (simp add: editing_def window_def ibyte_def)
  moreover have "consoleread kd n s = (r, bs, s\<lparr>input := i\<rparr>)" using l by (simp add: consoleread_def)
  ultimately show ?thesis using h(1,5,6) by (simp add: Let_def)
qed

end
