(* ===== verification/Keyboard.thy ===== *)
theory Keyboard
  imports Console
begin

text \<open>
  The keyboard driver, \<^verbatim>\<open>kbd.c\<close> and \<^verbatim>\<open>kbd.h\<close>. The bytes that the controller's status and data ports return are arguments; the static
  variable \<^verbatim>\<open>shift\<close> is threaded through.
\<close>

unbundle bit_operations_syntax

section \<open>Scan code tables\<close>

definition SHIFT :: u32 where "SHIFT = 1"
definition CTL :: u32 where "CTL = 2"
definition ALT :: u32 where "ALT = 4"
definition CAPSLOCK :: u32 where "CAPSLOCK = 8"
definition NUMLOCK :: u32 where "NUMLOCK = 16"
definition SCROLLLOCK :: u32 where "SCROLLLOCK = 32"
definition E0ESC :: u32 where "E0ESC = 64"

definition KBS_DIB :: u8 where "KBS_DIB = 1"

text \<open>An initialised array of 256 bytes: the elements listed in order, those designated by their index, and 0 elsewhere.\<close>

definition table256 :: "u8 list \<Rightarrow> (nat \<times> u8) list \<Rightarrow> nat \<Rightarrow> u32" where
  "table256 xs ds i = (case map_of ds i of Some v \<Rightarrow> ucast v | None \<Rightarrow> if i < length xs then ucast (xs ! i) else 0)"

definition chs :: "string \<Rightarrow> u8 list" where "chs = map of_char"

definition shiftcode :: "nat \<Rightarrow> u32" where
  "shiftcode = table256 [] [(0x1D, 2), (0x2A, 1), (0x36, 1), (0x38, 4), (0x9D, 2), (0xB8, 4)]"

definition togglecode :: "nat \<Rightarrow> u32" where
  "togglecode = table256 [] [(0x3A, 8), (0x45, 16), (0x46, 32)]"

definition special_keys :: "(nat \<times> u8) list" where
  "special_keys = [(0xC8, 0xE2), (0xD0, 0xE3), (0xC9, 0xE6), (0xD1, 0xE7), (0xCB, 0xE4), (0xCD, 0xE5), (0x97, 0xE0), (0xCF, 0xE1), (0xD2, 0xE8), (0xD3, 0xE9)]"

definition keypad :: "u8 list" where
  "keypad = [0, 0, 0, 0, 0, 0, 0] @ chs ''789-456+1230.''"

definition normalmap :: "nat \<Rightarrow> u32" where
  "normalmap = table256
     ([0, 0x1B] @ chs ''1234567890-='' @ [8, 9] @ chs ''qwertyuiop[]'' @ [10, 0] @ chs ''asdfghjkl;'' @ [0x27, 0x60, 0, 0x5C]
      @ chs ''zxcvbnm,./'' @ [0, 0x2A, 0, 0x20, 0, 0, 0, 0, 0, 0] @ keypad)
     ([(0x9C, 10), (0xB5, 0x2F)] @ special_keys)"

definition shiftmap :: "nat \<Rightarrow> u32" where
  "shiftmap = table256
     ([0, 0x1B] @ chs ''!@#$%^&*()_+'' @ [8, 9] @ chs ''QWERTYUIOP{}'' @ [10, 0] @ chs ''ASDFGHJKL:'' @ [0x22, 0x7E, 0, 0x7C]
      @ chs ''ZXCVBNM<>?'' @ [0, 0x2A, 0, 0x20, 0, 0, 0, 0, 0, 0] @ keypad)
     ([(0x9C, 10), (0xB5, 0x2F)] @ special_keys)"

definition ctls :: "string \<Rightarrow> u8 list" where "ctls cs = map (\<lambda>c. of_char c - 0x40) cs"

definition ctlmap :: "nat \<Rightarrow> u32" where
  "ctlmap = table256
     (replicate 16 0 @ ctls ''QWERTYUIOP'' @ [0, 0, 13, 0] @ ctls ''ASDFGHJKL'' @ [0, 0, 0, 0, 0x5C - 0x40]
      @ ctls ''ZXCVBNM'' @ [0, 0, 0x2F - 0x40, 0, 0])
     ([(0x9C, 13), (0xB5, 0x2F - 0x40)] @ special_keys)"

section \<open>The driver\<close>

definition charcode :: "u32 \<Rightarrow> nat \<Rightarrow> u32" where
  "charcode i = (if i = 0 then normalmap else if i = 1 then shiftmap else ctlmap)"

definition caps_case :: "u32 \<Rightarrow> u32 \<Rightarrow> u32" where
  "caps_case shift c =
     (if shift AND CAPSLOCK \<noteq> 0
      then if 0x61 \<le> c \<and> c \<le> 0x7A then c - 0x20 else if 0x41 \<le> c \<and> c \<le> 0x5A then c + 0x20 else c
      else c)"

definition kbdgetc :: "u8 \<Rightarrow> u8 \<Rightarrow> u32 \<Rightarrow> int \<times> u32" where
  "kbdgetc st d shift =
     (if st AND KBS_DIB = 0 then (-1, shift)
      else let data = unat d in
      if data = 0xE0 then (0, shift OR E0ESC)
      else if data AND 0x80 \<noteq> 0
      then (let data = (if shift AND E0ESC \<noteq> 0 then data else data AND 0x7F)
            in (0, shift AND NOT (shiftcode data OR E0ESC)))
      else let (data, shift) = (if shift AND E0ESC \<noteq> 0 then (data OR 0x80, shift AND NOT E0ESC) else (data, shift));
               shift = shift OR shiftcode data;
               shift = shift XOR togglecode data;
               c = charcode (shift AND (CTL OR SHIFT)) data
           in (sint (caps_case shift c), shift))"

text \<open>The keys that \<^verbatim>\<open>consoleintr\<close> gets while the controller has data, and the interrupt handler.\<close>

primrec kbd_keys :: "u8 list \<Rightarrow> u32 \<Rightarrow> int list \<times> u32" where
  "kbd_keys [] shift = ([], shift)"
| "kbd_keys (d # ds) shift = (let (c, shift) = kbdgetc KBS_DIB d shift; (cs, shift) = kbd_keys ds shift in (c # cs, shift))"

definition kbdintr :: "u8 list \<Rightarrow> u32 \<Rightarrow> console \<Rightarrow> ((bool \<times> console) \<times> u32) res" where
  "kbdintr ds shift s = (let (cs, shift) = kbd_keys ds shift in bindE (consoleintr cs s) (\<lambda>r. Inr (r, shift)))"

section \<open>What the driver returns\<close>

lemma table256_less: "unat (table256 xs ds i) < 256"
proof -
  have v: "unat v < 256" for v :: u8 using unsigned_less [of v] by simp
  have "unat (ucast v :: u32) < 256" for v :: u8 using v [of v] by (simp add: unsigned_ucast_eq take_bit_eq_mod)
  then show ?thesis by (simp add: table256_def split: option.split)
qed

lemma charcode_less: "unat (charcode i k) < 256"
  by (simp add: charcode_def normalmap_def shiftmap_def ctlmap_def table256_less)

lemma caps_range: "unat c < 256 \<Longrightarrow> 0 \<le> sint (caps_case m c) \<and> sint (caps_case m c) \<le> 255"
proof -
  assume "unat c < 256"
  then have "unat (caps_case m c) < 256" by (auto simp: caps_case_def word_le_nat_alt unat_sub_if' unat_word_ariths)
  moreover from this have "sint (caps_case m c) = int (unat (caps_case m c))" by (intro small_sint) simp
  ultimately show ?thesis by linarith
qed

lemma flag_bits: "drop_bit 7 (shiftcode k) = 0" "drop_bit 7 (togglecode k) = 0" "drop_bit 7 E0ESC = 0"
  by (simp_all add: shiftcode_def togglecode_def table256_def E0ESC_def)

lemma kbdgetc_range:
  assumes "drop_bit 7 shift = 0" "kbdgetc st d shift = (c, shift')"
  shows "c = -1 \<and> st AND KBS_DIB = 0 \<or> 0 \<le> c \<and> st AND KBS_DIB \<noteq> 0" "c \<le> 255" "drop_bit 7 shift' = 0"
  using assms caps_range [OF charcode_less]
  by (auto simp: kbdgetc_def Let_def flag_bits drop_bit_and drop_bit_or drop_bit_xor split: if_splits)

section \<open>Typing\<close>

text \<open>An ordinary key: its code is below \<open>128\<close>, its release is not the escape code, and it is neither a modifier nor a lock key.\<close>

definition ordinary :: "u8 \<Rightarrow> bool" where
  "ordinary k \<longleftrightarrow> unat k < 128 \<and> k \<noteq> 0x60 \<and> shiftcode (unat k) = 0 \<and> togglecode (unat k) = 0"

text \<open>The codes of pressing and releasing a key, with the left shift key held or not, and the character on the key.\<close>

fun strokes :: "bool \<times> u8 \<Rightarrow> u8 list" where
  "strokes (False, k) = [k, k OR 0x80]"
| "strokes (True, k) = [0x2A, k, k OR 0x80, 0xAA]"

fun key_char :: "bool \<times> u8 \<Rightarrow> int" where
  "key_char (sh, k) = sint ((if sh then shiftmap else normalmap) (unat k))"

lemma release_code:
  fixes k :: u8
  assumes "unat k < 128"
  shows "unat k AND 0x80 = 0" "unat (k OR 0x80) = unat k + 128" "(unat k + 128) AND 0x80 \<noteq> 0" "(unat k + 128) AND 0x7F = unat k"
proof -
  let ?n = "unat k"
  have b: "(m AND 0x80 = 0) \<longleftrightarrow> even (m div 128)" for m :: nat using and_exp_eq_0_iff_not_bit [of m 7] by (simp add: bit_iff_odd)
  show z: "?n AND 0x80 = 0" "(?n + 128) AND 0x80 \<noteq> 0" using assms by (simp_all add: b div_add_self2)
  have "unat (k OR 0x80) = ?n OR 0x80" by (simp add: unsigned_or_eq)
  also have "\<dots> = ?n + 0x80" using disjunctive_add_eq_or [OF z(1)] by simp
  finally show "unat (k OR 0x80) = ?n + 128" .
  have "(?n + 128) AND 0x7F = take_bit 7 (?n + 128)" by (simp add: take_bit_eq_mask mask_eq_exp_minus_1)
  then show "(?n + 128) AND 0x7F = ?n" using assms by (simp add: take_bit_eq_mod)
qed

lemma ordinary_key:
  assumes "ordinary k"
  shows "kbdgetc KBS_DIB k 0 = (key_char (False, k), 0)" "kbdgetc KBS_DIB k SHIFT = (key_char (True, k), SHIFT)"
    "kbdgetc KBS_DIB (k OR 0x80) 0 = (0, 0)" "kbdgetc KBS_DIB (k OR 0x80) SHIFT = (0, SHIFT)"
proof -
  have k: "unat k < 128" "unat k \<noteq> 0x60" "shiftcode (unat k) = 0" "togglecode (unat k) = 0"
    using assms by (auto simp: ordinary_def word_unat_eq_iff)
  note r = release_code [OF k(1)]
  show "kbdgetc KBS_DIB k 0 = (key_char (False, k), 0)" "kbdgetc KBS_DIB k SHIFT = (key_char (True, k), SHIFT)"
    "kbdgetc KBS_DIB (k OR 0x80) 0 = (0, 0)" "kbdgetc KBS_DIB (k OR 0x80) SHIFT = (0, SHIFT)"
    using k r by (simp_all add: kbdgetc_def KBS_DIB_def Let_def charcode_def SHIFT_def CTL_def E0ESC_def CAPSLOCK_def caps_case_def)
qed

lemma kbd_keys_append: "kbd_keys (ds @ es) shift = (let (cs, shift) = kbd_keys ds shift; (cs', shift) = kbd_keys es shift in (cs @ cs', shift))"
  by (induction ds arbitrary: shift) (auto split: prod.split)

lemma stroke_keys:
  assumes "ordinary k"
  shows "kbd_keys (strokes (sh, k)) 0 = (if sh then [0, key_char (sh, k), 0, 0] else [key_char (sh, k), 0], 0)"
proof -
  have "kbdgetc KBS_DIB 0x2A 0 = (0, SHIFT)" "kbdgetc KBS_DIB 0xAA SHIFT = (0, 0)" by code_simp+
  then show ?thesis using ordinary_key [OF assms] by (cases sh) (simp_all del: key_char.simps)
qed

lemma typed_keys:
  "\<forall>x \<in> set ks. ordinary (snd x) \<Longrightarrow>
    \<exists>cs. kbd_keys (concat (map strokes ks)) 0 = (cs, 0) \<and> filter (\<lambda>c. c \<noteq> 0) cs = filter (\<lambda>c. c \<noteq> 0) (map key_char ks)"
proof (induction ks)
  case (Cons x ks)
  obtain sh k where x: "x = (sh, k)" by force
  obtain cs where "kbd_keys (concat (map strokes ks)) 0 = (cs, 0)" "filter (\<lambda>c. c \<noteq> 0) cs = filter (\<lambda>c. c \<noteq> 0) (map key_char ks)"
    using Cons by auto
  then show ?case using stroke_keys [of k sh] Cons.prems by (auto simp: x kbd_keys_append simp del: key_char.simps)
qed simp

lemma key_zero [simp]: "key 0 qe = qe"
  by (cases qe) (simp add: key_def Ctl_simps)

lemma fold_key_filter: "fold key (filter (\<lambda>c. c \<noteq> 0) cs) qe = fold key cs qe"
  by (induction cs arbitrary: qe) auto

lemma kbd_keys_range: "drop_bit 7 shift = 0 \<Longrightarrow> \<forall>c \<in> set (fst (kbd_keys ds shift)). 0 \<le> c \<and> c \<le> 255"
proof (induction ds arbitrary: shift)
  case (Cons d ds)
  obtain c shift' where k: "kbdgetc KBS_DIB d shift = (c, shift')" by force
  note r = kbdgetc_range [OF Cons.prems k]
  have "0 \<le> c" using r(1) by (simp add: KBS_DIB_def)
  then show ?case using r(2) Cons.IH [OF r(3)] by (auto simp: k split: prod.split)
qed simp

lemma strokes_edit:
  assumes "input_ok (input s)" "\<not> panicked s" "\<forall>x \<in> set ks. ordinary (snd x)"
  shows "\<exists>d s'. kbdintr (concat (map strokes ks)) 0 s = Inr ((d, s'), 0) \<and> input_ok (input s')
    \<and> (committed (input s'), editing (input s')) = fold key (map key_char ks) (committed (input s), editing (input s))"
proof -
  obtain cs where cs: "kbd_keys (concat (map strokes ks)) 0 = (cs, 0)" "filter (\<lambda>c. c \<noteq> 0) cs = filter (\<lambda>c. c \<noteq> 0) (map key_char ks)"
    using typed_keys [OF assms(3)] by blast
  have "\<forall>c \<in> set cs. 0 \<le> c \<and> c \<le> 255" using kbd_keys_range [of 0 "concat (map strokes ks)"] cs(1) by simp
  moreover have "fold key cs = fold key (map key_char ks)" using fold_key_filter [of cs] fold_key_filter [of "map key_char ks"] cs(2) by (simp add: fun_eq_iff)
  ultimately show ?thesis
    using consoleintr_loop_refines [OF assms(1,2), of cs False] by (auto simp: kbdintr_def consoleintr_def cs(1))
qed

text \<open>
  The layout of a US keyboard, independent of the tables of the driver: the code of the first key of each row, and the
  characters along the row without and with the shift key. \<open>key_for\<close> is the stroke for a character, if it is on the keyboard.
\<close>

definition us_rows :: "(u8 \<times> string \<times> string) list" where
  "us_rows = [(0x02, ''1234567890-='', ''!@#$%^&*()_+''), (0x10, ''qwertyuiop[]'', ''QWERTYUIOP{}''),
     (0x1C, [CHR 0x0A], []), (0x1E, ''asdfghjkl;'' @ [CHR 0x27, CHR 0x60], ''ASDFGHJKL:'' @ [CHR 0x22, CHR 0x7E]),
     (0x2B, [CHR 0x5C], [CHR 0x7C]), (0x2C, ''zxcvbnm,./'', ''ZXCVBNM<>?''), (0x39, '' '', [])]"

definition us_keys :: "(char \<times> bool \<times> u8) list" where
  "us_keys = concat (map (\<lambda>(k, xs, ys).
     map (\<lambda>i. (xs ! i, False, k + of_nat i)) [0..<length xs] @ map (\<lambda>i. (ys ! i, True, k + of_nat i)) [0..<length ys]) us_rows)"

definition key_for :: "char \<Rightarrow> (bool \<times> u8) option" where
  "key_for c = map_of us_keys c"

lemma us_keys_typed: "list_all (\<lambda>(c, x). ordinary (snd x) \<and> key_char x = of_char c) us_keys"
  by code_simp

lemma key_for_char:
  assumes "key_for c = Some x"
  shows "ordinary (snd x) \<and> key_char x = of_char c"
proof -
  have "(c, x) \<in> set us_keys" using assms unfolding key_for_def by (rule map_of_SomeD)
  from bspec [OF us_keys_typed [unfolded list_all_iff] this] show ?thesis by simp
qed

lemma key_for_printable: "list_all (\<lambda>n. key_for (char_of n) \<noteq> None) (10 # [32..<127])"
  by code_simp

text \<open>
  Claim C33. Typing works: pressing and releasing the keys of a US keyboard for any text of printable characters and newlines, one
  after the other and with the shift key held where it is needed, does to the console's input what the characters of the text do, in
  their order, and leaves no modifier set.
\<close>

theorem kbdintr_types:
  assumes "input_ok (input s)" "\<not> panicked s"
    and printable: "\<forall>c \<in> set t. c = CHR 0x0A \<or> 32 \<le> (of_char c :: nat) \<and> (of_char c :: nat) < 127"
  shows "\<exists>d s'. kbdintr (concat (map (\<lambda>c. strokes (the (key_for c))) t)) 0 s = Inr ((d, s'), 0) \<and> input_ok (input s')
    \<and> (committed (input s'), editing (input s')) = fold key (map of_char t) (committed (input s), editing (input s))"
proof -
  have k: "ordinary (snd (the (key_for c))) \<and> key_char (the (key_for c)) = of_char c" if "c \<in> set t" for c
  proof -
    define n where "n = (of_char c :: nat)"
    have "c = CHR 0x0A \<or> 32 \<le> n \<and> n < 127" unfolding n_def using printable that by blast
    moreover have "(of_char (CHR 0x0A) :: nat) = 10" by simp
    ultimately have "n = 10 \<or> 32 \<le> n \<and> n < 127" unfolding n_def by metis
    then have "n \<in> set (10 # [32..<127])" by (simp only: set_simps set_upt atLeastLessThan_iff insert_iff)
    then have "key_for (char_of n) \<noteq> None" using key_for_printable unfolding list_all_iff by blast
    moreover have "char_of n = c" by (simp add: n_def)
    ultimately obtain x where "key_for c = Some x" by auto
    then show ?thesis by (simp only: key_for_char option.sel)
  qed
  let ?ks = "map (\<lambda>c. the (key_for c)) t"
  have o: "\<forall>x \<in> set ?ks. ordinary (snd x)" using k by auto
  have c: "map (\<lambda>x. key_char (the (key_for x))) t = map of_char t" using k by simp
  from strokes_edit [OF assms(1,2) o] show ?thesis unfolding map_map o_def c .
qed

theorem kbdintr_types_witness:
  "\<exists>d s'. kbdintr (concat (map (\<lambda>c. strokes (the (key_for c))) (''Ls'' @ [CHR 0x0A]))) 0 blank_console = Inr ((d, s'), 0)
    \<and> committed (input s') = [0x4C, 0x73, 10] \<and> editing (input s') = []"
proof -
  have i: "input_ok (input blank_console)" "\<not> panicked blank_console" "committed (input blank_console) = []" "editing (input blank_console) = []"
    by (simp_all add: blank_console_def input_ok_def INPUT_BUF_def committed_def editing_def)
  have "\<forall>c \<in> set (''Ls'' @ [CHR 0x0A]). c = CHR 0x0A \<or> 32 \<le> (of_char c :: nat) \<and> (of_char c :: nat) < 127" by simp
  moreover have "map of_char (''Ls'' @ [CHR 0x0A]) = [0x4C, 0x73, 10 :: int]" by simp
  moreover have "fold key [0x4C, 0x73, 10] ([], []) = ([0x4C, 0x73, 10], [])" by (simp add: key_def Ctl_simps INPUT_BUF_def Let_def)
  ultimately show ?thesis using kbdintr_types [OF i(1,2), of "''Ls'' @ [CHR 0x0A]"] i(3,4) by auto
qed

end
