(* ===== verification/Net.thy ===== *)
theory Net
  imports Vm
begin

text \<open>
  The network stack: \<^verbatim>\<open>xv6/eth.c\<close>, \<^verbatim>\<open>arp.c\<close>, \<^verbatim>\<open>ipv4.c\<close>, \<^verbatim>\<open>icmp.c\<close>, \<^verbatim>\<open>tcp.c\<close>, \<^verbatim>\<open>http.c\<close> and the transmit ring of \<^verbatim>\<open>i8254.c\<close>. Packets are
  bytes of the kernel's memory at the offsets of the packed structures of \<^verbatim>\<open>pkts_hdr.h\<close>; the registers of the card that
  the driver reads and writes are fields of the state. Printing is left out. The C code does not check the result of
  \<^verbatim>\<open>kalloc\<close>; building a packet at address 0 is a fault.
\<close>

unbundle bit_operations_syntax

section \<open>State\<close>

definition ARP_TABLE_MAX :: nat where "ARP_TABLE_MAX = 64"
definition SEND_DESC_NUM :: u32 where "SEND_DESC_NUM = 256"

record arp_entry =
  e_ip :: "u8 list"
  e_mac :: "u8 list"
  e_use :: u8

record net = vm +
  mac_addr :: "u8 list"
  my_ip :: "u8 list"
  arp_tab :: "arp_entry list"
  ip_id :: int
  send_id :: u16
  seq_num :: u32
  fin_flag :: int
  tdh :: u32
  tdt :: u32
  tdbal :: u32

definition bytes_at :: "u32 \<Rightarrow> nat \<Rightarrow> mem \<Rightarrow> u8 list" where
  "bytes_at a n m = map (\<lambda>k. m (a + of_nat k)) [0..<n]"

text \<open>Sizes and field offsets of the packed structures.\<close>

definition eth_size :: u32 where "eth_size = 14"
definition arp_size :: u32 where "arp_size = 30"
definition ipv4_size :: u32 where "ipv4_size = 20"
definition icmp_size :: u32 where "icmp_size = 64"
definition tcp_size :: u32 where "tcp_size = 20"

section \<open>Byte order\<close>

definition N2H_ushort :: "u16 \<Rightarrow> u16" where
  "N2H_ushort v = push_bit 8 (v AND 0xFF) + drop_bit 8 v"

definition H2N_ushort :: "u16 \<Rightarrow> u16" where
  "H2N_ushort v = push_bit 8 (v AND 0xFF) + drop_bit 8 v"

definition H2N_uint :: "u32 \<Rightarrow> u32" where
  "H2N_uint v = push_bit 24 (v AND 0xF) + push_bit 8 (v AND 0xF0) + drop_bit 8 (v AND 0xF00) + drop_bit 24 (v AND 0xF000)"

definition N2H_uint :: "u32 \<Rightarrow> u32" where
  "N2H_uint v =
     push_bit 24 (v AND 0xFF) + push_bit 8 (v AND 0xFF00) + drop_bit 8 (v AND 0xFF0000) + drop_bit 24 (v AND 0xFF000000)"

section \<open>Sending\<close>

text \<open>
  \<^verbatim>\<open>i8254_send\<close>: the frame is copied into the buffer of the next descriptor, which is then handed to the card. A
  descriptor takes 16 bytes, its buffer address the first four.
\<close>

definition i8254_send :: "u32 \<Rightarrow> u32 \<Rightarrow> 'a net_scheme \<Rightarrow> u32 \<times> 'a net_scheme" where
  "i8254_send pkt_addr len s =
     (let txdesc = P2V (tdbal s);
          tx_available = SEND_DESC_NUM - ((SEND_DESC_NUM - tdh s + tdt s) mod SEND_DESC_NUM);
          index = tdt s mod SEND_DESC_NUM;
          d = txdesc + 16 * index
      in if sint tx_available > 0
         then let m = memmove (P2V (load32 (pmem s) d)) pkt_addr len (pmem s);
                  m = store16 m (d + 8) (ucast len);
                  m = m(d + 12 := 0, d + 13 := 0, d + 11 := 0xb);
                  m = store16 m (d + 14) 0;
                  m = m(d + 10 := 0)
              in (len, s\<lparr>pmem := m, tdt := (tdt s + 1) mod SEND_DESC_NUM\<rparr>)
         else (-1, s))"

text \<open>
  The loop of \<^verbatim>\<open>i8254_init_send\<close> and \<^verbatim>\<open>i8254_init_recv\<close> that gives buffers to the descriptors at \<open>d\<close>, from index \<open>i\<close> on.
\<close>

primrec init_buffers :: "u32 \<Rightarrow> nat \<Rightarrow> nat \<Rightarrow> 'a net_scheme \<Rightarrow> 'a net_scheme" where
  "init_buffers d 0 i s = s"
| "init_buffers d (Suc n) i s =
     (let (buf_addr, s) = kalloc s in
      if buf_addr = 0 then s
      else let m = store32 (pmem s) (d + 16 * of_nat i) (V2P buf_addr);
               m = store32 m (d + 16 * of_nat (i + 1)) (V2P (buf_addr + 0x800))
           in init_buffers d n (i + 1) (s\<lparr>pmem := m\<rparr>))"

text \<open>The descriptors that are cleared first: every field but the buffer address.\<close>

primrec clear_descs :: "u32 \<Rightarrow> nat \<Rightarrow> mem \<Rightarrow> mem" where
  "clear_descs d 0 m = m"
| "clear_descs d (Suc n) m =
     clear_descs (d + 16) n (store16 ((store16 (store32 m (d + 4) 0) (d + 8) 0)(d + 10 := 0, d + 11 := 0, d + 12 := 0, d + 13 := 0)) (d + 14) 0)"

text \<open>The part of \<^verbatim>\<open>i8254_init_send\<close> that builds the ring; the control registers of the card are left out.\<close>

definition i8254_init_send :: "'a net_scheme \<Rightarrow> 'a net_scheme res" where
  "i8254_init_send s =
     (let (tx_desc_addr, s) = kalloc s in
      if tx_desc_addr = 0 then Inl (Fault ''kalloc'')
      else let s = s\<lparr>tdbal := V2P tx_desc_addr, tdh := 0, tdt := 0\<rparr>;
               s = s\<lparr>pmem := clear_descs tx_desc_addr 256 (pmem s)\<rparr>
           in Inr (init_buffers tx_desc_addr 128 0 s))"

text \<open>Running a packet builder on a fresh page, sending what it built and freeing the page.\<close>

definition with_page :: "(u32 \<Rightarrow> 'a net_scheme \<Rightarrow> 'a net_scheme) \<Rightarrow> 'a net_scheme \<Rightarrow> 'a net_scheme res" where
  "with_page f s =
     (let (send, s) = kalloc s in
      if send = 0 then Inl (Fault ''kalloc'') else kfree send (f send s))"

section \<open>ARP\<close>

definition ARP_HARDWARE_TYPE :: u16 where "ARP_HARDWARE_TYPE = 0x0100"
definition ARP_PROTOCOL_TYPE :: u16 where "ARP_PROTOCOL_TYPE = 0x0008"
definition ARP_OPS_REQUEST :: u16 where "ARP_OPS_REQUEST = 0x0100"
definition ARP_OPS_REPLY :: u16 where "ARP_OPS_REPLY = 0x0200"

text \<open>The fields that requests and replies share: \<open>a\<close> is the frame, \<open>b\<close> the packet in it.\<close>

definition arp_pkt :: "u32 \<Rightarrow> u16 \<Rightarrow> mem \<Rightarrow> mem" where
  "arp_pkt b op m =
     (let m = store16 m b ARP_HARDWARE_TYPE;
          m = store16 m (b + 2) ARP_PROTOCOL_TYPE;
          m = m(b + 4 := 6, b + 5 := 4)
      in store16 m (b + 6) op)"

definition arp_reply_pkt_create :: "u32 \<Rightarrow> u32 \<Rightarrow> 'a net_scheme \<Rightarrow> u32 \<times> 'a net_scheme" where
  "arp_reply_pkt_create arp_recv send s =
     (let b = send + eth_size;
          m = (pmem s)(send + 12 := 0x08, send + 13 := 0x06);
          m = memmove send (arp_recv + 8) 6 m;
          m = put_mem (send + 6) (mac_addr s) m;
          m = arp_pkt b ARP_OPS_REPLY m;
          m = memmove (b + 18) (arp_recv + 8) 6 m;
          m = memmove (b + 24) (arp_recv + 14) 4 m;
          m = put_mem (b + 8) (mac_addr s) m;
          m = put_mem (b + 14) (my_ip s) m
      in (eth_size + arp_size, s\<lparr>pmem := m\<rparr>))"

definition arp_broadcast :: "u32 \<Rightarrow> u32 \<Rightarrow> 'a net_scheme \<Rightarrow> u32 \<times> 'a net_scheme" where
  "arp_broadcast send ip s =
     (let b = send + eth_size;
          m = (pmem s)(send + 12 := 0x08, send + 13 := 0x06);
          m = put_mem send (replicate 6 0xff) m;
          m = put_mem (send + 6) (mac_addr s) m;
          m = arp_pkt b ARP_OPS_REQUEST m;
          m = put_mem (b + 18) (replicate 6 0) m;
          m = put_mem (b + 24) [10, 0, 1, ucast ip] m;
          m = put_mem (b + 8) (mac_addr s) m;
          m = put_mem (b + 14) (my_ip s) m
      in (eth_size + arp_size, s\<lparr>pmem := m\<rparr>))"

text \<open>The loop of \<^verbatim>\<open>arp_table_search\<close> from entry \<open>i\<close> on.\<close>

primrec arp_search_loop :: "u8 list \<Rightarrow> arp_entry list \<Rightarrow> int \<Rightarrow> int \<Rightarrow> int" where
  "arp_search_loop ip [] i emp = emp - 1"
| "arp_search_loop ip (e # es) i emp =
     (if e_ip e = ip then i
      else arp_search_loop ip es (i + 1) (if e_use e = 0 \<and> emp = 1 then - i else emp))"

definition arp_table_search :: "u8 list \<Rightarrow> arp_entry list \<Rightarrow> int" where
  "arp_table_search ip t = arp_search_loop ip t 0 1"

definition arp_table_update :: "u8 list \<Rightarrow> u8 list \<Rightarrow> arp_entry list \<Rightarrow> arp_entry list" where
  "arp_table_update src_ip src_mac t =
     (let index = arp_table_search src_ip t in
      if index > -1 then t[nat index := (t ! nat index)\<lparr>e_mac := src_mac\<rparr>]
      else let index = - (index + 1)
           in t[nat index := \<lparr>e_ip = src_ip, e_mac = src_mac, e_use = 1\<rparr>])"

definition ARP_UPDATED_TABLE :: int where "ARP_UPDATED_TABLE = 1"
definition ARP_CREATED_REPLY :: int where "ARP_CREATED_REPLY = 2"

definition arp_proc :: "u32 \<Rightarrow> 'a net_scheme \<Rightarrow> (int \<times> 'a net_scheme) res" where
  "arp_proc p s =
     (let m = pmem s; op = load16 m (p + 6); to_me = (bytes_at (p + 24) 4 m = my_ip s) in
      if load16 m p \<noteq> ARP_HARDWARE_TYPE then Inr (-1, s)
      else if load16 m (p + 2) \<noteq> ARP_PROTOCOL_TYPE then Inr (-1, s)
      else if m (p + 4) \<noteq> 6 then Inr (-1, s)
      else if m (p + 5) \<noteq> 4 then Inr (-1, s)
      else if \<not> to_me \<and> bytes_at (p + 14) 4 m \<noteq> my_ip s then Inr (-1, s)
      else if op = ARP_OPS_REQUEST \<and> to_me
      then bindE (with_page (\<lambda>send s. let (n, s) = arp_reply_pkt_create p send s in snd (i8254_send send n s)) s)
             (\<lambda>s. Inr (ARP_CREATED_REPLY, s))
      else if op = ARP_OPS_REPLY \<and> to_me
      then Inr (ARP_UPDATED_TABLE, s\<lparr>arp_tab := arp_table_update (bytes_at (p + 14) 4 m) (bytes_at (p + 8) 6 m) (arp_tab s)\<rparr>)
      else Inr (-1, s))"

section \<open>Checksums\<close>

text \<open>The loop that \<^verbatim>\<open>ipv4_chksum\<close> and \<^verbatim>\<open>icmp_chksum\<close> share: big-endian 16-bit words with end-around carry.\<close>

primrec chk_loop :: "nat \<Rightarrow> u32 \<Rightarrow> mem \<Rightarrow> u32 \<Rightarrow> u32" where
  "chk_loop 0 a m chk_sum = chk_sum"
| "chk_loop (Suc n) a m chk_sum =
     (let c = chk_sum + (push_bit 8 (ucast (m a)) + ucast (m (a + 1)));
          c = (if c > 0xFFFF then (c AND 0xFFFF) + 1 else c)
      in chk_loop n (a + 2) m c)"

definition ipv4_chksum :: "u32 \<Rightarrow> mem \<Rightarrow> u16" where
  "ipv4_chksum a m = ucast (NOT (chk_loop (unat (((m a) AND 0xF) * 2)) a m 0))"

definition icmp_chksum :: "u32 \<Rightarrow> mem \<Rightarrow> u16" where
  "icmp_chksum a m = ucast (NOT (chk_loop 32 a m 0))"

section \<open>ICMP\<close>

text \<open>The Ethernet and IPv4 headers of an answer to the frame at \<open>recv\<close>, as \<^verbatim>\<open>icmp.c\<close> and \<^verbatim>\<open>tcp.c\<close> both write them.\<close>

definition ip_headers :: "u32 \<Rightarrow> u32 \<Rightarrow> u16 \<Rightarrow> u16 \<Rightarrow> u8 \<Rightarrow> 'a net_scheme \<Rightarrow> 'a net_scheme" where
  "ip_headers recv send len frag proto s =
     (let h = send + eth_size;
          m = memmove send (recv + 6) 6 (pmem s);
          m = put_mem (send + 6) (mac_addr s) m;
          m = m(send + 12 := 0x08, send + 13 := 0x00);
          m = m(h := 0x45, h + 1 := 0);
          m = store16 m (h + 2) (H2N_ushort len);
          m = store16 m (h + 4) (send_id s);
          m = store16 m (h + 6) (H2N_ushort frag);
          m = m(h + 8 := 255, h + 9 := proto);
          m = put_mem (h + 12) (my_ip s) m;
          m = memmove (h + 16) (recv + eth_size + 12) 4 m;
          m = store16 m (h + 10) 0;
          m = store16 m (h + 10) (H2N_ushort (ipv4_chksum h m))
      in s\<lparr>pmem := m, send_id := send_id s + 1\<rparr>)"

text \<open>Where the payload of the received datagram starts.\<close>

definition ip_payload :: "u32 \<Rightarrow> mem \<Rightarrow> u32" where
  "ip_payload recv m = recv + eth_size + ucast (m (recv + eth_size) AND 0xF) * 4"

definition icmp_reply_pkt_create :: "u32 \<Rightarrow> u32 \<Rightarrow> 'a net_scheme \<Rightarrow> u32 \<times> 'a net_scheme" where
  "icmp_reply_pkt_create recv send s =
     (let r = ip_payload recv (pmem s);
          c = send + eth_size + ipv4_size;
          s = ip_headers recv send (ucast (ipv4_size + icmp_size)) 0x4000 0x1 s;
          m = (pmem s)(c := 0, c + 1 := 0);
          m = store16 m (c + 4) (load16 m (r + 4));
          m = store16 m (c + 6) (load16 m (r + 6));
          m = memmove (c + 8) (r + 8) 8 m;
          m = memmove (c + 16) (r + 16) 48 m;
          m = store16 m (c + 2) 0;
          m = store16 m (c + 2) (H2N_ushort (icmp_chksum c m))
      in (eth_size + ipv4_size + icmp_size, s\<lparr>pmem := m\<rparr>))"

definition icmp_proc :: "u32 \<Rightarrow> 'a net_scheme \<Rightarrow> 'a net_scheme res" where
  "icmp_proc buf s =
     (let p = ip_payload buf (pmem s) in
      if pmem s (p + 1) = 0 \<and> pmem s p = 0x8
      then with_page (\<lambda>send s. let (n, s) = icmp_reply_pkt_create buf send s in snd (i8254_send send n s)) s
      else Inr s)"

section \<open>HTTP\<close>

text \<open>\<^verbatim>\<open>http_strcpy\<close> returns the number of characters it copied.\<close>

definition http_strcpy :: "u32 \<Rightarrow> string \<Rightarrow> int \<Rightarrow> mem \<Rightarrow> int \<times> mem" where
  "http_strcpy dst src start_index m =
     (int (length src), put_mem (dst + word_of_int start_index) (map (\<lambda>c. of_nat (of_char c)) src) m)"

definition tcp_fin :: "'a net_scheme \<Rightarrow> 'a net_scheme" where
  "tcp_fin s = s\<lparr>fin_flag := 1\<rparr>"

definition http_proc :: "u32 \<Rightarrow> 'a net_scheme \<Rightarrow> u32 \<times> 'a net_scheme" where
  "http_proc send s =
     (let nl = [CHR 0x0D, CHR 0x0A];
          (len, m) = http_strcpy send (''HTTP/1.0 200 OK '' @ nl) 0 (pmem s);
          (n, m) = http_strcpy send (''Content-Type: text/html '' @ nl) len m;
          len = len + n;
          (n, m) = http_strcpy send (nl @ ''Hello World!'' @ nl) len m;
          len = len + n;
          m = (if len mod 2 \<noteq> 0 then m(send + word_of_int len := 0) else m)
      in (word_of_int len, tcp_fin (s\<lparr>pmem := m\<rparr>)))"

section \<open>TCP\<close>

fun word_sum :: "u8 list \<Rightarrow> u32" where
  "word_sum (x # y # r) = (push_bit 8 (ucast x) + ucast y) + word_sum r"
| "word_sum _ = 0"

text \<open>\<^verbatim>\<open>tcp_chksum\<close>, on the address of the IPv4 header: a pseudo header and the segment.\<close>

definition tcp_chksum :: "u32 \<Rightarrow> 'a net_scheme \<Rightarrow> u16" where
  "tcp_chksum h s =
     (let m = pmem s;
          tcp_len = H2N_ushort (ucast (ucast (N2H_ushort (load16 m (h + 2))) - ipv4_size));
          dummy = my_ip s @ bytes_at (h + 12) 4 m @ [0, 6] @ [ucast tcp_len, ucast (drop_bit 8 tcp_len)];
          chk_sum = word_sum dummy;
          chk_sum = chk_sum + word_sum (bytes_at (h + ipv4_size) (2 * (unat (N2H_ushort tcp_len) div 2)) m);
          chk_sum = chk_sum + drop_bit 16 chk_sum
      in ucast (NOT chk_sum))"

definition TCP_ACK :: u32 where "TCP_ACK = 0x10"
definition TCP_PSH :: u32 where "TCP_PSH = 0x8"
definition TCP_SYN :: u32 where "TCP_SYN = 0x2"
definition TCP_FIN :: u32 where "TCP_FIN = 0x1"

definition tcp_pkt_create :: "u32 \<Rightarrow> u32 \<Rightarrow> u32 \<Rightarrow> u32 \<Rightarrow> 'a net_scheme \<Rightarrow> u32 \<times> 'a net_scheme" where
  "tcp_pkt_create recv send pkt_type payload_size s =
     (let r = ip_payload recv (pmem s);
          h = send + eth_size;
          t = h + ipv4_size;
          s = ip_headers recv send (ucast (ipv4_size + tcp_size + payload_size)) 0x0000 0x6 s;
          m = pmem s;
          m = store16 m t (load16 m (r + 2));
          m = store16 m (t + 2) (load16 m r);
          m = store32 m (t + 4) (H2N_uint (seq_num s));
          m = store32 m (t + 8) (load32 m (r + 4) + push_bit 24 1);
          m = m(t + 12 := 0, t + 13 := 0);
          m = m(t + 12 := 0x50, t + 13 := ucast pkt_type);
          m = store16 m (t + 14) (H2N_ushort 14480);
          m = store16 m (t + 18) 0;
          m = store16 m (t + 16) 0;
          m = store16 m (t + 16) (H2N_ushort (tcp_chksum h (s\<lparr>pmem := m\<rparr>) + 8))
      in (eth_size + ipv4_size + tcp_size + payload_size, s\<lparr>pmem := m\<rparr>))"

text \<open>Building a segment and sending it, and the answer to data: an acknowledgement and the page.\<close>

definition tcp_answer :: "u32 \<Rightarrow> u32 \<Rightarrow> u32 \<Rightarrow> u32 \<Rightarrow> 'a net_scheme \<Rightarrow> 'a net_scheme" where
  "tcp_answer buf send pkt_type payload_size s =
     (let (n, s) = tcp_pkt_create buf send pkt_type payload_size s in snd (i8254_send send n s))"

definition tcp_data :: "u32 \<Rightarrow> u32 \<Rightarrow> 'a net_scheme \<Rightarrow> 'a net_scheme" where
  "tcp_data buf send s =
     (let s = tcp_answer buf send TCP_ACK 0 s;
          (n, s) = http_proc (send + eth_size + ipv4_size + tcp_size) s
      in tcp_answer buf send (TCP_ACK OR TCP_PSH) n s)"

definition tcp_proc :: "u32 \<Rightarrow> 'a net_scheme \<Rightarrow> 'a net_scheme res" where
  "tcp_proc buf s =
     (let p = ip_payload buf (pmem s); code = pmem s (p + 13) in
      with_page (\<lambda>send s.
        if ucast code AND TCP_SYN \<noteq> 0
        then let s = tcp_answer buf send (TCP_ACK OR TCP_SYN) 0 s in s\<lparr>seq_num := seq_num s + 1\<rparr>
        else if ucast code = (TCP_PSH OR TCP_ACK)
        then let s = tcp_data buf send s in s\<lparr>seq_num := seq_num s + 1\<rparr>
        else if ucast code = TCP_ACK \<and> fin_flag s = 1
        then (tcp_answer buf send TCP_FIN 0 s)\<lparr>fin_flag := 0\<rparr>
        else s) s)"

section \<open>Dispatch\<close>

definition ipv4_proc :: "u32 \<Rightarrow> 'a net_scheme \<Rightarrow> 'a net_scheme res" where
  "ipv4_proc buf s =
     (let h = buf + 14; pid = uint (load16 (pmem s) (h + 4)) in
      if ip_id s \<noteq> pid \<and> bytes_at (h + 12) 4 (pmem s) \<noteq> my_ip s
      then let s = s\<lparr>ip_id := pid\<rparr> in
           if pmem s (h + 9) = 0x1 then icmp_proc buf s
           else if pmem s (h + 9) = 0x6 then tcp_proc buf s
           else Inr s
      else Inr s)"

definition eth_proc :: "u32 \<Rightarrow> 'a net_scheme \<Rightarrow> 'a net_scheme res" where
  "eth_proc buf s =
     (if pmem s (buf + 12) = 0x08 \<and> pmem s (buf + 13) = 0x06
      then bindE (arp_proc (buf + eth_size) s) (\<lambda>(_, s). Inr s)
      else if pmem s (buf + 12) = 0x08 \<and> pmem s (buf + 13) = 0x00 then ipv4_proc buf s
      else Inr s)"

text \<open>
  \<^verbatim>\<open>arp_scan\<close>: one address after the other. Its inner loop offers a frame again while \<^verbatim>\<open>i8254_send\<close> returns -1, which it never
  does (\<open>i8254_send_accepts\<close>).
\<close>

lemma tx_available_pos: "0 < sint (SEND_DESC_NUM - (u :: u32) mod SEND_DESC_NUM)"
proof -
  let ?u = "u mod SEND_DESC_NUM"
  have u: "unat ?u < 256" by (simp add: SEND_DESC_NUM_def unat_mod_distrib)
  then have "?u \<le> SEND_DESC_NUM" by (simp add: word_le_nat_alt SEND_DESC_NUM_def)
  then have v: "unat (SEND_DESC_NUM - ?u) = 256 - unat ?u" by (simp add: unat_sub SEND_DESC_NUM_def)
  have "sint (SEND_DESC_NUM - ?u) = int (unat (SEND_DESC_NUM - ?u))" by (rule small_sint) (simp add: v)
  moreover have "0 < unat (SEND_DESC_NUM - ?u)" using u v by simp
  ultimately show ?thesis by (simp only: of_nat_0_less_iff)
qed

lemma i8254_send_accepts: "fst (i8254_send a n s) = n"
  by (simp add: i8254_send_def Let_def tx_available_pos)

primrec arp_scan_loop :: "nat \<Rightarrow> nat \<Rightarrow> 'a net_scheme \<Rightarrow> 'a net_scheme res" where
  "arp_scan_loop 0 i s = Inr s"
| "arp_scan_loop (Suc n) i s =
     bindE (with_page (\<lambda>send s. let (k, s) = arp_broadcast send (of_nat i) s in snd (i8254_send send k s)) s)
       (arp_scan_loop n (i + 1))"

definition arp_scan :: "'a net_scheme \<Rightarrow> 'a net_scheme res" where
  "arp_scan s = arp_scan_loop 256 0 s"

end
