(* ===== verification/NetProps.thy ===== *)
theory NetProps
  imports Net
begin

text \<open>
  Properties of the network stack: the ARP table, checksums that verify, the echo reply, byte order and the transmit ring.
\<close>

unbundle bit_operations_syntax

section \<open>The ARP table\<close>

primrec first_at :: "('a \<Rightarrow> bool) \<Rightarrow> 'a list \<Rightarrow> nat option" where
  "first_at P [] = None"
| "first_at P (x # xs) = (if P x then Some 0 else map_option Suc (first_at P xs))"



lemma first_at_None: "first_at P xs = None \<longleftrightarrow> (\<forall>x \<in> set xs. \<not> P x)"
  by (induction xs) auto

text \<open>What the search returns: the entry of the address, the code of the first free entry, or 0.\<close>

lemma arp_search_loop_spec:
  "0 \<le> i \<Longrightarrow> arp_search_loop ip t i emp =
     (case first_at (\<lambda>e. e_ip e = ip) t of
        Some k \<Rightarrow> i + int k
      | None \<Rightarrow> (if emp = 1 then (case first_at (\<lambda>e. e_use e = 0) t of Some k \<Rightarrow> - (i + int k) - 1 | None \<Rightarrow> 0)
                 else emp - 1))"
  by (induction t arbitrary: i emp) (auto split: option.splits)

lemma arp_table_search_spec:
  "arp_table_search ip t =
     (case first_at (\<lambda>e. e_ip e = ip) t of
        Some k \<Rightarrow> int k
      | None \<Rightarrow> (case first_at (\<lambda>e. e_use e = 0) t of Some k \<Rightarrow> - int k - 1 | None \<Rightarrow> 0))"
  by (simp add: arp_table_search_def arp_search_loop_spec split: option.splits)








text \<open>
  A full table is corrupted: when no entry is free and the address is not in the table, the search returns 0, the index of
  the first entry, and the update gives that entry, which belongs to another host, the hardware address of the new one.
\<close>

theorem arp_full_table_misdirects:
  assumes "t \<noteq> []" "\<forall>e \<in> set t. e_use e \<noteq> 0" "\<forall>e \<in> set t. e_ip e \<noteq> ip"
  shows "arp_table_search ip t = 0 \<and> e_ip (arp_table_update ip mac t ! 0) = e_ip (t ! 0) \<and> e_ip (t ! 0) \<noteq> ip
    \<and> e_mac (arp_table_update ip mac t ! 0) = mac"
proof -
  have "first_at (\<lambda>e. e_ip e = ip) t = None" "first_at (\<lambda>e. e_use e = 0) t = None"
    using assms(2,3) by (auto simp: first_at_None)
  then have "arp_table_search ip t = 0" by (simp add: arp_table_search_spec)
  then show ?thesis using assms by (simp add: arp_table_update_def)
qed

theorem arp_full_table_misdirects_witness:
  "e_ip (arp_table_update [10, 0, 1, 3] [9, 9, 9, 9, 9, 9] [\<lparr>e_ip = [10, 0, 1, 2], e_mac = [1, 2, 3, 4, 5, 6], e_use = 1\<rparr>] ! 0) = [10, 0, 1, 2]
   \<and> e_mac (arp_table_update [10, 0, 1, 3] [9, 9, 9, 9, 9, 9] [\<lparr>e_ip = [10, 0, 1, 2], e_mac = [1, 2, 3, 4, 5, 6], e_use = 1\<rparr>] ! 0)
      = [9, 9, 9, 9, 9, 9]"
  using arp_full_table_misdirects [of "[\<lparr>e_ip = [10, 0, 1, 2], e_mac = [1, 2, 3, 4, 5, 6], e_use = 1\<rparr>]" "[10, 0, 1, 3]"] by simp

section \<open>Checksums verify\<close>

text \<open>The loop over the natural numbers: one's complement addition of 16-bit words.\<close>

definition oc_add :: "nat \<Rightarrow> nat \<Rightarrow> nat" where
  "oc_add x y = (if x + y > 65535 then x + y - 65535 else x + y)"

definition be16 :: "mem \<Rightarrow> u32 \<Rightarrow> nat" where
  "be16 m a = 256 * unat (m a) + unat (m (a + 1))"

lemma unat_byte: "unat (b :: u8) < 256"
  using unsigned_less [of b, where 'a = nat] by simp

lemma be16_less: "be16 m a < 65536"
  using unat_byte [of "m a"] unat_byte [of "m (a + 1)"] by (simp add: be16_def)

lemma be16_word: "unat (push_bit 8 (ucast (m a)) + ucast (m (a + 1)) :: u32) = be16 m a"
proof -
  have u: "unat (ucast b :: u32) = unat b" for b :: u8
    using unat_byte [of b] by (simp add: unsigned_ucast_eq take_bit_nat_eq_self_iff)
  have p: "unat (push_bit 8 (ucast (m a)) :: u32) = 256 * unat (m a)"
    using unat_byte [of "m a"] by (simp add: push_bit_eq_mult unat_word_ariths u)
  note q = u [of "m (a + 1)"]
  show ?thesis using be16_less [of m a] unat_plus_if' [of "push_bit 8 (ucast (m a)) :: u32" "ucast (m (a + 1))"]
    unfolding p q be16_def by simp
qed

lemma chk_step:
  assumes "unat (c :: u32) \<le> 65535" "unat w < 65536"
  shows "unat (if c + w > 0xFFFF then ((c + w) AND 0xFFFF) + 1 else c + w) = oc_add (unat c) (unat w)"
proof -
  have s: "unat (c + w) = unat c + unat w" using assms by (simp add: unat_plus_if')
  have g: "c + w > 0xFFFF \<longleftrightarrow> unat c + unat w > 65535" by (simp add: word_less_nat_alt s)
  have "unat ((c + w) AND 0xFFFF) = (unat c + unat w) mod 65536"
  proof -
    have "(c + w) AND 0xFFFF = take_bit 16 (c + w)" by (simp add: take_bit_eq_mask mask_eq_exp_minus_1)
    then show ?thesis by (simp add: take_bit_eq_mod unat_mod_distrib s)
  qed
  moreover have "(unat c + unat w) mod 65536 = unat c + unat w - 65536" if "unat c + unat w > 65535"
    using that assms by (simp add: mod_if)
  ultimately show ?thesis using s g assms by (auto simp: oc_add_def unat_plus_if')
qed

lemma chk_loop_nat:
  "unat c \<le> 65535 \<Longrightarrow> unat (chk_loop n a m c) = foldl oc_add (unat c) (map (\<lambda>k. be16 m (a + 2 * of_nat k)) [0..<n])"
proof (induction n arbitrary: a c)
  case (Suc n)
  let ?w = "push_bit 8 (ucast (m a)) + ucast (m (a + 1)) :: u32"
  let ?c = "if c + ?w > 0xFFFF then ((c + ?w) AND 0xFFFF) + 1 else c + ?w"
  have st: "unat ?c = oc_add (unat c) (be16 m a)" using chk_step [OF Suc.prems, of ?w] be16_word [of m a] be16_less [of m a] by simp
  then have "unat ?c \<le> 65535" using Suc.prems be16_less [of m a] by (auto simp: oc_add_def)
  then have "unat (chk_loop (Suc n) a m c) = foldl oc_add (unat ?c) (map (\<lambda>k. be16 m (a + 2 + 2 * of_nat k)) [0..<n])"
    using Suc.IH by (simp add: Let_def)
  moreover have "map (\<lambda>k. be16 m (a + 2 * of_nat k)) [0..<Suc n] = be16 m a # map (\<lambda>k. be16 m (a + 2 + 2 * of_nat k)) [0..<n]"
    by (simp add: upt_conv_Cons map_Suc_upt [symmetric] o_def algebra_simps del: upt_Suc)
  ultimately show ?case unfolding st by simp
qed simp

lemma oc_fold:
  "c \<le> 65535 \<Longrightarrow> \<forall>w \<in> set ws. w < 65536 \<Longrightarrow>
    foldl oc_add c ws \<le> 65535 \<and> foldl oc_add c ws mod 65535 = (c + sum_list ws) mod 65535 \<and> (foldl oc_add c ws = 0 \<longleftrightarrow> c = 0 \<and> sum_list ws = 0)"
proof (induction ws arbitrary: c)
  case (Cons w ws)
  have a: "oc_add c w \<le> 65535" "oc_add c w = 0 \<longleftrightarrow> c = 0 \<and> w = 0" using Cons.prems by (auto simp: oc_add_def)
  have "oc_add c w mod 65535 = (c + w) mod 65535" using le_mod_geq [of 65535 "c + w"] by (auto simp: oc_add_def)
  then have "(oc_add c w + sum_list ws) mod 65535 = (c + w + sum_list ws) mod 65535" by (metis mod_add_left_eq)
  then show ?case using Cons.IH [OF a(1)] Cons.prems(2) a(2) by (auto simp: add.assoc)
qed simp

text \<open>Writing the complement of the sum into a field that was 0 makes the sum all ones.\<close>

lemma oc_complement:
  assumes "\<forall>w \<in> set ws. w < 65536" "k < length ws" "ws ! k = 0"
  shows "foldl oc_add 0 (ws[k := 65535 - foldl oc_add 0 ws]) = 65535"
proof -
  define r where "r = foldl oc_add 0 ws"
  define ws' where "ws' = ws[k := 65535 - r]"
  have r: "r \<le> 65535" "r mod 65535 = sum_list ws mod 65535" "r = 0 \<longleftrightarrow> sum_list ws = 0"
    using oc_fold [of 0 ws] assms(1) by (auto simp: r_def)
  have b: "\<forall>w \<in> set ws'. w < 65536" using assms(1) by (auto simp: ws'_def dest!: subsetD [OF set_update_subset_insert])
  have "sum_list ws' + ws ! k = sum_list ws + (65535 - r)"
    using sum_list_update [OF assms(2), of "65535 - r"] elem_le_sum_list [OF assms(2)] by (simp add: ws'_def assms(3))
  then have s: "sum_list ws' = sum_list ws + (65535 - r)" by (simp add: assms(3))
  have "(sum_list ws + (65535 - r)) mod 65535 = (r + (65535 - r)) mod 65535" using r(2) by (metis mod_add_left_eq)
  then have "sum_list ws' mod 65535 = 0" using s r(1) by simp
  moreover have "sum_list ws' \<noteq> 0" using s r(1,3) by linarith
  ultimately have f: "foldl oc_add 0 ws' \<le> 65535" "foldl oc_add 0 ws' mod 65535 = 0" "foldl oc_add 0 ws' \<noteq> 0"
    using oc_fold [OF _ b, of 0] by auto
  then have "65535 dvd foldl oc_add 0 ws'" by (simp add: mod_eq_0_iff_dvd)
  then have "foldl oc_add 0 ws' = 65535" using f(1,3) by (auto dest!: dvd_imp_le intro: le_antisym)
  then show ?thesis by (simp add: ws'_def r_def)
qed

lemma H2N_ushort_unat: "unat (H2N_ushort v) = (unat v mod 256) * 256 + unat v div 256"
proof -
  have x: "unat v < 65536" using unsigned_less [of v, where 'a = nat] by simp
  have "v AND 0xFF = take_bit 8 v" by (simp add: take_bit_eq_mask mask_eq_exp_minus_1)
  then have "unat (v AND 0xFF) = unat v mod 256" by (simp add: take_bit_eq_mod unat_mod_distrib)
  then have p: "unat (push_bit 8 (v AND 0xFF)) = (unat v mod 256) * 256"
    by (simp add: push_bit_eq_mult unat_word_ariths)
  have q: "unat (drop_bit 8 v) = unat v div 256" by (simp add: drop_bit_eq_div unat_div_distrib)
  have "(unat v mod 256) * 256 + unat v div 256 < 65536" using x by linarith
  then show ?thesis unfolding H2N_ushort_def
    using unat_plus_if' [of "push_bit 8 (v AND 0xFF)" "drop_bit 8 v"] unfolding p q by simp
qed

lemma store_swapped:
  "256 * unat (ucast (H2N_ushort v) :: u8) + unat (ucast (drop_bit 8 (H2N_ushort v)) :: u8) = unat v"
proof -
  have x: "unat v < 65536" using unsigned_less [of v, where 'a = nat] by simp
  have "unat (ucast (H2N_ushort v) :: u8) = unat v div 256"
    using x by (simp add: unsigned_ucast_eq take_bit_eq_mod H2N_ushort_unat)
  moreover have "unat (ucast (drop_bit 8 (H2N_ushort v)) :: u8) = unat v mod 256"
    using x by (simp add: unsigned_ucast_eq take_bit_eq_mod drop_bit_eq_div unat_div_distrib H2N_ushort_unat)
  ultimately show ?thesis by simp
qed

lemma unat_not_low: "unat (r :: u32) \<le> 65535 \<Longrightarrow> unat (ucast (NOT r) :: u16) = 65535 - unat r"
proof -
  assume r: "unat r \<le> 65535"
  have n: "NOT r = - 1 - r" by (simp add: not_eq_complement)
  have "unat (- 1 - r) = 4294967295 - unat r" using unsigned_less [of r, where 'a = nat] by (simp add: unat_sub word_le_nat_alt unsigned_minus_1_eq_mask mask_eq_exp_minus_1)
  then have "unat (ucast (NOT r) :: u16) = (4294967295 - unat r) mod 65536" by (simp add: unsigned_ucast_eq take_bit_eq_mod n)
  also have "4294967295 - unat r = (65535 - unat r) + 65535 * 65536" using r by simp
  also have "\<dots> mod 65536 = (65535 - unat r) mod 65536" by (rule mod_mult_self1)
  also have "\<dots> = 65535 - unat r" by simp
  finally show ?thesis .
qed

lemma chk_loop_cong: "(\<And>k. k < 2 * n \<Longrightarrow> m (a + of_nat k) = m' (a + of_nat k)) \<Longrightarrow> chk_loop n a m c = chk_loop n a m' c"
proof (induction n arbitrary: a c)
  case (Suc n)
  have "m a = m' a" "m (a + 1) = m' (a + 1)" using Suc.prems [of 0] Suc.prems [of 1] by simp_all
  moreover have "chk_loop n (a + 2) m c' = chk_loop n (a + 2) m' c'" for c'
    using Suc.prems [of "Suc (Suc _)"] by (intro Suc.IH) (simp add: add.assoc)
  ultimately show ?case by (simp add: Let_def)
qed simp

lemma chk_verifies:
  assumes n: "2 * n < 2 ^ 32" "k < n" and z: "m (a + 2 * of_nat k) = 0" "m (a + 2 * of_nat k + 1) = 0"
  shows "ucast (NOT (chk_loop n a (store16 m (a + 2 * of_nat k) (H2N_ushort (ucast (NOT (chk_loop n a m 0))))) 0)) = (0 :: u16)"
proof -
  define r where "r = chk_loop n a m 0"
  define m' where "m' = store16 m (a + 2 * of_nat k) (H2N_ushort (ucast (NOT r)))"
  define ws where "ws = map (\<lambda>j. be16 m (a + 2 * of_nat j)) [0..<n]"
  have b: "\<forall>w \<in> set ws. w < 65536" by (auto simp: ws_def be16_less)
  have r: "unat r = foldl oc_add 0 ws" using chk_loop_nat [of 0 n a m] by (simp add: r_def ws_def)
  then have rl: "unat r \<le> 65535" using oc_fold [OF _ b, of 0] by simp
  have wk: "ws ! k = 0" "k < length ws" using n z by (simp_all add: ws_def be16_def)
  have inj: "a + 2 * of_nat j + of_nat e \<noteq> a + 2 * of_nat k + of_nat f" if "j < n" "j \<noteq> k" "e < 2" "f < 2" for j e f
  proof -
    have "2 * j + e \<noteq> 2 * k + f" using that by presburger
    then have "of_nat (2 * j + e) \<noteq> (of_nat (2 * k + f) :: u32)"
      using that n by (subst of_nat_u32_inj) auto
    then show ?thesis by (simp add: add.assoc)
  qed
  have "map (\<lambda>j. be16 m' (a + 2 * of_nat j)) [0..<n] = ws[k := 65535 - unat r]"
  proof (rule nth_equalityI)
    fix j assume j: "j < length (map (\<lambda>j. be16 m' (a + 2 * of_nat j)) [0..<n])"
    show "map (\<lambda>j. be16 m' (a + 2 * of_nat j)) [0..<n] ! j = ws[k := 65535 - unat r] ! j"
    proof (cases "j = k")
      case True
      have "be16 m' (a + 2 * of_nat k) = unat (ucast (NOT r) :: u16)"
        using store_swapped [of "ucast (NOT r)"] by (simp add: be16_def m'_def store16_def)
      then show ?thesis using True n(2) wk(2) unat_not_low [OF rl] by simp
    next
      case False
      have "be16 m' (a + 2 * of_nat j) = be16 m (a + 2 * of_nat j)"
        using inj [of j 0 0] inj [of j 0 1] inj [of j 1 0] inj [of j 1 1] j False by (simp add: be16_def m'_def store16_def)
      then show ?thesis using j False by (simp add: ws_def)
    qed
  qed (simp add: ws_def)
  then have "unat (chk_loop n a m' 0) = 65535"
    using chk_loop_nat [of 0 n a m'] oc_complement [OF b wk(2,1)] r by simp
  then have "unat (ucast (NOT (chk_loop n a m' 0)) :: u16) = 0" using unat_not_low [of "chk_loop n a m' 0"] by simp
  then show ?thesis by (simp add: m'_def r_def unat_eq_0)
qed

text \<open>
  What a receiver checks (RFC 1071): the sum of the 16-bit words in network order is a multiple of 65535 and not 0, that is,
  all ones in one's complement arithmetic.
\<close>

definition inet_verifies :: "nat \<Rightarrow> u32 \<Rightarrow> mem \<Rightarrow> bool" where
  "inet_verifies n a m \<longleftrightarrow> (let S = sum_list (map (\<lambda>j. be16 m (a + 2 * of_nat j)) [0..<n]) in 0 < S \<and> S mod 65535 = 0)"

lemma inet_verifiesI:
  assumes "ucast (NOT (chk_loop n a m 0)) = (0 :: u16)"
  shows "inet_verifies n a m"
proof -
  define ws where "ws = map (\<lambda>j. be16 m (a + 2 * of_nat j)) [0..<n]"
  have b: "\<forall>w \<in> set ws. w < 65536" by (auto simp: ws_def be16_less)
  have u: "unat (chk_loop n a m 0) = foldl oc_add 0 ws" using chk_loop_nat [of 0 n a m] by (simp add: ws_def)
  note f = oc_fold [OF _ b, of 0]
  have "unat (chk_loop n a m 0) = 65535" using unat_not_low [of "chk_loop n a m 0"] f u assms by simp
  then have "sum_list ws mod 65535 = 0" "sum_list ws \<noteq> 0" using f u by (simp, metis f le0 zero_neq_numeral)
  then show ?thesis unfolding inet_verifies_def ws_def [symmetric] Let_def by (simp only: neq0_conv simp_thms)
qed

section \<open>Writing inside a block\<close>

text \<open>Memories that agree outside a set of addresses, and the operations that write inside it.\<close>

definition same_outside :: "u32 set \<Rightarrow> mem \<Rightarrow> mem \<Rightarrow> bool" where
  "same_outside A m m' \<longleftrightarrow> (\<forall>x. x \<notin> A \<longrightarrow> m' x = m x)"

lemma same_outside_refl: "same_outside A m m"
  by (simp add: same_outside_def)

lemma same_outside_D: "same_outside A m m' \<Longrightarrow> x \<notin> A \<Longrightarrow> m' x = m x"
  by (simp add: same_outside_def)

lemma same_outside_trans: "same_outside A m m1 \<Longrightarrow> same_outside A m1 m2 \<Longrightarrow> same_outside A m m2"
  by (simp add: same_outside_def)

lemma same_outside_mono: "same_outside A m m' \<Longrightarrow> A \<subseteq> B \<Longrightarrow> same_outside B m m'"
  by (auto simp: same_outside_def)

lemma same_outside_upd: "same_outside A m m' \<Longrightarrow> a \<in> A \<Longrightarrow> same_outside A m (m'(a := v))"
  by (auto simp: same_outside_def)

lemma same_outside_store16: "same_outside A m m' \<Longrightarrow> a \<in> A \<Longrightarrow> a + 1 \<in> A \<Longrightarrow> same_outside A m (store16 m' a v)"
  by (auto simp: same_outside_def store16_def)

lemma same_outside_memmove:
  "same_outside A m m' \<Longrightarrow> block_at dst (unat n) \<subseteq> A \<Longrightarrow> same_outside A m (memmove dst src n m')"
  unfolding same_outside_def
proof (intro allI impI)
  fix x assume *: "\<forall>x. x \<notin> A \<longrightarrow> m' x = m x" "block_at dst (unat n) \<subseteq> A" "x \<notin> A"
  then have "x \<notin> block_at dst (unat n)" by blast
  then have "\<not> x - dst < n" using block_at_word_iff [of "unat n" x dst] unsigned_less [of n, where 'a = nat] by simp
  then show "memmove dst src n m' x = m x" using * by (simp add: memmove_outside)
qed

lemma put_mem_outside: "x \<notin> block_at a (length bs) \<Longrightarrow> put_mem a bs m x = m x"
  by (induction bs arbitrary: a m) (auto simp: block_at_Suc)

lemma same_outside_put_mem:
  "same_outside A m m' \<Longrightarrow> block_at a (length bs) \<subseteq> A \<Longrightarrow> same_outside A m (put_mem a bs m')"
  unfolding same_outside_def
proof (intro allI impI)
  fix x assume *: "\<forall>x. x \<notin> A \<longrightarrow> m' x = m x" "block_at a (length bs) \<subseteq> A" "x \<notin> A"
  then have "x \<notin> block_at a (length bs)" by blast
  then show "put_mem a bs m' x = m x" using * by (simp add: put_mem_outside)
qed

lemma block_at_sub: "j + n \<le> N \<Longrightarrow> block_at (a + of_nat j) n \<subseteq> block_at a N"
proof -
  assume "j + n \<le> N"
  then have "(\<lambda>k. a + of_nat j + of_nat k) ` {..<n} \<subseteq> (\<lambda>k. a + of_nat k) ` {..<N}"
    by (auto simp: image_iff intro!: bexI [of _ "j + _"])
  then show ?thesis by (simp add: block_at_def)
qed

lemmas same_outside_intros = same_outside_refl same_outside_upd same_outside_store16 same_outside_memmove same_outside_put_mem

section \<open>Headers\<close>

text \<open>A received frame and a page for the answer that do not overlap.\<close>

definition buffers_ok :: "u32 \<Rightarrow> u32 \<Rightarrow> bool" where
  "buffers_ok recv send \<longleftrightarrow> unat recv + 138 < 2 ^ 32 \<and> unat send + 2000 < 2 ^ 32 \<and> block_at recv 138 \<inter> block_at send 2000 = {}"

definition addresses_ok :: "'a net_scheme \<Rightarrow> bool" where
  "addresses_ok s \<longleftrightarrow> length (mac_addr s) = 6 \<and> length (my_ip s) = 4"

lemma length_6E: "length xs = 6 \<Longrightarrow> \<exists>a b c d e f. xs = [a, b, c, d, e, f]"
  by (auto simp: eval_nat_numeral length_Suc_conv)

lemma length_4E: "length xs = 4 \<Longrightarrow> \<exists>a b c d. xs = [a, b, c, d]"
  by (auto simp: eval_nat_numeral length_Suc_conv)

lemma bytes_at_6: "bytes_at a 6 m = [m a, m (a + 1), m (a + 2), m (a + 3), m (a + 4), m (a + 5)]"
  by (simp add: bytes_at_def upt_rec)

lemma bytes_at_4: "bytes_at a 4 m = [m a, m (a + 1), m (a + 2), m (a + 3)]"
  by (simp add: bytes_at_def upt_rec)

lemma bytes_at_12: "bytes_at a 12 m = [m a, m (a + 1), m (a + 2), m (a + 3), m (a + 4), m (a + 5), m (a + 6), m (a + 7), m (a + 8), m (a + 9), m (a + 10), m (a + 11)]"
  by (simp add: bytes_at_def upt_rec)

text \<open>The two bytes of a 16-bit field in memory, as they are and swapped to network order.\<close>

definition stored_bytes :: "u16 \<Rightarrow> u8 list" where
  "stored_bytes v = [ucast v, ucast (drop_bit 8 v)]"

abbreviation swapped_bytes :: "u16 \<Rightarrow> u8 list" where
  "swapped_bytes v \<equiv> stored_bytes (H2N_ushort v)"

lemma memmove_at:
  assumes "unat src + unat n < 2 ^ 32" "unat dst + unat n < 2 ^ 32"
  shows "memmove dst src n m (dst + k) = (if k < n then m (src + k) else m (dst + k))"
  using memmove_block [OF assms, of m "dst + k"] by simp

lemma offset_unat: "unat (a :: u32) + j < 2 ^ 32 \<Longrightarrow> unat (a + of_nat j) = unat a + j"
  by (rule unat_add_of_nat)

lemma received_outside:
  assumes "buffers_ok recv send" "k < 138" "N \<le> 2000"
  shows "recv + of_nat k \<notin> block_at send N"
proof -
  have "recv + of_nat k \<in> block_at recv 138" using assms(2) by (rule block_atI)
  moreover have "block_at send N \<subseteq> block_at send 2000" using block_at_sub [of 0 N 2000 send] assms(3) by simp
  ultimately show ?thesis using assms(1) by (auto simp: buffers_ok_def)
qed

lemma in_block: "x - a < of_nat n \<Longrightarrow> n < 2 ^ 32 \<Longrightarrow> x \<in> block_at a n"
  by (rule block_at_wordI)

lemma ip_headers_mem:
  fixes s :: "'a net_scheme"
  assumes ok: "buffers_ok recv send" "addresses_ok s"
  shows "\<exists>M mz. ip_headers recv send len frag proto s = s\<lparr>pmem := M, send_id := send_id s + 1\<rparr>
    \<and> M = store16 mz (send + 24) (H2N_ushort (ipv4_chksum (send + 14) mz))
    \<and> same_outside (block_at send 34) (pmem s) mz \<and> mz (send + 24) = 0 \<and> mz (send + 25) = 0
    \<and> bytes_at send 6 mz = bytes_at (recv + 6) 6 (pmem s) \<and> bytes_at (send + 6) 6 mz = mac_addr s
    \<and> mz (send + 14) = 0x45 \<and> bytes_at (send + 12) 12 mz = [8, 0, 0x45, 0] @ swapped_bytes len @ stored_bytes (send_id s) @ swapped_bytes frag @ [255, proto]
    \<and> bytes_at (send + 26) 4 mz = my_ip s \<and> bytes_at (send + 30) 4 mz = bytes_at (recv + 26) 4 (pmem s)"
proof -
  obtain c0 c1 c2 c3 c4 c5 where mac: "mac_addr s = [c0, c1, c2, c3, c4, c5]" using ok(2) length_6E [of "mac_addr s"] by (auto simp: addresses_ok_def)
  obtain i0 i1 i2 i3 where ip: "my_ip s = [i0, i1, i2, i3]" using ok(2) length_4E [of "my_ip s"] by (auto simp: addresses_ok_def)
  define h where "h = send + 14"
  define m1 where "m1 = memmove send (recv + 6) 6 (pmem s)"
  define m2 where "m2 = (let m = put_mem (send + 6) (mac_addr s) m1;
          m = m(send + 12 := 0x08, send + 13 := 0x00);
          m = m(h := 0x45, h + 1 := 0);
          m = store16 m (h + 2) (H2N_ushort len);
          m = store16 m (h + 4) (send_id s);
          m = store16 m (h + 6) (H2N_ushort frag);
          m = m(h + 8 := 255, h + 9 := proto)
        in put_mem (h + 12) (my_ip s) m)"
  define m3 where "m3 = memmove (h + 16) (recv + 26) 4 m2"
  define mz where "mz = store16 m3 (h + 10) 0"
  have sub: "block_at send 6 \<subseteq> block_at send 34" "block_at (send + 6) 6 \<subseteq> block_at send 34"
      "block_at (send + 26) 4 \<subseteq> block_at send 34" "block_at (send + 30) 4 \<subseteq> block_at send 34"
    using block_at_sub [of 0 6 34 send] block_at_sub [of 6 6 34 send] block_at_sub [of 26 4 34 send] block_at_sub [of 30 4 34 send]
    by simp_all
  have s1: "same_outside (block_at send 34) (pmem s) m1" unfolding m1_def
    by (intro same_outside_intros) (simp add: sub)
  have s2: "same_outside (block_at send 34) m1 m2" unfolding m2_def Let_def h_def
    using ok(2) by (intro same_outside_intros in_block) (simp_all add: sub addresses_ok_def add.assoc)
  have s3: "same_outside (block_at send 34) m2 m3" unfolding m3_def h_def
    by (intro same_outside_intros) (simp add: sub add.assoc)
  have sz: "same_outside (block_at send 34) m3 mz" unfolding mz_def h_def
    by (intro same_outside_intros in_block) (simp_all add: add.assoc)
  have all: "same_outside (block_at send 34) (pmem s) mz"
    using s1 s2 s3 sz same_outside_trans by blast
  have "ip_headers recv send len frag proto s
      = s\<lparr>pmem := store16 mz (h + 10) (H2N_ushort (ipv4_chksum h mz)), send_id := send_id s + 1\<rparr>"
    by (simp add: ip_headers_def Let_def m1_def m2_def m3_def mz_def h_def eth_size_def add.assoc)
  moreover have u: "unat (recv + 6) + 6 < 2 ^ 32" "unat (recv + 26) + 4 < 2 ^ 32" "unat send + 6 < 2 ^ 32" "unat (send + 30) + 4 < 2 ^ 32"
    using ok(1) offset_unat [of recv 6] offset_unat [of recv 26] offset_unat [of send 30] by (simp_all add: buffers_ok_def)
  have k3: "m3 (send + k) = (if k - 30 < 4 then m2 (recv + 26 + (k - 30)) else m2 (send + k))" for k
    using memmove_block [of "recv + 26" 4 "send + 30" m2 "send + k"] u by (simp add: m3_def h_def add.assoc)
  have k1: "m1 (send + k) = (if k < 6 then pmem s (recv + 6 + k) else pmem s (send + k))" for k
    using memmove_block [of "recv + 6" 6 send "pmem s" "send + k"] u by (simp add: m1_def)
  have src: "m2 (recv + 26 + of_nat j) = pmem s (recv + 26 + of_nat j)" if "j < 4" for j
  proof -
    have "recv + of_nat (26 + j) \<notin> block_at send 34" using that by (intro received_outside [OF ok(1)]) auto
    from same_outside_D [OF same_outside_trans [OF s1 s2] this] show ?thesis by (simp add: add.assoc)
  qed
  note ev = mz_def store16_def h_def m2_def Let_def mac ip k1 k3 add.assoc
  have z: "m3 send = m2 send" "m1 send = pmem s (recv + 6)" using k3 [of 0] k1 [of 0] by simp_all
  have "bytes_at send 6 mz = bytes_at (recv + 6) 6 (pmem s)" by (simp add: bytes_at_6 ev z)
  moreover have "bytes_at (send + 6) 6 mz = mac_addr s" by (simp add: bytes_at_6 ev)
  moreover have "mz (send + 24) = 0" "mz (send + 25) = 0" "mz (send + 14) = 0x45" by (simp_all add: ev)
  moreover have "bytes_at (send + 12) 12 mz = [8, 0, 0x45, 0] @ swapped_bytes len @ stored_bytes (send_id s) @ swapped_bytes frag @ [255, proto]"
    by (simp add: bytes_at_12 stored_bytes_def ev)
  moreover have "bytes_at (send + 26) 4 mz = my_ip s" by (simp add: bytes_at_4 ev)
  moreover have "bytes_at (send + 30) 4 mz = bytes_at (recv + 26) 4 (pmem s)"
  proof -
    have "mz (send + 30 + of_nat j) = m2 (recv + 26 + of_nat j)" if "j < 4" for j
    proof -
      have "j = 0 \<or> j = 1 \<or> j = 2 \<or> j = 3" using that by auto
      then show ?thesis by (elim disjE) (simp_all add: mz_def store16_def h_def k3 add.assoc)
    qed
    then show ?thesis using src by (simp add: bytes_at_def)
  qed
  ultimately show ?thesis using all by (intro exI [of _ "store16 mz (h + 10) (H2N_ushort (ipv4_chksum h mz))"] exI [of _ mz]) (simp add: h_def add.assoc)
qed

section \<open>The echo reply\<close>

lemma load16_bytes: "(ucast (load16 m a) :: u8) = m a" "(ucast (drop_bit 8 (load16 m a)) :: u8) = m (a + 1)"
  by (rule bit_word_eqI; auto simp: load16_def bit_simps dest: bit_imp_le_length)+

text \<open>Reads at an offset behind writes at an offset of the same block.\<close>

lemma offset_inj: "i < 2000 \<Longrightarrow> j < 2000 \<Longrightarrow> (c :: u32) + of_nat i = c + of_nat j \<longleftrightarrow> i = j"
  using of_nat_u32_inj [of i j] by simp

lemma store16_off:
  "a + 1 < 2000 \<Longrightarrow> t < 2000 \<Longrightarrow> store16 m (c + of_nat a) v (c + of_nat t)
    = (if t = a then ucast v else if t = a + 1 then ucast (drop_bit 8 v) else m (c + of_nat t))"
  using offset_inj [of t a c] offset_inj [of t "a + 1" c] by (auto simp: store16_def add.assoc add.commute [of 1])

lemma memmove_off:
  assumes "unat c + (a + b) < 2 ^ 32" "unat src + b < 2 ^ 32" "a + b \<le> 2000" "t < 2000"
  shows "memmove (c + of_nat a) src (of_nat b) m (c + of_nat t)
    = (if a \<le> t \<and> t < a + b then m (src + of_nat (t - a)) else m (c + of_nat t))"
proof -
  have u: "unat (of_nat b :: u32) = b" "unat (c + of_nat a) = unat c + a"
    using assms by (simp_all add: unat_of_nat take_bit_eq_mod unat_add_of_nat)
  have "c + of_nat t - (c + of_nat a) = (of_nat t - of_nat a :: u32)" by simp
  moreover have "(of_nat t - of_nat a < (of_nat b :: u32)) \<longleftrightarrow> a \<le> t \<and> t < a + b"
  proof (cases "a \<le> t")
    case True
    then have e: "of_nat t - of_nat a = (of_nat (t - a) :: u32)" by simp
    have "unat (of_nat t - of_nat a :: u32) = t - a" unfolding e using assms(4) by (simp add: unat_of_nat take_bit_eq_mod del: of_nat_diff)
    then show ?thesis using True assms(3,4) u(1) by (auto simp: word_less_nat_alt)
  next
    case False
    have "unat (of_nat t - of_nat a :: u32) = 2 ^ 32 + t - a"
      using False assms(3,4) unat_sub_if' [of "of_nat t" "of_nat a :: u32"] by (simp add: unat_of_nat take_bit_eq_mod word_le_nat_alt)
    then show ?thesis using False assms(3,4) u(1) by (simp add: word_less_nat_alt)
  qed
  moreover have "of_nat t - of_nat a = (of_nat (t - a) :: u32)" if "a \<le> t" using that by simp
  ultimately show ?thesis using memmove_block [of src "of_nat b" "c + of_nat a" m "c + of_nat t"] u assms by auto
qed

lemma copy16_off:
  assumes "k + 1 < 2000" "t < k + 2"
    and "m (r + of_nat k) = p (r + of_nat k)" "m (r + of_nat (k + 1)) = p (r + of_nat (k + 1))"
  shows "store16 m (c + of_nat k) (load16 m (r + of_nat k)) (c + of_nat t)
    = (if k \<le> t then p (r + of_nat t) else m (c + of_nat t))"
proof -
  have "t = k \<or> t = k + 1 \<or> t < k" using assms(2) by auto
  then show ?thesis
    using store16_off [of k t m c "load16 m (r + of_nat k)"] assms
    by (auto simp: load16_bytes add.assoc add.commute [of 1])
qed

text \<open>The payload of the received packet starts at most 74 bytes into its buffer, and writing the
  answer leaves it alone.\<close>

lemma payload_offset:
  assumes "buffers_ok recv send"
  obtains n where "ip_payload recv m = recv + of_nat n" "n \<le> 74"
    "\<And>j k. j + k \<le> 64 \<Longrightarrow> unat (ip_payload recv m + of_nat j) + k < 2 ^ 32"
proof -
  define n where "n = 14 + unat (m (recv + 14) AND 0xF) * 4"
  have n: "ip_payload recv m = recv + of_nat n" "n \<le> 74"
    using word_and_le1 [of "m (recv + 14)" "0xF"]
    by (simp_all add: n_def ip_payload_def eth_size_def add.assoc word_le_nat_alt and.commute)
  moreover have "unat (recv + of_nat n + of_nat j) + k < 2 ^ 32" if "j + k \<le> 64" for j k
    using that n(2) assms offset_unat [of recv "n + j"] by (simp add: buffers_ok_def add.assoc)
  ultimately show thesis using that by simp
qed

lemma payload_kept:
  assumes ok: "buffers_ok recv send" and n: "r = recv + of_nat n" "n \<le> 74" and t: "t < 64"
    and h: "same_outside (block_at send 34) m M" and X: "same_outside (block_at (send + 34) 64) M X"
  shows "X (r + of_nat t) = m (r + of_nat t)"
proof -
  have "recv + of_nat (n + t) \<notin> block_at send 98" using n(2) t by (intro received_outside [OF ok]) auto
  moreover have "block_at (send + 34) 64 \<subseteq> block_at send 98" "block_at send 34 \<subseteq> block_at send 98"
    using block_at_sub [of 34 64 98 send] block_at_sub [of 0 34 98 send] by simp_all
  ultimately have "recv + of_nat (n + t) \<notin> block_at (send + 34) 64" "recv + of_nat (n + t) \<notin> block_at send 34" by auto
  then show ?thesis using same_outside_D [OF X] same_outside_D [OF h] by (simp add: n add.assoc)
qed

lemma icmp_reply_mem:
  fixes s :: "'a net_scheme"
  assumes ok: "buffers_ok recv send" "addresses_ok s"
    and r: "r = ip_payload recv (pmem s)" and c: "c = send + 34"
  shows "\<exists>M M1. icmp_reply_pkt_create recv send s = (98, s\<lparr>pmem := M, send_id := send_id s + 1\<rparr>)
    \<and> ip_headers recv send 84 0x4000 1 s = s\<lparr>pmem := M1, send_id := send_id s + 1\<rparr>
    \<and> same_outside (block_at c 64) M1 M \<and> M c = 0 \<and> M (c + 1) = 0 \<and> icmp_chksum c M = 0
    \<and> bytes_at (c + 4) 60 M = bytes_at (r + 4) 60 (pmem s)"
proof -
  obtain M1 m1 where h: "ip_headers recv send 84 0x4000 1 s = s\<lparr>pmem := M1, send_id := send_id s + 1\<rparr>"
      "M1 = store16 m1 (send + 24) (H2N_ushort (ipv4_chksum (send + 14) m1))" "same_outside (block_at send 34) (pmem s) m1"
    using ip_headers_mem [OF ok, of 84 "0x4000" 1] by blast
  have h1: "same_outside (block_at send 34) (pmem s) M1" unfolding h(2)
    by (intro same_outside_store16 h(3) in_block) (simp_all add: add.assoc)
  define m2 where "m2 = M1(c := 0, c + 1 := 0)"
  define m3 where "m3 = store16 m2 (c + 4) (load16 m2 (r + 4))"
  define m4 where "m4 = store16 m3 (c + 6) (load16 m3 (r + 6))"
  define m5 where "m5 = memmove (c + 8) (r + 8) 8 m4"
  define m6 where "m6 = memmove (c + 16) (r + 16) 48 m5"
  define mz where "mz = store16 m6 (c + 2) 0"
  define M where "M = store16 mz (c + 2) (H2N_ushort (icmp_chksum c mz))"
  have run: "icmp_reply_pkt_create recv send s = (98, s\<lparr>pmem := M, send_id := send_id s + 1\<rparr>)"
    using h(1) by (simp add: icmp_reply_pkt_create_def Let_def r c eth_size_def ipv4_size_def icmp_size_def add.assoc
        M_def mz_def m6_def m5_def m4_def m3_def m2_def)
  have sub: "block_at (c + 8) 8 \<subseteq> block_at c 64" "block_at (c + 16) 48 \<subseteq> block_at c 64"
    using block_at_sub [of 8 8 64 c] block_at_sub [of 16 48 64 c] by simp_all
  have o2: "same_outside (block_at c 64) M1 m2" unfolding m2_def by (intro same_outside_intros in_block) simp_all
  have o3: "same_outside (block_at c 64) M1 m3" unfolding m3_def by (intro same_outside_store16 o2 in_block) (simp_all add: add.assoc)
  have o4: "same_outside (block_at c 64) M1 m4" unfolding m4_def by (intro same_outside_store16 o3 in_block) (simp_all add: add.assoc)
  have o5: "same_outside (block_at c 64) M1 m5" unfolding m5_def by (intro same_outside_memmove o4) (simp add: sub)
  have o6: "same_outside (block_at c 64) M1 m6" unfolding m6_def by (intro same_outside_memmove o5) (simp add: sub)
  have oz: "same_outside (block_at c 64) M1 mz" unfolding mz_def by (intro same_outside_store16 o6 in_block) (simp_all add: add.assoc)
  have oM: "same_outside (block_at c 64) M1 M" unfolding M_def by (intro same_outside_store16 oz in_block) (simp_all add: add.assoc)
  have cu: "unat c + 1900 < 2 ^ 32" using ok(1) offset_unat [of send 34] by (simp add: buffers_ok_def c)
  obtain n where n: "r = recv + of_nat n" "n \<le> 74"
      and ru: "\<And>j k. j + k \<le> 64 \<Longrightarrow> unat (r + of_nat j) + k < 2 ^ 32"
    unfolding r by (rule payload_offset [OF ok(1)]) blast
  note src = payload_kept [OF ok(1) n _ h1, folded c]
  have c6: "m6 (c + of_nat t) = (if 16 \<le> t then pmem s (r + of_nat t) else m5 (c + of_nat t))" if "t < 64" for t
    using memmove_off [of c 16 48 "r + 16" t m5] cu ru [of 16 48] src [OF _ o5, of t] that by (auto simp: m6_def add.assoc)
  have c5: "m5 (c + of_nat t) = (if 8 \<le> t then pmem s (r + of_nat t) else m4 (c + of_nat t))" if "t < 16" for t
    using memmove_off [of c 8 8 "r + 8" t m4] cu ru [of 8 8] src [OF _ o4, of t] that by (auto simp: m5_def add.assoc)
  have c4: "m4 (c + of_nat t) = (if 6 \<le> t then pmem s (r + of_nat t) else m3 (c + of_nat t))" if "t < 8" for t
    using copy16_off [of 6 t m3 r "pmem s" c] src [OF _ o3, of 6] src [OF _ o3, of 7] that by (simp add: m4_def)
  have c3: "m3 (c + of_nat t) = (if 4 \<le> t then pmem s (r + of_nat t) else m2 (c + of_nat t))" if "t < 6" for t
    using copy16_off [of 4 t m2 r "pmem s" c] src [OF _ o2, of 4] src [OF _ o2, of 5] that by (simp add: m3_def)
  have cz: "mz (c + of_nat t) = (if t = 2 \<or> t = 3 then 0 else m6 (c + of_nat t))"
      "M (c + of_nat t) = (if t = 2 \<or> t = 3 then M (c + of_nat t) else mz (c + of_nat t))" if "t < 64" for t
    using store16_off [of 2 t m6 c 0] store16_off [of 2 t mz c "H2N_ushort (icmp_chksum c mz)"] that
    by (auto simp: mz_def M_def)
  have body: "M (c + of_nat t) = pmem s (r + of_nat t)" if "4 \<le> t" "t < 64" for t
    using that cz [of t] c6 [of t] c5 [of t] c4 [of t] c3 [of t] by (auto split: if_splits)
  have "M (c + of_nat 0) = 0" "M (c + of_nat 1) = 0"
    using cz [of 0] cz [of 1] c6 [of 0] c6 [of 1] c5 [of 0] c5 [of 1] c4 [of 0] c4 [of 1] c3 [of 0] c3 [of 1]
    by (simp_all add: m2_def)
  moreover have "icmp_chksum c M = 0"
    using chk_verifies [of 32 1 mz c] cz(1) [of 2] cz(1) [of 3] by (simp add: icmp_chksum_def M_def add.assoc)
  moreover have "bytes_at (c + 4) 60 M = bytes_at (r + 4) 60 (pmem s)"
    using body [of "4 + _"] by (auto simp: bytes_at_def add.assoc)
  ultimately show ?thesis using run h(1) oM by auto
qed

lemma ipv4_chksum_20: "m h = 0x45 \<Longrightarrow> ipv4_chksum h m = ucast (NOT (chk_loop 10 h m 0))"
  by (simp add: ipv4_chksum_def)

text \<open>
  Claim C31. The echo reply: for an echo request at \<open>recv\<close>, whatever its header length, \<^verbatim>\<open>icmp_reply_pkt_create\<close> builds a frame of 98
  bytes at \<open>send\<close> that goes back to the sender's hardware and internet address from ours (Ethernet type 0x0800, IPv4 header of
  20 bytes, total length 84, don't-fragment, time to live 255, protocol 1), is an echo reply with the identifier, sequence
  number, time stamp and data of the request, and whose two checksums a receiver accepts: the 16-bit words of the IPv4 header and
  of the ICMP message add up to all ones in one's complement arithmetic. No byte outside the frame changes.
\<close>

theorem icmp_echo_reply:
  fixes s :: "'a net_scheme"
  assumes "buffers_ok recv send" "addresses_ok s"
  shows "\<exists>M. icmp_reply_pkt_create recv send s = (98, s\<lparr>pmem := M, send_id := send_id s + 1\<rparr>)
    \<and> bytes_at send 6 M = bytes_at (recv + 6) 6 (pmem s) \<and> bytes_at (send + 6) 6 M = mac_addr s
    \<and> bytes_at (send + 12) 12 M = [0x08, 0x00, 0x45, 0, 0, 84] @ stored_bytes (send_id s) @ [0x40, 0x00, 255, 1]
    \<and> bytes_at (send + 26) 4 M = my_ip s \<and> bytes_at (send + 30) 4 M = bytes_at (recv + 26) 4 (pmem s)
    \<and> M (send + 34) = 0 \<and> M (send + 35) = 0
    \<and> bytes_at (send + 38) 60 M = bytes_at (ip_payload recv (pmem s) + 4) 60 (pmem s)
    \<and> inet_verifies 10 (send + 14) M \<and> inet_verifies 32 (send + 34) M
    \<and> same_outside (block_at send 98) (pmem s) M"
proof -
  obtain M M1 where i: "icmp_reply_pkt_create recv send s = (98, s\<lparr>pmem := M, send_id := send_id s + 1\<rparr>)"
      "ip_headers recv send 84 0x4000 1 s = s\<lparr>pmem := M1, send_id := send_id s + 1\<rparr>"
      "same_outside (block_at (send + 34) 64) M1 M" "M (send + 34) = 0" "M (send + 34 + 1) = 0" "icmp_chksum (send + 34) M = 0"
      "bytes_at (send + 34 + 4) 60 M = bytes_at (ip_payload recv (pmem s) + 4) 60 (pmem s)"
    using icmp_reply_mem [OF assms refl refl] by blast
  obtain M1' mz where h: "ip_headers recv send 84 0x4000 1 s = s\<lparr>pmem := M1', send_id := send_id s + 1\<rparr>"
      "M1' = store16 mz (send + 24) (H2N_ushort (ipv4_chksum (send + 14) mz))" "same_outside (block_at send 34) (pmem s) mz"
      "mz (send + 24) = 0" "mz (send + 25) = 0" "bytes_at send 6 mz = bytes_at (recv + 6) 6 (pmem s)" "bytes_at (send + 6) 6 mz = mac_addr s"
      "mz (send + 14) = 0x45" "bytes_at (send + 12) 12 mz = [8, 0, 0x45, 0] @ swapped_bytes 84 @ stored_bytes (send_id s) @ swapped_bytes 0x4000 @ [255, 1]"
      "bytes_at (send + 26) 4 mz = my_ip s" "bytes_at (send + 30) 4 mz = bytes_at (recv + 26) 4 (pmem s)"
    using ip_headers_mem [OF assms, of 84 "0x4000" 1] by blast
  have "M1' = M1" using arg_cong [OF trans [OF h(1) [symmetric] i(2)], of pmem] by simp
  note h2 = h(2) [unfolded this]
  have out: "send + of_nat k \<notin> block_at (send + 34) 64" if "k < 34" for k
  proof -
    have "send + of_nat k - (send + 34) = of_nat k - (34 :: u32)" by simp
    moreover have "\<not> of_nat k - (34 :: u32) < 64"
      using that unat_sub_if' [of "of_nat k :: u32" 34] by (simp add: word_less_nat_alt unat_of_nat take_bit_eq_mod word_le_nat_alt)
    ultimately show ?thesis using block_at_word_iff [of 64 "send + of_nat k" "send + 34"] by simp
  qed
  have rd: "M (send + of_nat k) = mz (send + of_nat k)" if "k < 34" "k \<noteq> 24" "k \<noteq> 25" for k
    using same_outside_D [OF i(3) out [OF that(1)]] store16_off [of 24 k mz send "H2N_ushort (ipv4_chksum (send + 14) mz)"] that h2 by simp
  have bs: "bytes_at (send + of_nat j) n M = bytes_at (send + of_nat j) n mz" if "j + n \<le> 24 \<or> 26 \<le> j \<and> j + n \<le> 34" for j n
    using rd [of "j + _"] that by (auto simp: bytes_at_def add.assoc)
  have "inet_verifies 10 (send + 14) M"
  proof -
    have "ipv4_chksum (send + 14) M1 = 0"
      using chk_verifies [of 10 5 mz "send + 14"] h(4,5,8) h2 by (simp add: ipv4_chksum_20 store16_def add.assoc)
    moreover have "M1 (send + 14) = 0x45" "M (send + 14) = 0x45"
      using h(8) h2 rd [of 14] by (simp_all add: store16_def)
    moreover have "chk_loop 10 (send + 14) M 0 = chk_loop 10 (send + 14) M1 0"
      using same_outside_D [OF i(3) out [of "14 + _"]] by (intro chk_loop_cong) (auto simp: add.assoc)
    ultimately show ?thesis by (intro inet_verifiesI) (simp add: ipv4_chksum_20)
  qed
  moreover have "same_outside (block_at send 98) (pmem s) M"
  proof -
    have sub: "block_at (send + 34) 64 \<subseteq> block_at send 98" "block_at send 34 \<subseteq> block_at send 98"
      using block_at_sub [of 34 64 98 send] block_at_sub [of 0 34 98 send] by simp_all
    have "same_outside (block_at send 34) (pmem s) M1" unfolding h2
      by (intro same_outside_store16 h(3) in_block) (simp_all add: add.assoc)
    from same_outside_trans [OF same_outside_mono [OF this sub(2)] same_outside_mono [OF i(3) sub(1)]] show ?thesis .
  qed
  moreover have "inet_verifies 32 (send + 34) M" using i(6) by (intro inet_verifiesI) (simp add: icmp_chksum_def)
  moreover have "bytes_at (send + 12) 12 M = [0x08, 0x00, 0x45, 0, 0, 84] @ stored_bytes (send_id s) @ [0x40, 0x00, 255, 1]"
  proof -
    have "swapped_bytes 84 = [0, 84]" "swapped_bytes 0x4000 = [0x40, 0]" by code_simp+
    then show ?thesis using bs [of 12 12] h(9) by simp
  qed
  moreover have "bytes_at send 6 M = bytes_at (recv + 6) 6 (pmem s)" using bs [of 0 6] h(6) by simp
  moreover have "bytes_at (send + 6) 6 M = mac_addr s" using bs [of 6 6] h(7) by simp
  moreover have "bytes_at (send + 26) 4 M = my_ip s" using bs [of 26 4] h(10) by simp
  moreover have "bytes_at (send + 30) 4 M = bytes_at (recv + 26) 4 (pmem s)" using bs [of 30 4] h(11) by simp
  moreover have "send + 34 + 1 = send + 35" "send + 34 + 4 = send + 38" by (simp_all add: add.assoc)
  ultimately show ?thesis using i(1,4,5,7) by (intro exI [of _ M] conjI) (simp_all only:)
qed

theorem icmp_echo_reply_witness:
  "\<exists>(s :: net) M. pmem s = (\<lambda>_. 7) \<and> mac_addr s = [1, 2, 3, 4, 5, 6] \<and> my_ip s = [10, 0, 1, 10]
    \<and> icmp_reply_pkt_create 0x80100000 0x80200000 s = (98, s\<lparr>pmem := M, send_id := send_id s + 1\<rparr>)
    \<and> M 0x80200000 = 7 \<and> inet_verifies 10 0x8020000E M"
proof -
  define s :: net where "s = undefined\<lparr>pmem := \<lambda>_. 7, mac_addr := [1, 2, 3, 4, 5, 6], my_ip := [10, 0, 1, 10]\<rparr>"
  have s: "pmem s = (\<lambda>_. 7)" "mac_addr s = [1, 2, 3, 4, 5, 6]" "my_ip s = [10, 0, 1, 10]" by (simp_all add: s_def)
  have "block_at (0x80100000 :: u32) 138 \<inter> block_at 0x80200000 2000 = {}"
    by (auto simp: block_at_word_iff [of 138] block_at_word_iff [of 2000] word_less_nat_alt unat_sub_if' split: if_splits)
  then have "buffers_ok 0x80100000 0x80200000" "addresses_ok s" by (simp_all add: buffers_ok_def addresses_ok_def s)
  then obtain M where "icmp_reply_pkt_create 0x80100000 0x80200000 s = (98, s\<lparr>pmem := M, send_id := send_id s + 1\<rparr>)"
      "bytes_at 0x80200000 6 M = bytes_at (0x80100000 + 6) 6 (\<lambda>_. 7)" "inet_verifies 10 (0x80200000 + 14) M"
    using icmp_echo_reply [of "0x80100000" "0x80200000" s] unfolding s(1) by blast
  then show ?thesis using s by (auto simp: bytes_at_6)
qed

section \<open>Byte order\<close>

text \<open>\<^verbatim>\<open>H2N_uint\<close> masks nibbles where it should mask bytes: it agrees with the byte reversal on 15, and not on 16.\<close>

lemma H2N_uint_wrong:
  "H2N_uint 15 = N2H_uint 15" "H2N_uint 16 = 0x1000" "N2H_uint 16 = 0x10000000"
  by code_simp+

section \<open>The transmit ring\<close>

text \<open>
  The check for a full transmit ring never fails: \<^verbatim>\<open>i8254_send\<close> accepts every frame, and with 255 frames queued the next
  one makes the tail of the ring equal its head, which the card reads as an empty ring, so that all of them are lost.
\<close>

theorem i8254_ring_overrun:
  assumes "tdh s < 256" "tdt s < 256" "(256 - tdh s + tdt s) mod 256 = 255"
  shows "fst (i8254_send a n s) = n \<and> tdt (snd (i8254_send a n s)) = tdh s"
proof -
  have f: "fst (i8254_send a n s) = n" by (rule i8254_send_accepts)
  have "tdt (snd (i8254_send a n s)) = (tdt s + 1) mod 256"
    by (simp add: i8254_send_def Let_def tx_available_pos) (simp add: SEND_DESC_NUM_def)
  moreover have "(tdt s + 1) mod 256 = tdh s"
  proof -
    let ?h = "unat (tdh s)" and ?t = "unat (tdt s)"
    have b: "?h < 256" "?t < 256" using assms(1,2) by (simp_all add: word_less_nat_alt)
    have "unat (256 - tdh s + tdt s) = 256 - ?h + ?t"
      using b by (simp add: unat_plus_if' unat_sub word_le_nat_alt)
    then have "(256 - ?h + ?t) mod 256 = 255" using arg_cong [OF assms(3), of unat] by (simp add: unat_mod_distrib)
    moreover have "(256 - ?h + ?t) mod 256 = ?t - ?h" if "?h \<le> ?t"
    proof -
      have "256 - ?h + ?t = (?t - ?h) + 256" using that b by simp
      then show ?thesis using b by (simp only: mod_add_self2) simp
    qed
    moreover have "(256 - ?h + ?t) mod 256 = 256 - ?h + ?t" if "\<not> ?h \<le> ?t" using that b by (intro mod_less) linarith
    ultimately have "(if ?h \<le> ?t then ?t - ?h else 256 - ?h + ?t) = 255" by (cases "?h \<le> ?t") simp_all
    then have "?t = 255 \<and> ?h = 0 \<or> ?t + 1 = ?h" using b by (auto split: if_splits)
    then have "(?t + 1) mod 256 = ?h" using b by auto
    then show ?thesis using b by (simp add: word_unat_eq_iff unat_mod_distrib unat_plus_if')
  qed
  ultimately show ?thesis using f by simp
qed

theorem i8254_ring_overrun_witness:
  "\<exists>s :: net. tdh s = 1 \<and> tdt s = 0 \<and> fst (i8254_send 0x80200000 98 s) = 98 \<and> tdt (snd (i8254_send 0x80200000 98 s)) = 1"
proof -
  define s :: net where "s = undefined\<lparr>tdh := 1, tdt := 0\<rparr>"
  have "tdh s = 1" "tdt s = 0" by (simp_all add: s_def)
  then show ?thesis using i8254_ring_overrun [of s "0x80200000" 98] by auto
qed

text \<open>The bytes of the descriptors that clearing them writes: all but the buffer addresses.\<close>

definition desc_rest :: "u32 \<Rightarrow> u32 set" where
  "desc_rest d = (\<lambda>t. d + of_nat t) ` {t. t < 4096 \<and> 4 \<le> t mod 16}"

lemma desc_restI: "k < 256 \<Longrightarrow> 4 \<le> j \<Longrightarrow> j < 16 \<Longrightarrow> d + of_nat (16 * k) + of_nat j \<in> desc_rest d"
  unfolding desc_rest_def by (rule image_eqI [of _ _ "16 * k + j"]) (auto simp: add.assoc)

lemma clear_descs_rest:
  "i + n \<le> 256 \<Longrightarrow> same_outside (desc_rest d) m m' \<Longrightarrow> same_outside (desc_rest d) m (clear_descs (d + of_nat (16 * i)) n m')"
proof (induction n arbitrary: i m')
  case (Suc n)
  let ?a = "d + of_nat (16 * i)"
  have i: "i < 256" using Suc.prems(1) by simp
  have mem: "?a + 4 \<in> desc_rest d" "?a + 5 \<in> desc_rest d" "?a + 6 \<in> desc_rest d" "?a + 7 \<in> desc_rest d" "?a + 8 \<in> desc_rest d"
      "?a + 9 \<in> desc_rest d" "?a + 10 \<in> desc_rest d" "?a + 11 \<in> desc_rest d" "?a + 12 \<in> desc_rest d" "?a + 13 \<in> desc_rest d"
      "?a + 14 \<in> desc_rest d" "?a + 15 \<in> desc_rest d"
    using desc_restI [OF i, of 4] desc_restI [OF i, of 5] desc_restI [OF i, of 6] desc_restI [OF i, of 7] desc_restI [OF i, of 8]
      desc_restI [OF i, of 9] desc_restI [OF i, of 10] desc_restI [OF i, of 11] desc_restI [OF i, of 12] desc_restI [OF i, of 13]
      desc_restI [OF i, of 14] desc_restI [OF i, of 15] by simp_all
  have "same_outside (desc_rest d) m (store16 ((store16 (store32 m' (?a + 4) 0) (?a + 8) 0)
      (?a + 10 := 0, ?a + 11 := 0, ?a + 12 := 0, ?a + 13 := 0)) (?a + 14) 0)"
    unfolding store32_def
    by (intro same_outside_store16 same_outside_upd Suc.prems(2)) (use mem in \<open>simp_all add: add.assoc\<close>)
  from Suc.IH [OF _ this, of "i + 1"] show ?case using Suc.prems(1) by (simp add: algebra_simps)
qed simp

lemma init_buffers_low:
  "i + n \<le> 128 \<Longrightarrow> same_outside (block_at d 2052) m (pmem s) \<Longrightarrow> same_outside (block_at d 2052) m (pmem (init_buffers d n i s))"
proof (induction n arbitrary: i s)
  case (Suc n)
  obtain b s1 where k: "kalloc s = (b, s1)" by (rule prod.exhaust)
  then have p: "pmem s1 = pmem s" by (auto simp: kalloc_def Let_def split: if_splits)
  have mem: "d + of_nat (16 * k) + of_nat j \<in> block_at d 2052" if "k \<le> 128" "j < 4" for k j
    using block_atI [of "16 * k + j" 2052 d] that by (simp add: add.assoc)
  have st: "same_outside (block_at d 2052) m (store32 m' (d + 16 * of_nat k) v)" if "same_outside (block_at d 2052) m m'" "k \<le> 128" for m' k v
    unfolding store32_def using mem [of k 0] mem [of k 1] mem [of k 2] mem [of k 3] that
    by (intro same_outside_upd) (simp_all add: add.assoc)
  show ?case
  proof (cases "b = 0")
    case True
    then show ?thesis using k p Suc.prems(2) by simp
  next
    case False
    have "same_outside (block_at d 2052) m (pmem (s1\<lparr>pmem := store32 (store32 (pmem s1) (d + 16 * of_nat i) (V2P b))
        (d + 16 * of_nat (i + 1)) (V2P (b + 0x800))\<rparr>))"
      using st [OF st [OF Suc.prems(2), of i], of "i + 1"] Suc.prems(1) p by simp
    from Suc.IH [OF _ this, of "i + 1"] show ?thesis using k False Suc.prems(1) by (simp add: Let_def)
  qed
qed simp

text \<open>
  Only half of the transmit ring gets buffers: the loop of \<^verbatim>\<open>i8254_init_send\<close> runs to half the number of descriptors but
  advances by one, so that the buffer addresses of the descriptors from 129 on are whatever the freshly allocated page held
  before. \<^verbatim>\<open>i8254_send\<close> copies every frame it puts there to such an address.
\<close>

theorem send_ring_half_initialised:
  assumes "i8254_init_send s = Inr s'" "129 \<le> k" "k < 256"
  shows "tdbal s' = V2P (freelist s)
    \<and> load32 (pmem s') (freelist s + of_nat (16 * k)) = load32 (pmem s) (freelist s + of_nat (16 * k))"
proof -
  let ?d = "freelist s"
  obtain s1 where k1: "kalloc s = (?d, s1)" "pmem s1 = pmem s" "?d \<noteq> 0"
    using assms(1) by (auto simp: i8254_init_send_def kalloc_def Let_def split: if_splits)
  define s2 where "s2 = s1\<lparr>tdbal := V2P ?d, tdh := 0, tdt := 0, pmem := clear_descs ?d 256 (pmem s)\<rparr>"
  have s': "s' = init_buffers ?d 128 0 s2" using assms(1) k1 by (simp add: i8254_init_send_def Let_def s2_def)
  have c: "same_outside (desc_rest ?d) (pmem s) (pmem s2)"
    using clear_descs_rest [of 0 256 ?d, OF _ same_outside_refl] by (simp add: s2_def)
  have b: "same_outside (block_at ?d 2052) (pmem s2) (pmem s')"
    unfolding s' by (rule init_buffers_low [OF _ same_outside_refl]) simp
  have same: "pmem s' (?d + of_nat (16 * k) + of_nat j) = pmem s (?d + of_nat (16 * k) + of_nat j)" if j: "j < 4" for j
  proof -
    have a: "?d + of_nat (16 * k) + of_nat j = ?d + of_nat (16 * k + j)" by (simp add: add.assoc)
    have inj: "?d + of_nat (16 * k + j) = ?d + of_nat t \<longleftrightarrow> 16 * k + j = t" if "t < 4096" for t
      using of_nat_u32_inj [of "16 * k + j" t] that assms(3) j by simp
    have "?d + of_nat (16 * k + j) \<notin> block_at ?d 2052" using inj assms(2) by (auto simp: block_at_def)
    moreover have "?d + of_nat (16 * k + j) \<notin> desc_rest ?d" using inj j by (auto simp: desc_rest_def)
    ultimately show ?thesis unfolding a using same_outside_D [OF b] same_outside_D [OF c] by simp
  qed
  have "tdbal (init_buffers d n i x) = tdbal x" for d n i and x :: "'a net_scheme"
    by (induction n arbitrary: i x) (auto simp: kalloc_def Let_def split: prod.splits)
  then have "tdbal s' = V2P ?d" by (simp add: s' s2_def)
  then show ?thesis using same [of 0] same [of 1] same [of 2] same [of 3] by (simp add: load32_def)
qed

theorem send_ring_half_initialised_witness:
  "\<exists>s :: net. freelist s = 0x80300000 \<and> pmem s = (\<lambda>_. 1)
    \<and> (\<exists>s'. i8254_init_send s = Inr s' \<and> load32 (pmem s') 0x80300FF0 = 0x01010101)"
proof -
  define s :: net where "s = undefined\<lparr>pmem := \<lambda>_. 1, freelist := 0x80300000\<rparr>"
  have s: "freelist s = 0x80300000" "pmem s = (\<lambda>_. 1)" by (simp_all add: s_def)
  obtain s' where s': "i8254_init_send s = Inr s'" using s by (simp add: i8254_init_send_def kalloc_def Let_def)
  from send_ring_half_initialised [OF s', of 255] s have "load32 (pmem s') 0x80300FF0 = load32 (\<lambda>_. 1) 0x80300FF0" by simp
  also have "\<dots> = 0x01010101" by code_simp
  finally show ?thesis using s s' by blast
qed

end
