(* ===== verification/Blocks.thy ===== *)
theory Blocks
  imports LogSpace Fs
begin

text \<open>
  What the file system relies on below it: inside a transaction, blocks can be read, changed and released through the buffer
  cache and the log as if they were an array. The locale states these laws; its interpretation discharges
  them for \<^verbatim>\<open>bio.c\<close> and \<^verbatim>\<open>log.c\<close>.
\<close>

unbundle bit_operations_syntax

section \<open>The interface\<close>

text \<open>
  \<open>inv H\<close>: inside a transaction with exactly the buffers \<open>H\<close> locked; \<open>cont\<close>: the contents of the blocks; \<open>hold s b m\<close>: buffer
  \<open>b\<close> is locked for block \<open>m\<close>; \<open>ents\<close> and \<open>cap\<close>: the entries of the log and how many it may have; \<open>frame\<close>: nothing
  but the cache and the log header differs.
\<close>

locale block_store =
  fixes inv :: "nat set \<Rightarrow> 's \<Rightarrow> bool"
    and cont :: "'s \<Rightarrow> u32 \<Rightarrow> block"
    and hold :: "'s \<Rightarrow> nat \<Rightarrow> u32 \<Rightarrow> bool"
    and ents :: "'s \<Rightarrow> int"
    and cap :: "'s \<Rightarrow> int"
    and blocks :: "'s \<Rightarrow> u32"
    and frame :: "'s \<Rightarrow> 's \<Rightarrow> bool"
    and rd :: "u32 \<Rightarrow> ('s, nat) op"
    and getd :: "nat \<Rightarrow> ('s, block) op"
    and putd :: "nat \<Rightarrow> (block \<Rightarrow> block) \<Rightarrow> ('s, unit) op"
    and logw :: "nat \<Rightarrow> ('s, unit) op"
    and rel :: "nat \<Rightarrow> ('s, unit) op"
  assumes frame_refl: "frame s s"
    and frame_trans: "frame s t \<Longrightarrow> frame t u \<Longrightarrow> frame s u"
    and frame_fields: "frame s t \<Longrightarrow> cap t = cap s \<and> blocks t = blocks s"
    and rd_law: "inv H s \<Longrightarrow> m < blocks s \<Longrightarrow> ents s + int (card H) < cap s \<Longrightarrow> (\<And>b. b \<in> H \<Longrightarrow> \<exists>n. n \<noteq> m \<and> hold s b n) \<Longrightarrow>
      \<exists>b t. rd m s = Inr (b, t) \<and> b \<notin> H \<and> inv (insert b H) t \<and> hold t b m \<and> (\<forall>c \<in> H. \<forall>n. hold s c n \<longrightarrow> hold t c n)
        \<and> cont t = cont s \<and> ents t = ents s \<and> frame s t"
    and getd_law: "inv H s \<Longrightarrow> hold s b m \<Longrightarrow> getd b s = Inr (cont s m, s)"
    and upd_law: "inv H s \<Longrightarrow> b \<in> H \<Longrightarrow> hold s b m \<Longrightarrow> ents s < cap s \<Longrightarrow>
      \<exists>t. bnd (putd b f) (\<lambda>_. logw b) s = Inr ((), t) \<and> inv H t \<and> hold t b m \<and> (\<forall>c \<in> H - {b}. \<forall>n. hold s c n \<longrightarrow> hold t c n)
        \<and> cont t = (cont s)(m := f (cont s m)) \<and> ents s \<le> ents t \<and> ents t \<le> ents s + 1 \<and> frame s t"
    and rel_law: "inv H s \<Longrightarrow> b \<in> H \<Longrightarrow> hold s b m \<Longrightarrow>
      \<exists>t. rel b s = Inr ((), t) \<and> inv (H - {b}) t \<and> (\<forall>c \<in> H - {b}. \<forall>n. hold s c n \<longrightarrow> hold t c n)
        \<and> cont t = cont s \<and> ents t = ents s \<and> frame s t"
begin

text \<open>What a client sees of a step with the buffers \<open>H\<close> buf_held before and after it: the new contents, and at most \<open>k\<close> new entries.\<close>

definition moved :: "nat set \<Rightarrow> 's \<Rightarrow> (u32 \<Rightarrow> block) \<Rightarrow> nat \<Rightarrow> 's \<Rightarrow> bool" where
  "moved H s c k t \<longleftrightarrow> inv H t \<and> cont t = c \<and> ents s \<le> ents t \<and> ents t \<le> ents s + int k \<and> frame s t
     \<and> (\<forall>b \<in> H. \<forall>n. hold s b n \<longrightarrow> hold t b n)"

lemma moved_refl: "inv H s \<Longrightarrow> moved H s (cont s) 0 s"
  by (simp add: moved_def frame_refl)

lemma moved_trans: "moved H s c k t \<Longrightarrow> moved H t d l u \<Longrightarrow> moved H s d (k + l) u"
  using frame_trans by (fastforce simp: moved_def)

lemma moved_more: "moved H s c k t \<Longrightarrow> k \<le> l \<Longrightarrow> moved H s c l t"
  by (simp add: moved_def)

lemma moved_fields: "moved H s c k t \<Longrightarrow> cap t = cap s \<and> blocks t = blocks s \<and> inv H t \<and> cont t = c \<and> frame s t \<and> ents t \<le> ents s + int k"
  using frame_fields by (simp add: moved_def)

lemma moved_hold: "moved H s c k t \<Longrightarrow> b \<in> H \<Longrightarrow> hold s b n \<Longrightarrow> hold t b n"
  by (simp add: moved_def)

text \<open>Reading a block into a buffer, with what may follow: releasing it, or changing it first.\<close>

lemma open_block:
  assumes "inv H s" "m < blocks s" "ents s + int (card H) < cap s" "\<And>b. b \<in> H \<Longrightarrow> \<exists>n. n \<noteq> m \<and> hold s b n"
  obtains b t where "rd m s = Inr (b, t)" "getd b t = Inr (cont s m, t)" "b \<notin> H" "inv (insert b H) t" "hold t b m" "frame s t"
    "cont t = cont s" "ents t = ents s" "cap t = cap s" "\<And>c n. c \<in> H \<Longrightarrow> hold s c n \<Longrightarrow> hold t c n"
proof -
  obtain b t where t: "rd m s = Inr (b, t)" "b \<notin> H" "inv (insert b H) t" "hold t b m"
      "\<forall>c \<in> H. \<forall>n. hold s c n \<longrightarrow> hold t c n" "cont t = cont s" "ents t = ents s" "frame s t"
    using rd_law [OF assms] by blast
  moreover have "getd b t = Inr (cont s m, t)" using getd_law [OF t(3,4)] t(6) by simp
  ultimately show thesis using that frame_fields [OF t(8)] by blast
qed

lemma close_block:
  assumes "inv (insert b H) t" "b \<notin> H" "hold t b m" "frame s t" "cont t = c" "ents s \<le> ents t" "ents t \<le> ents s + int k"
    "\<And>c n. c \<in> H \<Longrightarrow> hold s c n \<Longrightarrow> hold t c n"
  shows "\<exists>u. rel b t = Inr ((), u) \<and> moved H s c k u"
proof -
  have "insert b H - {b} = H" using assms(2) by auto
  then obtain u where "rel b t = Inr ((), u)" "inv H u" "\<forall>c \<in> H. \<forall>n. hold t c n \<longrightarrow> hold u c n"
      "cont u = cont t" "ents u = ents t" "frame t u"
    using rel_law [OF assms(1) _ assms(3)] by auto
  then show ?thesis using assms(4-8) frame_trans by (auto simp: moved_def)
qed

lemma read_block:
  assumes "inv H s" "m < blocks s" "ents s + int (card H) < cap s" "\<And>b. b \<in> H \<Longrightarrow> \<exists>n. n \<noteq> m \<and> hold s b n"
  shows "\<exists>t. moved H s (cont s) 0 t \<and> (\<exists>b u. rd m s = Inr (b, u) \<and> getd b u = Inr (cont s m, u) \<and> rel b u = Inr ((), t))"
proof -
  obtain b u where u: "rd m s = Inr (b, u)" "getd b u = Inr (cont s m, u)" "b \<notin> H" "inv (insert b H) u" "hold u b m"
      "frame s u" "cont u = cont s" "ents u = ents s" "\<And>c n. c \<in> H \<Longrightarrow> hold s c n \<Longrightarrow> hold u c n"
    using open_block [OF assms] by metis
  have "\<exists>t. rel b u = Inr ((), t) \<and> moved H s (cont s) 0 t"
    by (rule close_block [OF u(4,3,5,6,7)]) (use u(8,9) in simp_all)
  then show ?thesis using u(1,2) by blast
qed

lemma update_block:
  assumes "inv H s" "m < blocks s" "ents s + int (card H) < cap s" "\<And>b. b \<in> H \<Longrightarrow> \<exists>n. n \<noteq> m \<and> hold s b n"
  shows "\<exists>t b u v. moved H s ((cont s)(m := f (cont s m))) 1 t \<and> rd m s = Inr (b, u) \<and> getd b u = Inr (cont s m, u)
    \<and> bnd (putd b f) (\<lambda>_. logw b) u = Inr ((), v) \<and> rel b v = Inr ((), t)"
proof -
  obtain b u where u: "rd m s = Inr (b, u)" "getd b u = Inr (cont s m, u)" "b \<notin> H" "inv (insert b H) u" "hold u b m"
      "frame s u" "cont u = cont s" "ents u = ents s" "cap u = cap s" "\<And>c n. c \<in> H \<Longrightarrow> hold s c n \<Longrightarrow> hold u c n"
    using open_block [OF assms] by metis
  have "insert b H - {b} = H" using u(3) by auto
  then obtain v where v: "bnd (putd b f) (\<lambda>_. logw b) u = Inr ((), v)" "inv (insert b H) v" "hold v b m"
      "\<forall>c \<in> H. \<forall>n. hold u c n \<longrightarrow> hold v c n" "cont v = (cont u)(m := f (cont u m))" "ents u \<le> ents v" "ents v \<le> ents u + 1" "frame u v"
    using upd_law [OF u(4) _ u(5), of f] u(8,9) assms(3) by auto
  have "\<exists>t. rel b v = Inr ((), t) \<and> moved H s ((cont s)(m := f (cont s m))) 1 t"
    by (rule close_block [OF v(2) u(3) v(3) frame_trans [OF u(6) v(8)]]) (use u(7,8,10) v(4-7) in auto)
  then show ?thesis using u(1,2) v(1) by blast
qed

end

section \<open>The buffer cache and the log provide it\<close>

definition buf_held :: "'a log_scheme \<Rightarrow> nat \<Rightarrow> u32 \<Rightarrow> bool" where
  "buf_held s b m \<longleftrightarrow> cached s m b \<and> bflags (bufs s ! b) \<noteq> 0 \<and> (bflags (bufs s ! b) = B_VALID \<longrightarrow> bdata (bufs s ! b) = memdisk s m)"

definition in_op :: "nat set \<Rightarrow> 'a log_scheme \<Rightarrow> bool" where
  "in_op H s \<longleftrightarrow> log_inv H s \<and> finite H \<and> 1 \<le> outstanding s \<and> int (card (dirty_ix s)) \<le> lh_n s"

definition log_cap :: "'a log_scheme \<Rightarrow> int" where
  "log_cap s = min (int LOGSIZE) (lsize s - 1)"

definition cache_frame :: "'a log_scheme \<Rightarrow> 'a log_scheme \<Rightarrow> bool" where
  "cache_frame s t \<longleftrightarrow> (\<exists>bs n bl. t = s\<lparr>bufs := bs, lh_n := n, lh_block := bl\<rparr>)"

lemma cache_frameI: "t = s\<lparr>bufs := bs, lh_n := n, lh_block := bl\<rparr> \<Longrightarrow> cache_frame s t"
  by (auto simp: cache_frame_def)

lemma cache_frame_bufs: "cache_frame s (s\<lparr>bufs := bs\<rparr>)"
  by (rule cache_frameI [where n = "lh_n s" and bl = "lh_block s"]) simp

lemma cache_frame_refl: "cache_frame s s"
  by (rule cache_frameI [where bs = "bufs s" and n = "lh_n s" and bl = "lh_block s"]) simp

lemma cache_frame_trans: "cache_frame s t \<Longrightarrow> cache_frame t u \<Longrightarrow> cache_frame s u"
  unfolding cache_frame_def by (elim exE) (simp, blast)

lemma buf_held_view:
  assumes "buf_held s b m" "same_view (bufs t ! b) (bufs s ! b)" "memdisk t = memdisk s"
  shows "buf_held t b m"
  using assms by (auto simp: buf_held_def cached_def same_view_def)

lemma log_inv_bufs:
  assumes "log_inv H s" "cache_ok K (s\<lparr>bufs := bs\<rparr>)" "pinned (s\<lparr>bufs := bs\<rparr>) = pinned s"
  shows "log_inv K (s\<lparr>bufs := bs\<rparr>)"
  using assms by (auto simp: log_inv_def)

lemma log_read:
  fixes s :: "'a log_scheme"
  assumes i: "in_op H s" and lt: "m < disksize s" and room: "lh_n s + int (card H) < log_cap s"
    and other: "\<And>b. b \<in> H \<Longrightarrow> \<exists>n. n \<noteq> m \<and> buf_held s b n"
  shows "\<exists>b t. bread 1 m s = Inr (b, t) \<and> b \<notin> H \<and> in_op (insert b H) t \<and> buf_held t b m
    \<and> (\<forall>c \<in> H. \<forall>n. buf_held s c n \<longrightarrow> buf_held t c n) \<and> content t = content s \<and> lh_n t = lh_n s \<and> cache_frame s t"
proof -
  have I: "log_inv H s" "cache_ok H s" "finite H" "1 \<le> outstanding s" "int (card (dirty_ix s)) \<le> lh_n s"
    using i by (auto simp: in_op_def log_inv_def)
  have "card (dirty_ix s) + card H < NBUF" using I(5) room by (simp add: log_cap_def NBUF_def LOGSIZE_def)
  moreover have "j \<notin> H" if "cached s m j" for j using other that by (auto simp: buf_held_def cached_def)
  ultimately have "obtainable H s m" using obtainable_clean [OF I(2) _ I(3) lt] by blast
  then obtain b x where r: "bread 1 m s = Inr (b, s\<lparr>bufs := (bufs s)[b := x]\<rparr>)" "read_into H s m b x"
    using bread_returns [OF I(2)] by blast
  let ?t = "s\<lparr>bufs := (bufs s)[b := x]\<rparr>"
  note k = read_into_keeps [OF I(2) r(2)] and d = read_into_dirty [OF I(2) r(2)]
  have b: "b \<notin> H" "(bufs s)[b := x] ! b = x" using r(2) cache_okD(1) [OF I(2)] by (auto simp: read_into_def)
  have "in_op (insert b H) ?t" using log_inv_bufs [OF I(1) k(1,3)] I d by (simp add: in_op_def)
  moreover have "buf_held ?t b m" using k(4,5) read_into_clean [OF I(2) r(2)] b(2) by (simp add: buf_held_def)
  moreover have "buf_held ?t c n" if "c \<in> H" "buf_held s c n" for c n
  proof -
    have "b \<noteq> c" using that(1) b(1) by auto
    then show ?thesis by (intro buf_held_view [OF that(2)]) (simp_all add: same_view_def)
  qed
  ultimately show ?thesis using r(1) b(1) k(2) cache_frame_bufs by (intro exI [of _ b] exI [of _ ?t]) auto
qed

lemma log_release:
  fixes s :: "'a log_scheme"
  assumes i: "in_op H s" and b: "b \<in> H" "buf_held s b m"
  shows "\<exists>t. brelse b s = Inr ((), t) \<and> in_op (H - {b}) t \<and> (\<forall>c \<in> H - {b}. \<forall>n. buf_held s c n \<longrightarrow> buf_held t c n)
    \<and> content t = content s \<and> lh_n t = lh_n s \<and> cache_frame s t"
proof -
  have I: "log_inv H s" "cache_ok H s" "finite H" "1 \<le> outstanding s" "int (card (dirty_ix s)) \<le> lh_n s"
    using i by (auto simp: in_op_def log_inv_def)
  obtain bs where bs: "brelse b s = Inr ((), s\<lparr>bufs := bs\<rparr>)" "cache_ok (H - {b}) (s\<lparr>bufs := bs\<rparr>)"
      "content (s\<lparr>bufs := bs\<rparr>) = content s" "pinned (s\<lparr>bufs := bs\<rparr>) = pinned s"
      "dirty_ix (s\<lparr>bufs := bs\<rparr>) = dirty_ix s" "\<forall>i<NBUF. same_view (bs ! i) (bufs s ! i)"
    using release_held [OF I(2) _ b(1), of m] b(2) unfolding buf_held_def by blast
  have "in_op (H - {b}) (s\<lparr>bufs := bs\<rparr>)" using log_inv_bufs [OF I(1) bs(2,4)] I bs(5) by (simp add: in_op_def)
  moreover have "buf_held (s\<lparr>bufs := bs\<rparr>) c n" if "buf_held s c n" for c n
    using that bs(6) by (intro buf_held_view [OF that]) (auto simp: buf_held_def cached_def)
  ultimately show ?thesis using bs cache_frame_bufs by (intro exI [of _ "s\<lparr>bufs := bs\<rparr>"]) auto
qed

lemma log_update:
  fixes s :: "'a log_scheme"
  assumes i: "in_op H s" and b: "b \<in> H" "buf_held s b m" and room: "lh_n s < log_cap s"
  shows "\<exists>t. bnd (set_data b f) (\<lambda>_. log_write b) s = Inr ((), t) \<and> in_op H t \<and> buf_held t b m
    \<and> (\<forall>c \<in> H - {b}. \<forall>n. buf_held s c n \<longrightarrow> buf_held t c n) \<and> content t = (content s)(m := f (content s m))
    \<and> lh_n s \<le> lh_n t \<and> lh_n t \<le> lh_n s + 1 \<and> cache_frame s t"
proof -
  have I: "log_inv H s" "cache_ok H s" "finite H" "1 \<le> outstanding s" "int (card (dirty_ix s)) \<le> lh_n s"
    using i by (auto simp: in_op_def log_inv_def)
  have h: "cached s m b" "bflags (bufs s ! b) \<noteq> 0" using b(2) by (auto simp: buf_held_def)
  have bl: "b < NBUF" "b < length (bufs s)" using h(1) cache_okD(1) [OF I(2)] by (auto simp: cached_def)
  have d: "bdata (bufs s ! b) = content s m" using content_hit [OF I(2) h] by simp
  define s1 where "s1 = s\<lparr>bufs := (bufs s)[b := (bufs s ! b)\<lparr>bdata := f (content s m)\<rparr>]\<rparr>"
  note o = overwrite_keeps [OF I(2) h(1) b(1) h(2), of "f (content s m)", folded s1_def]
  have "set_data b f s = Inr ((), s1)" by (simp add: set_data_def upd_buf_def s1_def d)
  have nth1: "bufs s1 ! c = (if c = b then (bufs s ! b)\<lparr>bdata := f (content s m)\<rparr> else bufs s ! c)" for c
    using bl by (simp add: s1_def nth_list_update)
  have s1: "log_inv H s1" "cached s1 m b" "bflags (bufs s1 ! b) \<noteq> 0" "lh_n s1 < int LOGSIZE" "lh_n s1 < lsize s1 - 1" "1 \<le> outstanding s1"
    using log_inv_bufs [OF I(1), of H "bufs s1"] o h I(4) room by (simp_all add: s1_def log_cap_def)
  obtain t n bl' where t: "log_write b s1 = Inr ((), t)" "log_inv H t" "pinned t = insert m (pinned s1)"
      "lh_n t = lh_n s1 + (if m \<in> pinned s1 then 0 else 1)" "content t = content s1"
      "t = upd_buf b (\<lambda>x. x\<lparr>bflags := bflags x OR B_DIRTY\<rparr>) (s1\<lparr>lh_n := n, lh_block := bl'\<rparr>)"
    using log_write_keeps [OF s1] by blast
  have nt: "bufs t ! c = (if c = b then (bufs s1 ! b)\<lparr>bflags := B_BOTH\<rparr> else bufs s1 ! c)" for c
  proof -
    have "bflags (bufs s1 ! b) OR B_DIRTY = B_BOTH" using cache_okD(3) [OF o(1) bl(1)] s1(3) by auto
    then show ?thesis using bl by (simp add: t(6) nth_list_update) (simp add: s1_def)
  qed
  have dirty: "dirty_ix t = insert b (dirty_ix s)" using bl(1) by (auto simp: dirty_ix_def nt nth1 split: if_splits)
  have "int (card (dirty_ix t)) \<le> lh_n t"
  proof (cases "m \<in> pinned s1")
    case True
    then have "bflags (bufs s1 ! b) = B_BOTH" using cache_okD(2) [OF o(1) s1(2)] by (auto simp: pinned_def)
    then have "b \<in> dirty_ix s" using bl(1) o(5) by (simp add: dirty_ix_def)
    then show ?thesis using I(5) t(4) True by (simp add: dirty insert_absorb s1_def)
  next
    case False
    then show ?thesis using I(5) t(4) card_insert_le_m1 [of "Suc (card (dirty_ix s))" "dirty_ix s" b]
      by (simp add: dirty card_insert_if s1_def)
  qed
  moreover have fr: "cache_frame s t"
    by (rule cache_frameI [where bs = "bufs t" and n = n and bl = bl'], cases s) (simp add: t(6) upd_buf_def s1_def)
  moreover from fr have md: "memdisk t = memdisk s" "outstanding t = outstanding s" by (auto simp: cache_frame_def)
  moreover have "buf_held t b m" using s1(2) by (auto simp: buf_held_def cached_def nt)
  moreover have "buf_held t c k" if "c \<in> H - {b}" "buf_held s c k" for c k
    using that by (intro buf_held_view [OF that(2)]) (simp_all add: same_view_def nt nth1 md)
  ultimately show ?thesis using \<open>set_data b f s = Inr ((), s1)\<close> t(1,2,4,5) o(2) I(3,4)
    by (intro exI [of _ t]) (auto simp: in_op_def s1_def)
qed

interpretation blk: block_store in_op content buf_held lh_n log_cap disksize cache_frame "bread 1" data_of set_data log_write brelse
proof
  show "cache_frame s s" for s :: "'a log_scheme" by (rule cache_frame_refl)
  show "cache_frame s u" if "cache_frame s t" "cache_frame t u" for s t u :: "'a log_scheme" using that by (rule cache_frame_trans)
  show "log_cap t = log_cap s \<and> disksize t = disksize s" if "cache_frame s t" for s t :: "'a log_scheme"
    using that by (auto simp: cache_frame_def log_cap_def)
  show "data_of b s = Inr (content s m, s)" if "in_op H s" "buf_held s b m" for H b m and s :: "'a log_scheme"
    using that content_hit [of H s m b] by (simp add: data_of_def in_op_def log_inv_def buf_held_def buf_at_def)
qed (fact log_read log_update log_release)+

end
