(* ===== verification/BlockAlloc.thy ===== *)
theory BlockAlloc
  imports Blocks
begin

text \<open>
  Block allocation: \<^verbatim>\<open>balloc\<close> takes the first block whose bit in the bitmap is clear, sets the bit and clears the block;
  \<^verbatim>\<open>bfree\<close> clears the bit of a block in use.
\<close>

unbundle bit_operations_syntax

lemma bnd_seq: "bnd m (\<lambda>_. n) s = Inr (x, t) \<Longrightarrow> bnd m (\<lambda>_. bnd n g) s = g x t"
  using bnd_assoc [of m "\<lambda>_. n" g] by (metis bnd_Inr)

section \<open>The bitmap\<close>

lemma bit_used_bit: "bit_used d i \<longleftrightarrow> bit (d ! (i div 8)) (i mod 8)"
  by (simp add: bit_used_def bit_iff_and_push_bit_not_eq_0)

lemma same_bit: "i div 8 = j div 8 \<Longrightarrow> i mod 8 = j mod 8 \<longleftrightarrow> i = (j :: nat)"
  by (metis div_mult_mod_eq)

lemma bit_used_set:
  assumes "i div 8 < length d"
  shows "bit_used (set_bit_used i d) j \<longleftrightarrow> j = i \<or> bit_used d j"
  using assms same_bit [of i j]
  by (cases "i div 8 = j div 8") (auto simp: bit_used_bit set_bit_used_def bit_or_iff bit_exp_iff nth_list_update)

lemma bit_used_clear:
  assumes "i div 8 < length d"
  shows "bit_used (clear_bit_used i d) j \<longleftrightarrow> j \<noteq> i \<and> bit_used d j"
  using assms same_bit [of i j]
  by (cases "i div 8 = j div 8")
    (auto simp: bit_used_bit clear_bit_used_def bit_and_iff bit_not_iff bit_exp_iff nth_list_update)

lemma length_bits [simp]: "length (set_bit_used i d) = length d" "length (clear_bit_used i d) = length d"
  by (simp_all add: set_bit_used_def clear_bit_used_def)

text \<open>Block \<open>b\<close> has its bit in block \<open>BBLOCK b\<close>.\<close>

definition block_used :: "'a fs_scheme \<Rightarrow> u32 \<Rightarrow> bool" where
  "block_used s b \<longleftrightarrow> bit_used (content s (BBLOCK b (sb s))) (unat b mod BPB)"

definition bitmap_blocks :: "superblock \<Rightarrow> u32 set" where
  "bitmap_blocks sp = (\<lambda>b. BBLOCK b sp) ` {b. b < sb_size sp}"

text \<open>The file system lies on the disk, the bitmap in the file system, and the blocks it occupies are marked as used.\<close>

definition bitmap_ok :: "'a fs_scheme \<Rightarrow> bool" where
  "bitmap_ok s \<longleftrightarrow> sb_size (sb s) \<le> disksize s
     \<and> (\<forall>m \<in> bitmap_blocks (sb s). m < sb_size (sb s) \<and> length (content s m) = BSIZE \<and> block_used s m)"

lemma BBLOCK_eq_iff: "BBLOCK b sp = BBLOCK c sp \<longleftrightarrow> unat b div BPB = unat c div BPB"
proof -
  have "unat (x div of_nat BPB) = unat x div BPB" for x :: u32
    by (simp add: unat_div BPB_def BSIZE_def)
  then show ?thesis unfolding BBLOCK_def by (metis add_right_cancel word_unat_eq_iff)
qed

lemma frame_fs:
  fixes s :: "'a fs_scheme"
  shows "cache_frame s t \<Longrightarrow> sb t = sb s \<and> inodes t = inodes s \<and> devsw t = devsw s \<and> disksize t = disksize s \<and> outstanding t = outstanding s
    \<and> lsize t = lsize s \<and> curpid t = curpid s \<and> log_cap t = log_cap s \<and> memdisk t = memdisk s"
  by (auto simp: cache_frame_def log_cap_def)

lemma block_used_cong:
  "content t (BBLOCK b (sb s)) = content s (BBLOCK b (sb s)) \<Longrightarrow> sb t = sb s \<Longrightarrow> block_used t b \<longleftrightarrow> block_used s b"
  by (simp add: block_used_def)

lemma bitmap_ok_cong:
  assumes "content t = content s" "sb t = sb s" "disksize t = disksize s"
  shows "bitmap_ok t \<longleftrightarrow> bitmap_ok s" "block_used t = block_used s"
  using assms by (simp_all add: bitmap_ok_def block_used_def fun_eq_iff)

lemma unat_nat32: "n < 2 ^ 32 \<Longrightarrow> unat (of_nat n :: u32) = n"
  by (simp add: unat_of_nat take_bit_eq_mod)

lemma block_used_at:
  assumes "b mod BPB = 0" "j < BPB" "b + j < 2 ^ 32"
  shows "block_used s (of_nat (b + j)) \<longleftrightarrow> bit_used (content s (BBLOCK (of_nat b) (sb s))) j"
    "BBLOCK (of_nat (b + j)) sp = BBLOCK (of_nat b) sp"
proof -
  have u: "unat (of_nat (b + j) :: u32) = b + j" "unat (of_nat b :: u32) = b" using assms by (simp_all add: unat_nat32 del: of_nat_add)
  have d: "(b + j) div BPB = b div BPB" "(b + j) mod BPB = j" using assms(1,2) by (auto simp: div_add1_eq mod_add_eq [symmetric])
  show bb: "BBLOCK (of_nat (b + j)) sp = BBLOCK (of_nat b) sp" for sp using u d(1) by (simp add: BBLOCK_eq_iff del: of_nat_add)
  show "block_used s (of_nat (b + j)) \<longleftrightarrow> bit_used (content s (BBLOCK (of_nat b) (sb s))) j"
    unfolding block_used_def bb using u d(2) by (simp del: of_nat_add)
qed

text \<open>What holds before an allocation: the buffers in \<open>H\<close> stand for blocks in use outside the bitmap, and the log has room.\<close>

definition can_alloc :: "nat set \<Rightarrow> 'a fs_scheme \<Rightarrow> bool" where
  "can_alloc H s \<longleftrightarrow> in_op H s \<and> bitmap_ok s \<and> lh_n s + int (card H) + 1 < log_cap s
     \<and> (\<forall>x \<in> H. \<exists>n. buf_held s x n \<and> n \<notin> bitmap_blocks (sb s) \<and> block_used s n)"

definition alloc_content :: "'a fs_scheme \<Rightarrow> u32 \<Rightarrow> u32 \<Rightarrow> block" where
  "alloc_content s c =
     (content s)(BBLOCK c (sb s) := set_bit_used (unat c mod BPB) (content s (BBLOCK c (sb s))), c := replicate BSIZE 0)"

lemma can_allocD:
  assumes "can_alloc H s"
  shows "in_op H s" "bitmap_ok s" "lh_n s + int (card H) < log_cap s"
    "m \<in> bitmap_blocks (sb s) \<Longrightarrow> m < disksize s" "m \<in> bitmap_blocks (sb s) \<Longrightarrow> x \<in> H \<Longrightarrow> \<exists>n. n \<noteq> m \<and> buf_held s x n"
  using assms by (auto simp: can_alloc_def bitmap_ok_def)

lemma can_alloc_moved:
  fixes s :: "'a fs_scheme"
  assumes "can_alloc H s" "blk.moved H s (content s) 0 t"
  shows "can_alloc H t"
proof -
  note T = blk.moved_fields [OF assms(2)] frame_fs [of s t]
  have "block_used t = block_used s" "bitmap_ok t \<longleftrightarrow> bitmap_ok s" "sb t = sb s" using T bitmap_ok_cong [of t s] by auto
  moreover have "buf_held t x n" if "x \<in> H" "buf_held s x n" for x n using assms(2) that by (auto simp: blk.moved_def)
  ultimately show ?thesis using assms T unfolding can_alloc_def by (auto simp: blk.moved_def) metis
qed

lemma bzero_clears:
  fixes s :: "'a log_scheme"
  assumes "in_op H s" "m < disksize s" "lh_n s + int (card H) < log_cap s" "\<And>b. b \<in> H \<Longrightarrow> \<exists>n. n \<noteq> m \<and> buf_held s b n"
  shows "\<exists>t. bzero 1 m s = Inr ((), t) \<and> blk.moved H s ((content s)(m := replicate BSIZE 0)) 1 t"
proof -
  obtain t b u v where "blk.moved H s ((content s)(m := replicate BSIZE 0)) 1 t" "bread 1 m s = Inr (b, u)"
      "bnd (set_data b (\<lambda>_. replicate BSIZE 0)) (\<lambda>_. log_write b) u = Inr ((), v)" "brelse b v = Inr ((), t)"
    using blk.update_block [OF assms, of "\<lambda>_. replicate BSIZE 0"] by blast
  then show ?thesis by (intro exI [of _ t]) (simp add: bzero_def bnd_seq)
qed

lemma balloc_found:
  fixes s :: "'a fs_scheme"
  assumes ok: "can_alloc H s" and c: "c < sb_size (sb s)" "\<not> block_used s c"
  defines "m \<equiv> BBLOCK c (sb s)" and "bi \<equiv> unat c mod BPB"
  shows "\<exists>t b u v w. bread 1 m s = Inr (b, u) \<and> data_of b u = Inr (content s m, u)
    \<and> bnd (set_data b (set_bit_used bi)) (\<lambda>_. log_write b) u = Inr ((), v) \<and> brelse b v = Inr ((), w)
    \<and> bzero 1 c w = Inr ((), t) \<and> blk.moved H s (alloc_content s c) 2 t"
proof -
  have C: "in_op H s" "bitmap_ok s" "lh_n s + int (card H) + 1 < log_cap s" using ok by (auto simp: can_alloc_def)
  have m: "m \<in> bitmap_blocks (sb s)" "m < disksize s" "c < disksize s" "block_used s m"
    using C(2) c(1) by (auto simp: bitmap_ok_def bitmap_blocks_def m_def)
  have other: "\<exists>n. n \<noteq> m \<and> n \<noteq> c \<and> buf_held s x n" if "x \<in> H" for x
    using ok that m(1) c(2) by (auto simp: can_alloc_def)
  obtain w b u v where w: "blk.moved H s ((content s)(m := set_bit_used bi (content s m))) 1 w" "bread 1 m s = Inr (b, u)"
      "data_of b u = Inr (content s m, u)" "bnd (set_data b (set_bit_used bi)) (\<lambda>_. log_write b) u = Inr ((), v)" "brelse b v = Inr ((), w)"
    using blk.update_block [OF C(1) m(2), of "set_bit_used bi"] C(3) other by force
  note W = blk.moved_fields [OF w(1)]
  have "\<exists>n. n \<noteq> c \<and> buf_held w x n" if "x \<in> H" for x
    using other [OF that] w(1) that by (auto simp: blk.moved_def)
  then obtain t where t: "bzero 1 c w = Inr ((), t)" "blk.moved H w ((content w)(c := replicate BSIZE 0)) 1 t"
    using bzero_clears [of H w c] W m(3) C(3) by auto
  have "blk.moved H s ((content w)(c := replicate BSIZE 0)) (1 + 1) t" by (rule blk.moved_trans [OF w(1) t(2)])
  then show ?thesis using w(2-) t(1) W by (auto simp: alloc_content_def m_def bi_def numeral_2_eq_2)
qed

lemma balloc_loop_takes:
  fixes s :: "'a fs_scheme"
  assumes "can_alloc H s" "b mod BPB = 0" "b \<le> unat c" "c < sb_size (sb s)" "\<not> block_used s c"
    "\<And>c'. b \<le> unat c' \<Longrightarrow> c' < c \<Longrightarrow> block_used s c'" "sz = unat (sb_size (sb s))"
  shows "\<exists>t. balloc_loop 1 b sz s = Inr (c, t) \<and> blk.moved H s (alloc_content s c) 2 t"
  using assms
proof (induction "sz - b" arbitrary: b s rule: less_induct)
  case less
  let ?m = "BBLOCK (of_nat b) (sb s)" and ?d = "content s (BBLOCK (of_nat b) (sb s))"
  have c: "unat c < sz" "b < sz" "sz < 2 ^ 32" using less.prems(3,4,7) unsigned_less [of "sb_size (sb s)", where 'a = nat] by (simp_all add: word_less_nat_alt)
  have m: "?m \<in> bitmap_blocks (sb s)"
    using c(2,3) less.prems(7) by (auto simp: bitmap_blocks_def word_less_nat_alt unat_nat32 intro!: imageI)
  have used: "block_used s (of_nat (b + j)) \<longleftrightarrow> bit_used ?d j" if "j < min BPB (sz - b)" for j
    by (rule block_used_at(1) [OF less.prems(2)]) (use that c(3) in auto)
  show ?case
  proof (cases "unat c < b + BPB")
    case True
    define bi where "bi = unat c - b"
    have bi: "bi < min BPB (sz - b)" "of_nat (b + bi) = c" "b + bi < 2 ^ 32" using True less.prems(3) c by (auto simp: bi_def)
    have "bit_used ?d j" if "j < bi" for j
    proof -
      have "unat (of_nat (b + j) :: u32) = b + j" using that bi c(3) by (simp add: unat_nat32 del: of_nat_add)
      then have "block_used s (of_nat (b + j))" using that bi_def less.prems(3)
        by (intro less.prems(6)) (simp_all add: word_less_nat_alt del: of_nat_add)
      then show ?thesis using used [of j] that bi(1) by simp
    qed
    moreover have "\<not> bit_used ?d bi" using used [OF bi(1)] less.prems(5) bi(2) by simp
    ultimately have find: "List.find (\<lambda>bi. \<not> bit_used ?d bi) [0..<min BPB (sz - b)] = Some bi"
      using bi(1) by (simp add: find_index_Some)
    have "(b + bi) mod BPB = bi" using less.prems(2) bi(1) by (simp add: mod_add_eq [of b BPB bi, symmetric])
    then have e: "BBLOCK c (sb s) = ?m" "unat c mod BPB = bi"
      using block_used_at(2) [OF less.prems(2), of bi "sb s"] bi less.prems(3) by (simp_all add: bi_def)
    show ?thesis
      using balloc_found [OF less.prems(1,4,5)] unfolding e
      by (elim exE conjE, subst balloc_loop.simps) (use c(2) bi(2) find in \<open>auto simp: bnd_seq\<close>)
  next
    case False
    then have next_b: "b + BPB \<le> unat c" by simp
    have "bit_used ?d j" if "j < min BPB (sz - b)" for j
    proof -
      have "unat (of_nat (b + j) :: u32) = b + j" by (rule unat_nat32) (use that c(3) in auto)
      then have "block_used s (of_nat (b + j))" using that next_b
        by (intro less.prems(6)) (simp_all add: word_less_nat_alt del: of_nat_add)
      then show ?thesis using used [OF that] by simp
    qed
    then have find: "List.find (\<lambda>bi. \<not> bit_used ?d bi) [0..<min BPB (sz - b)] = None" by (simp add: find_index_None)
    obtain t bp u where t: "blk.moved H s (content s) 0 t" "bread 1 ?m s = Inr (bp, u)" "data_of bp u = Inr (?d, u)" "brelse bp u = Inr ((), t)"
      using blk.read_block [of H s ?m] can_allocD [OF less.prems(1)] m by metis
    note T = blk.moved_fields [OF t(1)] frame_fs [of s t]
    have same: "block_used t = block_used s" "sb t = sb s" using T bitmap_ok_cong(2) [of t s] by auto
    have "\<exists>v. balloc_loop 1 (b + BPB) sz t = Inr (c, v) \<and> blk.moved H t (alloc_content t c) 2 v"
      by (rule less.hyps [OF _ can_alloc_moved [OF less.prems(1) t(1)]])
        (use c(2) next_b less.prems(2,4-7) in \<open>auto simp: same BPB_def BSIZE_def\<close>)
    moreover have "alloc_content t c = alloc_content s c" using T by (simp add: alloc_content_def)
    ultimately obtain v where v: "balloc_loop 1 (b + BPB) sz t = Inr (c, v)" "blk.moved H t (alloc_content s c) 2 v" by auto
    have "balloc_loop 1 b sz s = Inr (c, v)"
      using t(2-4) find v(1) c(2) by (subst balloc_loop.simps) simp
    then show ?thesis using blk.moved_trans [OF t(1) v(2)] by (auto simp: numeral_2_eq_2)
  qed
qed

lemma balloc_takes:
  fixes s :: "'a fs_scheme"
  assumes "can_alloc H s" "c < sb_size (sb s)" "\<not> block_used s c" "\<And>x. x < c \<Longrightarrow> block_used s x"
  shows "\<exists>t. balloc 1 s = Inr (c, t) \<and> blk.moved H s (alloc_content s c) 2 t"
  using balloc_loop_takes [OF assms(1), of 0 c "unat (sb_size (sb s))"] assms(2-) by (simp add: balloc_def)

lemma bitmap_block: "x < sb_size (sb s) \<Longrightarrow> BBLOCK x (sb s) \<in> bitmap_blocks (sb s)"
  by (auto simp: bitmap_blocks_def)

lemma alloc_bitmap:
  fixes s t :: "'a fs_scheme"
  assumes ok: "bitmap_ok s" and c: "c < sb_size (sb s)" "\<not> block_used s c"
    and t: "content t = alloc_content s c" "sb t = sb s" "disksize t = disksize s"
  shows "x < sb_size (sb s) \<Longrightarrow> block_used t x \<longleftrightarrow> block_used s x \<or> x = c" "bitmap_ok t"
proof -
  let ?m = "BBLOCK c (sb s)"
  have ne: "m \<noteq> c" if "m \<in> bitmap_blocks (sb s)" for m using ok that c(2) by (auto simp: bitmap_ok_def)
  have len: "unat c mod BPB div 8 < length (content s ?m)"
    using ok bitmap_block [OF c(1)] by (simp add: bitmap_ok_def BPB_def BSIZE_def div_less_iff_less_mult)
  have used: "block_used t x \<longleftrightarrow> block_used s x \<or> x = c" if m: "BBLOCK x (sb s) \<in> bitmap_blocks (sb s)" for x
  proof (cases "BBLOCK x (sb s) = ?m")
    case True
    then have "unat x div BPB = unat c div BPB" by (simp add: BBLOCK_eq_iff)
    then have "unat x mod BPB = unat c mod BPB \<longleftrightarrow> x = c" by (metis div_mult_mod_eq word_unat_eq_iff)
    then show ?thesis using True ne [OF m] bit_used_set [OF len] by (auto simp: block_used_def t alloc_content_def)
  next
    case False
    then show ?thesis using ne [OF m] by (auto simp: block_used_def t alloc_content_def)
  qed
  then show all: "block_used t x \<longleftrightarrow> block_used s x \<or> x = c" if "x < sb_size (sb s)" for x using bitmap_block [OF that] by blast
  show "bitmap_ok t" using ok ne all by (auto simp: bitmap_ok_def t alloc_content_def BSIZE_def)
qed

section \<open>Running out of blocks\<close>

lemma balloc_loop_full:
  fixes s :: "'a fs_scheme"
  assumes "can_alloc H s" "b mod BPB = 0" "\<And>c. c < sb_size (sb s) \<Longrightarrow> block_used s c" "sz = unat (sb_size (sb s))"
  shows "balloc_loop 1 b sz s = Inl (Panic ''balloc: out of blocks'')"
  using assms
proof (induction "sz - b" arbitrary: b s rule: less_induct)
  case less
  let ?m = "BBLOCK (of_nat b) (sb s)" and ?d = "content s (BBLOCK (of_nat b) (sb s))"
  have sz: "sz < 2 ^ 32" using less.prems(4) unsigned_less [of "sb_size (sb s)", where 'a = nat] by simp
  show ?case
  proof (cases "b < sz")
    case True
    have m: "?m \<in> bitmap_blocks (sb s)"
      using True sz less.prems(4) by (intro bitmap_block) (simp add: word_less_nat_alt unat_nat32)
    have "bit_used ?d j" if "j < min BPB (sz - b)" for j
    proof -
      have "unat (of_nat (b + j) :: u32) = b + j" by (rule unat_nat32) (use that sz in auto)
      then have "block_used s (of_nat (b + j))" using that less.prems(4)
        by (intro less.prems(3)) (auto simp add: word_less_nat_alt simp del: of_nat_add)
      then show ?thesis using block_used_at(1) [OF less.prems(2), of j s] that sz by auto
    qed
    then have find: "List.find (\<lambda>bi. \<not> bit_used ?d bi) [0..<min BPB (sz - b)] = None" by (simp add: find_index_None)
    obtain t bp u where t: "blk.moved H s (content s) 0 t" "bread 1 ?m s = Inr (bp, u)" "data_of bp u = Inr (?d, u)" "brelse bp u = Inr ((), t)"
      using blk.read_block [of H s ?m] can_allocD [OF less.prems(1)] m by metis
    note T = blk.moved_fields [OF t(1)] frame_fs [of s t]
    have same: "block_used t = block_used s" "sb t = sb s" using T bitmap_ok_cong(2) [of t s] by auto
    have "balloc_loop 1 (b + BPB) sz t = Inl (Panic ''balloc: out of blocks'')"
      by (rule less.hyps [OF _ can_alloc_moved [OF less.prems(1) t(1)]])
        (use True less.prems(2-4) in \<open>auto simp: same BPB_def BSIZE_def\<close>)
    then show ?thesis using t(2-4) find True by (subst balloc_loop.simps) simp
  qed (subst balloc_loop.simps, simp)
qed

section \<open>Freeing\<close>

definition sb_of :: "block \<Rightarrow> superblock" where
  "sb_of d = \<lparr>sb_size = get32 d 0, sb_nblocks = get32 d 4, sb_ninodes = get32 d 8, sb_nlog = get32 d 12,
     sb_logstart = get32 d 16, sb_inodestart = get32 d 20, sb_bmapstart = get32 d 24\<rparr>"

text \<open>Block 1 holds the superblock that is in memory, and is marked as used.\<close>

definition sb_ok :: "'a fs_scheme \<Rightarrow> bool" where
  "sb_ok s \<longleftrightarrow> sb_of (content s 1) = sb s \<and> 1 < sb_size (sb s) \<and> 1 \<notin> bitmap_blocks (sb s) \<and> block_used s 1"

lemma readsb_reads:
  fixes s :: "'a log_scheme"
  assumes "in_op H s" "1 < disksize s" "lh_n s + int (card H) < log_cap s" "\<And>b. b \<in> H \<Longrightarrow> \<exists>n. n \<noteq> 1 \<and> buf_held s b n"
  shows "\<exists>t. readsb 1 s = Inr (sb_of (content s 1), t) \<and> blk.moved H s (content s) 0 t"
  using blk.read_block [OF assms] by (auto simp: readsb_def sb_of_def)

definition free_content :: "'a fs_scheme \<Rightarrow> u32 \<Rightarrow> u32 \<Rightarrow> block" where
  "free_content s b =
     (content s)(BBLOCK b (sb s) := clear_bit_used (unat b mod BPB) (content s (BBLOCK b (sb s))))"

lemma bfree_clears:
  fixes s :: "'a fs_scheme"
  assumes op: "in_op H s" "bitmap_ok s" "sb_ok s" "lh_n s + int (card H) < log_cap s" and b: "b < sb_size (sb s)"
    and other: "\<And>x. x \<in> H \<Longrightarrow> \<exists>n. n \<notin> insert 1 (bitmap_blocks (sb s)) \<and> buf_held s x n"
  shows "if block_used s b then \<exists>t. bfree 1 b s = Inr ((), t) \<and> blk.moved H s (free_content s b) 1 t
    else bfree 1 b s = Inl (Panic ''freeing free block'')"
proof -
  let ?m = "BBLOCK b (sb s)"
  have m: "?m \<in> bitmap_blocks (sb s)" "?m < disksize s" "1 < disksize s"
    using bitmap_block [OF b] op(2,3) by (auto simp: bitmap_ok_def sb_ok_def)
  obtain s1 where s1: "readsb 1 s = Inr (sb s, s1)" "blk.moved H s (content s) 0 s1"
    using readsb_reads [OF op(1) m(3) op(4)] other op(3) by (force simp: sb_ok_def)
  note S = blk.moved_fields [OF s1(2)] frame_fs [of s s1]
  have sb: "s1\<lparr>sb := sb s\<rparr> = s1" using S by simp
  have other1: "\<exists>n. n \<noteq> ?m \<and> buf_held s1 x n" if "x \<in> H" for x
    using other [OF that] blk.moved_hold [OF s1(2) that] m(1) by (metis insertI2)
  obtain t bp u v where t: "blk.moved H s1 ((content s1)(?m := clear_bit_used (unat b mod BPB) (content s1 ?m))) 1 t" "bread 1 ?m s1 = Inr (bp, u)"
      "data_of bp u = Inr (content s1 ?m, u)" "bnd (set_data bp (clear_bit_used (unat b mod BPB))) (\<lambda>_. log_write bp) u = Inr ((), v)" "brelse bp v = Inr ((), t)"
    using blk.update_block [of H s1 ?m "clear_bit_used (unat b mod BPB)"] S m(2) op(4) other1 by auto
  have "blk.moved H s (free_content s b) 1 t" using blk.moved_trans [OF s1(2) t(1)] S by (simp add: free_content_def)
  then show ?thesis using s1(1) t(2-5) S by (auto simp: bfree_def block_used_def bnd_seq sb Let_def)
qed

lemma free_bitmap:
  fixes s t :: "'a fs_scheme"
  assumes ok: "bitmap_ok s" and b: "b < sb_size (sb s)" "b \<notin> bitmap_blocks (sb s)"
    and t: "content t = free_content s b" "sb t = sb s" "disksize t = disksize s"
  shows "x < sb_size (sb s) \<Longrightarrow> block_used t x \<longleftrightarrow> block_used s x \<and> x \<noteq> b" "bitmap_ok t"
proof -
  let ?m = "BBLOCK b (sb s)"
  have len: "unat b mod BPB div 8 < length (content s ?m)"
    using ok bitmap_block [OF b(1)] by (simp add: bitmap_ok_def BPB_def BSIZE_def div_less_iff_less_mult)
  show all: "block_used t x \<longleftrightarrow> block_used s x \<and> x \<noteq> b" if "x < sb_size (sb s)" for x
  proof (cases "BBLOCK x (sb s) = ?m")
    case True
    then have "unat x div BPB = unat b div BPB" by (simp add: BBLOCK_eq_iff)
    then have "unat x mod BPB = unat b mod BPB \<longleftrightarrow> x = b" by (metis div_mult_mod_eq word_unat_eq_iff)
    then show ?thesis using True bit_used_clear [OF len] by (auto simp: block_used_def t free_content_def)
  qed (auto simp: block_used_def t free_content_def)
  show "bitmap_ok t" using ok b(2) all by (auto simp: bitmap_ok_def t free_content_def)
qed

lemma alloc_sb_ok:
  fixes s t :: "'a fs_scheme"
  assumes "sb_ok s" "bitmap_ok s" "c < sb_size (sb s)" "\<not> block_used s c"
    "content t = alloc_content s c" "sb t = sb s" "disksize t = disksize s"
  shows "sb_ok t"
proof -
  have "1 \<noteq> BBLOCK c (sb s)" "1 \<noteq> c" using assms(1,3,4) bitmap_block [of c s] by (auto simp: sb_ok_def)
  then have "content t 1 = content s 1" by (simp add: assms(5) alloc_content_def)
  then show ?thesis using assms(1,6) alloc_bitmap(1) [OF assms(2-7), of 1] by (simp add: sb_ok_def)
qed

lemma first_free:
  assumes "\<not> (\<forall>x < n. P x)"
  obtains c :: u32 where "c < n" "\<not> P c" "\<And>x. x < c \<Longrightarrow> P x"
proof -
  define c where "c = (LEAST x. x < n \<and> \<not> P x)"
  obtain x where "x < n \<and> \<not> P x" using assms by auto
  then have c: "c < n \<and> \<not> P c" unfolding c_def by (rule LeastI)
  moreover have "P x" if "x < c" for x using not_less_Least [of x "\<lambda>x. x < n \<and> \<not> P x"] that c unfolding c_def by fastforce
  ultimately show thesis using that by blast
qed

text \<open>
  Claim C24. Allocating and freeing blocks: inside a transaction with room for three more log entries, \<^verbatim>\<open>balloc\<close> returns the first
  block that the bitmap has free, marks it and nothing else as used, clears it, and changes no block but it and
  its bitmap block; \<^verbatim>\<open>bfree\<close> of that block restores the bitmap, and freeing it again panics. With no free block
  \<^verbatim>\<open>balloc\<close> panics.
\<close>

theorem balloc_bfree_roundtrip:
  fixes s :: "'a fs_scheme"
  assumes ok: "in_op {} s" "bitmap_ok s" "sb_ok s" and room: "lh_n s + 3 < log_cap s"
  shows "if \<forall>x < sb_size (sb s). block_used s x then balloc 1 s = Inl (Panic ''balloc: out of blocks'')
    else \<exists>c t u. c < sb_size (sb s) \<and> \<not> block_used s c \<and> (\<forall>x < c. block_used s x)
      \<and> balloc 1 s = Inr (c, t) \<and> content t c = replicate BSIZE 0 \<and> (\<forall>m. m \<notin> {c, BBLOCK c (sb s)} \<longrightarrow> content t m = content s m)
      \<and> (\<forall>x < sb_size (sb s). block_used t x \<longleftrightarrow> block_used s x \<or> x = c) \<and> bitmap_ok t \<and> inodes t = inodes s
      \<and> bfree 1 c t = Inr ((), u) \<and> (\<forall>x < sb_size (sb s). block_used u x \<longleftrightarrow> block_used s x)
      \<and> bfree 1 c u = Inl (Panic ''freeing free block'')"
proof -
  have can: "can_alloc {} s" using ok room by (simp add: can_alloc_def)
  show ?thesis
  proof (cases "\<forall>x < sb_size (sb s). block_used s x")
    case True
    then show ?thesis using balloc_loop_full [OF can, of 0] by (simp add: balloc_def)
  next
    case False
    obtain c where c: "c < sb_size (sb s)" "\<not> block_used s c" "\<And>x. x < c \<Longrightarrow> block_used s x"
      using first_free [OF False] by blast
    obtain t where t: "balloc 1 s = Inr (c, t)" "blk.moved {} s (alloc_content s c) 2 t" using balloc_takes [OF can c] by blast
    note T = blk.moved_fields [OF t(2)] frame_fs [of s t]
    have tf: "content t = alloc_content s c" "sb t = sb s" "disksize t = disksize s" "in_op {} t" "lh_n t \<le> lh_n s + 2" "log_cap t = log_cap s"
      "inodes t = inodes s" using T by simp_all
    note tb = alloc_bitmap [OF ok(2) c(1,2) tf(1-3)] alloc_sb_ok [OF ok(3,2) c(1,2) tf(1-3)]
    have nb: "c \<notin> bitmap_blocks (sb s)" using ok(2) c(2) by (auto simp: bitmap_ok_def)
    have cu: "block_used t c" "c < sb_size (sb t)" "c \<notin> bitmap_blocks (sb t)" using tb(1) [OF c(1)] c(1) nb by (simp_all add: tf(2))
    obtain u where u: "bfree 1 c t = Inr ((), u)" "blk.moved {} t (free_content t c) 1 u"
      using bfree_clears [OF tf(4) tb(2,3) _ cu(2)] cu(1) tf(5,6) room by auto
    note U = blk.moved_fields [OF u(2)] frame_fs [of t u]
    have uf: "content u = free_content t c" "sb u = sb t" "disksize u = disksize t" "in_op {} u" "lh_n u \<le> lh_n t + 1" "log_cap u = log_cap t"
      using U by simp_all
    note ub = free_bitmap [OF tb(2) cu(2,3) uf(1-3)]
    have "sb_ok u"
    proof -
      have "1 \<noteq> c" "1 < sb_size (sb t)" "1 \<noteq> BBLOCK c (sb t)" using ok(3) c(1,2) bitmap_block [of c s] by (auto simp: sb_ok_def tf(2))
      then show ?thesis using tb(3) ub(1) [of 1] by (simp add: sb_ok_def uf(1,2) free_content_def)
    qed
    moreover have "\<not> block_used u c" "c < sb_size (sb u)" using ub(1) [OF cu(2)] cu(2) by (simp_all add: uf(2))
    ultimately have "bfree 1 c u = Inl (Panic ''freeing free block'')"
      using bfree_clears [OF uf(4) ub(2)] uf(5,6) tf(5,6) room by auto
    moreover have "content t c = replicate BSIZE 0" "\<forall>m. m \<notin> {c, BBLOCK c (sb s)} \<longrightarrow> content t m = content s m"
      by (auto simp: tf(1) alloc_content_def)
    moreover have "block_used u x \<longleftrightarrow> block_used s x" if "x < sb_size (sb s)" for x
      using ub(1) [of x] tb(1) [OF that] that c(2) by (auto simp: tf(2))
    ultimately have "\<exists>u. balloc 1 s = Inr (c, t) \<and> content t c = replicate BSIZE 0 \<and> (\<forall>m. m \<notin> {c, BBLOCK c (sb s)} \<longrightarrow> content t m = content s m)
      \<and> (\<forall>x < sb_size (sb s). block_used t x \<longleftrightarrow> block_used s x \<or> x = c) \<and> bitmap_ok t \<and> inodes t = inodes s
      \<and> bfree 1 c t = Inr ((), u) \<and> (\<forall>x < sb_size (sb s). block_used u x \<longleftrightarrow> block_used s x)
      \<and> bfree 1 c u = Inl (Panic ''freeing free block'')"
      using t(1) u(1) tb(1,2) tf(7) by blast
    with c have "\<exists>c t u. c < sb_size (sb s) \<and> \<not> block_used s c \<and> (\<forall>x < c. block_used s x)
      \<and> balloc 1 s = Inr (c, t) \<and> content t c = replicate BSIZE 0 \<and> (\<forall>m. m \<notin> {c, BBLOCK c (sb s)} \<longrightarrow> content t m = content s m)
      \<and> (\<forall>x < sb_size (sb s). block_used t x \<longleftrightarrow> block_used s x \<or> x = c) \<and> bitmap_ok t \<and> inodes t = inodes s
      \<and> bfree 1 c t = Inr ((), u) \<and> (\<forall>x < sb_size (sb s). block_used u x \<longleftrightarrow> block_used s x)
      \<and> bfree 1 c u = Inl (Panic ''freeing free block'')" by blast
    then show ?thesis unfolding if_not_P [OF False] .
  qed
qed

section \<open>A small file system\<close>

text \<open>
  The cache after \<^verbatim>\<open>binit\<close> on zeroed buffers, inside a transaction with an empty log. The image has 64 blocks: the superblock in
  block 1, the bitmap in block 2, inodes in block 3, one block of a file in block 4, and the log from block 34 on.
\<close>

lemma fresh_in_op:
  fixes s :: "'a log_scheme"
  assumes "bufs s = zero_bufs" "lh_n s = 0" "1 \<le> outstanding s" "length (lh_block s) = LOGSIZE"
  shows "in_op {} (binit s)" "content (binit s) = memdisk s" "\<exists>bs. binit s = s\<lparr>bufs := bs\<rparr>"
proof -
  note i = binit_cache_ok [of s, unfolded assms(1), OF zero_bufs_ok]
  show "content (binit s) = memdisk s" "\<exists>bs. binit s = s\<lparr>bufs := bs\<rparr>" using i(3,4) by simp_all
  then have f: "lh_n (binit s) = 0" "outstanding (binit s) = outstanding s" "lh_block (binit s) = lh_block s" using assms(2) by auto
  have "pinned (binit s) = {}" by (rule dirty_none(1) [OF i(1,2)])
  then show "in_op {} (binit s)" using i(1,2) assms f by (simp add: in_op_def log_inv_def)
qed

definition pad_block :: "u8 list \<Rightarrow> block" where
  "pad_block bs = bs @ replicate (BSIZE - length bs) 0"

definition small_sb :: superblock where
  "small_sb = \<lparr>sb_size = 64, sb_nblocks = 29, sb_ninodes = 8, sb_nlog = 30, sb_logstart = 34, sb_inodestart = 3, sb_bmapstart = 2\<rparr>"

definition small_image :: "u32 \<Rightarrow> block" where
  "small_image bn =
     (if bn = 1 then pad_block [64,0,0,0, 29,0,0,0, 8,0,0,0, 30,0,0,0, 34,0,0,0, 3,0,0,0, 2,0,0,0]
      else if bn = 2 then pad_block [0x1F, 0, 0, 0, 0xFC, 0xFF, 0xFF, 0xFF]
      else pad_block [])"

definition small_inode :: inode where
  "small_inode = \<lparr>idev = 1, inum = 1, iref = 1, ilk = \<lparr>slocked = 1, sname = [], spid = 1\<rparr>, valid = True, itype = T_FILE, major = 0, minor = 0,
     nlink = 1, isize = 3, addrs = 4 # replicate 12 0\<rparr>"

definition small_fs :: fs where
  "small_fs = \<lparr>bufs = zero_bufs, memdisk = small_image, disksize = 64, writes = [], curpid = 1, lstart = 34, lsize = 30, outstanding = 1,
     committing = False, ldev = 1, lh_n = 0, lh_block = replicate LOGSIZE 0, sb = small_sb, inodes = replicate NINODE small_inode,
     devsw = (\<lambda>_. \<lparr>dread = None, dwrite = None\<rparr>)\<rparr>"

lemma small_fs_cache:
  "in_op {} (binit small_fs)" "content (binit small_fs) = small_image" "\<exists>bs. binit small_fs = small_fs\<lparr>bufs := bs\<rparr>"
  using fresh_in_op [of small_fs] by (simp_all add: small_fs_def)

lemma small_fs_fields:
  "sb (binit small_fs) = small_sb" "disksize (binit small_fs) = 64" "lh_n (binit small_fs) = 0" "log_cap (binit small_fs) = 29"
  "inodes (binit small_fs) = replicate NINODE small_inode"
  using small_fs_cache(3) by (auto simp: small_fs_def log_cap_def LOGSIZE_def)

lemma small_bitmap: "bitmap_blocks small_sb = {2}"
proof -
  have "BBLOCK b small_sb = 2" if "b < 64" for b
  proof -
    have "unat (b div 4096) = 0" using that by (simp add: word_less_nat_alt unat_div)
    then have "b div 4096 = 0" by (simp only: unat_eq_zero)
    then show ?thesis by (simp add: BBLOCK_def small_sb_def BPB_def BSIZE_def)
  qed
  then have "(\<lambda>b. BBLOCK b small_sb) ` {b. b < 64} = (\<lambda>_. 2) ` {b :: u32. b < 64}" by (intro image_cong) auto
  moreover have "{b :: u32. b < 64} \<noteq> {}" by (auto intro: exI [of _ 0])
  ultimately show ?thesis by (simp add: bitmap_blocks_def small_sb_def image_constant_conv)
qed

lemma small_used:
  assumes "b < 64"
  shows "block_used (binit small_fs) b \<longleftrightarrow> bit_used (small_image 2) (unat b)"
proof -
  have "BBLOCK b small_sb \<in> bitmap_blocks small_sb" using assms by (auto simp: bitmap_blocks_def small_sb_def)
  then have "BBLOCK b small_sb = 2" by (simp add: small_bitmap)
  moreover have "unat b mod BPB = unat b" using assms by (simp add: word_less_nat_alt BPB_def BSIZE_def)
  ultimately show ?thesis by (simp add: block_used_def small_fs_fields small_fs_cache)
qed

lemma small_bits: "bit_used (small_image 2) i = (i < 5)" if "i < 32"
proof -
  have "\<forall>i \<in> set [0..<32]. bit_used (small_image 2) i = (i < 5)" by code_simp
  then show ?thesis using that by auto
qed

lemma small_fs_ok: "bitmap_ok (binit small_fs)" "sb_ok (binit small_fs)"
proof -
  have u: "block_used (binit small_fs) 1" "block_used (binit small_fs) 2" by (simp_all add: small_used small_bits)
  have "length (small_image 2) = BSIZE" by (simp add: small_image_def pad_block_def BSIZE_def)
  then show "bitmap_ok (binit small_fs)"
    using u(2) by (simp add: bitmap_ok_def small_fs_fields small_fs_cache small_bitmap) (simp add: small_sb_def)
  have "sb_of (small_image 1) = small_sb" by code_simp
  then show "sb_ok (binit small_fs)"
    using u(1) by (simp add: sb_ok_def small_fs_fields small_fs_cache small_bitmap) (simp add: small_sb_def)
qed

theorem balloc_bfree_roundtrip_witness:
  "\<exists>t u. balloc 1 (binit small_fs) = Inr (5, t) \<and> bfree 1 5 t = Inr ((), u) \<and> bfree 1 5 u = Inl (Panic ''freeing free block'')"
proof -
  let ?s = "binit small_fs"
  have free: "\<not> block_used ?s 5" by (simp add: small_used small_bits)
  have sz: "sb_size (sb ?s) = 64" by (simp add: small_fs_fields small_sb_def)
  have "\<not> (\<forall>x < sb_size (sb ?s). block_used ?s x)" using free by (auto simp: sz intro!: exI [of _ 5])
  with balloc_bfree_roundtrip [OF small_fs_cache(1) small_fs_ok] obtain c t u where c: "c < 64" "\<not> block_used ?s c" "\<forall>x < c. block_used ?s x"
      "balloc 1 ?s = Inr (c, t)" "bfree 1 c t = Inr ((), u)" "bfree 1 c u = Inl (Panic ''freeing free block'')"
    unfolding small_fs_fields sz [unfolded small_fs_fields] by auto
  have "c = 5"
  proof (rule antisym)
    show "c \<le> 5" using c(3) free by (meson not_le)
    show "5 \<le> c"
    proof (rule ccontr)
      assume "\<not> 5 \<le> c"
      then have "unat c < 5" by (simp add: word_le_nat_alt)
      then show False using c(1,2) by (simp add: small_used small_bits)
    qed
  qed
  then show ?thesis using c(4-) by blast
qed

end
