(* ===== verification/FileData.thy ===== *)
theory FileData
  imports BlockAlloc
begin

text \<open>
  Files are byte strings. An inode is well formed when its blocks are in use, apart from each other and from the block of its disk
  inode; \<^verbatim>\<open>bmap\<close> finds or allocates the block of an offset and keeps this; \<^verbatim>\<open>iupdate\<close> stores what \<^verbatim>\<open>ilock\<close> loads; \<^verbatim>\<open>readi\<close> and
  \<^verbatim>\<open>writei\<close> read and overwrite the bytes of the file.
\<close>

unbundle bit_operations_syntax

section \<open>Blocks in use\<close>

definition data_ok :: "'a fs_scheme \<Rightarrow> u32 \<Rightarrow> bool" where
  "data_ok s m \<longleftrightarrow> m < sb_size (sb s) \<and> m \<notin> bitmap_blocks (sb s) \<and> block_used s m \<and> length (content s m) = BSIZE"

text \<open>\<open>t\<close> comes after \<open>s\<close>: blocks in use stay in use, and those outside \<open>W\<close> keep their contents.\<close>

definition extends :: "u32 set \<Rightarrow> 'a fs_scheme \<Rightarrow> 'a fs_scheme \<Rightarrow> bool" where
  "extends W s t \<longleftrightarrow> bitmap_ok t \<and> sb t = sb s \<and> devsw t = devsw s \<and> disksize t = disksize s \<and> log_cap t = log_cap s
     \<and> (\<forall>m. data_ok s m \<longrightarrow> data_ok t m \<and> (m \<notin> W \<longrightarrow> content t m = content s m))"

lemma extendsD:
  assumes "extends W s t"
  shows "bitmap_ok t" "sb t = sb s" "devsw t = devsw s" "disksize t = disksize s" "log_cap t = log_cap s"
    "data_ok s m \<Longrightarrow> data_ok t m" "data_ok s m \<Longrightarrow> m \<notin> W \<Longrightarrow> content t m = content s m"
  using assms by (auto simp: extends_def)

lemma extends_trans: "extends V s t \<Longrightarrow> extends W t u \<Longrightarrow> extends (V \<union> W) s u"
  unfolding extends_def by auto

lemma extends_mono: "extends V s t \<Longrightarrow> V \<subseteq> W \<Longrightarrow> extends W s t"
  unfolding extends_def by blast

lemma extends_files: "extends V s t \<Longrightarrow> extends W t u \<Longrightarrow> W \<subseteq> V \<union> {m. \<not> data_ok s m} \<Longrightarrow> extends V s u"
  unfolding extends_def by auto

definition nfree :: "'a fs_scheme \<Rightarrow> nat" where
  "nfree s = card {b. b < sb_size (sb s) \<and> \<not> block_used s b}"

lemma moved_same:
  fixes s :: "'a fs_scheme"
  assumes "blk.moved H s (content s) k t" "bitmap_ok s"
  shows "extends {} s t" "nfree t = nfree s" "inodes t = inodes s" "in_op H t" "content t = content s"
proof -
  note T = blk.moved_fields [OF assms(1)] frame_fs [of s t]
  have e: "block_used t = block_used s" "bitmap_ok t" "sb t = sb s" using T assms(2) bitmap_ok_cong [of t s] by auto
  then show "extends {} s t" "nfree t = nfree s" using T by (auto simp: extends_def data_ok_def nfree_def)
  show "inodes t = inodes s" "in_op H t" "content t = content s" using T by simp_all
qed

definition same_fs :: "'a fs_scheme \<Rightarrow> 'a fs_scheme \<Rightarrow> bool" where
  "same_fs s t \<longleftrightarrow> sb t = sb s \<and> devsw t = devsw s \<and> disksize t = disksize s \<and> log_cap t = log_cap s"

lemma update_extends:
  fixes s :: "'a fs_scheme"
  assumes c: "content t = (content s)(m := d)" and f: "same_fs s t" and ok: "bitmap_ok s" "m \<notin> bitmap_blocks (sb s)" "length d = BSIZE"
  shows "extends {m} s t" "nfree t = nfree s"
proof -
  have sb: "sb t = sb s" "devsw t = devsw s" "disksize t = disksize s" "log_cap t = log_cap s" using f by (simp_all add: same_fs_def)
  have used: "block_used t x \<longleftrightarrow> block_used s x" if "x < sb_size (sb s)" for x
    using c sb(1) bitmap_block [OF that] ok(2) by (intro block_used_cong) auto
  have "bitmap_ok t" using ok c sb used by (auto simp: bitmap_ok_def)
  moreover have "{b. b < sb_size (sb s) \<and> \<not> block_used t b} = {b. b < sb_size (sb s) \<and> \<not> block_used s b}" using used by auto
  ultimately show "extends {m} s t" "nfree t = nfree s" using c sb used ok(3) by (auto simp: extends_def data_ok_def nfree_def)
qed

lemma same_fs_frame: "cache_frame s t \<Longrightarrow> same_fs s t"
  using frame_fs [of s t] by (simp add: same_fs_def)

lemma moved_update:
  fixes s :: "'a fs_scheme"
  assumes "blk.moved H s ((content s)(m := d)) k t" "bitmap_ok s" "m \<notin> bitmap_blocks (sb s)" "length d = BSIZE"
  shows "extends {m} s t" "nfree t = nfree s" "inodes t = inodes s" "in_op H t" "content t = (content s)(m := d)"
proof -
  note T = blk.moved_fields [OF assms(1)] frame_fs [of s t]
  then show "extends {m} s t" "nfree t = nfree s" using update_extends [OF _ _ assms(2-4), of t] same_fs_frame by auto
  show "inodes t = inodes s" "in_op H t" "content t = (content s)(m := d)" using T by simp_all
qed

lemma alloc_block:
  fixes s :: "'a fs_scheme"
  assumes can: "can_alloc H s" and free: "0 < nfree s"
  obtains c t where "balloc 1 s = Inr (c, t)" "blk.moved H s (alloc_content s c) 2 t" "extends {} s t" "data_ok t c" "\<not> data_ok s c"
    "content t c = replicate BSIZE 0" "nfree s = Suc (nfree t)" "inodes t = inodes s" "in_op H t" "lh_n t \<le> lh_n s + 2"
proof -
  have ok: "bitmap_ok s" using can_allocD [OF can] by simp
  have "{b. b < sb_size (sb s) \<and> \<not> block_used s b} \<noteq> {}" using free by (metis card.empty nfree_def not_less_zero)
  then have "\<not> (\<forall>x < sb_size (sb s). block_used s x)" by auto
  then obtain c where c: "c < sb_size (sb s)" "\<not> block_used s c" "\<And>x. x < c \<Longrightarrow> block_used s x" using first_free by blast
  obtain t where t: "balloc 1 s = Inr (c, t)" "blk.moved H s (alloc_content s c) 2 t" using balloc_takes [OF can c] by blast
  note T = blk.moved_fields [OF t(2)] frame_fs [of s t]
  have tf: "content t = alloc_content s c" "sb t = sb s" "disksize t = disksize s" using T by simp_all
  note tb = alloc_bitmap [OF ok c(1,2) tf]
  have nb: "c \<notin> bitmap_blocks (sb s)" using ok c(2) by (auto simp: bitmap_ok_def)
  have "{b. b < sb_size (sb s) \<and> \<not> block_used s b} = insert c {b. b < sb_size (sb s) \<and> \<not> block_used t b}" using tb(1) c by auto
  moreover have "c \<notin> {b. b < sb_size (sb s) \<and> \<not> block_used t b}" using tb(1) c(1) by auto
  ultimately have n: "nfree s = Suc (nfree t)" unfolding nfree_def tf(2) by simp
  have "extends {} s t"
  proof -
    have "content t m = content s m" if "data_ok s m" for m
      using that c bitmap_block [OF c(1)] by (auto simp: tf(1) alloc_content_def data_ok_def)
    then show ?thesis using T tb by (auto simp: extends_def data_ok_def)
  qed
  moreover have "data_ok t c" "content t c = replicate BSIZE 0" using tb(1) [OF c(1)] c(1) nb by (auto simp: data_ok_def tf alloc_content_def)
  moreover have "\<not> data_ok s c" using c(2) by (simp add: data_ok_def)
  ultimately show thesis using that t n T by auto
qed

text \<open>The inode cache is not part of the block store.\<close>

lemma inodes_upd [simp]:
  fixes s :: "'a fs_scheme"
  shows "content (s\<lparr>inodes := l\<rparr>) = content s" "in_op H (s\<lparr>inodes := l\<rparr>) = in_op H s" "block_used (s\<lparr>inodes := l\<rparr>) = block_used s"
    "bitmap_ok (s\<lparr>inodes := l\<rparr>) = bitmap_ok s" "data_ok (s\<lparr>inodes := l\<rparr>) = data_ok s" "nfree (s\<lparr>inodes := l\<rparr>) = nfree s"
    "log_cap (s\<lparr>inodes := l\<rparr>) = log_cap s"
proof -
  have c: "cached (s\<lparr>inodes := l\<rparr>) = cached s" by (simp add: cached_def fun_eq_iff)
  show co: "content (s\<lparr>inodes := l\<rparr>) = content s" by (simp add: content_def c fun_eq_iff split: option.split)
  show bu: "block_used (s\<lparr>inodes := l\<rparr>) = block_used s" by (simp add: block_used_def co fun_eq_iff)
  show "in_op H (s\<lparr>inodes := l\<rparr>) = in_op H s"
    by (simp add: in_op_def log_inv_def cache_ok_def unique_blocks_def states_ok_def coherent_def c pinned_def dirty_ix_def)
  show "bitmap_ok (s\<lparr>inodes := l\<rparr>) = bitmap_ok s" by (simp add: bitmap_ok_def co bu)
  show "data_ok (s\<lparr>inodes := l\<rparr>) = data_ok s" by (simp add: data_ok_def co bu fun_eq_iff)
  show "nfree (s\<lparr>inodes := l\<rparr>) = nfree s" by (simp add: nfree_def bu)
  show "log_cap (s\<lparr>inodes := l\<rparr>) = log_cap s" by (simp add: log_cap_def)
qed

lemma extends_inodes [simp]: "extends W s (t\<lparr>inodes := l\<rparr>) = extends W s t" "extends W (s\<lparr>inodes := l\<rparr>) t = extends W s t"
  by (simp_all add: extends_def)

section \<open>The blocks of a file\<close>

text \<open>The block number of block \<open>n\<close> of the file, 0 if it has none yet.\<close>

definition baddr :: "'a fs_scheme \<Rightarrow> inode \<Rightarrow> nat \<Rightarrow> u32" where
  "baddr s x n =
     (if n < NDIRECT then addrs x ! n
      else if addrs x ! NDIRECT = 0 then 0 else get32 (content s (addrs x ! NDIRECT)) (4 * (n - NDIRECT)))"

definition file_blocks :: "'a fs_scheme \<Rightarrow> inode \<Rightarrow> u32 set" where
  "file_blocks s x = insert (addrs x ! NDIRECT) (baddr s x ` {..<MAXFILE}) - {0}"

definition inode_block :: "'a fs_scheme \<Rightarrow> inode \<Rightarrow> u32" where
  "inode_block s x = IBLOCK (inum x) (sb s)"

text \<open>
  An inode of the disk whose blocks are in use, apart from each other and from the block its disk inode is in. Block 0 is in use
  too (it is the boot block), so that it is never allocated to a file.
\<close>

definition inode_ok :: "'a fs_scheme \<Rightarrow> inode \<Rightarrow> bool" where
  "inode_ok s x \<longleftrightarrow> idev x = 1 \<and> length (addrs x) = NDIRECT + 1 \<and> data_ok s 0
     \<and> (\<forall>b \<in> file_blocks s x. data_ok s b) \<and> data_ok s (inode_block s x) \<and> inode_block s x \<notin> insert 0 (file_blocks s x)
     \<and> (\<forall>n<MAXFILE. \<forall>k<MAXFILE. baddr s x n = baddr s x k \<longrightarrow> baddr s x n \<noteq> 0 \<longrightarrow> n = k)
     \<and> (\<forall>n<MAXFILE. baddr s x n \<noteq> 0 \<longrightarrow> baddr s x n \<noteq> addrs x ! NDIRECT)"

lemma inode_okD:
  assumes "inode_ok s x"
  shows "idev x = 1" "length (addrs x) = NDIRECT + 1" "data_ok s 0" "data_ok s (inode_block s x)" "inode_block s x \<notin> insert 0 (file_blocks s x)"
    "n < MAXFILE \<Longrightarrow> baddr s x n \<noteq> 0 \<Longrightarrow> data_ok s (baddr s x n)" "addrs x ! NDIRECT \<noteq> 0 \<Longrightarrow> data_ok s (addrs x ! NDIRECT)"
    "n < MAXFILE \<Longrightarrow> k < MAXFILE \<Longrightarrow> baddr s x n = baddr s x k \<Longrightarrow> baddr s x n \<noteq> 0 \<Longrightarrow> n = k"
    "n < MAXFILE \<Longrightarrow> baddr s x n \<noteq> 0 \<Longrightarrow> baddr s x n \<noteq> addrs x ! NDIRECT"
  using assms by (auto simp: inode_ok_def file_blocks_def)

lemma baddr_inodes [simp]:
  "baddr (s\<lparr>inodes := l\<rparr>) = baddr s" "file_blocks (s\<lparr>inodes := l\<rparr>) = file_blocks s" "inode_block (s\<lparr>inodes := l\<rparr>) = inode_block s"
  "inode_ok (s\<lparr>inodes := l\<rparr>) = inode_ok s"
  by (simp_all add: fun_eq_iff baddr_def file_blocks_def inode_block_def inode_ok_def)

lemma inode_ok_extends:
  assumes "inode_ok s x" "extends W s t" "addrs x ! NDIRECT \<notin> W"
  shows "baddr t x = baddr s x" "inode_ok t x"
proof -
  show b: "baddr t x = baddr s x"
    using inode_okD(7) [OF assms(1)] extendsD(7) [OF assms(2) _ assms(3)] by (auto simp: baddr_def fun_eq_iff)
  have "inode_block t x = inode_block s x" using extendsD(2) [OF assms(2)] by (simp add: inode_block_def)
  then show "inode_ok t x" using assms(1) extendsD(6) [OF assms(2)] by (simp add: inode_ok_def file_blocks_def b)
qed

text \<open>Giving the file one more block.\<close>

lemma inode_ok_add:
  assumes ok: "inode_ok s x" and t: "\<And>m. data_ok s m \<Longrightarrow> data_ok t m" "sb t = sb s"
    and y: "idev y = idev x" "inum y = inum x" "length (addrs y) = NDIRECT + 1"
    and c: "c \<noteq> 0" "data_ok t c" "c \<notin> insert (inode_block s x) (file_blocks s x)"
    and b: "addrs y ! NDIRECT = addrs x ! NDIRECT" "\<And>k. k < MAXFILE \<Longrightarrow> baddr t y k = (if k = n then c else baddr s x k)"
      "baddr s x n = 0" "n < MAXFILE"
  shows "inode_ok t y"
proof -
  have f: "file_blocks t y = insert c (file_blocks s x)" using b c(1) by (auto simp: file_blocks_def)
  have i: "inode_block t y = inode_block s x" using y t(2) by (simp add: inode_block_def)
  have nc: "baddr s x k \<noteq> c" if "k < MAXFILE" for k using c(1,3) that by (auto simp: file_blocks_def)
  moreover have "c \<noteq> addrs x ! NDIRECT" using c(1,3) by (auto simp: file_blocks_def)
  ultimately show ?thesis using ok t(1) y c b by (auto simp: inode_ok_def f i)
qed

lemma inode_ok_indirect:
  assumes ok: "inode_ok s x" and y: "idev y = idev x" "inum y = inum x" "length (addrs y) = NDIRECT + 1"
    and c: "c \<noteq> 0" "data_ok s c" "c \<notin> insert (inode_block s x) (file_blocks s x)"
    and b: "addrs x ! NDIRECT = 0" "addrs y ! NDIRECT = c" "\<And>k. k < MAXFILE \<Longrightarrow> baddr s y k = baddr s x k"
  shows "inode_ok s y"
proof -
  have f: "file_blocks s y = insert c (file_blocks s x)" using b c(1) by (auto simp: file_blocks_def)
  have i: "inode_block s y = inode_block s x" using y by (simp add: inode_block_def)
  have nc: "baddr s x k \<noteq> c" if "k < MAXFILE" for k using c(1,3) that by (auto simp: file_blocks_def)
  then show ?thesis using ok y c b by (auto simp: inode_ok_def f i)
qed

lemma get32_zero [simp]: "i + 3 < n \<Longrightarrow> get32 (replicate n 0) i = 0"
  by (simp add: get32_def)

section \<open>bmap\<close>

definition file_ok :: "'a fs_scheme \<Rightarrow> nat \<Rightarrow> bool" where
  "file_ok s ip \<longleftrightarrow> ip < length (inodes s) \<and> in_op {} s \<and> bitmap_ok s \<and> inode_ok s (inode_at ip s)"

text \<open>A block that the file has is found without changing anything.\<close>

lemma MAXFILE_bounds: "n < MAXFILE \<Longrightarrow> n - NDIRECT < NINDIRECT \<or> n < NDIRECT" "n < MAXFILE \<Longrightarrow> 4 * (n - NDIRECT) + 3 < BSIZE"
  by (auto simp: MAXFILE_def NDIRECT_def NINDIRECT_def BSIZE_def)

lemma bmap_present:
  fixes s :: "'a fs_scheme"
  assumes ok: "file_ok s ip" and n: "n < MAXFILE" "baddr s (inode_at ip s) n \<noteq> 0" and room: "lh_n s < log_cap s"
  shows "\<exists>t. bmap ip n s = Inr (baddr s (inode_at ip s) n, t) \<and> blk.moved {} s (content s) 0 t"
proof (cases "n < NDIRECT")
  case True
  then show ?thesis using n(2) blk.moved_refl [of "{}" s] ok
    by (intro exI [of _ s]) (simp add: bmap_def baddr_def file_ok_def)
next
  case False
  let ?x = "inode_at ip s"
  have i: "inode_ok s ?x" "in_op {} s" "bitmap_ok s" using ok by (simp_all add: file_ok_def)
  have a: "addrs ?x ! NDIRECT \<noteq> 0" "get32 (content s (addrs ?x ! NDIRECT)) (4 * (n - NDIRECT)) = baddr s ?x n"
    using n(2) False by (auto simp: baddr_def split: if_splits)
  have "addrs ?x ! NDIRECT < disksize s" using inode_okD(7) [OF i(1) a(1)] i(3) by (auto simp: data_ok_def bitmap_ok_def)
  from blk.read_block [OF i(2) this] room obtain t b u where "blk.moved {} s (content s) 0 t" "bread 1 (addrs ?x ! NDIRECT) s = Inr (b, u)"
      "data_of b u = Inr (content s (addrs ?x ! NDIRECT), u)" "brelse b u = Inr ((), t)" by auto
  then show ?thesis using False MAXFILE_bounds(1) [OF n(1)] a n(2) inode_okD(1) [OF i(1)]
    by (intro exI [of _ t]) (simp add: bmap_def)
qed

text \<open>Allocating for the file: the new block is none of the blocks that matter to it.\<close>

lemma file_alloc:
  fixes s :: "'a fs_scheme"
  assumes "inode_ok s x" "extends {} s t" "data_ok t c" "\<not> data_ok s c"
  shows "inode_ok t x" "baddr t x = baddr s x" "c \<noteq> 0" "c \<notin> insert (inode_block t x) (file_blocks t x)"
proof -
  show i: "inode_ok t x" and b: "baddr t x = baddr s x" using inode_ok_extends [OF assms(1,2)] by simp_all
  have "inode_block t x = inode_block s x" using extendsD(2) [OF assms(2)] by (simp add: inode_block_def)
  moreover have "file_blocks t x = file_blocks s x" by (simp add: file_blocks_def b)
  ultimately show "c \<noteq> 0" "c \<notin> insert (inode_block t x) (file_blocks t x)"
    using assms(1,4) by (auto simp: inode_ok_def)
qed

lemma upd_inode_run [simp]: "upd_inode ip f s = Inr ((), s\<lparr>inodes := (inodes s)[ip := f (inode_at ip s)]\<rparr>)"
  by (simp add: upd_inode_def inode_at_def)

lemma inode_at_upd [simp]: "ip < length l \<Longrightarrow> inode_at ip (s\<lparr>inodes := l[ip := y]\<rparr>) = y"
  by (simp add: inode_at_def)

text \<open>
  The outcome of \<^verbatim>\<open>bmap\<close>: block \<open>n\<close> of the file is at \<open>a\<close>, every other block is where it was; of the inode only the addresses change, and
  of the blocks in use at most the indirect block.
\<close>

definition bmapped :: "'a fs_scheme \<Rightarrow> nat \<Rightarrow> nat \<Rightarrow> u32 \<Rightarrow> 'a fs_scheme \<Rightarrow> bool" where
  "bmapped s ip n a t \<longleftrightarrow> file_ok t ip \<and> a \<noteq> 0
     \<and> (\<exists>as. inodes t = (inodes s)[ip := (inode_at ip s)\<lparr>addrs := as\<rparr>])
     \<and> (\<forall>k<MAXFILE. baddr t (inode_at ip t) k = (if k = n then a else baddr s (inode_at ip s) k))
     \<and> (baddr s (inode_at ip s) n \<noteq> 0 \<longrightarrow> a = baddr s (inode_at ip s) n \<and> inodes t = inodes s)
     \<and> file_blocks t (inode_at ip t) \<subseteq> file_blocks s (inode_at ip s) \<union> {m. \<not> data_ok s m}
     \<and> extends ({addrs (inode_at ip s) ! NDIRECT} - {0}) s t \<and> lh_n t \<le> lh_n s + 5 \<and> nfree s \<le> nfree t + 2"

lemma file_okI: "ip < length (inodes s) \<Longrightarrow> in_op {} s \<Longrightarrow> bitmap_ok s \<Longrightarrow> inode_ok s (inode_at ip s) \<Longrightarrow> file_ok s ip"
  by (simp add: file_ok_def)

lemma file_ok_can_alloc: "file_ok s ip \<Longrightarrow> lh_n s + 1 < log_cap s \<Longrightarrow> can_alloc {} s"
  by (simp add: file_ok_def can_alloc_def)

lemma bmap_direct:
  fixes s :: "'a fs_scheme"
  assumes ok: "file_ok s ip" and n: "n < NDIRECT" "baddr s (inode_at ip s) n = 0" and room: "lh_n s + 1 < log_cap s" "0 < nfree s"
  shows "\<exists>a t. bmap ip n s = Inr (a, t) \<and> bmapped s ip n a t"
proof -
  let ?x = "inode_at ip s"
  obtain c t where t: "balloc 1 s = Inr (c, t)" "extends {} s t" "data_ok t c" "\<not> data_ok s c" "nfree s = Suc (nfree t)"
      "inodes t = inodes s" "in_op {} t" "lh_n t \<le> lh_n s + 2"
    using alloc_block [OF file_ok_can_alloc [OF ok room(1)] room(2)] by metis
  have i: "inode_ok s ?x" "ip < length (inodes s)" using ok by (simp_all add: file_ok_def)
  note fa = file_alloc [OF i(1) t(2-4)]
  define y where "y = ?x\<lparr>addrs := (addrs ?x)[n := c]\<rparr>"
  define u where "u = t\<lparr>inodes := (inodes t)[ip := y]\<rparr>"
  have l: "length (addrs ?x) = NDIRECT + 1" using inode_okD(2) [OF i(1)] .
  have yb: "baddr t y k = (if k = n then c else baddr s ?x k)" for k
    using n l fa(2) by (auto simp: y_def baddr_def fun_eq_iff nth_list_update split: if_splits)
  have "inode_ok t y"
    by (rule inode_ok_add [OF fa(1), where c = c and n = n])
      (use fa(3,4) t(3) l n yb fa(2) in \<open>auto simp: y_def MAXFILE_def\<close>)
  moreover have "file_blocks t y \<subseteq> file_blocks s ?x \<union> {m. \<not> data_ok s m}"
    using yb t(4) n(1) l by (auto simp: file_blocks_def y_def split: if_splits)
  ultimately have "bmapped s ip n c u"
    unfolding bmapped_def file_ok_def using t(2,5-8) i(2) fa(3) yb n(2) extends_mono [OF t(2)] extendsD(1) [OF t(2)]
    by (auto simp: u_def y_def intro: exI)
  moreover have "bmap ip n s = Inr (c, u)"
    using n t(1,6) inode_okD(1) [OF i(1)] by (simp add: bmap_def baddr_def u_def y_def inode_at_def)
  ultimately show ?thesis by blast
qed

text \<open>The two parts of \<^verbatim>\<open>bmap\<close> behind the direct blocks: finding the indirect block, and the entry in it.\<close>

definition take_indirect :: "nat \<Rightarrow> inode \<Rightarrow> ('a fs_scheme, u32) op" where
  "take_indirect ip x =
     (if addrs x ! NDIRECT = 0
      then bnd (balloc (idev x)) (\<lambda>addr. bnd (upd_inode ip (\<lambda>x. x\<lparr>addrs := (addrs x)[NDIRECT := addr]\<rparr>)) (\<lambda>_. ret addr))
      else ret (addrs x ! NDIRECT))"

definition take_entry :: "nat \<Rightarrow> u32 \<Rightarrow> ('a fs_scheme, u32) op" where
  "take_entry n a =
     bnd (bread 1 a) (\<lambda>bp. bnd (data_of bp) (\<lambda>d.
       if get32 d (4 * (n - NDIRECT)) = 0
       then bnd (balloc 1) (\<lambda>addr. bnd (set_data bp (put32 (4 * (n - NDIRECT)) addr)) (\<lambda>_. bnd (log_write bp) (\<lambda>_. bnd (brelse bp) (\<lambda>_. ret addr))))
       else bnd (brelse bp) (\<lambda>_. ret (get32 d (4 * (n - NDIRECT))))))"

lemma bmap_parts:
  assumes "NDIRECT \<le> n" "n < MAXFILE" "idev (inode_at ip s) = 1"
  shows "bmap ip n s = bnd (take_indirect ip (inode_at ip s)) (take_entry n) s"
  using assms MAXFILE_bounds(1) [OF assms(2)] by (simp add: bmap_def take_indirect_def take_entry_def [abs_def] cong: if_cong)

lemma bmap_indirect:
  fixes s :: "'a fs_scheme"
  assumes ok: "file_ok s ip" and room: "lh_n s + 1 < log_cap s" "0 < nfree s"
  shows "\<exists>a t. take_indirect ip (inode_at ip s) s = Inr (a, t)
    \<and> file_ok t ip \<and> addrs (inode_at ip t) ! NDIRECT = a \<and> a \<noteq> 0 \<and> (\<exists>as. inodes t = (inodes s)[ip := (inode_at ip s)\<lparr>addrs := as\<rparr>])
    \<and> (\<forall>k<MAXFILE. baddr t (inode_at ip t) k = baddr s (inode_at ip s) k) \<and> extends {} s t \<and> lh_n t \<le> lh_n s + 2 \<and> nfree s \<le> nfree t + 1
    \<and> (a = addrs (inode_at ip s) ! NDIRECT \<or> \<not> data_ok s a)"
proof (cases "addrs (inode_at ip s) ! NDIRECT = 0")
  case False
  have "extends {} s s" using ok by (simp add: extends_def file_ok_def)
  then show ?thesis using False ok
    by (intro exI [of _ "addrs (inode_at ip s) ! NDIRECT"] exI [of _ s]) (auto simp: take_indirect_def inode_at_def intro!: exI [of _ "addrs (inodes s ! ip)"])
next
  case True
  let ?x = "inode_at ip s"
  obtain c t where t: "balloc 1 s = Inr (c, t)" "extends {} s t" "data_ok t c" "\<not> data_ok s c" "nfree s = Suc (nfree t)"
      "inodes t = inodes s" "in_op {} t" "lh_n t \<le> lh_n s + 2" "content t c = replicate BSIZE 0"
    using alloc_block [OF file_ok_can_alloc [OF ok room(1)] room(2)] by metis
  have i: "inode_ok s ?x" "ip < length (inodes s)" using ok by (simp_all add: file_ok_def)
  note fa = file_alloc [OF i(1) t(2-4)]
  define y where "y = ?x\<lparr>addrs := (addrs ?x)[NDIRECT := c]\<rparr>"
  define u where "u = t\<lparr>inodes := (inodes t)[ip := y]\<rparr>"
  have l: "length (addrs ?x) = NDIRECT + 1" using inode_okD(2) [OF i(1)] .
  have yb: "baddr t y k = baddr s ?x k" if "k < MAXFILE" for k
    using l fa(2,3) True MAXFILE_bounds(2) [OF that] by (auto simp: y_def baddr_def fun_eq_iff t(9) split: if_splits)
  have "inode_ok t y"
    by (rule inode_ok_indirect [OF fa(1), where c = c]) (use fa(3,4) t(3) l yb fa(2) True in \<open>auto simp: y_def\<close>)
  then have "file_ok u ip" using t(2,6,7) i(2) extendsD(1) [OF t(2)] by (simp add: file_ok_def u_def)
  moreover have "inode_at ip u = y" "inodes u = (inodes s)[ip := ?x\<lparr>addrs := (addrs ?x)[NDIRECT := c]\<rparr>]" "addrs y ! NDIRECT = c"
    using i(2) t(6) l by (simp_all add: u_def y_def)
  ultimately show ?thesis
    using True t inode_okD(1) [OF i(1)] fa(3) yb
    by (intro exI [of _ c] exI [of _ u]) (auto simp: take_indirect_def u_def y_def inode_at_def)
qed

lemma bmap_entry:
  fixes s :: "'a fs_scheme"
  assumes ok: "file_ok s ip" and a: "a = addrs (inode_at ip s) ! NDIRECT" "a \<noteq> 0" and n: "NDIRECT \<le> n" "n < MAXFILE" "baddr s (inode_at ip s) n = 0"
    and room: "lh_n s + 2 < log_cap s" "0 < nfree s"
  shows "\<exists>c t. take_entry n a s = Inr (c, t)
    \<and> file_ok t ip \<and> c \<noteq> 0 \<and> inodes t = inodes s \<and> (\<forall>k<MAXFILE. baddr t (inode_at ip t) k = (if k = n then c else baddr s (inode_at ip s) k))
    \<and> \<not> data_ok s c \<and> extends {a} s t \<and> lh_n t \<le> lh_n s + 3 \<and> nfree s \<le> nfree t + 1"
proof -
  let ?x = "inode_at ip s" and ?j = "4 * (n - NDIRECT)"
  have i: "inode_ok s ?x" "ip < length (inodes s)" "in_op {} s" "bitmap_ok s" using ok by (simp_all add: file_ok_def)
  have ad: "data_ok s a" "a < disksize s" using inode_okD(7) [OF i(1)] a i(4) by (auto simp: data_ok_def bitmap_ok_def)
  have z: "get32 (content s a) ?j = 0" using n(1,3) a by (simp add: baddr_def)
  obtain b t1 where t1: "bread 1 a s = Inr (b, t1)" "data_of b t1 = Inr (content s a, t1)" "in_op {b} t1" "buf_held t1 b a" "cache_frame s t1"
      "content t1 = content s" "lh_n t1 = lh_n s"
    by (rule blk.open_block [OF i(3) ad(2)]) (use room(1) in \<open>auto intro: that\<close>)
  have f1: "same_fs s t1" "inodes t1 = inodes s" using same_fs_frame [OF t1(5)] frame_fs [OF t1(5)] by simp_all
  have e1: "block_used t1 = block_used s" "bitmap_ok t1" "nfree t1 = nfree s" "data_ok t1 = data_ok s"
    using f1(1) i(4) t1(6) by (auto simp: same_fs_def block_used_def bitmap_ok_def nfree_def data_ok_def fun_eq_iff)
  have can: "can_alloc {b} t1"
    using t1(3,4,7) e1 ad(1) room(1) f1(1) by (auto simp: can_alloc_def data_ok_def same_fs_def)
  obtain c t2 where t2: "balloc 1 t1 = Inr (c, t2)" "blk.moved {b} t1 (alloc_content t1 c) 2 t2" "extends {} t1 t2" "data_ok t2 c" "\<not> data_ok t1 c"
      "nfree t1 = Suc (nfree t2)" "inodes t2 = inodes t1" "in_op {b} t2" "lh_n t2 \<le> lh_n t1 + 2"
    using alloc_block [OF can] room(2) e1(3) by metis
  have h2: "buf_held t2 b a" "cache_frame t1 t2" using blk.moved_hold [OF t2(2) _ t1(4)] blk.moved_fields [OF t2(2)] by simp_all
  have ca: "content t2 a = content s a" using extendsD(7) [OF t2(3), of a] ad(1) e1(4) t1(6) by simp
  have cap: "lh_n t2 < log_cap t2" using t2(9) t1(7) room(1) f1(1) extendsD(5) [OF t2(3)] by (simp add: same_fs_def)
  obtain t3 where t3: "bnd (set_data b (put32 ?j c)) (\<lambda>_. log_write b) t2 = Inr ((), t3)" "in_op {b} t3" "buf_held t3 b a"
      "content t3 = (content t2)(a := put32 ?j c (content s a))" "lh_n t2 \<le> lh_n t3" "lh_n t3 \<le> lh_n t2 + 1" "cache_frame t2 t3"
    using blk.upd_law [OF t2(8) _ h2(1) cap, of "put32 ?j c"] ca by auto
  obtain t where t: "brelse b t3 = Inr ((), t)" "in_op {} t" "content t = content t3" "lh_n t = lh_n t3" "cache_frame t3 t"
    using blk.rel_law [OF t3(2) _ t3(3)] by auto
  have f3: "same_fs t2 t" "inodes t = inodes s"
    using same_fs_frame [OF cache_frame_trans [OF t3(7) t(5)]] frame_fs [OF t3(7)] frame_fs [OF t(5)] t2(7) f1(2) by simp_all
  have x1: "extends {} s t1" using f1(1) e1 t1(6) by (simp add: extends_def same_fs_def)
  have x2: "extends {} s t2" using extends_trans [OF x1 t2(3)] by simp
  have "length (put32 ?j c (content s a)) = BSIZE" using ad(1) by (simp add: data_ok_def)
  moreover have "bitmap_ok t2" "a \<notin> bitmap_blocks (sb t2)" using extendsD(1,2) [OF x2] ad(1) by (simp_all add: data_ok_def)
  ultimately have x3: "extends {a} t2 t" "nfree t = nfree t2"
    using update_extends [of t t2 a "put32 ?j c (content s a)"] t(3) t3(4) f3(1) by simp_all
  have x: "extends {a} s t" using extends_trans [OF x2 x3(1)] by simp
  have same2: "inode_ok t2 ?x" "baddr t2 ?x = baddr s ?x" "c \<noteq> 0" "c \<notin> insert (inode_block t2 ?x) (file_blocks t2 ?x)"
    using file_alloc [OF i(1) x2 t2(4)] t2(5) e1(4) by simp_all
  have bt: "baddr t ?x k = (if k = n then c else baddr s ?x k)" if "k < MAXFILE" for k
  proof -
    have "get32 (put32 ?j c (content s a)) ?j = c" using MAXFILE_bounds(2) [OF n(2)] ad(1) by (simp add: data_ok_def)
    moreover have "get32 (put32 ?j c (content s a)) (4 * (k - NDIRECT)) = get32 (content s a) (4 * (k - NDIRECT))" if "NDIRECT \<le> k" "k \<noteq> n"
      using that n(1) by (intro get32_put32_other) auto
    ultimately show ?thesis using a n(1) by (auto simp: baddr_def t(3) t3(4))
  qed
  have "inode_ok t ?x"
    by (rule inode_ok_add [OF same2(1) extendsD(6,2) [OF x3(1)], where c = c and n = n])
      (use same2 extendsD(6) [OF x3(1)] t2(4) bt n inode_okD(2) [OF i(1)] in auto)
  then have "file_ok t ip" using t(2) extendsD(1) [OF x] i(2) f3(2) by (simp add: file_ok_def inode_at_def)
  then show ?thesis
    using t1(1,2) z t2(1,9) t3(1,6) t(1,4) same2(3) f3(2) bt x x3(2) t2(5,6) e1(3,4) t1(7)
    by (intro exI [of _ c] exI [of _ t]) (simp add: take_entry_def bnd_seq inode_at_def)
qed

lemma bmap_maps:
  fixes s :: "'a fs_scheme"
  assumes ok: "file_ok s ip" and n: "n < MAXFILE" and room: "lh_n s + 5 < log_cap s" "2 \<le> nfree s"
  shows "\<exists>a t. bmap ip n s = Inr (a, t) \<and> bmapped s ip n a t"
proof (cases "baddr s (inode_at ip s) n = 0")
  case False
  let ?x = "inode_at ip s"
  obtain t where t: "bmap ip n s = Inr (baddr s ?x n, t)" "blk.moved {} s (content s) 0 t"
    using bmap_present [OF ok n False] room(1) by auto
  have i: "inode_ok s ?x" "ip < length (inodes s)" "bitmap_ok s" using ok by (simp_all add: file_ok_def)
  note m = moved_same [OF t(2) i(3)] and e = inode_ok_extends [OF i(1) moved_same(1) [OF t(2) i(3)]]
  have "inode_at ip t = ?x" using m(3) by (simp add: inode_at_def)
  then have "bmapped s ip n (baddr s ?x n) t"
    using m e i(2) False extendsD(1) [OF m(1)] extends_mono [OF m(1)] blk.moved_fields [OF t(2)]
    by (auto simp: bmapped_def file_ok_def file_blocks_def inode_at_def intro!: exI [of _ "addrs (inodes s ! ip)"])
  then show ?thesis using t(1) by blast
next
  case True
  show ?thesis
  proof (cases "n < NDIRECT")
    case True
    then show ?thesis using bmap_direct [OF ok True \<open>baddr s (inode_at ip s) n = 0\<close>] room by auto
  next
    case False
    let ?x = "inode_at ip s"
    obtain a t where t: "take_indirect ip ?x s = Inr (a, t)" "file_ok t ip" "addrs (inode_at ip t) ! NDIRECT = a" "a \<noteq> 0"
        "\<exists>as. inodes t = (inodes s)[ip := ?x\<lparr>addrs := as\<rparr>]" "\<forall>k<MAXFILE. baddr t (inode_at ip t) k = baddr s ?x k" "extends {} s t"
        "lh_n t \<le> lh_n s + 2" "nfree s \<le> nfree t + 1" "a = addrs ?x ! NDIRECT \<or> \<not> data_ok s a"
      using bmap_indirect [OF ok] room by force
    have "lh_n t + 2 < log_cap t" "0 < nfree t" using t(8,9) room extendsD(5) [OF t(7)] by simp_all
    from bmap_entry [OF t(2) t(3) [symmetric] t(4) _ n _ this]
    obtain c u where u: "take_entry n a t = Inr (c, u)"
        "file_ok u ip" "c \<noteq> 0" "inodes u = inodes t" "\<forall>k<MAXFILE. baddr u (inode_at ip u) k = (if k = n then c else baddr t (inode_at ip t) k)"
        "extends {a} t u" "lh_n u \<le> lh_n t + 3" "nfree t \<le> nfree u + 1" "\<not> data_ok t c"
      using t(6) True False n by auto
    have "extends ({addrs ?x ! NDIRECT} - {0}) s u" using t(4,10) extends_trans [OF t(7) u(6)] unfolding extends_def by auto
    moreover have "file_blocks u (inode_at ip u) \<subseteq> file_blocks s ?x \<union> {m. \<not> data_ok s m}"
    proof -
      have "addrs (inode_at ip u) ! NDIRECT = a" using t(3) u(4) by (simp add: inode_at_def)
      moreover have "\<not> data_ok s c" using u(9) extendsD(6) [OF t(7)] by blast
      ultimately show ?thesis using u(5) t(6,10) by (auto simp: file_blocks_def split: if_splits)
    qed
    ultimately have "bmapped s ip n c u" unfolding bmapped_def using u t True by auto
    moreover have "bmap ip n s = Inr (c, u)"
      using bmap_parts [of n ip s] False n t(1) u(1) inode_okD(1) [of s ?x] ok by (simp add: file_ok_def)
    ultimately show ?thesis by blast
  qed
qed

section \<open>Reading\<close>

definition fbyte :: "'a fs_scheme \<Rightarrow> inode \<Rightarrow> nat \<Rightarrow> u8" where
  "fbyte s x i = content s (baddr s x (i div BSIZE)) ! (i mod BSIZE)"

definition has_blocks :: "'a fs_scheme \<Rightarrow> inode \<Rightarrow> nat \<Rightarrow> nat \<Rightarrow> bool" where
  "has_blocks s x off n \<longleftrightarrow> off + n \<le> MAXFILE * BSIZE \<and> (\<forall>i. off \<le> i \<longrightarrow> i < off + n \<longrightarrow> baddr s x (i div BSIZE) \<noteq> 0)"

lemma file_ok_moved:
  fixes s :: "'a fs_scheme"
  assumes "file_ok s ip" "blk.moved {} s (content s) k t"
  shows "file_ok t ip" "inode_at ip t = inode_at ip s" "baddr t = baddr s" "fbyte t = fbyte s" "has_blocks t = has_blocks s"
proof -
  have i: "inode_ok s (inode_at ip s)" "bitmap_ok s" "ip < length (inodes s)" using assms(1) by (simp_all add: file_ok_def)
  note m = moved_same [OF assms(2) i(2)]
  show "inode_at ip t = inode_at ip s" using m(3) by (simp add: inode_at_def)
  then show "file_ok t ip" using m i inode_ok_extends(2) [OF i(1) m(1)] extendsD(1) [OF m(1)] by (simp add: file_ok_def)
  show b: "baddr t = baddr s" by (simp add: baddr_def m(5) fun_eq_iff)
  show "fbyte t = fbyte s" "has_blocks t = has_blocks s" by (simp_all add: fbyte_def has_blocks_def b m(5) fun_eq_iff)
qed

lemma chunk:
  assumes "m \<le> BSIZE - off mod BSIZE" "j < m"
  shows "(off + j) div BSIZE = off div BSIZE" "(off + j) mod BSIZE = off mod BSIZE + j"
proof -
  have "off mod BSIZE + j < BSIZE" using assms by (simp add: BSIZE_def)
  then show "(off + j) div BSIZE = off div BSIZE" "(off + j) mod BSIZE = off mod BSIZE + j"
    using div_add1_eq [of off j BSIZE] mod_add_left_eq [of off BSIZE j] by (simp_all add: BSIZE_def)
qed

lemma readi_loop_reads:
  fixes s :: "'a fs_scheme"
  assumes "file_ok s ip" "has_blocks s (inode_at ip s) off n" "lh_n s < log_cap s"
  shows "\<exists>t. readi_loop ip off n s = Inr (map (fbyte s (inode_at ip s)) [off..<off + n], t) \<and> blk.moved {} s (content s) 0 t"
  using assms
proof (induction n arbitrary: off s rule: less_induct)
  case (less n)
  let ?x = "inode_at ip s"
  show ?case
  proof (cases "n = 0")
    case True
    then show ?thesis using blk.moved_refl [of "{}" s] less.prems(1) by (subst readi_loop.simps) (simp add: file_ok_def)
  next
    case False
    define m where "m = min n (BSIZE - off mod BSIZE)"
    have m: "0 < m" "m \<le> n" "m \<le> BSIZE - off mod BSIZE" using False by (auto simp: m_def BSIZE_def)
    let ?a = "baddr s ?x (off div BSIZE)"
    have i: "inode_ok s ?x" "bitmap_ok s" using less.prems(1) by (simp_all add: file_ok_def)
    have n: "off div BSIZE < MAXFILE" "?a \<noteq> 0" using less.prems(2) False by (auto simp: has_blocks_def less_mult_imp_div_less)
    have d: "data_ok s ?a" using inode_okD(6) [OF i(1) n] .
    obtain t1 where t1: "bmap ip (off div BSIZE) s = Inr (?a, t1)" "blk.moved {} s (content s) 0 t1"
      using bmap_present [OF less.prems(1) n less.prems(3)] by blast
    note f1 = file_ok_moved [OF less.prems(1) t1(2)] and m1 = blk.moved_fields [OF t1(2)]
    have "?a < disksize t1" using d i(2) m1 by (auto simp: data_ok_def bitmap_ok_def)
    from blk.read_block [of "{}" t1 ?a, OF _ this] m1 less.prems(3)
    obtain t2 b u where t2: "blk.moved {} t1 (content t1) 0 t2" "bread 1 ?a t1 = Inr (b, u)" "data_of b u = Inr (content s ?a, u)"
        "brelse b u = Inr ((), t2)" by auto
    note f2 = file_ok_moved [OF f1(1) t2(1)] and m2 = blk.moved_fields [OF t2(1)]
    have st: "blk.moved {} s (content s) 0 t2" using blk.moved_trans [OF t1(2) t2(1)] m1 by simp
    have "has_blocks t2 (inode_at ip t2) (off + m) (n - m)"
      using less.prems(2) m f1 f2 by (simp add: has_blocks_def)
    then obtain t where t: "readi_loop ip (off + m) (n - m) t2 = Inr (map (fbyte t2 (inode_at ip t2)) [off + m..<off + m + (n - m)], t)"
        "blk.moved {} t2 (content t2) 0 t"
      using less.IH [of "n - m" t2 "off + m"] m f2(1) m1 m2 less.prems(3) by auto
    have "take m (drop (off mod BSIZE) (content s ?a)) = map (fbyte s ?x) [off..<off + m]"
      using d m chunk [OF m(3)] by (intro nth_equalityI) (auto simp: data_ok_def fbyte_def)
    moreover have "[off..<off + n] = [off..<off + m] @ [off + m..<off + n]" using upt_add_eq_append [of off "off + m" "n - m"] m(2) by simp
    ultimately have "take m (drop (off mod BSIZE) (content s ?a)) @ map (fbyte s ?x) [off + m..<off + n] = map (fbyte s ?x) [off..<off + n]"
      by simp
    moreover have "readi_loop ip off n s = Inr (take m (drop (off mod BSIZE) (content s ?a)) @ map (fbyte s ?x) [off + m..<off + n], t)"
      using False t1(1) t2(2-4) t(1) f1(2,4) f2(2,4) m(2) inode_okD(1) [OF i(1)]
      by (subst readi_loop.simps) (simp add: Let_def ifld_def flip: m_def)
    ultimately show ?thesis using blk.moved_trans [OF st t(2)] m1 m2 by auto
  qed
qed

text \<open>A file that has all its blocks, and its bytes.\<close>

definition whole :: "'a fs_scheme \<Rightarrow> nat \<Rightarrow> bool" where
  "whole s ip \<longleftrightarrow> file_ok s ip \<and> itype (inode_at ip s) \<noteq> T_DEV \<and> has_blocks s (inode_at ip s) 0 (unat (isize (inode_at ip s)))"

definition file_data :: "'a fs_scheme \<Rightarrow> nat \<Rightarrow> u8 list" where
  "file_data s ip = map (fbyte s (inode_at ip s)) [0..<unat (isize (inode_at ip s))]"

lemma small_word: "unat x \<le> MAXFILE * BSIZE \<Longrightarrow> sint x = int (unat x)" for x :: u32
  by (rule small_sint) (simp add: MAXFILE_def NDIRECT_def NINDIRECT_def BSIZE_def)

lemma map_slice: "map f [a..<a + n] = take n (drop a (map f [0..<l]))" if "a + n \<le> l"
  using that by (simp add: drop_map take_map)

lemma readi_slice:
  fixes s :: "'a fs_scheme"
  assumes w: "whole s ip" and room: "lh_n s < log_cap s" and off: "off \<le> isize (inode_at ip s)" "off \<le> off + n"
  shows "\<exists>t. readi ip off n s = Inr ((int (length (take (unat n) (drop (unat off) (file_data s ip)))), take (unat n) (drop (unat off) (file_data s ip))), t)
    \<and> blk.moved {} s (content s) 0 t"
proof -
  let ?x = "inode_at ip s"
  define k where "k = (if off + n > isize ?x then isize ?x - off else n)"
  have i: "file_ok s ip" "itype ?x \<noteq> T_DEV" "has_blocks s ?x 0 (unat (isize ?x))" using w by (simp_all add: whole_def)
  have u: "unat (off + n) = unat off + unat n" using off(2) by (simp add: unat_plus_simple)
  have k: "unat k = min (unat n) (unat (isize ?x) - unat off)" "unat off \<le> unat (isize ?x)"
    using off u by (auto simp: k_def word_less_nat_alt word_le_nat_alt unat_sub)
  have "has_blocks s ?x (unat off) (unat k)" using i(3) k by (auto simp: has_blocks_def)
  then obtain t where t: "readi_loop ip (unat off) (unat k) s = Inr (map (fbyte s ?x) [unat off..<unat off + unat k], t)" "blk.moved {} s (content s) 0 t"
    using readi_loop_reads [OF i(1) _ room] by blast
  have "map (fbyte s ?x) [unat off..<unat off + unat k] = take (unat n) (drop (unat off) (file_data s ip))"
    using k by (subst map_slice [of _ _ "unat (isize ?x)"]) (auto simp: file_data_def min_def)
  moreover have "sint k = int (length (take (unat n) (drop (unat off) (file_data s ip))))"
    using k i(3) by (subst small_word) (auto simp: file_data_def has_blocks_def)
  ultimately show ?thesis using t i(2) off unfolding k_def by (auto simp: readi_def Let_def gets_def split: if_splits)
qed


section \<open>Writing\<close>

lemma put_bytes_length [simp]: "i + length bs \<le> length d \<Longrightarrow> length (put_bytes i bs d) = length d"
  by (simp add: put_bytes_def)

lemma put_bytes_nth: "i + length bs \<le> length d \<Longrightarrow> j < length d \<Longrightarrow>
    put_bytes i bs d ! j = (if i \<le> j \<and> j < i + length bs then bs ! (j - i) else d ! j)"
  by (auto simp: put_bytes_def nth_append)

text \<open>
  The outcome of writing \<open>src\<close> at \<open>off\<close>: the bytes of the file are those of \<open>src\<close> in its range, and as before elsewhere; no block
  in use changes but the file's own, and of the inode only the addresses, if blocks had to be allocated.
\<close>

definition in_range :: "nat \<Rightarrow> u8 list \<Rightarrow> nat \<Rightarrow> bool" where
  "in_range off src i \<longleftrightarrow> off \<le> i \<and> i < off + length src"

definition file_wrote :: "'a fs_scheme \<Rightarrow> nat \<Rightarrow> nat \<Rightarrow> u8 list \<Rightarrow> 'a fs_scheme \<Rightarrow> bool" where
  "file_wrote s ip off src t \<longleftrightarrow> file_ok t ip
     \<and> (\<exists>as. inodes t = (inodes s)[ip := (inode_at ip s)\<lparr>addrs := as\<rparr>])
     \<and> (has_blocks s (inode_at ip s) off (length src) \<longrightarrow> inodes t = inodes s)
     \<and> (\<forall>i<MAXFILE * BSIZE. baddr s (inode_at ip s) (i div BSIZE) \<noteq> 0 \<or> in_range off src i \<longrightarrow>
          baddr t (inode_at ip t) (i div BSIZE) \<noteq> 0
          \<and> fbyte t (inode_at ip t) i = (if in_range off src i then src ! (i - off) else fbyte s (inode_at ip s) i))
     \<and> file_blocks t (inode_at ip t) \<subseteq> file_blocks s (inode_at ip s) \<union> {m. \<not> data_ok s m}
     \<and> extends (file_blocks s (inode_at ip s)) s t"

definition write_chunk :: "nat \<Rightarrow> nat \<Rightarrow> u8 list \<Rightarrow> ('a fs_scheme, unit) op" where
  "write_chunk ip off bs =
     bnd (bmap ip (off div BSIZE)) (\<lambda>addr.
     bnd (ifld ip idev) (\<lambda>dev.
     bnd (bread dev addr) (\<lambda>bp.
     bnd (set_data bp (put_bytes (off mod BSIZE) bs)) (\<lambda>_.
     bnd (log_write bp) (\<lambda>_. brelse bp)))))"

lemma bmappedD:
  assumes "bmapped s ip n a t" "n < MAXFILE"
  shows "file_ok t ip" "a \<noteq> 0" "data_ok t a" "baddr t (inode_at ip t) n = a" "a \<noteq> addrs (inode_at ip t) ! NDIRECT"
    "data_ok s a \<Longrightarrow> a \<in> file_blocks s (inode_at ip s)"
proof -
  show b: "file_ok t ip" "a \<noteq> 0" "baddr t (inode_at ip t) n = a" using assms by (auto simp: bmapped_def)
  show "data_ok t a" using inode_okD(6) [of t "inode_at ip t" n] b assms(2) by (simp add: file_ok_def)
  show "a \<noteq> addrs (inode_at ip t) ! NDIRECT" using inode_okD(9) [of t "inode_at ip t" n] b assms(2) by (simp add: file_ok_def)
  have "a \<in> file_blocks t (inode_at ip t)" using b assms(2) by (auto simp: file_blocks_def)
  then show "a \<in> file_blocks s (inode_at ip s)" if "data_ok s a" using assms(1) that by (auto simp: bmapped_def)
qed

text \<open>The bytes after \<^verbatim>\<open>bmap\<close>.\<close>

lemma bmapped_bytes:
  assumes "bmapped s ip n a t" "file_ok s ip" "i div BSIZE < MAXFILE" "baddr s (inode_at ip s) (i div BSIZE) \<noteq> 0"
  shows "baddr t (inode_at ip t) (i div BSIZE) = baddr s (inode_at ip s) (i div BSIZE)" "fbyte t (inode_at ip t) i = fbyte s (inode_at ip s) i"
proof -
  let ?b = "baddr s (inode_at ip s) (i div BSIZE)"
  show b: "baddr t (inode_at ip t) (i div BSIZE) = ?b" using assms by (auto simp: bmapped_def)
  have i: "inode_ok s (inode_at ip s)" using assms(2) by (simp add: file_ok_def)
  have "content t ?b = content s ?b"
    using extendsD(7) [of "{addrs (inode_at ip s) ! NDIRECT} - {0}" s t ?b] assms(1) inode_okD(6,9) [OF i assms(3,4)] by (simp add: bmapped_def)
  then show "fbyte t (inode_at ip t) i = fbyte s (inode_at ip s) i" by (simp add: fbyte_def b)
qed


lemma range_block: "in_range off bs i \<Longrightarrow> off mod BSIZE + length bs \<le> BSIZE \<Longrightarrow> i div BSIZE = off div BSIZE \<and> i mod BSIZE = off mod BSIZE + (i - off)"
  using chunk [of "length bs" off "i - off"] by (auto simp: in_range_def BSIZE_def)

lemma range_index: "i div BSIZE = off div BSIZE \<Longrightarrow> in_range off bs i \<longleftrightarrow> off mod BSIZE \<le> i mod BSIZE \<and> i mod BSIZE < off mod BSIZE + length bs"
  unfolding in_range_def using div_mult_mod_eq [of off BSIZE] div_mult_mod_eq [of i BSIZE] by (metis add_le_cancel_left nat_add_left_cancel_less add.assoc)

text \<open>Overwriting part of a block that the file has.\<close>

lemma write_present:
  fixes s :: "'a fs_scheme"
  assumes ok: "file_ok s ip" and a: "baddr s (inode_at ip s) (off div BSIZE) = a" "a \<noteq> 0" "off div BSIZE < MAXFILE"
    and bs: "off mod BSIZE + length bs \<le> BSIZE"
    and m: "blk.moved {} s ((content s)(a := put_bytes (off mod BSIZE) bs (content s a))) 1 t"
  shows "file_wrote s ip off bs t" "nfree t = nfree s"
proof -
  let ?x = "inode_at ip s"
  have i: "inode_ok s ?x" "ip < length (inodes s)" "bitmap_ok s" using ok by (simp_all add: file_ok_def)
  have ad: "data_ok s a" "a \<noteq> addrs ?x ! NDIRECT" using inode_okD(6,9) [OF i(1) a(3)] a by auto
  then have l: "length (put_bytes (off mod BSIZE) bs (content s a)) = BSIZE" using bs by (simp add: data_ok_def)
  note u = moved_update [OF m i(3) _ l]
  have u: "extends {a} s t" "nfree t = nfree s" "inodes t = inodes s" "in_op {} t" "content t = (content s)(a := put_bytes (off mod BSIZE) bs (content s a))"
    using u ad(1) by (simp_all add: data_ok_def)
  show "nfree t = nfree s" by (rule u(2))
  have x: "inode_at ip t = ?x" using u(3) by (simp add: inode_at_def)
  note e = inode_ok_extends [OF i(1) u(1)]
  have e: "baddr t ?x = baddr s ?x" "inode_ok t ?x" using e ad(2) by simp_all
  have f: "file_ok t ip" using u e i x extendsD(1) [OF u(1)] by (simp add: file_ok_def)
  have inf: "a \<in> file_blocks s ?x" using a by (auto simp: file_blocks_def)
  have byte: "fbyte t ?x k = (if in_range off bs k then bs ! (k - off) else fbyte s ?x k)"
    if "k div BSIZE < MAXFILE" "baddr s ?x (k div BSIZE) \<noteq> 0" for k
  proof (cases "k div BSIZE = off div BSIZE")
    case True
    have "k - off = k mod BSIZE - off mod BSIZE" if "in_range off bs k" using range_block [OF that bs] by simp
    then show ?thesis using True a ad(1) bs range_index [OF True, of bs]
      by (auto simp: fbyte_def e u(5) put_bytes_nth data_ok_def BSIZE_def)
  next
    case False
    then have "\<not> in_range off bs k" using range_block [OF _ bs] by blast
    moreover have "baddr s ?x (k div BSIZE) \<noteq> a" using inode_okD(8) [OF i(1) that(1) a(3)] that(2) False a(1) by metis
    ultimately show ?thesis by (simp add: fbyte_def e u(5))
  qed
  have "file_wrote s ip off bs t" unfolding file_wrote_def x
  proof (intro conjI allI impI)
    fix k assume k: "k < MAXFILE * BSIZE" "baddr s ?x (k div BSIZE) \<noteq> 0 \<or> in_range off bs k"
    then have "baddr s ?x (k div BSIZE) \<noteq> 0" using range_block [OF _ bs, of k] a by auto
    then show "baddr t ?x (k div BSIZE) \<noteq> 0" "fbyte t ?x k = (if in_range off bs k then bs ! (k - off) else fbyte s ?x k)"
      using byte [of k] k(1) e by (simp_all add: less_mult_imp_div_less)
  next
    show "extends (file_blocks s ?x) s t" using extends_mono [OF u(1)] inf by simp
  qed (use f u(3) e in \<open>auto simp: file_blocks_def inode_at_def intro!: exI [of _ "addrs (inodes s ! ip)"]\<close>)
  then show "file_wrote s ip off bs t" .
qed


lemma wrote_after_bmap:
  fixes s :: "'a fs_scheme"
  assumes ok: "file_ok s ip" and b: "bmapped s ip (off div BSIZE) a t" "off div BSIZE < MAXFILE" and w: "file_wrote t ip off bs u"
    and bs: "off mod BSIZE + length bs \<le> BSIZE" "bs \<noteq> []"
  shows "file_wrote s ip off bs u"
proof -
  let ?x = "inode_at ip s" and ?y = "inode_at ip t" and ?z = "inode_at ip u"
  note d = bmappedD [OF b]
  obtain as where t: "inodes t = (inodes s)[ip := ?x\<lparr>addrs := as\<rparr>]" "ip < length (inodes s)"
    "extends ({addrs ?x ! NDIRECT} - {0}) s t" "file_blocks t ?y \<subseteq> file_blocks s ?x \<union> {m. \<not> data_ok s m}"
    using b(1) ok by (auto simp: bmapped_def file_ok_def)
  obtain as' where u: "inodes u = (inodes t)[ip := ?y\<lparr>addrs := as'\<rparr>]" "extends (file_blocks t ?y) t u" "file_ok u ip"
    "file_blocks u ?z \<subseteq> file_blocks t ?y \<union> {m. \<not> data_ok t m}" using w by (auto simp: file_wrote_def)
  have w': "baddr u ?z (i div BSIZE) \<noteq> 0 \<and> fbyte u ?z i = (if in_range off bs i then bs ! (i - off) else fbyte t ?y i)"
    if "i < MAXFILE * BSIZE" "baddr t ?y (i div BSIZE) \<noteq> 0 \<or> in_range off bs i" for i using w that by (simp add: file_wrote_def)
  show ?thesis unfolding file_wrote_def
  proof (intro conjI allI impI)
    show "\<exists>as. inodes u = (inodes s)[ip := ?x\<lparr>addrs := as\<rparr>]" using t u by (auto simp: inode_at_def)
    show "file_blocks u ?z \<subseteq> file_blocks s ?x \<union> {m. \<not> data_ok s m}" using u(4) t(4) extendsD(6) [OF t(3)] by blast
    have "extends (file_blocks s ?x) s t" by (rule extends_mono [OF t(3)]) (auto simp: file_blocks_def)
    then show "extends (file_blocks s ?x) s u" using extends_files [OF _ u(2) t(4)] by blast
  next
    assume h: "has_blocks s ?x off (length bs)"
    then have "baddr s ?x (off div BSIZE) \<noteq> 0" using bs(2) by (auto simp: has_blocks_def)
    then have "inodes t = inodes s" "has_blocks t ?y off (length bs)"
      using b d(2,4) h range_block [OF _ bs(1)] by (auto simp: bmapped_def has_blocks_def in_range_def)
    then show "inodes u = inodes s" using w by (simp add: file_wrote_def)
  next
    fix i assume i: "i < MAXFILE * BSIZE" "baddr s ?x (i div BSIZE) \<noteq> 0 \<or> in_range off bs i"
    have n: "i div BSIZE < MAXFILE" using i(1) by (simp add: less_mult_imp_div_less)
    have "baddr t ?y (i div BSIZE) \<noteq> 0 \<or> in_range off bs i" using i(2) bmapped_bytes(1) [OF b(1) ok n] by auto
    then show "baddr u ?z (i div BSIZE) \<noteq> 0" "fbyte u ?z i = (if in_range off bs i then bs ! (i - off) else fbyte s ?x i)"
      using w' [OF i(1)] i(2) bmapped_bytes(2) [OF b(1) ok n] by auto
  qed (rule u(3))
qed


lemma wrote_trans:
  fixes s :: "'a fs_scheme"
  assumes ok: "file_ok s ip" and w: "file_wrote s ip off a t" "file_wrote t ip (off + length a) b u"
  shows "file_wrote s ip off (a @ b) u"
proof -
  let ?x = "inode_at ip s" and ?y = "inode_at ip t" and ?z = "inode_at ip u"
  obtain as where t: "inodes t = (inodes s)[ip := ?x\<lparr>addrs := as\<rparr>]" "ip < length (inodes s)"
    "extends (file_blocks s ?x) s t" "file_blocks t ?y \<subseteq> file_blocks s ?x \<union> {m. \<not> data_ok s m}"
    using w(1) ok by (auto simp: file_wrote_def file_ok_def)
  obtain as' where u: "inodes u = (inodes t)[ip := ?y\<lparr>addrs := as'\<rparr>]" "extends (file_blocks t ?y) t u" "file_ok u ip"
    "file_blocks u ?z \<subseteq> file_blocks t ?y \<union> {m. \<not> data_ok t m}" using w(2) by (auto simp: file_wrote_def)
  have w1: "baddr t ?y (i div BSIZE) \<noteq> 0 \<and> fbyte t ?y i = (if in_range off a i then a ! (i - off) else fbyte s ?x i)"
    if "i < MAXFILE * BSIZE" "baddr s ?x (i div BSIZE) \<noteq> 0 \<or> in_range off a i" for i using w(1) that by (simp add: file_wrote_def)
  have w2: "baddr u ?z (i div BSIZE) \<noteq> 0 \<and> fbyte u ?z i = (if in_range (off + length a) b i then b ! (i - (off + length a)) else fbyte t ?y i)"
    if "i < MAXFILE * BSIZE" "baddr t ?y (i div BSIZE) \<noteq> 0 \<or> in_range (off + length a) b i" for i using w(2) that by (simp add: file_wrote_def)
  have r: "in_range off (a @ b) i \<longleftrightarrow> in_range off a i \<or> in_range (off + length a) b i" "\<not> (in_range off a i \<and> in_range (off + length a) b i)" for i
    by (auto simp: in_range_def)
  show ?thesis unfolding file_wrote_def
  proof (intro conjI allI impI)
    show "\<exists>as. inodes u = (inodes s)[ip := ?x\<lparr>addrs := as\<rparr>]" using t u by (auto simp: inode_at_def)
    show "file_blocks u ?z \<subseteq> file_blocks s ?x \<union> {m. \<not> data_ok s m}" using u(4) t(4) extendsD(6) [OF t(3)] by blast
    show "extends (file_blocks s ?x) s u" by (rule extends_files [OF t(3) u(2) t(4)])
  next
    assume h: "has_blocks s ?x off (length (a @ b))"
    then have "inodes t = inodes s" using w(1) by (simp add: file_wrote_def has_blocks_def)
    moreover have "has_blocks t ?y (off + length a) (length b)" using h w1 by (auto simp: has_blocks_def)
    ultimately show "inodes u = inodes s" using w(2) by (simp add: file_wrote_def)
  next
    fix i assume i: "i < MAXFILE * BSIZE" "baddr s ?x (i div BSIZE) \<noteq> 0 \<or> in_range off (a @ b) i"
    then show "baddr u ?z (i div BSIZE) \<noteq> 0" "fbyte u ?z i = (if in_range off (a @ b) i then (a @ b) ! (i - off) else fbyte s ?x i)"
      using w1 [OF i(1)] w2 [OF i(1)] r [of i] by (auto simp: nth_append in_range_def)
  qed (rule u(3))
qed

lemma write_chunk_writes:
  fixes s :: "'a fs_scheme"
  assumes ok: "file_ok s ip" and bs: "bs \<noteq> []" "off mod BSIZE + length bs \<le> BSIZE" "off div BSIZE < MAXFILE"
    and room: "lh_n s + 5 < log_cap s" "2 \<le> nfree s"
  shows "\<exists>t. write_chunk ip off bs s = Inr ((), t) \<and> file_wrote s ip off bs t \<and> lh_n t \<le> lh_n s + 6 \<and> nfree s \<le> nfree t + 2"
proof -
  obtain a t where t: "bmap ip (off div BSIZE) s = Inr (a, t)" "bmapped s ip (off div BSIZE) a t" using bmap_maps [OF ok bs(3) room] by blast
  note d = bmappedD [OF t(2) bs(3)]
  have f: "lh_n t \<le> lh_n s + 5" "nfree s \<le> nfree t + 2" "log_cap t = log_cap s" using t(2) by (auto simp: bmapped_def extends_def)
  have i: "in_op {} t" "a < disksize t" "idev (inode_at ip t) = 1"
    using d(1,3) inode_okD(1) by (auto simp: file_ok_def data_ok_def bitmap_ok_def)
  obtain u b v w where u: "blk.moved {} t ((content t)(a := put_bytes (off mod BSIZE) bs (content t a))) 1 u" "bread 1 a t = Inr (b, v)"
      "bnd (set_data b (put_bytes (off mod BSIZE) bs)) (\<lambda>_. log_write b) v = Inr ((), w)" "brelse b w = Inr ((), u)"
    using blk.update_block [OF i(1,2)] room(1) f by (simp, metis)
  note wp = write_present [OF d(1,4,2) bs(3,2) u(1)]
  have "file_wrote s ip off bs u" by (rule wrote_after_bmap [OF ok t(2) bs(3) wp(1) bs(2,1)])
  moreover have "write_chunk ip off bs s = Inr ((), u)" using t(1) u i(3) by (simp add: write_chunk_def ifld_def bnd_seq)
  ultimately show ?thesis using f wp(2) blk.moved_fields [OF u(1)] by auto
qed


text \<open>The number of blocks that \<open>n\<close> bytes at \<open>off\<close> touch, which is how often the loop of \<^verbatim>\<open>writei\<close> runs.\<close>

definition chunks :: "nat \<Rightarrow> nat \<Rightarrow> nat" where
  "chunks off n = (if n = 0 then 0 else (off mod BSIZE + n - 1) div BSIZE + 1)"

lemma chunks_step:
  assumes "0 < n" "m = min n (BSIZE - off mod BSIZE)"
  shows "chunks off n = Suc (chunks (off + m) (n - m))"
proof (cases "n \<le> BSIZE - off mod BSIZE")
  case True
  then have "off mod BSIZE + n - 1 < BSIZE" using assms(1) by (simp add: BSIZE_def)
  then show ?thesis using True assms by (simp add: chunks_def)
next
  case False
  have o: "off mod BSIZE < BSIZE" by (simp add: BSIZE_def)
  have m: "m = BSIZE - off mod BSIZE" "m < n" using False assms(2) by simp_all
  have "(off + m) mod BSIZE = (off mod BSIZE + m) mod BSIZE" by (simp add: mod_add_left_eq)
  then have "(off + m) mod BSIZE = 0" using m(1) o by simp
  moreover have "(off mod BSIZE + n - 1) div BSIZE = Suc ((n - m - 1) div BSIZE)"
    using m o div_add_self1 [of BSIZE "n - m - 1"] by (simp add: BSIZE_def add.commute)
  ultimately show ?thesis using m(2) assms(1) by (simp add: chunks_def)
qed

lemma writei_loop_step:
  assumes "src \<noteq> []" "m = min (length src) (BSIZE - off mod BSIZE)"
  shows "writei_loop ip off src = bnd (write_chunk ip off (take m src)) (\<lambda>_. writei_loop ip (off + m) (drop m src))"
  using assms by (subst writei_loop.simps) (simp add: write_chunk_def bnd_assoc Let_def)

lemma writei_loop_writes:
  fixes s :: "'a fs_scheme"
  assumes "file_ok s ip" "off + length src \<le> MAXFILE * BSIZE"
    "lh_n s + 6 * int (chunks off (length src)) \<le> log_cap s" "2 * chunks off (length src) \<le> nfree s"
  shows "\<exists>t. writei_loop ip off src s = Inr (off + length src, t) \<and> file_wrote s ip off src t
    \<and> lh_n t \<le> lh_n s + 6 * int (chunks off (length src))"
  using assms
proof (induction "length src" arbitrary: off src s rule: less_induct)
  case less
  show ?case
  proof (cases "src = []")
    case True
    have "extends W s s" for W using less.prems(1) by (simp add: extends_def file_ok_def)
    then have "file_wrote s ip off [] s" using less.prems(1)
      by (auto simp: file_wrote_def in_range_def inode_at_def intro!: exI [of _ "addrs (inodes s ! ip)"])
    then show ?thesis using True by (subst writei_loop.simps) simp
  next
    case False
    define m where "m = min (length src) (BSIZE - off mod BSIZE)"
    have o: "off mod BSIZE < BSIZE" by (simp add: BSIZE_def)
    have m: "0 < m" "m \<le> length src" "off mod BSIZE + m \<le> BSIZE" using False o by (simp_all add: m_def)
    have c: "chunks off (length src) = Suc (chunks (off + m) (length src - m))" using chunks_step [OF _ m_def] False by simp
    have "off < MAXFILE * BSIZE" using less.prems(2) False by (cases src) auto
    then have "off div BSIZE < MAXFILE" by (simp add: less_mult_imp_div_less)
    from write_chunk_writes [OF less.prems(1) _ _ this, of "take m src"]
    obtain t where t: "write_chunk ip off (take m src) s = Inr ((), t)" "file_wrote s ip off (take m src) t" "lh_n t \<le> lh_n s + 6" "nfree s \<le> nfree t + 2"
      using m less.prems(3,4) c False by auto
    have f: "file_ok t ip" "log_cap t = log_cap s" using t(2) by (auto simp: file_wrote_def extends_def)
    have "length (drop m src) < length src" using m by simp
    then obtain u where u: "writei_loop ip (off + m) (drop m src) t = Inr (off + m + (length src - m), u)" "file_wrote t ip (off + m) (drop m src) u"
        "lh_n u \<le> lh_n t + 6 * int (chunks (off + m) (length src - m))"
      using less.hyps [of "drop m src" t "off + m"] m f less.prems(2-4) t(3,4) c by auto
    have "file_wrote s ip off src u" using wrote_trans [OF less.prems(1) t(2), of "drop m src" u] u(2) m(2) by simp
    moreover have "writei_loop ip off src s = Inr (off + length src, u)"
      using t(1) u(1) m(2) by (simp add: writei_loop_step [OF False m_def])
    ultimately show ?thesis using t(3) u(3) c by auto
  qed
qed


section \<open>The disk inode\<close>

text \<open>What \<^verbatim>\<open>iupdate\<close> puts into the block of the inode is what \<^verbatim>\<open>ilock\<close> gets from it.\<close>

lemma put16_length [simp]: "length (put16 i v d) = length d" by (simp add: put16_def)

lemma get16_put16 [simp]: "i + 1 < length d \<Longrightarrow> get16 (put16 i v d) i = v"
  by (rule bit_word_eqI) (auto simp: get16_def put16_def bit_simps nth_list_update)

lemma get16_put16_other [simp]: "i + 1 < j \<or> j + 1 < i \<Longrightarrow> get16 (put16 i v d) j = get16 d j"
  by (auto simp: get16_def put16_def)

lemma get16_put32_other [simp]: "i + 3 < j \<or> j + 1 < i \<Longrightarrow> get16 (put32 i v d) j = get16 d j"
  by (auto simp: get16_def put32_def)

lemma foldl_put32_length [simp]: "length (foldl (\<lambda>d j. put32 (f j) (g j) d) d js) = length d"
  by (induction js arbitrary: d) simp_all

lemma put_dinode_length [simp]: "length (put_dinode x d) = length d"
  by (simp add: put_dinode_def Let_def del: upt_Suc)

lemma get_foldl_put32:
  assumes "k + 4 * n \<le> length d"
  shows "\<And>j. j < n \<Longrightarrow> get32 (foldl (\<lambda>d j. put32 (k + 4 * j) (g j) d) d [0..<n]) (k + 4 * j) = g j"
    "\<And>i. i + 3 < k \<Longrightarrow> get32 (foldl (\<lambda>d j. put32 (k + 4 * j) (g j) d) d [0..<n]) i = get32 d i"
    "\<And>i. i + 1 < k \<Longrightarrow> get16 (foldl (\<lambda>d j. put32 (k + 4 * j) (g j) d) d [0..<n]) i = get16 d i"
  using assms by (induction n) (auto simp: less_Suc_eq)

lemma dinode_roundtrip:
  assumes "length (addrs x) = NDIRECT + 1" "length d = BSIZE"
  shows "get_dinode (put_dinode x d) x = x"
proof -
  have k: "doff (inum x) + 12 + 4 * (NDIRECT + 1) \<le> BSIZE"
  proof -
    have "unat (inum x) mod IPB < IPB" by (simp add: IPB_def BSIZE_def)
    then show ?thesis by (simp add: doff_def NDIRECT_def IPB_def BSIZE_def)
  qed
  have a: "map (\<lambda>j. get32 (put_dinode x d) (doff (inum x) + 12 + 4 * j)) [0..<NDIRECT + 1] = addrs x"
    using k assms get_foldl_put32(1) [of "doff (inum x) + 12" "NDIRECT + 1"]
    by (intro nth_equalityI) (simp_all add: put_dinode_def Let_def del: upt_Suc)
  show ?thesis unfolding get_dinode_def Let_def a
    using k assms(2) get_foldl_put32(2,3) [of "doff (inum x) + 12" "NDIRECT + 1"] by (simp add: put_dinode_def Let_def del: upt_Suc)
qed

text \<open>The inode in memory and the inode on the disk agree.\<close>

definition stored :: "'a fs_scheme \<Rightarrow> nat \<Rightarrow> bool" where
  "stored s ip \<longleftrightarrow> get_dinode (content s (inode_block s (inode_at ip s))) (inode_at ip s) = inode_at ip s"

lemma isize_upd [simp]:
  "baddr s (x\<lparr>isize := v\<rparr>) = baddr s x" "file_blocks s (x\<lparr>isize := v\<rparr>) = file_blocks s x" "inode_block s (x\<lparr>isize := v\<rparr>) = inode_block s x"
  "inode_ok s (x\<lparr>isize := v\<rparr>) = inode_ok s x" "fbyte s (x\<lparr>isize := v\<rparr>) = fbyte s x" "has_blocks s (x\<lparr>isize := v\<rparr>) = has_blocks s x"
  by (simp_all add: fun_eq_iff baddr_def file_blocks_def inode_block_def inode_ok_def fbyte_def has_blocks_def)

lemma iupdate_stores:
  fixes s :: "'a fs_scheme"
  assumes ok: "file_ok s ip" and room: "lh_n s < log_cap s"
  shows "\<exists>t. iupdate ip s = Inr ((), t) \<and> file_ok t ip \<and> inodes t = inodes s \<and> stored t ip \<and> extends {inode_block s (inode_at ip s)} s t
    \<and> baddr t (inode_at ip s) = baddr s (inode_at ip s) \<and> lh_n t \<le> lh_n s + 1
    \<and> (\<forall>i < MAXFILE * BSIZE. baddr s (inode_at ip s) (i div BSIZE) \<noteq> 0 \<longrightarrow> fbyte t (inode_at ip s) i = fbyte s (inode_at ip s) i)"
proof -
  let ?x = "inode_at ip s" and ?b = "inode_block s (inode_at ip s)"
  have i: "inode_ok s ?x" "in_op {} s" "bitmap_ok s" "ip < length (inodes s)" using ok by (simp_all add: file_ok_def)
  have b: "data_ok s ?b" "?b \<notin> insert 0 (file_blocks s ?x)" using inode_okD(4,5) [OF i(1)] by simp_all
  have d: "?b < disksize s" "?b \<notin> bitmap_blocks (sb s)" "length (put_dinode ?x (content s ?b)) = BSIZE"
    using b(1) i(3) by (auto simp: data_ok_def bitmap_ok_def)
  obtain t c u v where t: "blk.moved {} s ((content s)(?b := put_dinode ?x (content s ?b))) 1 t" "bread 1 ?b s = Inr (c, u)"
      "bnd (set_data c (put_dinode ?x)) (\<lambda>_. log_write c) u = Inr ((), v)" "brelse c v = Inr ((), t)"
    using blk.update_block [OF i(2) d(1)] room by (simp, metis)
  note m = moved_update [OF t(1) i(3) d(2,3)]
  have ind: "addrs ?x ! NDIRECT \<noteq> ?b" using b(2) by (auto simp: file_blocks_def)
  note e = inode_ok_extends [OF i(1) m(1)]
  have e: "baddr t ?x = baddr s ?x" "inode_ok t ?x" using e ind by simp_all
  have x: "inode_at ip t = ?x" "inode_block t ?x = ?b" using m(3) extendsD(2) [OF m(1)] by (simp_all add: inode_at_def inode_block_def)
  have "stored t ip" unfolding stored_def x m(5) using dinode_roundtrip [OF inode_okD(2) [OF i(1)]] b(1) by (simp add: data_ok_def)
  moreover have "fbyte t ?x k = fbyte s ?x k" if "k < MAXFILE * BSIZE" "baddr s ?x (k div BSIZE) \<noteq> 0" for k
  proof -
    have "baddr s ?x (k div BSIZE) \<in> file_blocks s ?x" using that by (auto simp: file_blocks_def less_mult_imp_div_less)
    then show ?thesis using b(2) by (auto simp: fbyte_def e m(5))
  qed
  moreover have "iupdate ip s = Inr ((), t)"
    using t(2-4) inode_okD(1) [OF i(1)] by (simp add: iupdate_def bnd_seq inode_block_def)
  ultimately show ?thesis
    using m e x i(4) extendsD(1) [OF m(1)] blk.moved_fields [OF t(1)] by (intro exI [of _ t]) (simp add: file_ok_def)
qed


section \<open>writei\<close>

text \<open>The outcome of \<^verbatim>\<open>writei\<close>: the file with the bytes replaced, everything else as it was.\<close>

definition file_updated :: "'a fs_scheme \<Rightarrow> nat \<Rightarrow> nat \<Rightarrow> u8 list \<Rightarrow> 'a fs_scheme \<Rightarrow> bool" where
  "file_updated s ip off src t \<longleftrightarrow> whole t ip \<and> file_data t ip = put_bytes off src (file_data s ip)
     \<and> (\<exists>as v. inode_at ip t = (inode_at ip s)\<lparr>addrs := as, isize := v\<rparr>)
     \<and> length (inodes t) = length (inodes s) \<and> (\<forall>j. j \<noteq> ip \<longrightarrow> inode_at j t = inode_at j s)
     \<and> extends (insert (inode_block s (inode_at ip s)) (file_blocks s (inode_at ip s))) s t
     \<and> (stored s ip \<longrightarrow> stored t ip)"

lemma whole_write:
  fixes s :: "'a fs_scheme"
  assumes w: "whole s ip" and len: "off \<le> unat (isize (inode_at ip s))" "off + length src \<le> MAXFILE * BSIZE"
    and f: "file_ok t ip" "inode_at ip t = (inode_at ip s)\<lparr>addrs := as, isize := v\<rparr>" "unat v = max (unat (isize (inode_at ip s))) (off + length src)"
    and b: "\<And>i. i < MAXFILE * BSIZE \<Longrightarrow> baddr s (inode_at ip s) (i div BSIZE) \<noteq> 0 \<or> in_range off src i \<Longrightarrow>
      baddr t (inode_at ip t) (i div BSIZE) \<noteq> 0
      \<and> fbyte t (inode_at ip t) i = (if in_range off src i then src ! (i - off) else fbyte s (inode_at ip s) i)"
  shows "whole t ip" "file_data t ip = put_bytes off src (file_data s ip)"
proof -
  let ?x = "inode_at ip s" and ?y = "inode_at ip t" and ?n = "unat (isize (inode_at ip s))"
  have h: "has_blocks s ?x 0 ?n" "itype ?x \<noteq> T_DEV" using w by (simp_all add: whole_def)
  have has: "baddr s ?x (i div BSIZE) \<noteq> 0 \<or> in_range off src i" "i < MAXFILE * BSIZE" if "i < max ?n (off + length src)" for i
    using that h(1) len by (cases "i < ?n"; simp add: has_blocks_def in_range_def)+
  have y: "unat (isize ?y) = max ?n (off + length src)" "itype ?y = itype ?x" by (simp_all add: f(2,3))
  show "whole t ip" using f(1) h y len b has by (auto simp: whole_def has_blocks_def)
  show "file_data t ip = put_bytes off src (file_data s ip)"
  proof (rule nth_equalityI)
    show "length (file_data t ip) = length (put_bytes off src (file_data s ip))" using y(1) len(1) by (simp add: file_data_def put_bytes_def)
    fix i assume "i < length (file_data t ip)"
    then have i: "i < max ?n (off + length src)" using y(1) by (simp add: file_data_def)
    then show "file_data t ip ! i = put_bytes off src (file_data s ip) ! i"
      using b [OF has(2,1) [OF i]] y(1) len(1) by (auto simp: file_data_def put_bytes_def nth_append in_range_def)
  qed
qed


lemma file_wroteD:
  assumes "file_wrote s ip off src t" "file_ok s ip"
  obtains as where "file_ok t ip" "inodes t = (inodes s)[ip := (inode_at ip s)\<lparr>addrs := as\<rparr>]" "inode_at ip t = (inode_at ip s)\<lparr>addrs := as\<rparr>"
    "extends (file_blocks s (inode_at ip s)) s t"
proof -
  obtain as where t: "file_ok t ip" "inodes t = (inodes s)[ip := (inode_at ip s)\<lparr>addrs := as\<rparr>]" "extends (file_blocks s (inode_at ip s)) s t"
    using assms(1) unfolding file_wrote_def by blast
  then have "inode_at ip t = (inode_at ip s)\<lparr>addrs := as\<rparr>" using assms(2) by (simp add: inode_at_def file_ok_def)
  then show thesis using that t by blast
qed

lemma stored_kept:
  assumes "stored s ip" "file_ok s ip" "extends (file_blocks s (inode_at ip s)) s t" "inodes t = inodes s"
  shows "stored t ip"
proof -
  let ?x = "inode_at ip s"
  have i: "inode_ok s ?x" using assms(2) by (simp add: file_ok_def)
  have "inode_at ip t = ?x" "inode_block t ?x = inode_block s ?x" using assms(4) extendsD(2) [OF assms(3)] by (simp_all add: inode_at_def inode_block_def)
  moreover have "content t (inode_block s ?x) = content s (inode_block s ?x)"
    using extendsD(7) [OF assms(3) inode_okD(4) [OF i]] inode_okD(5) [OF i] by simp
  ultimately show ?thesis using assms(1) by (simp add: stored_def)
qed

text \<open>The two ends of \<^verbatim>\<open>writei\<close>: the file keeps its size, or it grows and \<^verbatim>\<open>iupdate\<close> stores the new size.\<close>

lemma write_within:
  fixes s :: "'a fs_scheme"
  assumes w: "whole s ip" and fw: "file_wrote s ip off src t" and le: "off + length src \<le> unat (isize (inode_at ip s))"
  shows "file_updated s ip off src t"
proof -
  let ?x = "inode_at ip s"
  have i: "file_ok s ip" "has_blocks s ?x 0 (unat (isize ?x))" using w by (simp_all add: whole_def)
  then have "has_blocks s ?x off (length src)" using le by (auto simp: has_blocks_def)
  then have t: "inodes t = inodes s" "file_ok t ip" "extends (file_blocks s ?x) s t" using fw by (simp_all add: file_wrote_def)
  have x: "inode_at ip t = ?x" using t(1) by (simp add: inode_at_def)
  have "whole t ip" "file_data t ip = put_bytes off src (file_data s ip)"
    using whole_write [OF w _ _ t(2), where off = off and src = src and as = "addrs ?x" and v = "isize ?x"] fw le i(2) x by (auto simp: file_wrote_def has_blocks_def)
  moreover have "\<exists>as v. inode_at ip t = ?x\<lparr>addrs := as, isize := v\<rparr>" by (rule exI [of _ "addrs ?x"], rule exI [of _ "isize ?x"]) (simp add: x)
  ultimately show ?thesis using t extends_mono [OF t(3)] stored_kept [OF _ i(1) t(3,1)] by (auto simp: file_updated_def inode_at_def)
qed

lemma write_grows:
  fixes s :: "'a fs_scheme"
  assumes w: "whole s ip" and fw: "file_wrote s ip off src t" and len: "off \<le> unat (isize (inode_at ip s))" "off + length src \<le> MAXFILE * BSIZE"
      "unat (isize (inode_at ip s)) < off + length src"
    and v: "unat v = off + length src" and room: "lh_n t < log_cap t"
  shows "\<exists>u. bnd (upd_inode ip (\<lambda>x. x\<lparr>isize := v\<rparr>)) (\<lambda>_. iupdate ip) t = Inr ((), u) \<and> file_updated s ip off src u \<and> lh_n u \<le> lh_n t + 1"
proof -
  let ?x = "inode_at ip s"
  have i: "file_ok s ip" using w by (simp add: whole_def)
  obtain as where t: "file_ok t ip" "inodes t = (inodes s)[ip := ?x\<lparr>addrs := as\<rparr>]" "inode_at ip t = ?x\<lparr>addrs := as\<rparr>" "extends (file_blocks s ?x) s t"
    using file_wroteD [OF fw i] .
  define y where "y = ?x\<lparr>addrs := as, isize := v\<rparr>"
  define t' where "t' = t\<lparr>inodes := (inodes t)[ip := y]\<rparr>"
  have l: "ip < length (inodes t)" "in_op {} t" "bitmap_ok t" "inode_ok t (inode_at ip t)" using t(1) by (simp_all add: file_ok_def)
  have y: "inode_at ip t' = y" "y = (inode_at ip t)\<lparr>isize := v\<rparr>" "file_ok t' ip" using l t(3) by (simp_all add: t'_def y_def file_ok_def)
  have same: "baddr t' y = baddr t (inode_at ip t)" "fbyte t' y = fbyte t (inode_at ip t)" "inode_block t' y = inode_block s ?x"
    using extendsD(2) [OF t(4)] by (simp_all add: y(2) t'_def fbyte_def fun_eq_iff) (simp add: t(3) inode_block_def)
  obtain u where u: "iupdate ip t' = Inr ((), u)" "file_ok u ip" "inodes u = inodes t'" "stored u ip" "extends {inode_block s ?x} t' u"
      "baddr u y = baddr t' y" "lh_n u \<le> lh_n t' + 1"
      "\<And>i. i < MAXFILE * BSIZE \<Longrightarrow> baddr t' y (i div BSIZE) \<noteq> 0 \<Longrightarrow> fbyte u y i = fbyte t' y i"
    using iupdate_stores [OF y(3)] room y(1) same(3) by (auto simp: t'_def)
  have uy: "inode_at ip u = y" using u(3) y(1) by (simp add: inode_at_def)
  have "whole u ip" "file_data u ip = put_bytes off src (file_data s ip)"
    using whole_write [OF w len(1,2) u(2), where as = as and v = v] fw v len(3) uy u(6,8) same by (auto simp: file_wrote_def y_def)
  moreover have "extends (insert (inode_block s ?x) (file_blocks s ?x)) s u"
    using extends_trans [OF t(4), of "{inode_block s ?x}" u] u(5) by (simp add: t'_def)
  moreover have "inode_at j u = inode_at j s" if "j \<noteq> ip" for j using that u(3) t(2) by (simp add: inode_at_def t'_def)
  moreover have "bnd (upd_inode ip (\<lambda>x. x\<lparr>isize := v\<rparr>)) (\<lambda>_. iupdate ip) t = Inr ((), u)"
    using u(1) y(2) l(1) by (simp add: upd_inode_run t'_def)
  moreover have "\<exists>as v. inode_at ip u = ?x\<lparr>addrs := as, isize := v\<rparr>" using uy y_def by blast
  ultimately show ?thesis using u(3,4,7) t(2) by (auto simp: file_updated_def t'_def)
qed


lemma writei_updates:
  fixes s :: "'a fs_scheme"
  assumes w: "whole s ip" and len: "off \<le> isize (inode_at ip s)" "unat off + length src \<le> MAXFILE * BSIZE"
    and room: "lh_n s + 6 * int (chunks (unat off) (length src)) < log_cap s" "2 * chunks (unat off) (length src) \<le> nfree s"
  shows "\<exists>t. writei ip src off s = Inr (int (length src), t) \<and> file_updated s ip (unat off) src t
    \<and> lh_n t \<le> lh_n s + 6 * int (chunks (unat off) (length src)) + 1"
proof -
  let ?x = "inode_at ip s" and ?e = "unat off + length src" and ?n = "of_nat (length src) :: u32"
  have i: "file_ok s ip" "itype ?x \<noteq> T_DEV" using w by (simp_all add: whole_def)
  obtain t where t: "writei_loop ip (unat off) src s = Inr (?e, t)" "file_wrote s ip (unat off) src t"
      "lh_n t \<le> lh_n s + 6 * int (chunks (unat off) (length src))"
    using writei_loop_writes [OF i(1) len(2) _ room(2)] room(1) by auto
  obtain as where f: "inode_at ip t = ?x\<lparr>addrs := as\<rparr>" "extends (file_blocks s ?x) s t" using file_wroteD [OF t(2) i(1)] by metis
  have small: "?e < 2 ^ 32" "MAXFILE * BSIZE < 2 ^ 32" using len(2) by (simp_all add: MAXFILE_def NDIRECT_def NINDIRECT_def BSIZE_def)
  then have n: "unat ?n = length src" "unat (of_nat ?e :: u32) = ?e" "unat (of_nat (MAXFILE * BSIZE) :: u32) = MAXFILE * BSIZE"
    by (simp_all add: unat_nat32 del: of_nat_add of_nat_mult)
  have sum: "off + ?n = of_nat ?e" by simp
  have c: "\<not> off > isize ?x" "\<not> off + ?n < off" "\<not> off + ?n > of_nat (MAXFILE * BSIZE)" "sint ?n = int (length src)"
    "of_nat ?e > isize ?x \<longleftrightarrow> ?e > unat (isize ?x)" "?n > 0 \<longleftrightarrow> src \<noteq> []"
    unfolding sum using len n small_word [of ?n] by (auto simp: word_less_nat_alt word_le_nat_alt simp del: of_nat_add of_nat_mult)
  let ?tail = "if ?n > 0 \<and> of_nat ?e > isize ?x
    then bnd (upd_inode ip (\<lambda>x. x\<lparr>isize := of_nat ?e\<rparr>)) (\<lambda>_. iupdate ip) else ret ()"
  have "\<exists>u. ?tail t = Inr ((), u) \<and> file_updated s ip (unat off) src u \<and> lh_n u \<le> lh_n t + 1"
  proof (cases "?e > unat (isize ?x)")
    case True
    then show ?thesis
      using write_grows [OF w t(2) _ len(2) True n(2)] len(1) c(5,6) t(3) room(1) extendsD(5) [OF f(2)] 
      by (auto simp: word_le_nat_alt simp del: of_nat_add upd_inode_run)
  next
    case False
    then show ?thesis using write_within [OF w t(2)] c(5) by (auto simp del: of_nat_add)
  qed
  then obtain u where "?tail t = Inr ((), u)" "file_updated s ip (unat off) src u" "lh_n u \<le> lh_n t + 1" by blast
  then show ?thesis using t(1,3) i(2) c(1-4) f(1)
    by (intro exI [of _ u]) (simp add: writei_def ifld_def Let_def del: of_nat_add upd_inode_run)
qed


section \<open>Files are byte strings\<close>

text \<open>Claim C5. \<^verbatim>\<open>readi\<close> of a file implements reading from a byte string: it returns \<open>n\<close> bytes from \<open>off\<close> on, fewer at the end of
  the file, and their number; it changes no block and no inode. An offset behind the end of the file, or one whose sum with the length
  wraps around, is answered by -1.\<close>

theorem readi_reads:
  fixes s :: "'a fs_scheme"
  assumes "whole s ip" "lh_n s < log_cap s"
  shows "if off > isize (inode_at ip s) \<or> off + n < off then readi ip off n s = Inr ((-1, []), s)
    else \<exists>t. readi ip off n s = Inr ((int (length (take (unat n) (drop (unat off) (file_data s ip)))), take (unat n) (drop (unat off) (file_data s ip))), t)
      \<and> whole t ip \<and> file_data t ip = file_data s ip \<and> content t = content s \<and> inodes t = inodes s"
proof (cases "off > isize (inode_at ip s) \<or> off + n < off")
  case True
  then show ?thesis using assms(1) by (auto simp: readi_def whole_def)
next
  case False
  have b: "file_ok s ip" "bitmap_ok s" using assms(1) by (simp_all add: whole_def file_ok_def)
  obtain t where t: "readi ip off n s = Inr ((int (length (take (unat n) (drop (unat off) (file_data s ip)))), take (unat n) (drop (unat off) (file_data s ip))), t)"
      "blk.moved {} s (content s) 0 t"
    using readi_slice [OF assms] False by (meson not_le)
  note f = file_ok_moved [OF b(1) t(2)] and m = moved_same [OF t(2) b(2)]
  have "whole t ip" "file_data t ip = file_data s ip" using f assms(1) by (simp_all add: whole_def file_data_def)
  then show ?thesis unfolding if_not_P [OF False] using t(1) m by blast
qed

text \<open>A file apart from the one that is written.\<close>

lemma other_file:
  fixes s :: "'a fs_scheme"
  assumes w: "whole s ip" and u: "file_updated s ip off src t" and o: "j \<noteq> ip" "whole s j"
    and d: "file_blocks s (inode_at j s) \<inter> insert (inode_block s (inode_at ip s)) (file_blocks s (inode_at ip s)) = {}"
  shows "whole t j" "file_data t j = file_data s j"
proof -
  let ?y = "inode_at j s" and ?W = "insert (inode_block s (inode_at ip s)) (file_blocks s (inode_at ip s))"
  have t: "inode_at j t = ?y" "extends ?W s t" "in_op {} t" "bitmap_ok t" "length (inodes t) = length (inodes s)" using u o(1) by (auto simp: file_updated_def whole_def file_ok_def)
  have y: "inode_ok s ?y" "j < length (inodes s)" "has_blocks s ?y 0 (unat (isize ?y))" "itype ?y \<noteq> T_DEV"
    using o(2) by (simp_all add: whole_def file_ok_def)
  have "0 \<notin> ?W" using w inode_okD(5) [of s "inode_at ip s"] by (auto simp: whole_def file_ok_def file_blocks_def)
  then have "addrs ?y ! NDIRECT \<notin> ?W" using d by (cases "addrs ?y ! NDIRECT = 0") (auto simp: file_blocks_def)
  note e = inode_ok_extends [OF y(1) t(2) this]
  have c: "content t (baddr s ?y n) = content s (baddr s ?y n)" if "n < MAXFILE" "baddr s ?y n \<noteq> 0" for n
  proof -
    have "baddr s ?y n \<in> file_blocks s ?y" using that by (auto simp: file_blocks_def)
    then show ?thesis using d extendsD(7) [OF t(2) inode_okD(6) [OF y(1) that]] by blast
  qed
  show "whole t j" using t e y by (simp add: whole_def file_ok_def has_blocks_def)
  have "fbyte t ?y k = fbyte s ?y k" if "k < unat (isize ?y)" for k
    using that y(3) c [of "k div BSIZE"] by (simp add: fbyte_def e(1) has_blocks_def less_mult_imp_div_less)
  then show "file_data t j = file_data s j" by (simp add: file_data_def t(1))
qed

text \<open>Claim C4. \<^verbatim>\<open>writei\<close> implements overwriting a byte string: the \<open>n\<close> bytes are put at \<open>off\<close>, the file grows if they reach behind its
  end, and \<^verbatim>\<open>readi\<close> reads them back; blocks are allocated as needed. If the inode on the disk was up to date it still is, although
  \<^verbatim>\<open>writei\<close> calls \<^verbatim>\<open>iupdate\<close> only when the size changes. Any other file that shares no block with this one keeps its bytes. The log
  must have room for six entries per block that is written (the block, its bitmap block and the new block, for it and for the indirect block)
  and two more.\<close>

theorem writei_writes:
  fixes s :: "'a fs_scheme"
  assumes "whole s ip" "off \<le> isize (inode_at ip s)" "unat off + length src \<le> MAXFILE * BSIZE"
    "lh_n s + 6 * int (chunks (unat off) (length src)) + 1 < log_cap s" "2 * chunks (unat off) (length src) \<le> nfree s"
  shows "\<exists>t. writei ip src off s = Inr (int (length src), t) \<and> whole t ip \<and> file_data t ip = put_bytes (unat off) src (file_data s ip)
    \<and> (\<exists>u. readi ip off (of_nat (length src)) t = Inr ((int (length src), src), u)) \<and> (stored s ip \<longrightarrow> stored t ip)
    \<and> (\<forall>j. j \<noteq> ip \<and> whole s j
           \<and> file_blocks s (inode_at j s) \<inter> insert (inode_block s (inode_at ip s)) (file_blocks s (inode_at ip s)) = {}
         \<longrightarrow> whole t j \<and> file_data t j = file_data s j)"
proof -
  let ?n = "of_nat (length src) :: u32"
  obtain t where t: "writei ip src off s = Inr (int (length src), t)" "file_updated s ip (unat off) src t"
      "lh_n t \<le> lh_n s + 6 * int (chunks (unat off) (length src)) + 1"
    using writei_updates [OF assms(1-3) _ assms(5)] assms(4) by auto
  have u: "whole t ip" "file_data t ip = put_bytes (unat off) src (file_data s ip)" "stored s ip \<longrightarrow> stored t ip" "log_cap t = log_cap s"
    using t(2) by (auto simp: file_updated_def extends_def)
  have n: "unat ?n = length src" "off \<le> off + ?n"
  proof -
    have small: "unat off + length src < 2 ^ 32" using assms(3) by (simp add: MAXFILE_def NDIRECT_def NINDIRECT_def BSIZE_def)
    then show n: "unat ?n = length src" by (simp add: unat_nat32)
    then show "off \<le> off + ?n" using small by (simp add: no_olen_add_nat)
  qed
  have l: "unat off \<le> length (file_data s ip)" using assms(2) by (simp add: file_data_def word_le_nat_alt)
  then have "unat off \<le> length (file_data t ip)" by (simp add: u(2) put_bytes_def)
  then have "off \<le> isize (inode_at ip t)" by (simp add: file_data_def word_le_nat_alt)
  moreover have "take (length src) (drop (unat off) (file_data t ip)) = src" using l by (simp add: u(2) put_bytes_def)
  ultimately have "\<exists>u. readi ip off ?n t = Inr ((int (length src), src), u)"
    using readi_slice [OF u(1), of off ?n] n t(3) u(4) assms(4) by auto
  then show ?thesis using t(1) u(1-3) other_file [OF assms(1) t(2)] by blast
qed

text \<open>The file of the small file system.\<close>

lemma small_file: "inode_at 0 (binit small_fs) = small_inode"
  by (simp add: inode_at_def small_fs_fields NINODE_def)

lemma small_indirect: "addrs small_inode ! NDIRECT = 0"
  by (simp add: small_inode_def NDIRECT_def)

lemma small_baddr: "n < MAXFILE \<Longrightarrow> baddr (binit small_fs) small_inode n = (if n = 0 then 4 else 0)"
  by (auto simp: baddr_def small_inode_def NDIRECT_def nth_Cons')

lemma small_blocks: "file_blocks (binit small_fs) small_inode = {4}" "inode_block (binit small_fs) small_inode = 3"
proof -
  have "baddr (binit small_fs) small_inode ` {..<MAXFILE} = (\<lambda>n. if n = 0 then 4 else 0) ` {..<MAXFILE}"
    by (intro image_cong) (auto simp: small_baddr)
  moreover have "0 \<in> {..<MAXFILE}" by (simp add: MAXFILE_def NDIRECT_def)
  ultimately show "file_blocks (binit small_fs) small_inode = {4}" by (auto simp: file_blocks_def small_indirect)
  show "inode_block (binit small_fs) small_inode = 3" by (simp add: inode_block_def small_fs_fields) code_simp
qed

lemma small_data: "data_ok (binit small_fs) m" if "m \<in> {0, 3, 4}"
proof -
  have "length (small_image m) = BSIZE" using that by (auto simp: small_image_def pad_block_def BSIZE_def)
  moreover have "block_used (binit small_fs) m" using that by (auto simp: small_used small_bits)
  ultimately show ?thesis using that by (auto simp: data_ok_def small_fs_fields small_fs_cache small_bitmap) (auto simp: small_sb_def)
qed

lemma small_whole: "whole (binit small_fs) 0"
proof -
  let ?s = "binit small_fs"
  have i: "idev small_inode = 1" "length (addrs small_inode) = NDIRECT + 1" "itype small_inode \<noteq> T_DEV" "isize small_inode = 3"
    by (simp_all add: small_inode_def NDIRECT_def T_FILE_def T_DEV_def)
  then have "inode_ok ?s small_inode"
    using small_data by (simp add: inode_ok_def small_blocks small_baddr small_indirect)
  moreover have "has_blocks ?s small_inode 0 3"
    by (auto simp: has_blocks_def small_baddr MAXFILE_def NDIRECT_def NINDIRECT_def BSIZE_def)
  ultimately show ?thesis
    using small_fs_cache small_fs_ok i by (simp add: whole_def file_ok_def small_file small_fs_fields NINODE_def)
qed

lemma small_bytes: "file_data (binit small_fs) 0 = [0, 0, 0]"
proof -
  have "fbyte (binit small_fs) small_inode k = 0" if "k < 3" for k
    using that by (simp add: fbyte_def small_baddr MAXFILE_def NDIRECT_def BSIZE_def small_fs_cache) (simp add: small_image_def pad_block_def BSIZE_def)
  then show ?thesis by (simp add: file_data_def small_file) (simp add: small_inode_def upt_rec)
qed

theorem readi_reads_witness: "\<exists>t. readi 0 1 100 (binit small_fs) = Inr ((2, [0, 0]), t) \<and> content t = small_image"
proof -
  have "\<not> (1 > isize (inode_at 0 (binit small_fs)) \<or> 1 + 100 < (1 :: u32))" by (simp add: small_file small_inode_def)
  then show ?thesis using readi_reads [OF small_whole, of 1 100] by (auto simp: small_fs_fields small_bytes small_fs_cache)
qed

theorem writei_writes_witness:
  "\<exists>t u. writei 0 [7, 8, 9, 10] 2 (binit small_fs) = Inr (4, t) \<and> file_data t 0 = [0, 0, 7, 8, 9, 10]
    \<and> readi 0 2 4 t = Inr ((4, [7, 8, 9, 10]), u)"
proof -
  let ?s = "binit small_fs"
  have c: "chunks (unat (2 :: u32)) (length [7, 8, 9, 10 :: u8]) = 1" by (simp add: chunks_def BSIZE_def)
  have "card {5, 6 :: u32} \<le> nfree ?s" unfolding nfree_def
    by (intro card_mono) (auto simp: small_used small_bits small_fs_fields small_sb_def)
  then have "2 * chunks (unat (2 :: u32)) (length [7, 8, 9, 10 :: u8]) \<le> nfree ?s" unfolding c by simp
  from writei_writes [OF small_whole _ _ _ this] show ?thesis
    unfolding c by (auto simp: small_file small_inode_def small_bytes small_fs_fields put_bytes_def MAXFILE_def NDIRECT_def NINDIRECT_def BSIZE_def)
qed


end
