(* ===== verification/Directory.thy ===== *)
theory Directory
  imports FileData
begin

text \<open>
  Directories are maps from names to inode numbers: \<^verbatim>\<open>dirlookup\<close> looks a name up, \<^verbatim>\<open>dirlink\<close> adds one.
\<close>

unbundle bit_operations_syntax

section \<open>Names\<close>

lemma strncpy_step:
  "strncpy_bytes (Suc n) p = (let a = (case p of [] \<Rightarrow> 0 | x # _ \<Rightarrow> x) in if a = 0 then replicate (Suc n) 0 else a # strncpy_bytes n (tl p))"
  by (cases p) (simp_all add: strncpy_bytes_def Let_def)

lemma length_strncpy [simp]: "length (strncpy_bytes n p) = n"
proof -
  have "length (takeWhile (\<lambda>x. x \<noteq> 0) (take n p)) \<le> n" using length_takeWhile_le [of _ "take n p"] by (metis length_take min.boundedE)
  then show ?thesis by (simp add: strncpy_bytes_def Let_def)
qed

text \<open>Names are compared by their padded form, as \<^verbatim>\<open>strncpy\<close> stores it.\<close>

lemma strncmp_zero: "strncmp_bytes n p q = 0 \<longleftrightarrow> strncpy_bytes n p = strncpy_bytes n q"
proof (induction n arbitrary: p q)
  case (Suc n)
  show ?case by (cases p; cases q) (auto simp: strncpy_step Suc Let_def uint_0_iff dest: word_uint_eqI)
qed (simp add: strncpy_bytes_def)

lemma strncpy_idem: "strncpy_bytes n (strncpy_bytes n p) = strncpy_bytes n p"
proof (induction n arbitrary: p)
  case (Suc n)
  then show ?case by (cases p) (auto simp: strncpy_step Let_def)
qed (simp add: strncpy_bytes_def)

lemma namecmp_iff: "namecmp p q = 0 \<longleftrightarrow> strncpy_bytes DIRSIZ p = strncpy_bytes DIRSIZ q"
  by (simp add: namecmp_def strncmp_zero)

section \<open>Entries\<close>

definition dirent :: "u8 list \<Rightarrow> nat \<Rightarrow> u8 list" where
  "dirent d k = take 16 (drop (16 * k) d)"

definition entry_for :: "u8 list \<Rightarrow> u8 list \<Rightarrow> nat \<Rightarrow> bool" where
  "entry_for d nm k \<longleftrightarrow> de_inum (dirent d k) \<noteq> 0 \<and> namecmp nm (de_name (dirent d k)) = 0"

text \<open>The inode number that a directory has for a name: that of the first entry with the name.\<close>

definition dir_map :: "u8 list \<Rightarrow> u8 list \<Rightarrow> u16 option" where
  "dir_map d nm = map_option (\<lambda>k. de_inum (dirent d k)) (List.find (entry_for d nm) [0..<length d div 16])"

definition directory :: "'a fs_scheme \<Rightarrow> nat \<Rightarrow> bool" where
  "directory s dp \<longleftrightarrow> whole s dp \<and> itype (inode_at dp s) = T_DIR \<and> 16 dvd length (file_data s dp)"

lemma directoryD:
  assumes "directory s dp"
  shows "whole s dp" "itype (inode_at dp s) = T_DIR" "length (file_data s dp) = 16 * (length (file_data s dp) div 16)"
    "unat (isize (inode_at dp s)) = length (file_data s dp)" "length (file_data s dp) \<le> MAXFILE * BSIZE"
  using assms by (auto simp: directory_def file_data_def whole_def has_blocks_def)

lemma read_entry:
  fixes s :: "'a fs_scheme"
  assumes "directory s dp" "lh_n s < log_cap s" "k < length (file_data s dp) div 16"
  shows "\<exists>t. readi dp (of_nat (16 * k)) 16 s = Inr ((16, dirent (file_data s dp) k), t) \<and> blk.moved {} s (content s) 0 t"
proof -
  let ?d = "file_data s dp" and ?o = "of_nat (16 * k) :: u32"
  note d = directoryD [OF assms(1)]
  have k: "16 * k + 16 \<le> length ?d" using assms(3) d(3) by linarith
  have o: "unat ?o = 16 * k" using k d(5) by (intro unat_nat32) (simp add: MAXFILE_def NDIRECT_def NINDIRECT_def BSIZE_def)
  have "?o \<le> isize (inode_at dp s)" using k d(4) by (simp only: word_le_nat_alt o)
  moreover have "?o \<le> ?o + 16"
    using k d(5) by (simp only: no_olen_add_nat o) (simp add: MAXFILE_def NDIRECT_def NINDIRECT_def BSIZE_def)
  ultimately obtain t where "readi dp ?o 16 s = Inr ((int (length (take (unat (16 :: u32)) (drop (unat ?o) ?d))), take (unat (16 :: u32)) (drop (unat ?o) ?d)), t)"
      "blk.moved {} s (content s) 0 t"
    using readi_slice [OF d(1) assms(2)] by blast
  moreover have "length (take 16 (drop (16 * k) ?d)) = 16" using k by simp
  ultimately show ?thesis unfolding o dirent_def by auto
qed

lemma directory_moved:
  fixes s :: "'a fs_scheme"
  assumes "directory s dp" "blk.moved {} s (content s) 0 t"
  shows "directory t dp" "file_data t dp = file_data s dp" "inodes t = inodes s" "lh_n t = lh_n s" "log_cap t = log_cap s" "idev (inode_at dp t) = 1"
proof -
  have f: "file_ok s dp" "bitmap_ok s" using directoryD(1) [OF assms(1)] by (simp_all add: whole_def file_ok_def)
  note m = file_ok_moved [OF f(1) assms(2)] and n = moved_same [OF assms(2) f(2)]
  show d: "file_data t dp = file_data s dp" by (simp add: file_data_def m)
  show "directory t dp" using assms(1) m by (simp add: directory_def whole_def d T_DIR_def T_DEV_def)
  show "inodes t = inodes s" by (rule n)
  show "lh_n t = lh_n s" "log_cap t = log_cap s" using blk.moved_fields [OF assms(2)] assms(2) by (auto simp: blk.moved_def)
  show "idev (inode_at dp t) = 1" using m(1) inode_okD(1) by (auto simp: file_ok_def)
qed

lemma dirlookup_loop_finds:
  fixes s :: "'a fs_scheme"
  assumes "directory s dp" "lh_n s < log_cap s" "n = length (file_data s dp) div 16" "k \<le> n"
  shows "\<exists>t. blk.moved {} s (content s) 0 t \<and> dirlookup_loop dp nm (16 * k) (16 * n) s =
    (case List.find (entry_for (file_data s dp) nm) [k..<n] of None \<Rightarrow> Inr (None, t)
     | Some j \<Rightarrow> bnd (iget 1 (ucast (de_inum (dirent (file_data s dp) j)))) (\<lambda>ip. ret (Some (ip, of_nat (16 * j)))) t)"
  using assms
proof (induction "n - k" arbitrary: k s)
  case 0
  then show ?case using blk.moved_refl [of "{}" s] by (subst dirlookup_loop.simps) (auto simp: directory_def whole_def file_ok_def)
next
  case (Suc m)
  let ?d = "file_data s dp"
  have l: "m = n - Suc k" using Suc.hyps(2) by simp
  have k: "k < n" "[k..<n] = k # [Suc k..<n]" using Suc.hyps(2) by (simp_all add: upt_conv_Cons)
  obtain t where t: "readi dp (of_nat (16 * k)) 16 s = Inr ((16, dirent ?d k), t)" "blk.moved {} s (content s) 0 t"
    using read_entry [OF Suc.prems(1,2)] k(1) Suc.prems(3) by blast
  note m = directory_moved [OF Suc.prems(1) t(2)]
  show ?case
  proof (cases "entry_for ?d nm k")
    case True
    then show ?thesis using t k m(6) by (subst dirlookup_loop.simps) (auto simp: entry_for_def ifld_def simp del: of_nat_mult)
  next
    case False
    obtain u where u: "blk.moved {} t (content t) 0 u" "dirlookup_loop dp nm (16 * Suc k) (16 * n) t =
      (case List.find (entry_for ?d nm) [Suc k..<n] of None \<Rightarrow> Inr (None, u)
       | Some j \<Rightarrow> bnd (iget 1 (ucast (de_inum (dirent ?d j)))) (\<lambda>ip. ret (Some (ip, of_nat (16 * j)))) u)"
      using Suc.hyps(1) [of "Suc k" t, unfolded m(2)] l Suc.prems m(1,4,5) k(1) by auto
    have "dirlookup_loop dp nm (16 * k) (16 * n) s = dirlookup_loop dp nm (16 * Suc k) (16 * n) t"
      using False k(1) t(1) by (subst dirlookup_loop.simps) (auto simp: entry_for_def add.commute simp del: of_nat_mult)
    then show ?thesis using u False k(2) blk.moved_trans [OF t(2) u(1)] blk.moved_fields [OF t(2)] by auto
  qed
qed

lemma free_dirent_finds:
  fixes s :: "'a fs_scheme"
  assumes "directory s dp" "lh_n s < log_cap s" "n = length (file_data s dp) div 16" "k \<le> n"
  shows "\<exists>t j. blk.moved {} s (content s) 0 t \<and> free_dirent dp (16 * k) (16 * n) s = Inr (16 * j, t)
    \<and> (j = n \<or> j < n \<and> de_inum (dirent (file_data s dp) j) = 0)"
  using assms
proof (induction "n - k" arbitrary: k s)
  case 0
  then show ?case using blk.moved_refl [of "{}" s] by (subst free_dirent.simps) (auto simp: directory_def whole_def file_ok_def)
next
  case (Suc m)
  let ?d = "file_data s dp"
  have l: "m = n - Suc k" and k: "k < n" using Suc.hyps(2) by simp_all
  obtain t where t: "readi dp (of_nat (16 * k)) 16 s = Inr ((16, dirent ?d k), t)" "blk.moved {} s (content s) 0 t"
    using read_entry [OF Suc.prems(1,2)] k Suc.prems(3) by blast
  note m = directory_moved [OF Suc.prems(1) t(2)]
  show ?case
  proof (cases "de_inum (dirent ?d k) = 0")
    case True
    then show ?thesis using t k by (subst free_dirent.simps) (auto simp del: of_nat_mult)
  next
    case False
    obtain u j where u: "blk.moved {} t (content t) 0 u" "free_dirent dp (16 * Suc k) (16 * n) t = Inr (16 * j, u)"
        "j = n \<or> j < n \<and> de_inum (dirent ?d j) = 0"
      using Suc.hyps(1) [of "Suc k" t, unfolded m(2)] l Suc.prems m(1,4,5) k by auto
    have "free_dirent dp (16 * k) (16 * n) s = free_dirent dp (16 * Suc k) (16 * n) t"
      using False k t(1) by (subst free_dirent.simps) (auto simp: add.commute simp del: of_nat_mult)
    then show ?thesis using u blk.moved_trans [OF t(2) u(1)] blk.moved_fields [OF t(2)] by auto
  qed
qed


section \<open>Adding an entry\<close>

lemma mk_dirent_fields:
  "length (mk_dirent i (strncpy_bytes DIRSIZ nm)) = 16" "de_inum (mk_dirent i (strncpy_bytes DIRSIZ nm)) = i"
  "de_name (mk_dirent i (strncpy_bytes DIRSIZ nm)) = strncpy_bytes DIRSIZ nm"
proof -
  have "get16 (mk_dirent i (strncpy_bytes DIRSIZ nm)) 0 = i"
    by (rule bit_word_eqI) (auto simp: get16_def mk_dirent_def bit_simps)
  then show "de_inum (mk_dirent i (strncpy_bytes DIRSIZ nm)) = i" by (simp add: de_inum_def)
qed (simp_all add: mk_dirent_def de_name_def DIRSIZ_def)

lemma dirent_put:
  assumes "length e = 16" "length d = 16 * n" "j \<le> n" "k < max n (Suc j)"
  shows "dirent (put_bytes (16 * j) e d) k = (if k = j then e else dirent d k)"
proof (cases "k = j")
  case False
  then have k: "k < n" "k < j \<or> j < k" using assms(3,4) by auto
  let ?d = "put_bytes (16 * j) e d"
  have len: "16 * k + 16 \<le> length d" "length d \<le> length ?d" using k(1) assms by (auto simp: put_bytes_def)
  have "?d ! m = d ! m" if "m < length d" "m < 16 * j \<or> 16 * j + 16 \<le> m" for m
    using that assms(1,2,3) by (auto simp: put_bytes_def nth_append)
  moreover have "16 * k + i < 16 * j \<or> 16 * j + 16 \<le> 16 * k + i" if "i < 16" for i using that k(2) by auto
  ultimately have "dirent ?d k = dirent d k" using len by (intro nth_equalityI) (simp_all add: dirent_def)
  then show ?thesis using False by simp
qed (use assms in \<open>simp add: dirent_def put_bytes_def\<close>)

lemma dir_map_put:
  assumes d: "length d = 16 * n" and j: "j = n \<or> j < n \<and> de_inum (dirent d j) = 0" and new: "dir_map d nm = None" "i \<noteq> 0"
  shows "dir_map (put_bytes (16 * j) (mk_dirent i (strncpy_bytes DIRSIZ nm)) d) nm' = (if namecmp nm' nm = 0 then Some i else dir_map d nm')"
proof -
  define e where "e = mk_dirent i (strncpy_bytes DIRSIZ nm)"
  define d' where "d' = put_bytes (16 * j) e d"
  note f = mk_dirent_fields [of i nm, folded e_def]
  have j': "j \<le> n" using j by auto
  have n': "length d' div 16 = max n (Suc j)" "length d div 16 = n" using d j f(1) by (auto simp: d'_def put_bytes_def max_def)
  have ent: "entry_for d' nm' k = (if k = j then namecmp nm' nm = 0 else entry_for d nm' k)" if "k < max n (Suc j)" for k
    using dirent_put [OF f(1) d j' that] f(2,3) new(2) by (simp add: entry_for_def d'_def namecmp_iff strncpy_idem)
  have oj: "\<not> entry_for d nm' j" if "j < n" using that j by (simp add: entry_for_def)
  have dj: "de_inum (dirent d' j) = i" using dirent_put [OF f(1) d j', of j] f(2) by (simp add: d'_def)
  show ?thesis
  proof (cases "namecmp nm' nm = 0")
    case True
    then have "entry_for d nm' k = entry_for d nm k" for k by (simp add: entry_for_def namecmp_iff)
    then have no: "\<not> entry_for d nm' k" if "k < n" for k using that new(1) n'(2) by (simp add: dir_map_def find_index_None)
    have "List.find (entry_for d' nm') [0..<max n (Suc j)] = Some j"
      using ent no True j' by (auto simp: find_index_Some)
    then show ?thesis using True dj by (simp add: dir_map_def n' flip: e_def d'_def)
  next
    case False
    then have same: "entry_for d' nm' k = entry_for d nm' k" if "k < n" for k using ent [of k] oj that by (auto simp: less_max_iff_disj)
    have "List.find (entry_for d' nm') [0..<max n (Suc j)] = List.find (entry_for d nm') [0..<n]"
    proof (cases "List.find (entry_for d nm') [0..<n]")
      case None
      then have "\<not> entry_for d' nm' k" if "k < max n (Suc j)" for k
        using ent [OF that] same [of k] False that j' by (auto simp: find_index_None less_max_iff_disj)
      then have "List.find (entry_for d' nm') [0..<max n (Suc j)] = None" by (simp add: find_index_None)
      then show ?thesis using None by simp
    next
      case (Some k)
      then have "List.find (entry_for d' nm') [0..<max n (Suc j)] = Some k" using same by (auto simp: find_index_Some less_max_iff_disj)
      then show ?thesis using Some by simp
    qed
    moreover have "de_inum (dirent d' k) = de_inum (dirent d k)" if "List.find (entry_for d nm') [0..<n] = Some k" for k
    proof -
      have "k < n" "k \<noteq> j" using that oj by (auto simp: find_index_Some)
      then show ?thesis using dirent_put [OF f(1) d j', of k] by (simp add: d'_def)
    qed
    ultimately show ?thesis using False by (cases "List.find (entry_for d nm') [0..<n]") (simp_all add: dir_map_def n' flip: e_def d'_def)
  qed
qed


section \<open>Directories are maps\<close>

lemma dirlookup_finds:
  fixes s :: "'a fs_scheme"
  assumes "directory s dp" "lh_n s < log_cap s"
  shows "\<exists>t. blk.moved {} s (content s) 0 t \<and>
    (case dir_map (file_data s dp) nm of None \<Rightarrow> dirlookup dp nm s = Inr (None, t)
     | Some i \<Rightarrow> \<exists>off. dirlookup dp nm s = bnd (iget 1 (ucast i)) (\<lambda>ip. ret (Some (ip, off))) t)"
proof -
  note d = directoryD [OF assms(1)]
  have z: "unat (isize (inode_at dp s)) = 16 * (length (file_data s dp) div 16)" using d(3,4) by simp
  have e: "dirlookup dp nm s = dirlookup_loop dp nm (16 * 0) (16 * (length (file_data s dp) div 16)) s" using d(2) by (simp add: dirlookup_def z)
  show ?thesis unfolding e using dirlookup_loop_finds [OF assms refl, of 0 nm]
    by (cases "List.find (entry_for (file_data s dp) nm) [0..<length (file_data s dp) div 16]") (auto simp: dir_map_def)
qed

lemma aligned_chunk: "chunks (16 * j) 16 = 1"
proof -
  have "16 * j mod BSIZE = 16 * (j mod 32)" using mult_mod_right [of 16 j 32] by (simp add: BSIZE_def)
  moreover have "j mod 32 < 32" by simp
  ultimately have "16 * j mod BSIZE + 15 < BSIZE" by (simp add: BSIZE_def)
  then show ?thesis by (simp add: chunks_def)
qed

lemma dirlink_adds:
  fixes s :: "'a fs_scheme"
  assumes d: "directory s dp" and new: "dir_map (file_data s dp) nm = None" "(ucast ino :: u16) \<noteq> 0"
    and fits: "length (file_data s dp) + 16 \<le> MAXFILE * BSIZE" and room: "lh_n s + 6 < log_cap s" "2 \<le> nfree s"
  shows "\<exists>t. dirlink dp nm ino s = Inr (0, t) \<and> directory t dp \<and> lh_n t \<le> lh_n s + 7 \<and> log_cap t = log_cap s
    \<and> length (inodes t) = length (inodes s) \<and> (\<forall>j. iref (inode_at j t) = iref (inode_at j s))
    \<and> dir_map (file_data t dp) = (\<lambda>nm'. if namecmp nm' nm = 0 then Some (ucast ino) else dir_map (file_data s dp) nm')"
proof -
  let ?d = "file_data s dp" and ?e = "mk_dirent (ucast ino) (strncpy_bytes DIRSIZ nm)"
  define n where "n = length ?d div 16"
  obtain t where t: "blk.moved {} s (content s) 0 t" "dirlookup dp nm s = Inr (None, t)" using dirlookup_finds [OF d, of nm] new(1) room(1) by auto
  note m = directory_moved [OF d t(1)] and dD = directoryD [OF d]
  have n: "length ?d = 16 * n" using dD(3) by (simp add: n_def)
  have sz: "unat (isize (inode_at dp t)) = 16 * n" using directoryD(4) [OF m(1)] m(2) n by simp
  obtain u j where u: "blk.moved {} t (content t) 0 u" "free_dirent dp 0 (16 * n) t = Inr (16 * j, u)" "j = n \<or> j < n \<and> de_inum (dirent ?d j) = 0"
    using free_dirent_finds [OF m(1), of n 0] m n_def room(1) by auto
  note mu = directory_moved [OF m(1) u(1)] and f = mk_dirent_fields [of "ucast ino" nm]
  have j: "16 * j \<le> length ?d" "16 * j + 16 \<le> MAXFILE * BSIZE" using u(3) n fits by auto
  have o: "unat (of_nat (16 * j) :: u32) = 16 * j"
    using j(2) by (intro unat_nat32) (simp add: MAXFILE_def NDIRECT_def NINDIRECT_def BSIZE_def)
  have "nfree u = nfree s"
    using moved_same(2) [OF t(1)] moved_same(2) [OF u(1)] dD(1) directoryD(1) [OF m(1)] by (simp add: whole_def file_ok_def)
  moreover have "of_nat (16 * j) \<le> isize (inode_at dp u)" using directoryD(4) [OF mu(1)] j(1) mu(2) m(2) by (simp only: word_le_nat_alt o)
  ultimately obtain v where v: "writei dp ?e (of_nat (16 * j)) u = Inr (16, v)" "file_updated u dp (16 * j) ?e v" "lh_n v \<le> lh_n s + 7"
    using writei_updates [OF directoryD(1) [OF mu(1)], of "of_nat (16 * j)" ?e] f(1) j(2) mu(4,5) m(4,5) room
    unfolding o f(1) aligned_chunk by auto
  have dv: "whole v dp" "file_data v dp = put_bytes (16 * j) ?e ?d" "log_cap v = log_cap s"
    using v(2) mu(2,5) m(2,5) by (auto simp: file_updated_def extends_def)
  have "16 dvd length (file_data v dp)" using n u(3) f(1) unfolding dv(2) by (auto simp: put_bytes_def)
  moreover have "itype (inode_at dp v) = T_DIR" using v(2) directoryD(2) [OF mu(1)] by (auto simp: file_updated_def)
  ultimately have "directory v dp" using dv(1) by (simp add: directory_def)
  moreover have "dirlink dp nm ino s = Inr (0, v)"
    using t(2) u(2) v(1) sz by (simp add: dirlink_def ifld_def del: of_nat_mult)
  moreover have "length (inodes v) = length (inodes s)" using v(2) mu(3) m(3) by (simp add: file_updated_def)
  moreover have "iref (inode_at k v) = iref (inode_at k s)" for k
    using v(2) mu(3) m(3) by (cases "k = dp") (auto simp: file_updated_def inode_at_def)
  ultimately show ?thesis using v(3) dv dir_map_put [OF n u(3) new] by auto
qed


lemma iget_returns:
  fixes s :: "'a fs_scheme"
  assumes "length (inodes s) = NINODE" "i < NINODE" "iref (inode_at i s) = 0"
  shows "\<exists>ip u. iget dev ino s = Inr (ip, u) \<and> idev (inode_at ip u) = dev \<and> inum (inode_at ip u) = ino \<and> 0 < iref (inode_at ip u)
    \<and> (\<forall>j. j \<noteq> ip \<longrightarrow> inode_at j u = inode_at j s)"
proof (cases "List.find (\<lambda>i. iref (inode_at i s) > 0 \<and> idev (inode_at i s) = dev \<and> inum (inode_at i s) = ino) [0..<NINODE]")
  case (Some k)
  moreover from this have "k < NINODE" "0 < iref (inode_at k s)" "idev (inode_at k s) = dev" "inum (inode_at k s) = ino" by (auto simp: find_index_Some)
  ultimately show ?thesis using assms(1) by (simp add: iget_def inode_at_def)
next
  case None
  obtain k where "List.find (\<lambda>i. iref (inode_at i s) = 0) [0..<NINODE] = Some k"
    using assms(2,3) by (cases "List.find (\<lambda>i. iref (inode_at i s) = 0) [0..<NINODE]") (auto simp: find_index_None)
  moreover from this have "k < NINODE" by (simp add: find_index_Some)
  ultimately show ?thesis using None assms(1) by (simp add: iget_def inode_at_def)
qed

text \<open>
  Claim C6. A directory is a map from names to inode numbers, names being compared up to \<^verbatim>\<open>DIRSIZ\<close> bytes: \<^verbatim>\<open>dirlink\<close> of a name that the
  directory does not have adds it with the inode number and changes what no other name maps to; the entry goes into a
  free slot or makes the directory grow. \<^verbatim>\<open>dirlookup\<close> of any name then returns a cached inode with the number that the map has for it,
  and the null pointer if it has none, provided that the inode cache has a free slot.
\<close>

theorem dirlink_dirlookup:
  fixes s :: "'a fs_scheme"
  assumes "directory s dp" "dir_map (file_data s dp) nm = None" "(ucast ino :: u16) \<noteq> 0"
    "length (file_data s dp) + 16 \<le> MAXFILE * BSIZE" "lh_n s + 7 < log_cap s" "2 \<le> nfree s"
    and slot: "length (inodes s) = NINODE" "i < NINODE" "iref (inode_at i s) = 0"
  shows "\<exists>t. dirlink dp nm ino s = Inr (0, t) \<and> directory t dp
    \<and> (\<forall>nm'. dir_map (file_data t dp) nm' = (if namecmp nm' nm = 0 then Some (ucast ino) else dir_map (file_data s dp) nm'))
    \<and> (\<forall>nm'. case dir_map (file_data t dp) nm' of
         None \<Rightarrow> \<exists>u. dirlookup dp nm' t = Inr (None, u)
       | Some k \<Rightarrow> \<exists>u ip off. dirlookup dp nm' t = Inr (Some (ip, off), u) \<and> idev (inode_at ip u) = 1 \<and> inum (inode_at ip u) = ucast k
           \<and> 0 < iref (inode_at ip u))"
proof -
  obtain t where t: "dirlink dp nm ino s = Inr (0, t)" "directory t dp" "lh_n t \<le> lh_n s + 7" "log_cap t = log_cap s"
      "dir_map (file_data t dp) = (\<lambda>nm'. if namecmp nm' nm = 0 then Some (ucast ino) else dir_map (file_data s dp) nm')"
      "length (inodes t) = length (inodes s)" "\<And>j. iref (inode_at j t) = iref (inode_at j s)"
    using dirlink_adds [OF assms(1-4) _ assms(6)] assms(5) by auto
  have "case dir_map (file_data t dp) nm' of None \<Rightarrow> \<exists>u. dirlookup dp nm' t = Inr (None, u)
     | Some k \<Rightarrow> \<exists>u ip off. dirlookup dp nm' t = Inr (Some (ip, off), u) \<and> idev (inode_at ip u) = 1 \<and> inum (inode_at ip u) = ucast k
         \<and> 0 < iref (inode_at ip u)" for nm'
  proof -
    have "lh_n t < log_cap t" using t(3,4) assms(5) by simp
    then obtain v where v: "blk.moved {} t (content t) 0 v"
        "case dir_map (file_data t dp) nm' of None \<Rightarrow> dirlookup dp nm' t = Inr (None, v)
         | Some k \<Rightarrow> \<exists>off. dirlookup dp nm' t = bnd (iget 1 (ucast k)) (\<lambda>ip. ret (Some (ip, off))) v"
      using dirlookup_finds [OF t(2)] by blast
    note m = directory_moved(3) [OF t(2) v(1)]
    have "length (inodes v) = NINODE" "iref (inode_at i v) = 0" using m t(6) t(7) [of i] slot by (simp_all add: inode_at_def)
    note ig = iget_returns [OF this(1) slot(2) this(2), of 1]
    show ?thesis
    proof (cases "dir_map (file_data t dp) nm'")
      case (Some k)
      then show ?thesis using v(2) ig [of "ucast k"] by fastforce
    qed (use v(2) in auto)
  qed
  then show ?thesis using t(1,2,5) by auto
qed


text \<open>A directory with one free entry in the small file system.\<close>

definition small_dir_fs :: fs where
  "small_dir_fs = (binit small_fs)\<lparr>inodes := small_inode\<lparr>itype := T_DIR, isize := 16\<rparr> # replicate (NINODE - 1) (small_inode\<lparr>iref := 0\<rparr>)\<rparr>"

lemma small_directory: "directory small_dir_fs 0" "file_data small_dir_fs 0 = replicate 16 0"
proof -
  let ?s = "binit small_fs" and ?x = "small_inode\<lparr>itype := T_DIR, isize := 16\<rparr>"
  have t: "baddr ?s (x\<lparr>itype := v\<rparr>) = baddr ?s x" "inode_block ?s (x\<lparr>itype := v\<rparr>) = inode_block ?s x" for x v
    by (simp_all add: fun_eq_iff baddr_def inode_block_def)
  have x: "inode_at 0 small_dir_fs = ?x" by (simp add: inode_at_def small_dir_fs_def)
  have "inode_ok ?s small_inode" using small_whole by (simp add: whole_def file_ok_def small_file)
  then have "inode_ok ?s ?x" by (simp add: inode_ok_def file_blocks_def t)
  then have ok: "file_ok small_dir_fs 0" using small_fs_cache small_fs_ok unfolding file_ok_def x by (simp add: small_dir_fs_def)
  have b: "baddr small_dir_fs (small_inode\<lparr>itype := T_DIR\<rparr>) n = (if n = 0 then 4 else 0)" if "n < MAXFILE" for n
    using small_baddr [OF that] by (simp add: small_dir_fs_def t)
  have "has_blocks small_dir_fs ?x 0 16" by (auto simp: has_blocks_def b MAXFILE_def NDIRECT_def NINDIRECT_def BSIZE_def)
  then have w: "whole small_dir_fs 0" using ok by (simp add: whole_def x T_DIR_def T_DEV_def)
  have "fbyte small_dir_fs ?x k = 0" if "k < 16" for k
    using that b [of 0] by (simp add: fbyte_def MAXFILE_def NDIRECT_def BSIZE_def) (simp add: small_dir_fs_def small_fs_cache small_image_def pad_block_def BSIZE_def)
  then show d: "file_data small_dir_fs 0 = replicate 16 0" by (auto simp: file_data_def x intro!: nth_equalityI)
  show "directory small_dir_fs 0" using w d by (simp add: directory_def x)
qed

theorem dirlink_dirlookup_witness:
  "\<exists>t u ip off. dirlink 0 [97, 0] 5 small_dir_fs = Inr (0, t) \<and> dirlookup 0 [97] t = Inr (Some (ip, off), u) \<and> inum (inode_at ip u) = 5"
proof -
  let ?s = small_dir_fs
  have "de_inum (dirent (replicate 16 0) 0) = 0" by (simp add: dirent_def de_inum_def get16_def)
  then have e: "dir_map (file_data ?s 0) [97, 0] = None" by (simp add: small_directory(2) dir_map_def entry_for_def)
  have f: "lh_n ?s + 7 < log_cap ?s" "length (inodes ?s) = NINODE" "iref (inode_at 1 ?s) = 0" "1 < NINODE"
    by (simp_all add: small_dir_fs_def small_fs_fields inode_at_def NINODE_def)
  have "card {5, 6 :: u32} \<le> nfree (binit small_fs)" unfolding nfree_def
    by (intro card_mono) (auto simp: small_used small_bits small_fs_fields small_sb_def)
  then have "2 \<le> nfree ?s" by (simp add: small_dir_fs_def)
  moreover have "(ucast (5 :: u32) :: u16) = 5" by simp
  moreover have "length (file_data ?s 0) + 16 \<le> MAXFILE * BSIZE" by (simp add: small_directory(2) MAXFILE_def NDIRECT_def NINDIRECT_def BSIZE_def)
  ultimately obtain t where t: "dirlink 0 [97, 0] 5 ?s = Inr (0, t)"
      "\<forall>nm'. dir_map (file_data t 0) nm' = (if namecmp nm' [97, 0] = 0 then Some 5 else dir_map (file_data ?s 0) nm')"
      "\<forall>nm'. case dir_map (file_data t 0) nm' of None \<Rightarrow> \<exists>u. dirlookup 0 nm' t = Inr (None, u)
       | Some k \<Rightarrow> \<exists>u ip off. dirlookup 0 nm' t = Inr (Some (ip, off), u) \<and> idev (inode_at ip u) = 1 \<and> inum (inode_at ip u) = ucast k
           \<and> 0 < iref (inode_at ip u)"
    using dirlink_dirlookup [OF small_directory(1) e _ _ f(1) _ f(2,4,3), of 5] by fastforce
  have "namecmp [97] [97, 0] = 0" by code_simp
  then have "dir_map (file_data t 0) [97] = Some 5" using t(2) by simp
  then show ?thesis using t(1) spec [OF t(3), of "[97]"] by auto
qed


end
