(* ===== verification/Umalloc.thy ===== *)
theory Umalloc
  imports Xv6_Prelude
begin

text \<open>
  The memory allocator of the user library, \<^verbatim>\<open>umalloc.c\<close>. The headers of the blocks are the two fields of the union, by address; a header
  is 8 bytes long, so that \<^verbatim>\<open>p + n\<close> on header pointers adds \<open>8 * n\<close>. Of the system call \<^verbatim>\<open>sbrk\<close> the process sees where its memory ends, \<open>brk\<close>, and
  whether the kernel lets it grow, \<open>grant\<close>; the kernel's side is \<open>sys_sbrk\<close> of \<open>Syscall\<close>, and \<open>Sbrk\<close> shows that it gives what is seen here.
\<close>

section \<open>State\<close>

record uheap =
  hptr :: "u32 \<Rightarrow> u32"
  hsize :: "u32 \<Rightarrow> u32"
  freep :: u32
  base_hdr :: u32
  brk :: u32

text \<open>A negative number of bytes (the argument is an \<^verbatim>\<open>int\<close>) shrinks the process, which fails if nothing is left.\<close>

definition sbrk :: "(u32 \<Rightarrow> u32 \<Rightarrow> bool) \<Rightarrow> u32 \<Rightarrow> uheap \<Rightarrow> u32 \<times> uheap" where
  "sbrk grant n s =
     (if 0 \<le> sint n then if grant (brk s) n then (brk s, s\<lparr>brk := brk s + n\<rparr>) else (-1, s)
      else let sz = (if brk s + n \<ge> brk s then brk s else brk s + n)
           in if sz = 0 then (-1, s) else (brk s, s\<lparr>brk := sz\<rparr>))"

section \<open>free\<close>

partial_function (option) free_loop :: "u32 \<Rightarrow> u32 \<Rightarrow> uheap \<Rightarrow> u32 option" where
  "free_loop bp p s =
     (if bp > p \<and> bp < hptr s p then Some p
      else if p \<ge> hptr s p \<and> (bp > p \<or> bp < hptr s p) then Some p
      else free_loop bp (hptr s p) s)"

definition join_next :: "u32 \<Rightarrow> u32 \<Rightarrow> uheap \<Rightarrow> uheap" where
  "join_next bp p s =
     (if bp + 8 * hsize s bp = hptr s p
      then s\<lparr>hsize := (hsize s)(bp := hsize s bp + hsize s (hptr s p)), hptr := (hptr s)(bp := hptr s (hptr s p))\<rparr>
      else s\<lparr>hptr := (hptr s)(bp := hptr s p)\<rparr>)"

definition join_prev :: "u32 \<Rightarrow> u32 \<Rightarrow> uheap \<Rightarrow> uheap" where
  "join_prev bp p s =
     (if p + 8 * hsize s p = bp
      then s\<lparr>hsize := (hsize s)(p := hsize s p + hsize s bp), hptr := (hptr s)(p := hptr s bp)\<rparr>
      else s\<lparr>hptr := (hptr s)(p := bp)\<rparr>)"

definition ufree :: "u32 \<Rightarrow> uheap \<Rightarrow> uheap option" where
  "ufree ap s =
     (let bp = ap - 8
      in Option.bind (free_loop bp (freep s) s) (\<lambda>p. Some ((join_prev bp p (join_next bp p s))\<lparr>freep := p\<rparr>)))"

section \<open>malloc\<close>

definition morecore :: "(u32 \<Rightarrow> u32 \<Rightarrow> bool) \<Rightarrow> u32 \<Rightarrow> uheap \<Rightarrow> (u32 \<times> uheap) option" where
  "morecore grant nu s =
     (let nu = (if nu < 4096 then 4096 else nu); (p, s) = sbrk grant (nu * 8) s
      in if p = -1 then Some (0, s)
         else Option.bind (ufree (p + 8) (s\<lparr>hsize := (hsize s)(p := nu)\<rparr>)) (\<lambda>s. Some (freep s, s)))"

definition malloc_take :: "u32 \<Rightarrow> u32 \<Rightarrow> u32 \<Rightarrow> uheap \<Rightarrow> u32 \<times> uheap" where
  "malloc_take nunits prevp p s =
     (if hsize s p = nunits then (p + 8, s\<lparr>hptr := (hptr s)(prevp := hptr s p), freep := prevp\<rparr>)
      else let sz = hsize s p - nunits; q = p + 8 * sz
           in (q + 8, s\<lparr>hsize := ((hsize s)(p := sz))(q := nunits), freep := prevp\<rparr>))"

partial_function (option) malloc_loop :: "(u32 \<Rightarrow> u32 \<Rightarrow> bool) \<Rightarrow> u32 \<Rightarrow> u32 \<Rightarrow> u32 \<Rightarrow> uheap \<Rightarrow> (u32 \<times> uheap) option" where
  "malloc_loop grant nunits prevp p s =
     (if hsize s p \<ge> nunits then Some (malloc_take nunits prevp p s)
      else if p = freep s
      then Option.bind (morecore grant nunits s) (\<lambda>(q, s).
             if q = 0 then Some (0, s) else malloc_loop grant nunits q (hptr s q) s)
      else malloc_loop grant nunits p (hptr s p) s)"

definition first_use :: "uheap \<Rightarrow> uheap" where
  "first_use s =
     (if freep s = 0
      then s\<lparr>hptr := (hptr s)(base_hdr s := base_hdr s), freep := base_hdr s, hsize := (hsize s)(base_hdr s := 0)\<rparr>
      else s)"

definition malloc :: "(u32 \<Rightarrow> u32 \<Rightarrow> bool) \<Rightarrow> u32 \<Rightarrow> uheap \<Rightarrow> (u32 \<times> uheap) option" where
  "malloc grant nbytes s =
     (let nunits = (nbytes + 8 - 1) div 8 + 1; s = first_use s
      in malloc_loop grant nunits (freep s) (hptr s (freep s)) s)"

section \<open>The free list\<close>

text \<open>A block ends at \<open>end_of\<close>, exclusively; its bytes, header included, are its extent.\<close>

definition end_of :: "uheap \<Rightarrow> u32 \<Rightarrow> nat" where
  "end_of s b = unat b + 8 * unat (hsize s b)"

definition extent :: "uheap \<Rightarrow> u32 \<Rightarrow> nat set" where
  "extent s b = {unat b ..< end_of s b}"

lemma extent_freep [simp]: "end_of (s\<lparr>freep := p\<rparr>) = end_of s" "extent (s\<lparr>freep := p\<rparr>) = extent s"
  by (simp_all add: end_of_def extent_def fun_eq_iff)

text \<open>The links from \<open>a\<close> through the given blocks to \<open>z\<close>.\<close>

primrec chain :: "(u32 \<Rightarrow> u32) \<Rightarrow> u32 \<Rightarrow> u32 list \<Rightarrow> u32 \<Rightarrow> bool" where
  "chain l a [] z \<longleftrightarrow> l a = z"
| "chain l a (b # bs) z \<longleftrightarrow> l a = b \<and> chain l b bs z"

text \<open>Blocks in the order of their addresses, with gaps between them.\<close>

primrec gapped :: "(u32 \<Rightarrow> u32) \<Rightarrow> nat \<Rightarrow> u32 list \<Rightarrow> bool" where
  "gapped z lo [] \<longleftrightarrow> True"
| "gapped z lo (b # bs) \<longleftrightarrow> lo < unat b \<and> 0 < z b \<and> gapped z (unat b + 8 * unat (z b)) bs"

lemma chain_append: "chain l a (xs @ b # ys) z \<longleftrightarrow> chain l a xs b \<and> chain l b ys z"
  by (induction xs arbitrary: a) auto

lemma chain_cong: "(\<And>x. x = a \<or> x \<in> set xs \<Longrightarrow> l x = l' x) \<Longrightarrow> chain l a xs z \<longleftrightarrow> chain l' a xs z"
  by (induction xs arbitrary: a) auto

lemma chain_upd [simp]: "a \<noteq> x \<Longrightarrow> a \<notin> set xs \<Longrightarrow> chain (l(a := v)) x xs z \<longleftrightarrow> chain l x xs z"
  by (rule chain_cong) auto

lemma chain_last: "chain l a xs z \<Longrightarrow> l (last (a # xs)) = z"
  by (induction xs arbitrary: a) auto

lemma gapped_cong: "(\<And>x. x \<in> set xs \<Longrightarrow> z x = z' x) \<Longrightarrow> gapped z lo xs \<longleftrightarrow> gapped z' lo xs"
  by (induction xs arbitrary: lo) auto

lemma gapped_mono: "gapped z lo xs \<Longrightarrow> lo' \<le> lo \<Longrightarrow> gapped z lo' xs"
  by (cases xs) auto

definition last_end :: "(u32 \<Rightarrow> u32) \<Rightarrow> nat \<Rightarrow> u32 list \<Rightarrow> nat" where
  "last_end z lo xs = (if xs = [] then lo else unat (last xs) + 8 * unat (z (last xs)))"

lemma gapped_append: "gapped z lo (xs @ ys) \<longleftrightarrow> gapped z lo xs \<and> gapped z (last_end z lo xs) ys"
  by (induction xs arbitrary: lo) (auto simp: last_end_def)

lemma gapped_sorted: "gapped z lo xs \<Longrightarrow> sorted_wrt (<) xs \<and> (\<forall>x \<in> set xs. lo < unat x \<and> 0 < z x)"
proof (induction xs arbitrary: lo)
  case (Cons b xs)
  have "sorted_wrt (<) xs \<and> (\<forall>x \<in> set xs. unat b + 8 * unat (z b) < unat x \<and> 0 < z x)" using Cons.prems by (intro Cons.IH) simp
  moreover have "b < x" if "unat b + 8 * unat (z b) < unat x" for x using that by (simp add: word_less_nat_alt)
  ultimately show ?case using Cons.prems by auto
qed simp

text \<open>
  The invariant: the free blocks \<open>fl\<close> are a ring through the static header, in the order of their addresses and never adjacent; the blocks
  \<open>al\<close> that were handed out overlap neither each other nor a free block; all end below the end of the memory.
\<close>

definition apart :: "uheap \<Rightarrow> u32 list \<Rightarrow> u32 set \<Rightarrow> bool" where
  "apart s fl al \<longleftrightarrow> al \<inter> set fl = {} \<and> (\<forall>a \<in> al. base_hdr s < a \<and> 0 < hsize s a)
     \<and> (\<forall>a \<in> al. \<forall>b \<in> set fl \<union> al. b \<noteq> a \<longrightarrow> extent s a \<inter> extent s b = {})"

definition heap_ok :: "uheap \<Rightarrow> u32 list \<Rightarrow> u32 set \<Rightarrow> bool" where
  "heap_ok s fl al \<longleftrightarrow> base_hdr s \<noteq> 0 \<and> base_hdr s < brk s \<and> hsize s (base_hdr s) = 0 \<and> freep s \<in> insert (base_hdr s) (set fl)
     \<and> chain (hptr s) (base_hdr s) fl (base_hdr s) \<and> gapped (hsize s) (unat (base_hdr s)) fl
     \<and> (\<forall>b \<in> set fl \<union> al. end_of s b \<le> unat (brk s)) \<and> apart s fl al"

lemma extent_disjoint: "0 < hsize s a \<Longrightarrow> 0 < hsize s b \<Longrightarrow> extent s a \<inter> extent s b = {} \<longleftrightarrow> end_of s a \<le> unat b \<or> end_of s b \<le> unat a"
proof -
  assume "0 < hsize s a" "0 < hsize s b"
  then have "unat a < end_of s a" "unat b < end_of s b" by (simp_all add: end_of_def word_less_nat_alt)
  then show ?thesis by (auto simp: extent_def)
qed

text \<open>The place of a block among the free blocks.\<close>

lemma place:
  assumes "gapped (hsize s) lo fl" "a \<notin> set fl" "0 < hsize s a" "\<And>b. b \<in> set fl \<Longrightarrow> extent s a \<inter> extent s b = {}"
  obtains xs ys where "fl = xs @ ys" "\<And>x. x \<in> set xs \<Longrightarrow> end_of s x \<le> unat a" "\<And>y. y \<in> set ys \<Longrightarrow> end_of s a \<le> unat y"
proof -
  let ?xs = "takeWhile (\<lambda>x. x < a) fl" and ?ys = "dropWhile (\<lambda>x. x < a) fl"
  have so: "sorted_wrt (<) fl" "\<And>x. x \<in> set fl \<Longrightarrow> 0 < hsize s x" using gapped_sorted [OF assms(1)] by auto
  have d: "end_of s a \<le> unat b \<or> end_of s b \<le> unat a" if "b \<in> set fl" for b
    using extent_disjoint [OF assms(3) so(2) [OF that]] assms(4) [OF that] by simp
  have le: "unat b \<le> end_of s b" for b by (simp add: end_of_def)
  have x: "end_of s x \<le> unat a" if "x \<in> set ?xs" for x
  proof -
    have "x < a" "x \<in> set fl" using that by (auto dest: set_takeWhileD)
    then show ?thesis using d [of x] le [of a] by (auto simp: word_less_nat_alt)
  qed
  have y: "end_of s a \<le> unat y" if "y \<in> set ?ys" for y
  proof (cases ?ys)
    case (Cons z zs)
    have "\<not> z < a" using Cons hd_dropWhile [of "\<lambda>x. x < a" fl] by auto
    moreover have "sorted_wrt (<) ?ys" using so(1) by (metis sorted_wrt_append takeWhile_dropWhile_id)
    ultimately have "\<not> y < a" using that Cons by (auto simp: word_less_nat_alt)
    moreover have y: "y \<in> set fl" using that by (rule set_dropWhileD)
    ultimately have "a < y" using assms(2) by (metis not_less_iff_gr_or_eq)
    then show ?thesis using d [OF y] le [of y] by (auto simp: word_less_nat_alt)
  next
    case Nil
    show ?thesis using that unfolding Nil by simp
  qed
  show thesis by (rule that [of ?xs ?ys]) (use x y in auto)
qed

section \<open>The search in free\<close>

lemma free_loop_stop:
  assumes "p < bp" "hptr s p = q" "bp < q \<or> q \<le> p"
  shows "free_loop bp p s = Some p"
  using assms by (subst free_loop.simps) auto

lemma free_loop_up:
  assumes "chain (hptr s) r zs q" "sorted_wrt (<) (r # zs)" "\<And>z. z \<in> set (r # zs) \<Longrightarrow> z < bp" "bp < q \<or> q \<le> last (r # zs)"
  shows "free_loop bp r s = Some (last (r # zs))"
  using assms
proof (induction zs arbitrary: r)
  case Nil
  then show ?case using free_loop_stop [of r bp s q] by simp
next
  case (Cons z zs)
  have "free_loop bp r s = free_loop bp z s"
    using Cons.prems(1,2) Cons.prems(3) [of z] by (subst free_loop.simps) (auto simp: not_less less_imp_le)
  then show ?case using Cons by auto
qed

lemma free_loop_wrap:
  assumes "chain (hptr s) r zs q" "sorted_wrt (<) (r # zs)" "\<And>z. z \<in> set (r # zs) \<Longrightarrow> bp < z" "q < bp"
  shows "free_loop bp r s = free_loop bp q s"
  using assms
proof (induction zs arbitrary: r)
  case Nil
  then show ?case by (subst free_loop.simps) auto
next
  case (Cons z zs)
  have "free_loop bp r s = free_loop bp z s"
    using Cons.prems(1,2) Cons.prems(3) [of r] by (subst free_loop.simps) (auto simp: not_less less_imp_le)
  then show ?case using Cons by auto
qed

lemma free_loop_finds:
  assumes "chain (hptr s) b (xs @ ys) b" "sorted_wrt (<) (b # xs @ ys)" "b < a" "\<And>x. x \<in> set xs \<Longrightarrow> x < a" "\<And>y. y \<in> set ys \<Longrightarrow> a < y"
    and r: "r \<in> insert b (set (xs @ ys))"
  shows "free_loop a r s = Some (last (b # xs))"
proof -
  define q where "q = (case ys of [] \<Rightarrow> b | y # _ \<Rightarrow> y)"
  have q: "chain (hptr s) b xs q" "a < q \<or> q = b"
    using assms(1,5) by (auto simp: q_def chain_append split: list.splits)
  have le: "b \<le> last (b # zs)" if "set zs \<subseteq> set xs" for zs using assms(2) that by (cases "zs = []") (auto simp: subset_iff less_imp_le)
  have up: "free_loop a b s = Some (last (b # xs))"
    using assms(2,3,4) q(2) le [of xs] by (intro free_loop_up [OF q(1)]) (auto simp: sorted_wrt_append)
  consider "r = b" | "r \<in> set xs" | "r \<in> set ys" using r by auto
  then show ?thesis
  proof cases
    case 2
    then obtain us vs where xs: "xs = us @ r # vs" by (auto simp: in_set_conv_decomp)
    have "set (r # vs) \<subseteq> set xs" by (auto simp: xs)
    from le [OF this] have "b \<le> last (r # vs)" by simp
    then have "free_loop a r s = Some (last (r # vs))"
      using q assms(2,4) by (intro free_loop_up [of s r vs q]) (auto simp: xs chain_append sorted_wrt_append)
    then show ?thesis by (simp add: xs)
  next
    case 3
    then obtain us vs where ys: "ys = us @ r # vs" by (auto simp: in_set_conv_decomp)
    have "chain (hptr s) b ((xs @ us) @ r # vs) b" using assms(1) by (simp add: ys)
    then have "chain (hptr s) r vs b" unfolding chain_append by simp
    then have "free_loop a r s = free_loop a b s"
      using assms(2,3,5) by (intro free_loop_wrap [of s r vs b]) (auto simp: ys sorted_wrt_append)
    then show ?thesis using up by simp
  qed (use up in simp)
qed


section \<open>Joining blocks\<close>

text \<open>Below the end of the memory the address arithmetic does not wrap around.\<close>

lemma word_bound: "unat (e :: u32) < 4294967296"
  using unsigned_less [of e] by simp

lemma end_word: "end_of s b \<le> unat (e :: u32) \<Longrightarrow> unat (b + 8 * hsize s b) = end_of s b"
proof -
  assume "end_of s b \<le> unat e"
  then have "unat b + 8 * unat (hsize s b) < 2 ^ 32" using word_bound [of e] by (simp add: end_of_def)
  moreover from this have "unat (8 * hsize s b) = 8 * unat (hsize s b)" by (simp add: unat_word_ariths)
  ultimately show ?thesis by (simp add: end_of_def unat_word_ariths)
qed

lemma size_sum:
  assumes "end_of s a = unat b" "end_of s b \<le> unat (e :: u32)"
  shows "unat (hsize s a + hsize s b) = unat (hsize s a) + unat (hsize s b)"
  using assms word_bound [of e] by (simp add: end_of_def unat_word_ariths)

definition free_span :: "uheap \<Rightarrow> u32 list \<Rightarrow> nat set" where
  "free_span s fl = (\<Union>b \<in> set fl. extent s b)"

text \<open>After \<^verbatim>\<open>join_next\<close> the block heads the rest of the list.\<close>

lemma join_next_joins:
  assumes c: "chain (hptr s) p ys z" "gapped (hsize s) lo ys" and a: "a \<noteq> p" "a \<notin> set ys" "0 < hsize s a" "p \<notin> set ys"
    and b: "\<And>y. y \<in> set ys \<Longrightarrow> end_of s a \<le> unat y" "\<And>y. y \<in> insert a (set ys) \<Longrightarrow> end_of s y \<le> unat (e :: u32)" "unat z < unat a"
  shows "\<exists>zs. chain (hptr (join_next a p s)) a zs z \<and> gapped (hsize (join_next a p s)) (end_of (join_next a p s) a) zs
    \<and> set zs \<subseteq> set ys \<and> end_of s a \<le> end_of (join_next a p s) a \<and> end_of (join_next a p s) a \<le> unat e
    \<and> extent (join_next a p s) a \<union> free_span (join_next a p s) zs = extent s a \<union> free_span s ys"
proof -
  let ?s = "join_next a p s"
  have w: "unat (a + 8 * hsize s a) = end_of s a" using b(2) by (intro end_word) auto
  have agt: "unat a < end_of s a" using a(3) by (simp add: end_of_def word_less_nat_alt)
  show ?thesis
  proof (cases "a + 8 * hsize s a = hptr s p")
    case False
    then have j: "hptr ?s = (hptr s)(a := hptr s p)" "hsize ?s = hsize s" by (simp_all add: join_next_def)
    have "chain (hptr ?s) a ys z"
    proof (cases ys)
      case (Cons y ys')
      then show ?thesis using c(1) a(2) by (auto simp: j)
    qed (use c j in simp)
    moreover have "gapped (hsize s) (end_of s a) ys"
    proof (cases ys)
      case (Cons y ys')
      then have "end_of s a \<noteq> unat y" using False c(1) w by (metis chain.simps(2) word_unat_eq_iff)
      then show ?thesis using c(2) b(1) [of y] Cons by auto
    qed simp
    ultimately show ?thesis using j b(2) by (intro exI [of _ ys]) (auto simp: end_of_def extent_def free_span_def)
  next
    case True
    have "ys \<noteq> []" using True c(1) w b(3) agt by auto
    then obtain y ys' where ys: "ys = y # ys'" by (cases ys) auto
    have y: "hptr s p = y" "unat y = end_of s a" using c(1) w True by (auto simp: ys)
    have ya: "y \<noteq> a" using a(2) ys by auto
    have j: "hptr ?s = (hptr s)(a := hptr s y)" "hsize ?s = (hsize s)(a := hsize s a + hsize s y)" using True y(1) by (simp_all add: join_next_def)
    have sum: "unat (hsize s a + hsize s y) = unat (hsize s a) + unat (hsize s y)" using b(2) [of y] y(2) by (intro size_sum) (auto simp: ys)
    then have e: "end_of ?s a = end_of s y" using y(2) by (simp add: j end_of_def)
    have "chain (hptr ?s) a ys' z"
    proof (cases ys')
      case (Cons v vs)
      then show ?thesis using c(1) a(2) by (auto simp: ys j)
    qed (use c j ys in simp)
    moreover have "gapped (hsize ?s) (end_of ?s a) ys'" unfolding e using c(2) a(2)
      by (subst gapped_cong [of _ _ "hsize s"]) (auto simp: ys j end_of_def)
    moreover have "extent ?s x = extent s x" if "x \<in> set ys'" for x using that a(2) by (auto simp: ys j extent_def end_of_def)
    moreover have "extent ?s a = extent s a \<union> extent s y" unfolding extent_def e using y(2) agt by (auto simp: end_of_def)
    ultimately show ?thesis using b(2) [of y] e y(2) by (intro exI [of _ ys']) (auto simp: ys free_span_def end_of_def)
  qed
qed


lemma gapped_upd [simp]: "a \<notin> set xs \<Longrightarrow> gapped (z(a := v)) lo xs \<longleftrightarrow> gapped z lo xs"
  by (rule gapped_cong) auto

text \<open>After \<^verbatim>\<open>join_prev\<close> the list is complete again.\<close>

lemma join_prev_joins:
  assumes c: "chain (hptr s) b xs q" "gapped (hsize s) (unat b) xs" "chain (hptr s) a zs b" "gapped (hsize s) (end_of s a) zs"
    and n: "a \<notin> set xs \<union> set zs" "b \<notin> set xs \<union> set zs" "set xs \<inter> set zs = {}"
    and z: "hsize s b = 0" "0 < hsize s a" "b < a" "\<And>x. x \<in> set xs \<Longrightarrow> end_of s x \<le> unat a"
    and e: "\<And>x. x \<in> insert a (set xs \<union> set zs) \<Longrightarrow> end_of s x \<le> unat (e :: u32)"
  defines "t \<equiv> join_prev a (last (b # xs)) s"
  shows "\<exists>fl. chain (hptr t) b fl b \<and> gapped (hsize t) (unat b) fl \<and> set fl \<subseteq> insert a (set xs \<union> set zs) \<and> last (b # xs) \<in> insert b (set fl)
    \<and> free_span t fl = free_span s xs \<union> extent s a \<union> free_span s zs \<and> (\<forall>x \<in> set fl. end_of t x \<le> unat e) \<and> (\<forall>x. x \<notin> set fl \<longrightarrow> hsize t x = hsize s x)"
proof (cases "xs = []")
  case True
  have "b + 8 * hsize s b \<noteq> a" using z(1,3) by auto
  then have t: "hptr t = (hptr s)(b := a)" "hsize t = hsize s" using True by (simp_all add: t_def join_prev_def)
  have "chain (hptr t) b (a # zs) b" using c(3) n(2) z(3) by (simp add: t less_imp_neq)
  then show ?thesis using True t c(4) z(2,3) e
    by (intro exI [of _ "a # zs"]) (auto simp: word_less_nat_alt end_of_def extent_def free_span_def)
next
  case False
  then obtain us p where xs: "xs = us @ [p]" by (metis rev_exhaust)
  have so: "p \<notin> set us" using gapped_sorted [OF c(2)] by (auto simp: xs sorted_wrt_append)
  have p: "p \<noteq> b" "p \<noteq> a" "p \<notin> set zs" "end_of s p \<le> unat a" "chain (hptr s) b us p" "0 < hsize s p"
    using n z(4) c(1) gapped_sorted [OF c(2)] by (auto simp: xs chain_append)
  have su: "gapped (hsize s) (unat b) us" "last_end (hsize s) (unat b) us < unat p" using c(2) by (simp_all add: xs gapped_append)
  have w: "unat (p + 8 * hsize s p) = end_of s p" using e [of p] by (intro end_word [of s p e]) (simp add: xs)
  show ?thesis
  proof (cases "p + 8 * hsize s p = a")
    case True
    have ea: "end_of s p = unat a" using True w by simp
    have t: "hptr t = (hptr s)(p := hptr s a)" "hsize t = (hsize s)(p := hsize s p + hsize s a)" using True by (simp_all add: t_def join_prev_def xs)
    have "unat (hsize s p + hsize s a) = unat (hsize s p) + unat (hsize s a)" using ea e [of a] by (intro size_sum) auto
    then have ep: "end_of t p = end_of s a" "0 < hsize t p" using ea z(2) by (simp_all add: t end_of_def word_less_nat_alt)
    have "chain (hptr t) p zs b" using c(3) p(3) by (cases zs) (auto simp: t)
    then have "chain (hptr t) b (us @ p # zs) b" using p(1,5) so by (simp add: chain_append t)
    moreover have "gapped (hsize t) (unat b) (us @ p # zs)"
    proof -
      have "last_end (hsize t) (unat b) us = last_end (hsize s) (unat b) us" using so by (auto simp: last_end_def t)
      moreover have "gapped (hsize t) (end_of t p) zs" using c(4) p(3) unfolding ep(1) by (simp add: t)
      ultimately show ?thesis using su so ep(2) by (simp add: gapped_append t end_of_def)
    qed
    moreover have "extent t p = extent s p \<union> extent s a" unfolding extent_def ep using ea by (auto simp: end_of_def)
    moreover have "extent t x = extent s x" "end_of t x = end_of s x" if "x \<in> set us \<union> set zs" for x
      using that so p(3) by (auto simp: t extent_def end_of_def)
    ultimately show ?thesis using e ep(1) by (intro exI [of _ "us @ p # zs"]) (auto simp: xs free_span_def t)
  next
    case False
    have t: "hptr t = (hptr s)(p := a)" "hsize t = hsize s" using False by (simp_all add: t_def join_prev_def xs)
    have "end_of s p \<noteq> unat a" using False w by (metis word_unat_eq_iff)
    then have "gapped (hsize t) (unat b) (xs @ a # zs)" using c(2,4) p(4) z(2) by (simp add: t gapped_append last_end_def xs end_of_def)
    moreover have "chain (hptr t) b (xs @ a # zs) b" using p so c(3) by (simp add: xs chain_append t)
    ultimately show ?thesis using e by (intro exI [of _ "xs @ a # zs"]) (auto simp: xs free_span_def t extent_def end_of_def)
  qed
qed


lemma heap_okD:
  assumes "heap_ok s fl al"
  shows "base_hdr s \<noteq> 0" "base_hdr s < brk s" "hsize s (base_hdr s) = 0" "freep s \<in> insert (base_hdr s) (set fl)"
    "chain (hptr s) (base_hdr s) fl (base_hdr s)" "gapped (hsize s) (unat (base_hdr s)) fl" "b \<in> set fl \<union> al \<Longrightarrow> end_of s b \<le> unat (brk s)"
    "apart s fl al" "sorted_wrt (<) (base_hdr s # fl)" "b \<in> set fl \<union> al \<Longrightarrow> base_hdr s < b \<and> 0 < hsize s b"
  using assms gapped_sorted [of "hsize s" "unat (base_hdr s)" fl] by (auto simp: heap_ok_def apart_def word_less_nat_alt [of "base_hdr s"])

text \<open>Putting a block between the free blocks below and above it.\<close>

lemma free_insert:
  assumes c: "chain (hptr s) b (xs @ ys) b" "gapped (hsize s) (unat b) (xs @ ys)" "hsize s b = 0"
    and a: "0 < hsize s a" "b < a" "\<And>x. x \<in> set xs \<Longrightarrow> end_of s x \<le> unat a" "\<And>y. y \<in> set ys \<Longrightarrow> end_of s a \<le> unat y"
    and n: "a \<notin> set xs \<union> set ys" "b \<notin> set xs \<union> set ys" "set xs \<inter> set ys = {}"
    and e: "\<And>x. x \<in> insert a (set xs \<union> set ys) \<Longrightarrow> end_of s x \<le> unat (e :: u32)"
  defines "p \<equiv> last (b # xs)" and "t \<equiv> join_prev a (last (b # xs)) (join_next a (last (b # xs)) s)"
  shows "\<exists>fl. chain (hptr t) b fl b \<and> gapped (hsize t) (unat b) fl \<and> set fl \<subseteq> insert a (set xs \<union> set ys) \<and> p \<in> insert b (set fl)
    \<and> free_span t fl = free_span s (xs @ ys) \<union> extent s a \<and> (\<forall>x \<in> set fl. end_of t x \<le> unat e)
    \<and> (\<forall>x. x \<notin> insert a (set fl) \<longrightarrow> hsize t x = hsize s x)"
proof -
  have pin: "p = b \<or> p \<in> set xs" by (cases "xs = []") (simp_all add: p_def)
  have p: "a \<noteq> p" "p \<notin> set ys" using pin a(2) n by auto
  have cp: "chain (hptr s) p ys b" "\<exists>q. chain (hptr s) b xs q"
    using c(1) unfolding p_def by (cases xs rule: rev_cases; force simp: chain_append)+
  have sp: "gapped (hsize s) (unat b) xs" "gapped (hsize s) (last_end (hsize s) (unat b) xs) ys" using c(2) by (simp_all add: gapped_append)
  define s1 where "s1 = join_next a p s"
  have o1: "hptr s1 x = hptr s x" "hsize s1 x = hsize s x" if "x \<noteq> a" for x using that by (simp_all add: s1_def join_next_def)
  obtain zs where zs: "chain (hptr s1) a zs b" "gapped (hsize s1) (end_of s1 a) zs" "set zs \<subseteq> set ys" "end_of s a \<le> end_of s1 a" "end_of s1 a \<le> unat e"
      "extent s1 a \<union> free_span s1 zs = extent s a \<union> free_span s ys"
    using join_next_joins [OF cp(1) sp(2) p(1) _ a(1) p(2) a(4), of e] a(2) n(1) e unfolding s1_def by (auto simp: word_less_nat_alt)
  have same: "end_of s1 x = end_of s x" "extent s1 x = extent s x" if "x \<noteq> a" for x using o1 that by (simp_all add: end_of_def extent_def)
  obtain q where q: "chain (hptr s1) b xs q" using cp(2) chain_cong [of b xs "hptr s1" "hptr s"] o1(1) a(2) n(1) by (metis UnCI order_less_irrefl)
  have s1: "gapped (hsize s1) (unat b) xs" using sp(1) gapped_cong [of xs "hsize s1" "hsize s"] o1(2) n(1) by (metis UnCI)
  have n1: "a \<notin> set xs \<union> set zs" "b \<notin> set xs \<union> set zs" "set xs \<inter> set zs = {}" "hsize s1 b = 0" "0 < hsize s1 a"
    using n zs(3,4) a(1,2) o1(2) [of b] c(3) by (auto simp: end_of_def word_less_nat_alt)
  have xe: "end_of s1 x \<le> unat a" if "x \<in> set xs" for x using a(3) [OF that] same(1) [of x] that n(1) by (metis UnCI)
  have ee: "end_of s1 x \<le> unat e" if "x \<in> insert a (set xs \<union> set zs)" for x
    using that zs(3,5) e [of x] same(1) [of x] by (cases "x = a") auto
  obtain fl where fl: "chain (hptr t) b fl b" "gapped (hsize t) (unat b) fl" "set fl \<subseteq> insert a (set xs \<union> set zs)" "p \<in> insert b (set fl)"
      "free_span t fl = free_span s1 xs \<union> extent s1 a \<union> free_span s1 zs" "\<forall>x \<in> set fl. end_of t x \<le> unat e" "\<forall>x. x \<notin> set fl \<longrightarrow> hsize t x = hsize s1 x"
    using join_prev_joins [OF q s1 zs(1,2) n1(1-5) a(2) xe ee] unfolding p_def t_def s1_def by blast
  have "extent s1 x = extent s x" if "x \<in> set xs" for x using that n(1) same(2) by (metis UnCI)
  then have "free_span s1 xs = free_span s xs" by (simp add: free_span_def)
  then have "free_span t fl = free_span s (xs @ ys) \<union> extent s a" using fl(5) zs(6) by (auto simp: free_span_def)
  moreover have "hsize t x = hsize s x" if "x \<notin> insert a (set fl)" for x using that fl(7) o1(2) [of x] by simp
  ultimately show ?thesis using fl zs(3) by (intro exI [of _ fl]) auto
qed


lemma ufree_frees:
  assumes ok: "heap_ok s fl al" and a: "a \<in> al"
  shows "\<exists>t fl'. ufree (a + 8) s = Some t \<and> heap_ok t fl' (al - {a}) \<and> free_span t fl' = free_span s fl \<union> extent s a
    \<and> (\<forall>c \<in> al - {a}. hsize t c = hsize s c) \<and> brk t = brk s \<and> base_hdr t = base_hdr s"
proof -
  let ?b = "base_hdr s"
  note d = heap_okD [OF ok]
  have ap: "al \<inter> set fl = {}" "\<And>c x. c \<in> al \<Longrightarrow> x \<in> set fl \<union> al \<Longrightarrow> x \<noteq> c \<Longrightarrow> extent s c \<inter> extent s x = {}" using d(8) by (auto simp: apart_def)
  have aa: "a \<notin> set fl" "?b < a" "0 < hsize s a" using ap(1) a d(10) [of a] by auto
  obtain xs ys where fl: "fl = xs @ ys" and x: "\<And>x. x \<in> set xs \<Longrightarrow> end_of s x \<le> unat a" and y: "\<And>y. y \<in> set ys \<Longrightarrow> end_of s a \<le> unat y"
    by (rule place [OF d(6) aa(1,3)]) (use ap(2) [OF a] aa(1) in \<open>auto intro: that\<close>)
  have lt: "x < a" if "x \<in> set xs" for x using x [OF that] d(10) [of x] that by (auto simp: fl word_less_nat_alt end_of_def)
  have gt: "a < z" if "z \<in> set ys" for z using y [OF that] aa(3) by (simp add: word_less_nat_alt end_of_def)
  define p where "p = last (?b # xs)"
  have fp: "free_loop a (freep s) s = Some p" unfolding p_def using d(4,5,9) aa(2) lt gt by (intro free_loop_finds [of s ?b xs ys]) (auto simp: fl)
  have n: "a \<notin> set xs \<union> set ys" "?b \<notin> set xs \<union> set ys" "set xs \<inter> set ys = {}" using aa(1) d(9) by (auto simp: fl sorted_wrt_append)
  have e: "end_of s x \<le> unat (brk s)" if "x \<in> insert a (set xs \<union> set ys)" for x using that a d(7) [of x] by (auto simp: fl)
  define t where "t = join_prev a p (join_next a p s)"
  have tf: "brk t = brk s" "base_hdr t = ?b" by (simp_all add: t_def join_prev_def join_next_def)
  note fi = free_insert [OF d(5) [unfolded fl] d(6) [unfolded fl] d(3) aa(3,2) x y n e, folded p_def, folded t_def, folded fl]
  obtain fl' where r: "chain (hptr t) ?b fl' ?b" "gapped (hsize t) (unat ?b) fl'" "set fl' \<subseteq> insert a (set xs \<union> set ys)" "p \<in> insert ?b (set fl')"
      "free_span t fl' = free_span s fl \<union> extent s a" "\<forall>x \<in> set fl'. end_of t x \<le> unat (brk s)" "\<forall>x. x \<notin> insert a (set fl') \<longrightarrow> hsize t x = hsize s x"
    using fi by blast
  have keep: "hsize t c = hsize s c" "extent t c = extent s c" "end_of t c = end_of s c" if "c \<in> insert ?b (al - {a})" for c
  proof -
    have "c \<notin> insert a (set fl')" using r(3) that ap(1) aa(2) n(2) fl by auto
    then show "hsize t c = hsize s c" "extent t c = extent s c" "end_of t c = end_of s c" using r(7) by (simp_all add: extent_def end_of_def)
  qed
  have "extent s c \<inter> extent t x = {}" if "c \<in> al - {a}" "x \<in> set fl'" for c x
  proof -
    have "extent t x \<subseteq> free_span s fl \<union> extent s a" using r(5) that(2) by (auto simp: free_span_def)
    moreover have "extent s c \<inter> (free_span s fl \<union> extent s a) = {}" using ap(1) ap(2) [of c] that(1) a by (auto simp: free_span_def)
    ultimately show ?thesis by blast
  qed
  then have dj: "extent t c \<inter> extent t x = {}" if "c \<in> al - {a}" "x \<in> set fl' \<union> (al - {a})" "x \<noteq> c" for c x
    using that keep(2) [of c] keep(2) [of x] ap(2) [of c x] by auto
  have "(al - {a}) \<inter> set fl' = {}" using r(3) ap(1) fl by auto
  then have "apart (t\<lparr>freep := p\<rparr>) fl' (al - {a})"
    unfolding apart_def using dj d(10) keep(1) by (auto simp: tf)
  moreover have "end_of t c \<le> unat (brk s)" if "c \<in> set fl' \<union> (al - {a})" for c using that r(6) d(7) [of c] keep(3) [of c] by auto
  ultimately have "heap_ok (t\<lparr>freep := p\<rparr>) fl' (al - {a})"
    unfolding heap_ok_def using r(1,2,4) d(1,2,3) keep(1) by (simp add: tf)
  moreover have "ufree (a + 8) s = Some (t\<lparr>freep := p\<rparr>)" by (simp add: ufree_def fp t_def)
  moreover have "free_span (t\<lparr>freep := p\<rparr>) fl' = free_span t fl'" by (simp add: free_span_def)
  ultimately show ?thesis using r(5) keep tf by (intro exI [of _ "t\<lparr>freep := p\<rparr>"] exI [of _ fl']) simp
qed

section \<open>Growing the heap\<close>

lemma gapped_gap: "gapped z lo xs \<Longrightarrow> x \<in> set xs \<Longrightarrow> y \<in> set xs \<Longrightarrow> unat x < unat y \<Longrightarrow> unat x + 8 * unat (z x) < unat y"
proof (induction xs arbitrary: lo)
  case (Cons b xs)
  have "unat b + 8 * unat (z b) < unat w" if "w \<in> set xs" for w using gapped_sorted [of z "unat b + 8 * unat (z b)" xs] Cons.prems(1) that by auto
  then show ?case using Cons by (auto simp: not_less) (metis add_leD1 leD less_imp_le)
qed simp

text \<open>Memory without a gap lies in one free block.\<close>

lemma one_block:
  assumes s: "gapped (hsize s) lo fl" and m: "{u ..< v} \<subseteq> free_span s fl" "u < v"
  shows "\<exists>b \<in> set fl. unat b \<le> u \<and> v \<le> end_of s b"
proof -
  have "u \<in> free_span s fl" using m by auto
  then obtain b where b: "b \<in> set fl" "unat b \<le> u" "u < end_of s b" by (auto simp: free_span_def extent_def)
  have "v \<le> end_of s b"
  proof (rule ccontr)
    assume "\<not> v \<le> end_of s b"
    then have "end_of s b \<in> free_span s fl" using m b by auto
    then obtain c where c: "c \<in> set fl" "unat c \<le> end_of s b" "end_of s b < end_of s c" by (auto simp: free_span_def extent_def)
    have "unat b < unat c \<or> unat c < unat b" using c(3) by (metis nat_neq_iff word_unat_eq_iff)
    then show False using gapped_gap [OF s b(1) c(1)] gapped_gap [OF s c(1) b(1)] b c by (auto simp: end_of_def)
  qed
  then show ?thesis using b by blast
qed

definition limited :: "(u32 \<Rightarrow> u32 \<Rightarrow> bool) \<Rightarrow> bool" where
  "limited grant \<longleftrightarrow> (\<forall>b n. grant b n \<longrightarrow> unat b + unat n < 2 ^ 31)"

lemma sbrk_grow: "unat n < 2 ^ 31 \<Longrightarrow> sbrk grant n s = (if grant (brk s) n then (brk s, s\<lparr>brk := brk s + n\<rparr>) else (-1, s))"
  using small_sint [of n] by (simp add: sbrk_def)

lemma morecore_grows:
  assumes ok: "heap_ok s fl al" and g: "limited grant" and n: "unat nu < 2 ^ 28"
  defines "m \<equiv> (if nu < 4096 then 4096 else nu) :: u32"
  shows "if grant (brk s) (m * 8)
    then \<exists>t fl'. morecore grant nu s = Some (freep t, t) \<and> heap_ok t fl' al \<and> free_span t fl' = free_span s fl \<union> {unat (brk s) ..< unat (brk t)}
      \<and> (\<forall>c \<in> al. hsize t c = hsize s c) \<and> brk t = brk s + m * 8 \<and> brk s \<le> brk t \<and> base_hdr t = base_hdr s \<and> (\<exists>b \<in> set fl'. nu \<le> hsize t b)
    else morecore grant nu s = Some (0, s)"
proof (cases "grant (brk s) (m * 8)")
  case True
  let ?p = "brk s"
  define s1 where "s1 = s\<lparr>brk := ?p + m * 8, hsize := (hsize s)(?p := m)\<rparr>"
  note d = heap_okD [OF ok]
  have m: "unat m < 2 ^ 28" "nu \<le> m" "0 < m" using n by (auto simp: m_def word_less_nat_alt word_le_nat_alt)
  have m8: "unat (m * 8) = 8 * unat m" using m(1) by (simp add: unat_word_ariths)
  have lim: "unat ?p + 8 * unat m < 2 ^ 31" using g True m8 unfolding limited_def by metis
  then have p8: "unat (?p + m * 8) = unat ?p + 8 * unat m" using m8 by (simp add: unat_word_ariths)
  have old: "unat b < unat ?p" if "b \<in> set fl \<union> al" for b using d(7,10) [OF that] by (auto simp: end_of_def word_less_nat_alt)
  have pn: "?p \<notin> set fl" "?p \<notin> al" "?p \<noteq> base_hdr s" using old d(2) by auto
  have keep: "extent s1 b = extent s b" "end_of s1 b = end_of s b" "hsize s1 b = hsize s b" if "b \<noteq> ?p" for b
    using that by (simp_all add: s1_def extent_def end_of_def)
  have ep: "end_of s1 ?p = unat ?p + 8 * unat m" by (simp add: s1_def end_of_def)
  have dp: "extent s1 ?p \<inter> extent s b = {}" if "b \<in> set fl \<union> al" for b using d(7) [OF that] by (auto simp: extent_def)
  have "extent s1 a \<inter> extent s1 b = {}" if "a \<in> insert ?p al" "b \<in> set fl \<union> insert ?p al" "b \<noteq> a" for a b
  proof (cases "a = ?p \<or> b = ?p")
    case True
    then show ?thesis using that dp [of a] dp [of b] keep(1) [of a] keep(1) [of b] by auto
  next
    case False
    then show ?thesis using that d(8) keep(1) [of a] keep(1) [of b] by (auto simp: apart_def)
  qed
  moreover have "base_hdr s < a \<and> 0 < hsize s1 a" if "a \<in> insert ?p al" for a
    using that d(10) [of a] d(2) m(3) keep(3) [of a] by (cases "a = ?p") (auto simp: s1_def)
  ultimately have "apart s1 fl (insert ?p al)" using d(8) pn(1) unfolding apart_def by (simp add: s1_def)
  moreover have "end_of s1 b \<le> unat (brk s1)" if "b \<in> set fl \<union> insert ?p al" for b
    using that ep p8 keep(2) [of b] d(7) [of b] by (cases "b = ?p") (auto simp: s1_def)
  moreover have "base_hdr s < brk s1" using d(2) p8 by (simp add: s1_def word_less_nat_alt)
  ultimately have "heap_ok s1 fl (insert ?p al)"
    using d(1,3-6) pn unfolding heap_ok_def by (simp add: s1_def)
  from ufree_frees [OF this, of ?p] obtain t fl' where t: "ufree (?p + 8) s1 = Some t" "heap_ok t fl' al" "free_span t fl' = free_span s1 fl \<union> extent s1 ?p"
      "\<forall>c \<in> al. hsize t c = hsize s1 c" "brk t = brk s1" "base_hdr t = base_hdr s1" using pn(2) by auto
  have "free_span s1 fl = free_span s fl" using keep(1) pn(1) unfolding free_span_def by (metis (no_types, lifting) SUP_cong)
  then have f: "free_span t fl' = free_span s fl \<union> {unat ?p ..< unat (brk t)}" using t(3,5) ep p8 by (simp add: extent_def s1_def)
  then obtain b where "b \<in> set fl'" "unat b \<le> unat ?p" "unat (brk t) \<le> end_of t b"
    using one_block [OF heap_okD(6) [OF t(2)], of "unat ?p" "unat (brk t)"] t(5) p8 m(3) by (auto simp: s1_def word_less_nat_alt)
  then have "\<exists>b \<in> set fl'. nu \<le> hsize t b" using t(5) p8 m(2) by (intro bexI [of _ b]) (auto simp: s1_def end_of_def word_le_nat_alt)
  moreover have "morecore grant nu s = Some (freep t, t)"
  proof -
    have "unat (-1 :: u32) = 4294967295" by (simp add: unsigned_minus_1_eq_mask mask_eq_exp_minus_1)
    then have "?p \<noteq> -1" using lim by auto
    moreover have "s\<lparr>brk := ?p + m * 8, hsize := (hsize s)(?p := m)\<rparr> = s1" by (simp add: s1_def)
    ultimately show ?thesis using True t(1) m8 m(1) by (simp add: morecore_def sbrk_grow flip: m_def)
  qed
  ultimately show ?thesis using True t f keep(3) pn(2) p8 by (auto simp: s1_def word_le_nat_alt intro!: exI [of _ t] exI [of _ fl'])
next
  case False
  have "unat (m * 8) < 2 ^ 31" using n by (auto simp: m_def unat_word_ariths)
  then show ?thesis using False by (simp add: morecore_def sbrk_grow flip: m_def)
qed


section \<open>Taking a block\<close>

lemma chain_remove: "chain l b (xs @ p # ys) z \<Longrightarrow> distinct (b # xs @ p # ys) \<Longrightarrow> chain (l(last (b # xs) := l p)) b (xs @ ys) z"
proof (induction xs arbitrary: b)
  case Nil
  then show ?case by (cases ys) (auto simp: fun_upd_same simp del: fun_upd_apply)
next
  case (Cons x xs)
  have "last (x # xs) \<in> set (x # xs)" by (rule last_in_set) simp
  then have "b \<noteq> last (x # xs)" using Cons.prems(2) by auto
  then show ?case using Cons by auto
qed

lemma free_apart: "gapped (hsize s) lo fl \<Longrightarrow> x \<in> set fl \<Longrightarrow> y \<in> set fl \<Longrightarrow> x \<noteq> y \<Longrightarrow> extent s x \<inter> extent s y = {}"
proof -
  assume s: "gapped (hsize s) lo fl" and m: "x \<in> set fl" "y \<in> set fl" "x \<noteq> y"
  have "unat x < unat y \<or> unat y < unat x" using m(3) by (metis nat_neq_iff word_unat_eq_iff)
  then show ?thesis using gapped_gap [OF s m(1,2)] gapped_gap [OF s m(2,1)] by (auto simp: extent_def end_of_def)
qed

lemma heap_distinct: "heap_ok s fl al \<Longrightarrow> distinct (base_hdr s # fl)"
  using heap_okD(9) strict_sorted_iff by blast

lemma apart_all:
  assumes "heap_ok s fl al" "x \<in> set fl \<union> al" "y \<in> set fl \<union> al" "x \<noteq> y"
  shows "extent s x \<inter> extent s y = {}"
proof -
  have al: "extent s c \<inter> extent s b = {}" if "c \<in> al" "b \<in> set fl \<union> al" "b \<noteq> c" for b c
    using heap_okD(8) [OF assms(1)] that by (simp add: apart_def)
  consider "x \<in> al" | "y \<in> al" | "x \<in> set fl" "y \<in> set fl" using assms by auto
  then show ?thesis
  proof cases
    case 2
    then show ?thesis using al [of y x] assms by (simp add: Int_commute)
  qed (use al [of x y] assms free_apart [OF heap_okD(6) [OF assms(1)], of x y] in simp_all)
qed

definition carved :: "uheap \<Rightarrow> u32 list \<Rightarrow> u32 set \<Rightarrow> u32 \<Rightarrow> u32 \<Rightarrow> uheap \<Rightarrow> bool" where
  "carved s fl al n q t \<longleftrightarrow> q \<notin> al \<and> hsize t q = n \<and> extent t q \<subseteq> free_span s fl \<and> (\<forall>c \<in> al. hsize t c = hsize s c)
     \<and> brk t = brk s \<and> base_hdr t = base_hdr s \<and> (\<exists>fl'. heap_ok t fl' (insert q al) \<and> free_span t fl' = free_span s fl - extent t q)"

lemma take_whole:
  assumes ok: "heap_ok s (xs @ p # ys) al"
  shows "carved s (xs @ p # ys) al (hsize s p) p (s\<lparr>hptr := (hptr s)(last (base_hdr s # xs) := hptr s p), freep := last (base_hdr s # xs)\<rparr>)"
    (is "carved s ?fl al _ p ?t")
proof -
  let ?b = "base_hdr s"
  note d = heap_okD [OF ok] and di = heap_distinct [OF ok]
  have same: "extent ?t = extent s" "end_of ?t = end_of s" by (simp_all add: extent_def end_of_def fun_eq_iff)
  have p: "p \<in> set ?fl" "p \<notin> al" "p \<notin> set (xs @ ys)" using di d(8) by (auto simp: apart_def)
  have sp: "gapped (hsize s) (unat ?b) (xs @ ys)" using d(6) by (auto simp: gapped_append last_end_def intro: gapped_mono)
  have "apart ?t (xs @ ys) (insert p al)"
    unfolding apart_def same using p d(8) d(10) [of p] apart_all [OF ok] by (auto simp: apart_def)
  moreover have "last (?b # xs) \<in> insert ?b (set (xs @ ys))" by simp
  ultimately have "heap_ok ?t (xs @ ys) (insert p al)"
    using d(1-3,7) sp chain_remove [OF d(5) di] unfolding heap_ok_def same by (auto simp del: last.simps)
  moreover have "free_span ?t (xs @ ys) = free_span s ?fl - extent s p"
    using apart_all [OF ok, of p] p(1,3) unfolding free_span_def same by auto
  moreover have "extent s p \<subseteq> free_span s ?fl" by (auto simp: free_span_def)
  ultimately show ?thesis unfolding carved_def same using p(2) by (intro conjI exI [of _ "xs @ ys"]) simp_all
qed

lemma gapped_shrink:
  assumes "gapped z lo (xs @ p # ys)" "p \<notin> set (xs @ ys)" "0 < v" "unat v \<le> unat (z p)"
  shows "gapped (z(p := v)) lo (xs @ p # ys)"
proof -
  have "last_end (z(p := v)) lo xs = last_end z lo xs" using assms(2) by (auto simp: last_end_def)
  moreover have "gapped z (unat p + 8 * unat v) ys" using assms(1,4) by (auto simp: gapped_append intro: gapped_mono)
  ultimately show ?thesis using assms(1-3) by (simp add: gapped_append)
qed

text \<open>The heap after the tail of \<open>p\<close> becomes a block of its own, and the extents in it.\<close>

definition cut_tail :: "uheap \<Rightarrow> u32 \<Rightarrow> u32 \<Rightarrow> u32 \<Rightarrow> u32 \<Rightarrow> uheap" where
  "cut_tail s p n q f = s\<lparr>hsize := ((hsize s)(p := hsize s p - n))(q := n), freep := f\<rparr>"

lemma cut_tail_block:
  assumes ok: "heap_ok s fl al" and p: "p \<in> set fl" and n: "0 < n" "n < hsize s p"
  defines "q \<equiv> p + 8 * (hsize s p - n)"
  shows "unat p < unat q" "unat q + 8 * unat n = end_of s p" "base_hdr s < p" "base_hdr s < q"
    "x \<in> set fl \<union> al \<Longrightarrow> q \<noteq> x"
    "x \<in> set fl \<union> al \<Longrightarrow> x \<noteq> p \<Longrightarrow> extent s x \<inter> extent s p = {}"
proof -
  note d = heap_okD [OF ok]
  have sz: "unat (hsize s p - n) = unat (hsize s p) - unat n" "unat n < unat (hsize s p)" "0 < unat n"
    using n by (simp_all add: unat_sub_if' word_less_nat_alt word_le_nat_alt)
  have "end_of (s\<lparr>hsize := (hsize s)(p := hsize s p - n)\<rparr>) p \<le> unat (brk s)"
    using d(7) [of p] p sz by (simp add: end_of_def)
  from end_word [OF this] have q: "unat q = unat p + 8 * (unat (hsize s p) - unat n)"
    using sz by (simp add: q_def end_of_def)
  show inp: "unat p < unat q" "unat q + 8 * unat n = end_of s p" using q sz by (auto simp: end_of_def)
  show "base_hdr s < p" using d(10) [of p] p by simp
  then show "base_hdr s < q" using inp by (simp add: word_less_nat_alt)
  have qin: "unat q \<in> extent s p" using inp sz by (simp add: extent_def)
  show "extent s x \<inter> extent s p = {}" if "x \<in> set fl \<union> al" "x \<noteq> p"
    using that apart_all [OF ok that(1), of p] p by auto
  show "q \<noteq> x" if x: "x \<in> set fl \<union> al"
  proof -
    have "unat x \<in> extent s x" using d(10) [OF x] by (simp add: extent_def end_of_def word_less_nat_alt)
    then show ?thesis using qin inp apart_all [OF ok x, of p] p by (cases "x = p") auto
  qed
qed

lemma cut_tail_extents:
  assumes ok: "heap_ok s fl al" and p: "p \<in> set fl" and n: "0 < n" "n < hsize s p"
  defines "q \<equiv> p + 8 * (hsize s p - n)"
  shows "extent (cut_tail s p n q f) p = {unat p ..< unat q}" "extent (cut_tail s p n q f) q = {unat q ..< end_of s p}"
    "x \<in> set fl \<union> al \<Longrightarrow> x \<noteq> p \<Longrightarrow> extent (cut_tail s p n q f) x = extent s x"
    "x \<in> set fl \<union> insert q al \<Longrightarrow> end_of (cut_tail s p n q f) x \<le> unat (brk s)"
    "extent (cut_tail s p n q f) q \<subseteq> extent s p" "extent (cut_tail s p n q f) p \<subseteq> extent s p"
proof -
  note b = cut_tail_block [OF ok p n, folded q_def]
  have pq: "q \<noteq> p" using b(5) [of p] p by simp
  have "unat (hsize s p - n) = unat (hsize s p) - unat n" "unat n \<le> unat (hsize s p)"
    using n by (simp_all add: unat_sub_if' word_less_nat_alt word_le_nat_alt)
  then have ends: "end_of (cut_tail s p n q f) p = unat q" "end_of (cut_tail s p n q f) q = end_of s p"
    using b(2) pq by (auto simp: cut_tail_def end_of_def)
  then show ext: "extent (cut_tail s p n q f) p = {unat p ..< unat q}"
    "extent (cut_tail s p n q f) q = {unat q ..< end_of s p}" by (simp_all add: extent_def)
  have same: "end_of (cut_tail s p n q f) x = end_of s x" if "x \<noteq> p" "x \<noteq> q" for x
    using that by (simp add: cut_tail_def end_of_def)
  then show "extent (cut_tail s p n q f) x = extent s x" if "x \<in> set fl \<union> al" "x \<noteq> p"
    using that b(5) [of x] by (auto simp: extent_def)
  show "end_of (cut_tail s p n q f) x \<le> unat (brk s)" if "x \<in> set fl \<union> insert q al"
    using that heap_okD(7) [OF ok, of x] heap_okD(7) [OF ok, of p] p same [of x] ends b(2)
    by (cases "x = p"; cases "x = q") auto
  show "extent (cut_tail s p n q f) q \<subseteq> extent s p" "extent (cut_tail s p n q f) p \<subseteq> extent s p"
    using ext b(1,2) by (auto simp: extent_def)
qed

lemma cut_tail_apart:
  assumes ok: "heap_ok s fl al" and p: "p \<in> set fl" "p \<notin> al" and n: "0 < n" "n < hsize s p"
  defines "q \<equiv> p + 8 * (hsize s p - n)"
  shows "apart (cut_tail s p n q f) fl (insert q al)" (is "apart ?t fl _")
proof -
  note d = heap_okD [OF ok]
  note b = cut_tail_block [OF ok p(1) n, folded q_def] and e = cut_tail_extents [OF ok p(1) n, folded q_def, where f = f]
  have dq: "extent ?t q \<inter> extent ?t x = {}" if "x \<in> set fl \<union> al" for x
  proof (cases "x = p")
    case False
    then show ?thesis using e(3) [OF that] b(6) [OF that] e(5) by blast
  qed (use e(1,2) in auto)
  have da: "extent ?t a \<inter> extent ?t x = {}" if "a \<in> al" "x \<in> set fl \<union> al" "x \<noteq> a" for a x
  proof (cases "x = p")
    case True
    then show ?thesis using e(3) [of a] b(6) [of a] that p(2) e(6) by blast
  next
    case False
    then show ?thesis using e(3) [of a] e(3) [of x] apart_all [OF ok, of a x] that p(2) by auto
  qed
  show ?thesis
    unfolding apart_def
  proof (intro conjI ballI impI)
    show "insert q al \<inter> set fl = {}" using d(8) b(5) by (auto simp: apart_def)
    show "base_hdr ?t < a" "0 < hsize ?t a" if "a \<in> insert q al" for a
      using that b(4) n(1) d(10) [of a] b(5) [of a] p(2) by (auto simp: cut_tail_def word_less_nat_alt)
    show "extent ?t a \<inter> extent ?t x = {}" if "a \<in> insert q al" "x \<in> set fl \<union> insert q al" "x \<noteq> a" for a x
      using that dq [of x] dq [of a] da [of a x] by auto
  qed
qed

lemma take_tail:
  assumes ok: "heap_ok s (xs @ p # ys) al" and n: "0 < n" "n < hsize s p"
  defines "q \<equiv> p + 8 * (hsize s p - n)"
  shows "carved s (xs @ p # ys) al n q (s\<lparr>hsize := ((hsize s)(p := hsize s p - n))(q := n), freep := last (base_hdr s # xs)\<rparr>)"
    (is "carved s ?fl al _ _ ?t")
proof -
  let ?b = "base_hdr s"
  note d = heap_okD [OF ok] and di = heap_distinct [OF ok]
  have p: "p \<in> set ?fl" "p \<notin> al" "p \<notin> set (xs @ ys)" using di d(8) by (auto simp: apart_def)
  have t: "?t = cut_tail s p n q (last (?b # xs))" by (simp add: cut_tail_def)
  note b = cut_tail_block [OF ok p(1) n, folded q_def]
    and e = cut_tail_extents [OF ok p(1) n, folded q_def, where f = "last (?b # xs)", folded t]
  have "gapped (hsize ?t) (unat ?b) ?fl"
  proof -
    have "q \<notin> set ?fl" using b(5) by auto
    moreover have "unat (hsize s p - n) \<le> unat (hsize s p)" "0 < hsize s p - n"
      using n by (simp_all add: unat_sub_if' word_less_nat_alt word_le_nat_alt)
    then have "gapped ((hsize s)(p := hsize s p - n)) (unat ?b) ?fl" using d(6) p(3) by (intro gapped_shrink) auto
    moreover have "hsize ?t = ((hsize s)(p := hsize s p - n))(q := n)" by simp
    ultimately show ?thesis using gapped_upd [of q ?fl] by metis
  qed
  moreover have "apart ?t ?fl (insert q al)"
    by (rule cut_tail_apart [OF ok p(1,2) n, folded q_def, where f = "last (?b # xs)", folded t])
  moreover have "hsize ?t ?b = 0" using d(3) b(3,4) by auto
  ultimately have "heap_ok ?t ?fl (insert q al)" using d(1,2,5) e(4) unfolding heap_ok_def by simp
  moreover have "free_span ?t ?fl = free_span s ?fl - extent ?t q"
  proof -
    have "extent ?t x = extent s x - extent ?t q" if "x \<in> set ?fl" for x
    proof (cases "x = p")
      case False
      then show ?thesis using e(3) [of x] b(6) [of x] that e(5) by blast
    next
      case True
      then show ?thesis using e(1,2) b(1,2) by (auto simp: extent_def)
    qed
    then have "(\<Union>x \<in> set ?fl. extent ?t x) = (\<Union>x \<in> set ?fl. extent s x - extent ?t q)" by (rule SUP_cong [OF refl])
    then show ?thesis unfolding free_span_def by blast
  qed
  moreover have "extent ?t q \<subseteq> free_span s ?fl" using e(5) p(1) by (auto simp: free_span_def)
  moreover have "hsize ?t c = hsize s c" if "c \<in> al" for c using that b(5) [of c] p(2) by auto
  ultimately show ?thesis unfolding carved_def using b(5) by (intro conjI exI [of _ ?fl]) auto
qed

section \<open>The search in malloc\<close>

lemma malloc_take_taken:
  assumes "heap_ok s (xs @ p # ys) al" "0 < n" "n \<le> hsize s p"
  shows "\<exists>q t. malloc_take n (last (base_hdr s # xs)) p s = (q + 8, t) \<and> carved s (xs @ p # ys) al n q t"
proof (cases "hsize s p = n")
  case True
  then show ?thesis using take_whole [OF assms(1)] by (auto simp: malloc_take_def simp del: last.simps)
next
  case False
  then show ?thesis using take_tail [OF assms(1,2)] assms(3) by (auto simp: malloc_take_def Let_def simp del: last.simps)
qed

lemma malloc_loop_skip:
  assumes "chain (hptr s) r zs q" "\<And>z. z \<in> set zs \<Longrightarrow> hsize s z < n \<and> z \<noteq> freep s"
  shows "malloc_loop grant n r (hptr s r) s = malloc_loop grant n (last (r # zs)) q s"
  using assms
proof (induction zs arbitrary: r)
  case (Cons z zs)
  have "malloc_loop grant n r z s = malloc_loop grant n z (hptr s z) s"
    using Cons.prems(2) [of z] by (subst malloc_loop.simps) auto
  then show ?case using Cons by auto
qed simp

text \<open>The ring, seen from any of its blocks.\<close>

lemma chain_map: "chain l a xs z \<longleftrightarrow> map l (a # xs) = xs @ [z]"
  by (induction xs arbitrary: a) auto

lemma ring_from:
  assumes "chain l b fl b" "f \<in> insert b (set fl)" "distinct (b # fl)"
  obtains cyc where "chain l f cyc f" "f \<notin> set cyc" "insert f (set cyc) = insert b (set fl)"
proof (cases "f = b")
  case False
  then obtain us vs where fl: "fl = us @ f # vs" using assms(2) by (auto simp: in_set_conv_decomp)
  have "chain l f (vs @ b # us) f" using assms(1) by (auto simp: fl chain_append)
  then show ?thesis by (rule that) (use assms(3) fl in auto)
qed (use assms that in auto)

lemma ring_pred:
  assumes "chain l b (xs @ p # ys) b" "distinct (b # xs @ p # ys)" "r \<in> insert b (set (xs @ p # ys))" "l r = p"
  shows "r = last (b # xs)"
proof -
  have "map l (b # xs @ p # ys) = xs @ p # ys @ [b]" using assms(1) by (simp add: chain_map)
  moreover have "distinct (xs @ p # ys @ [b])" using assms(2) by auto
  ultimately have "inj_on l (set (b # xs @ p # ys))" by (metis distinct_map)
  moreover have "l (last (b # xs)) = p" using assms(1) chain_last [of l b xs p] by (simp add: chain_append)
  moreover have "last (b # xs) \<in> set (b # xs @ p # ys)" by auto
  ultimately show ?thesis using assms(3,4) by (metis inj_onD list.simps(15))
qed

lemma malloc_lap:
  assumes ok: "heap_ok s fl al" and n: "0 < n"
  shows "if \<exists>b \<in> set fl. n \<le> hsize s b
    then \<exists>q t. malloc_loop grant n (freep s) (hptr s (freep s)) s = Some (q + 8, t) \<and> carved s fl al n q t
    else malloc_loop grant n (freep s) (hptr s (freep s)) s =
      Option.bind (morecore grant n s) (\<lambda>(q, s). if q = 0 then Some (0, s) else malloc_loop grant n q (hptr s q) s)"
proof -
  let ?b = "base_hdr s" and ?f = "freep s"
  note d = heap_okD [OF ok] and di = heap_distinct [OF ok]
  obtain cyc where c: "chain (hptr s) ?f cyc ?f" "?f \<notin> set cyc" "insert ?f (set cyc) = insert ?b (set fl)"
    using ring_from [OF d(5,4) di] .
  have b0: "\<not> n \<le> hsize s ?b" using d(3) n by (simp add: word_le_nat_alt word_less_nat_alt)
  show ?thesis
  proof (cases "\<exists>b \<in> set fl. n \<le> hsize s b")
    case False
    then have small: "hsize s z < n" if "z \<in> insert ?f (set cyc)" for z using that c(3) b0 by (metis insert_iff not_le)
    have "malloc_loop grant n ?f (hptr s ?f) s = malloc_loop grant n (last (?f # cyc)) ?f s"
      by (rule malloc_loop_skip [OF c(1)]) (use small c(2) in auto)
    also have "\<dots> = Option.bind (morecore grant n s) (\<lambda>(q, s). if q = 0 then Some (0, s) else malloc_loop grant n q (hptr s q) s)"
      using small [of ?f] by (subst malloc_loop.simps) (auto simp: not_le)
    finally show ?thesis using False by simp
  next
    case True
    then have "\<exists>z \<in> set (cyc @ [?f]). n \<le> hsize s z" using c(3) by auto
    then obtain as p bs where p: "cyc @ [?f] = as @ p # bs" "n \<le> hsize s p" "\<forall>z \<in> set as. \<not> n \<le> hsize s z" by (rule split_list_first_propE)
    have as: "set as \<subseteq> set cyc" "chain (hptr s) ?f as p" "p \<in> insert ?f (set cyc)"
      using p(1) c(1) by (cases bs rule: rev_cases; auto simp: chain_append)+
    define r where "r = last (?f # as)"
    have "r \<in> set (?f # as)" unfolding r_def by (rule last_in_set) simp
    then have r: "r \<in> insert ?b (set fl)" "hptr s r = p" using as(1) chain_last [OF as(2)] c(3) by (auto simp: r_def simp del: last.simps)
    have "p \<noteq> ?b" using p(2) b0 by auto
    then obtain xs ys where fl: "fl = xs @ p # ys" using as(3) c(3) by (auto simp: in_set_conv_decomp)
    have "malloc_loop grant n ?f (hptr s ?f) s = malloc_loop grant n r p s"
      unfolding r_def by (rule malloc_loop_skip [OF as(2)]) (use p(3) as(1) c(2) in \<open>auto simp: not_le\<close>)
    also have "\<dots> = Some (malloc_take n r p s)" using p(2) by (subst malloc_loop.simps) simp
    also have "r = last (?b # xs)" using ring_pred [OF d(5) [unfolded fl] di [unfolded fl] r(1) [unfolded fl] r(2)] .
    finally show ?thesis using True malloc_take_taken [OF ok [unfolded fl] n p(2)] by (auto simp: fl simp del: last.simps)
  qed
qed

section \<open>The allocator\<close>

text \<open>The state between calls; before the first call there is no list yet.\<close>

definition heap_inv :: "uheap \<Rightarrow> u32 list \<Rightarrow> u32 set \<Rightarrow> bool" where
  "heap_inv s fl al \<longleftrightarrow> heap_ok s fl al \<or> fl = [] \<and> al = {} \<and> freep s = 0 \<and> base_hdr s \<noteq> 0 \<and> base_hdr s < brk s"

lemma freep_nonnull:
  assumes "heap_ok s fl al"
  shows "freep s \<noteq> 0"
  using heap_okD(1,4) [OF assms] heap_okD(10) [OF assms, of "freep s"] by (auto simp: word_less_nat_alt)

lemma first_use_ok:
  assumes "heap_inv s fl al"
  shows "heap_ok (first_use s) fl al" "free_span (first_use s) fl = free_span s fl" "brk (first_use s) = brk s"
    "\<forall>b \<in> set fl \<union> al. hsize (first_use s) b = hsize s b"
proof -
  have "heap_ok (first_use s) fl al \<and> free_span (first_use s) fl = free_span s fl \<and> brk (first_use s) = brk s
    \<and> (\<forall>b \<in> set fl \<union> al. hsize (first_use s) b = hsize s b)"
  proof (cases "heap_ok s fl al")
    case True
    then show ?thesis using freep_nonnull [OF True] by (simp add: first_use_def)
  next
    case False
    then have "fl = []" "al = {}" "freep s = 0" "base_hdr s \<noteq> 0" "base_hdr s < brk s" using assms by (auto simp: heap_inv_def)
    then show ?thesis by (simp add: first_use_def heap_ok_def apart_def free_span_def)
  qed
  then show "heap_ok (first_use s) fl al" "free_span (first_use s) fl = free_span s fl" "brk (first_use s) = brk s"
    "\<forall>b \<in> set fl \<union> al. hsize (first_use s) b = hsize s b" by blast+
qed

definition units_of :: "u32 \<Rightarrow> u32" where
  "units_of nbytes = (nbytes + 8 - 1) div 8 + 1"

lemma units_enough:
  assumes "unat nbytes \<le> 2 ^ 31 - 16"
  shows "unat nbytes + 8 \<le> 8 * unat (units_of nbytes)" "unat (units_of nbytes) < 2 ^ 28" "0 < units_of nbytes"
    "8 * unat (units_of nbytes) \<le> unat nbytes + 15"
proof -
  have "unat (nbytes + 7) = unat nbytes + 7" using assms by (simp add: unat_word_ariths)
  then have "unat ((nbytes + 7) div 8) = (unat nbytes + 7) div 8" by (simp add: unat_div)
  moreover from this have "unat ((nbytes + 7) div 8 + 1) = (unat nbytes + 7) div 8 + 1" using assms by (simp add: unat_word_ariths)
  ultimately have u: "unat (units_of nbytes) = (unat nbytes + 7) div 8 + 1" by (simp add: units_of_def add.commute)
  show "unat nbytes + 8 \<le> 8 * unat (units_of nbytes)" "unat (units_of nbytes) < 2 ^ 28" "8 * unat (units_of nbytes) \<le> unat nbytes + 15"
    using assms unfolding u by auto
  show "0 < units_of nbytes" using u by (simp add: word_less_nat_alt)
qed

lemma carved_nonnull:
  assumes "carved s fl al n q t" "0 < n"
  shows "q + 8 \<noteq> 0"
proof -
  obtain fl' where "heap_ok t fl' (insert q al)" "hsize t q = n" using assms(1) by (auto simp: carved_def)
  then have "unat q + 8 * unat n \<le> unat (brk t)" using heap_okD(7) [of t fl' "insert q al" q] by (simp add: end_of_def)
  then have "unat q + 8 < 2 ^ 32" using assms(2) word_bound [of "brk t"] by (simp add: word_less_nat_alt)
  then have "unat (q + 8) = unat q + 8" by (simp add: unat_word_ariths)
  then show ?thesis by auto
qed

text \<open>One lap finds a block, or the heap grows and a second lap finds one.\<close>

lemma malloc_loop_returns:
  assumes ok: "heap_ok s fl al" and g: "limited grant" and n: "0 < n" "unat n < 2 ^ 28"
  defines "m \<equiv> (if n < 4096 then 4096 else n) :: u32"
  shows "(\<exists>q t s2 fl2. malloc_loop grant n (freep s) (hptr s (freep s)) s = Some (q + 8, t) \<and> carved s2 fl2 al n q t
      \<and> (\<forall>c \<in> al. hsize s2 c = hsize s c) \<and> free_span s2 fl2 = free_span s fl \<union> {unat (brk s) ..< unat (brk s2)})
    \<or> malloc_loop grant n (freep s) (hptr s (freep s)) s = Some (0, s) \<and> (\<forall>b \<in> set fl. hsize s b < n) \<and> \<not> grant (brk s) (m * 8)"
proof (cases "\<exists>b \<in> set fl. n \<le> hsize s b")
  case True
  then obtain q t where "malloc_loop grant n (freep s) (hptr s (freep s)) s = Some (q + 8, t)" "carved s fl al n q t"
    using malloc_lap [OF ok n(1), of grant] by auto
  then show ?thesis by (intro disjI1 exI [of _ q] exI [of _ t] exI [of _ s] exI [of _ fl]) simp
next
  case False
  have lap: "malloc_loop grant n (freep s) (hptr s (freep s)) s =
      Option.bind (morecore grant n s) (\<lambda>(q, s). if q = 0 then Some (0, s) else malloc_loop grant n q (hptr s q) s)"
    using malloc_lap [OF ok n(1), of grant] False by simp
  show ?thesis
  proof (cases "grant (brk s) (m * 8)")
    case True
    then obtain s2 fl2 where s2: "morecore grant n s = Some (freep s2, s2)" "heap_ok s2 fl2 al" "\<exists>b \<in> set fl2. n \<le> hsize s2 b"
        "\<forall>c \<in> al. hsize s2 c = hsize s c" "free_span s2 fl2 = free_span s fl \<union> {unat (brk s) ..< unat (brk s2)}"
      using morecore_grows [OF ok g n(2), folded m_def] by auto
    have "freep s2 \<noteq> 0" by (rule freep_nonnull [OF s2(2)])
    moreover obtain q t where "malloc_loop grant n (freep s2) (hptr s2 (freep s2)) s2 = Some (q + 8, t)" "carved s2 fl2 al n q t"
      using malloc_lap [OF s2(2) n(1), of grant] s2(3) by auto
    ultimately show ?thesis using s2 lap by (intro disjI1 exI [of _ q] exI [of _ t] exI [of _ s2] exI [of _ fl2]) simp
  next
    case no: False
    then show ?thesis using lap False morecore_grows [OF ok g n(2), folded m_def] by (auto simp: not_le)
  qed
qed

text \<open>
  Claim C15. \<^verbatim>\<open>malloc\<close> returns for every request of at most \<open>2 ^ 31 - 16\<close> bytes. It returns the null pointer only if no free block is large enough and the kernel does not let the process
  grow by what is needed or by 32768 bytes, whichever is more, and then nothing has changed. Otherwise it returns a block with room for the bytes asked for behind its header, which lies in memory
  that was free or that was new, overlaps no block that was handed out before, and is free no longer; the free list is again a ring in the order
  of the addresses, without adjacent blocks. For larger requests this does not hold: the number of units or the argument of \<^verbatim>\<open>sbrk\<close> wraps around.
\<close>

theorem malloc_allocates:
  assumes inv: "heap_inv s fl al" and g: "limited grant" and n: "unat nbytes \<le> 2 ^ 31 - 16"
  shows "\<exists>r t. malloc grant nbytes s = Some (r, t) \<and> (\<forall>c \<in> al. hsize t c = hsize s c) \<and>
    (if r = 0
     then heap_inv t fl al \<and> brk t = brk s \<and> (\<forall>b \<in> set fl. 8 * unat (hsize s b) < unat nbytes + 16) \<and>
       (\<exists>m. unat nbytes \<le> unat m \<and> unat m \<le> max 32768 (unat nbytes + 15) \<and> \<not> grant (brk s) m)
     else \<exists>a fl'. r = a + 8 \<and> a \<notin> al \<and> unat nbytes + 8 \<le> 8 * unat (hsize t a) \<and> heap_inv t fl' (insert a al)
       \<and> extent t a \<inter> free_span t fl' = {} \<and> extent t a \<union> free_span t fl' = free_span s fl \<union> {unat (brk s) ..< unat (brk t)})"
proof -
  define s1 where "s1 = first_use s"
  define n where "n = units_of nbytes"
  define m where "m = (if n < 4096 then 4096 else n)"
  note fu = first_use_ok [OF inv, folded s1_def] and u = units_enough [OF n, folded n_def]
  have L: "malloc grant nbytes s = malloc_loop grant n (freep s1) (hptr s1 (freep s1)) s1"
    by (simp add: malloc_def units_of_def s1_def n_def Let_def)
  from malloc_loop_returns [OF fu(1) g u(3,2), folded m_def L] consider
    (block) q t s2 fl2 where "malloc grant nbytes s = Some (q + 8, t)" "carved s2 fl2 al n q t" "\<forall>c \<in> al. hsize s2 c = hsize s1 c"
        "free_span s2 fl2 = free_span s1 fl \<union> {unat (brk s1) ..< unat (brk s2)}"
    | (none) "malloc grant nbytes s = Some (0, s1)" "\<forall>b \<in> set fl. hsize s1 b < n" "\<not> grant (brk s1) (m * 8)" by blast
  then show ?thesis
  proof cases
    case block
    obtain fl' where "heap_ok t fl' (insert q al)" "free_span t fl' = free_span s2 fl2 - extent t q" using block(2) by (auto simp: carved_def)
    then show ?thesis using block fu u(1) carved_nonnull [OF block(2) u(3)] unfolding carved_def heap_inv_def
      by (intro exI [of _ "q + 8"] exI [of _ t]) auto
  next
    case none
    have "8 * unat (hsize s b) < unat nbytes + 16" if "b \<in> set fl" for b
      using none(2) that fu(4) u(4) by (auto simp: word_less_nat_alt)
    moreover have "unat nbytes \<le> unat (m * 8) \<and> unat (m * 8) \<le> max 32768 (unat nbytes + 15)"
    proof -
      have "unat m < 2 ^ 28" "unat n \<le> unat m" "unat m \<le> max 4096 (unat n)" using u(2) by (auto simp: m_def word_less_nat_alt)
      moreover from this have "unat (m * 8) = 8 * unat m" by (simp add: unat_word_ariths)
      ultimately show ?thesis using u(1,4) by auto
    qed
    ultimately show ?thesis using none fu by (intro exI [of _ 0] exI [of _ s1]) (auto simp: heap_inv_def)
  qed
qed


text \<open>
  Claim C16. \<^verbatim>\<open>free\<close> of a block that was handed out always returns, and gives its bytes, and no others, back to the free memory; the free list is
  again a ring in the order of the addresses in which no two blocks are adjacent, so that neighbours were joined. The blocks still handed
  out keep their sizes.
\<close>

theorem free_releases:
  assumes "heap_inv s fl al" "a \<in> al"
  shows "\<exists>t fl'. ufree (a + 8) s = Some t \<and> heap_inv t fl' (al - {a}) \<and> free_span t fl' = free_span s fl \<union> extent s a
    \<and> extent s a \<inter> free_span s fl = {} \<and> (\<forall>c \<in> al - {a}. hsize t c = hsize s c) \<and> brk t = brk s"
proof -
  have ok: "heap_ok s fl al" using assms by (auto simp: heap_inv_def)
  have "a \<notin> set fl" using heap_okD(8) [OF ok] assms(2) by (auto simp: apart_def)
  then have "extent s a \<inter> extent s b = {}" if "b \<in> set fl" for b using apart_all [OF ok, of a b] assms(2) that by auto
  then have "extent s a \<inter> free_span s fl = {}" by (auto simp: free_span_def)
  then show ?thesis using ufree_frees [OF ok assms(2)] by (auto simp: heap_inv_def)
qed

text \<open>What a program writes into its blocks does not matter: the invariant reads the headers only.\<close>

lemma heap_inv_headers:
  assumes "heap_inv s fl al" "\<And>b. b \<in> insert (base_hdr s) (set fl) \<Longrightarrow> h b = hptr s b \<and> z b = hsize s b" "\<And>a. a \<in> al \<Longrightarrow> z a = hsize s a"
  shows "heap_inv (s\<lparr>hptr := h, hsize := z\<rparr>) fl al"
proof -
  let ?t = "s\<lparr>hptr := h, hsize := z\<rparr>"
  have sp: "extent ?t b = extent s b" "end_of ?t b = end_of s b" if "b \<in> set fl \<union> al" for b using that assms(2,3) by (auto simp: extent_def end_of_def)
  have c: "chain h (base_hdr s) fl (base_hdr s) = chain (hptr s) (base_hdr s) fl (base_hdr s)" using assms(2) by (intro chain_cong) auto
  have z: "gapped z (unat (base_hdr s)) fl = gapped (hsize s) (unat (base_hdr s)) fl" using assms(2) by (intro gapped_cong) auto
  show ?thesis
  proof (cases "heap_ok s fl al")
    case True
    note d = heap_okD [OF True]
    have "apart ?t fl al" unfolding apart_def
    proof (intro conjI ballI impI)
      show "al \<inter> set fl = {}" using d(8) by (simp add: apart_def)
      show "base_hdr ?t < a" "0 < hsize ?t a" if "a \<in> al" for a using d(10) [of a] assms(3) [OF that] that by simp_all
      show "extent ?t a \<inter> extent ?t b = {}" if "a \<in> al" "b \<in> set fl \<union> al" "b \<noteq> a" for a b
        using sp(1) [of a] sp(1) [of b] apart_all [OF True, of a b] that by simp
    qed
    moreover have "\<forall>b \<in> set fl \<union> al. end_of ?t b \<le> unat (brk ?t)" using sp(2) d(7) by simp
    moreover have "z (base_hdr s) = 0" using assms(2) d(3) by simp
    ultimately have "heap_ok ?t fl al" using d(1,2,4,5,6) c z unfolding heap_ok_def by simp
    then show ?thesis by (simp add: heap_inv_def)
  qed (use assms(1) in \<open>simp add: heap_inv_def\<close>)
qed

section \<open>A small heap\<close>

definition small_heap :: uheap where
  "small_heap = \<lparr>hptr = (\<lambda>_. 0), hsize = (\<lambda>_. 0), freep = 0, base_hdr = 0x1000, brk = 0x4000\<rparr>"

definition below_kernel :: "u32 \<Rightarrow> u32 \<Rightarrow> bool" where
  "below_kernel b n \<longleftrightarrow> unat b + unat n < 2 ^ 31"

lemma small_heap_ok: "heap_inv small_heap [] {}" "limited below_kernel"
  by (simp_all add: heap_inv_def small_heap_def limited_def below_kernel_def)


theorem malloc_allocates_witness:
  "\<exists>a t fl'. malloc below_kernel 100 small_heap = Some (a + 8, t) \<and> heap_inv t fl' {a} \<and> 108 \<le> 8 * unat (hsize t a)"
proof -
  have no: "\<not> (\<exists>m. unat m \<le> max 32768 (unat (100 :: u32) + 15) \<and> \<not> below_kernel (brk small_heap) m)"
    by (auto simp: below_kernel_def small_heap_def)
  show ?thesis using malloc_allocates [OF small_heap_ok, of 100] no by (auto split: if_splits)
qed

text \<open>A heap with one block of four units handed out.\<close>

definition used_heap :: uheap where
  "used_heap = \<lparr>hptr = (\<lambda>_. 0x1000), hsize = (\<lambda>a. if a = 0x2000 then 4 else 0), freep = 0x1000, base_hdr = 0x1000, brk = 0x4000\<rparr>"

theorem free_releases_witness: "\<exists>t fl. ufree 0x2008 used_heap = Some t \<and> heap_inv t fl {} \<and> free_span t fl = {0x2000 ..< 0x2020}"
proof -
  have "heap_inv used_heap [] {0x2000}" by (simp add: heap_inv_def heap_ok_def apart_def used_heap_def end_of_def)
  from free_releases [OF this, of "0x2000"] show ?thesis by (auto simp: free_span_def extent_def end_of_def used_heap_def)
qed


end
