(* ===== verification/Sbrk.thy ===== *)
theory Sbrk
  imports Syscall Umalloc
begin

text \<open>
  The system call behind \<^verbatim>\<open>sbrk\<close>: what \<open>sys_sbrk\<close> of the kernel, with \<^verbatim>\<open>growproc\<close>, \<^verbatim>\<open>allocuvm\<close> and \<^verbatim>\<open>deallocuvm\<close>, does to the size of a
  process is what the user library's allocator is verified against.
\<close>

unbundle bit_operations_syntax

section \<open>Virtual memory operations leave the processes alone\<close>

abbreviation rest :: "'a kmem_scheme \<Rightarrow> 'a" where
  "rest \<equiv> kmem.more"

lemma kalloc_rest: "kalloc s = (r, s') \<Longrightarrow> rest s' = rest s"
  by (auto simp: kalloc_def Let_def split: if_splits)

lemma kfree_rest: "kfree v s = Inr s' \<Longrightarrow> rest s' = rest s"
  by (auto simp: kfree_def Let_def split: if_splits)

lemma walkpgdir_rest: "walkpgdir pg va al s = (p, s') \<Longrightarrow> rest s' = rest s"
  by (auto simp: walkpgdir_def Let_def split: if_splits prod.splits dest: kalloc_rest)

lemma mappages_loop_rest: "mappages_loop n pg a pa perm s = Inr (r, s') \<Longrightarrow> rest s' = rest s"
proof (induction n arbitrary: a pa s)
  case (Suc n)
  obtain p t where w: "walkpgdir pg a True s = (p, t)" by (rule prod.exhaust)
  show ?case using Suc.prems Suc.IH w walkpgdir_rest [OF w] by (auto split: if_splits)
qed (auto split: if_splits prod.splits dest: walkpgdir_rest)

lemma mappages_rest: "mappages pg va sz pa perm s = Inr (r, s') \<Longrightarrow> rest s' = rest s"
  by (auto simp: mappages_def Let_def dest: mappages_loop_rest)

lemma dealloc_step_rest: "dealloc_step pg a s = Inr (x, s') \<Longrightarrow> rest s' = rest s"
  by (auto simp: dealloc_step_def Let_def bindE_eq_Inr_iff split: if_splits prod.splits dest!: walkpgdir_rest kfree_rest)

lemma dealloc_loop_rest: "dealloc_loop pg a oldsz s = Inr s' \<Longrightarrow> rest s' = rest s"
proof (induction pg a oldsz s rule: dealloc_loop.induct)
  case (1 pg a oldsz s)
  show ?case
  proof (cases "a < oldsz")
    case True
    then obtain x t where t: "dealloc_step pg a s = Inr (x, t)" "\<not> x + PGSIZE \<le> a" "dealloc_loop pg (x + PGSIZE) oldsz t = Inr s'"
      using "1.prems" by (subst (asm) dealloc_loop.simps) (auto split: sum.splits if_splits)
    show ?thesis using "1.IH" [OF True t(1) refl t(2,3)] dealloc_step_rest [OF t(1)] by simp
  next
    case False
    then show ?thesis using "1.prems" by (subst (asm) dealloc_loop.simps) simp
  qed
qed

lemma deallocuvm_rest:
  "deallocuvm pg oldsz newsz s = Inr (r, s') \<Longrightarrow> rest s' = rest s \<and> r = (if newsz \<ge> oldsz then oldsz else newsz)"
  by (auto simp: deallocuvm_def bindE_eq_Inr_iff split: if_splits dest: dealloc_loop_rest)

lemma alloc_loop_rest: "alloc_loop pg a oldsz newsz s = Inr (r, s') \<Longrightarrow> rest s' = rest s \<and> (r = 0 \<or> r = newsz)"
proof (induction pg a oldsz newsz s rule: alloc_loop.induct)
  case (1 pg a oldsz newsz s)
  show ?case
  proof (cases "a < newsz")
    case True
    obtain m t where k: "kalloc s = (m, t)" by (rule prod.exhaust)
    note kr = kalloc_rest [OF k]
    show ?thesis
    proof (cases "m = 0")
      case m: True
      then show ?thesis using "1.prems" True k kr
        by (subst (asm) alloc_loop.simps) (auto simp: bindE_eq_Inr_iff dest!: deallocuvm_rest)
    next
      case m: False
      then obtain x u where u: "mappages pg a PGSIZE (V2P m) (PTE_W OR PTE_U) (t\<lparr>pmem := memset m 0 PGSIZE (pmem t)\<rparr>) = Inr (x, u)"
        using "1.prems" True k by (subst (asm) alloc_loop.simps) (auto split: sum.splits)
      have ur: "rest u = rest s" using mappages_rest [OF u] kr by simp
      show ?thesis
      proof (cases "x < 0")
        case x: True
        then show ?thesis using "1.prems" True k m u ur
          by (subst (asm) alloc_loop.simps) (auto simp: bindE_eq_Inr_iff dest!: deallocuvm_rest kfree_rest)
      next
        case x: False
        then have l: "\<not> a + PGSIZE \<le> a" "alloc_loop pg (a + PGSIZE) oldsz newsz u = Inr (r, s')"
          using "1.prems" True k m u by (subst (asm) alloc_loop.simps, auto split: if_splits)+
        show ?thesis using "1.IH" [OF True k [symmetric] refl m u refl x l] ur by simp
      qed
    qed
  next
    case False
    then show ?thesis using "1.prems" by (subst (asm) alloc_loop.simps) auto
  qed
qed

lemma ptable_rest: "rest k' = rest k \<Longrightarrow> ptable k' = ptable k" for k k' :: kernel
  by (cases k; cases k') simp

section \<open>The size of the process\<close>

text \<open>
  A call of \<open>sys_sbrk\<close> by a process whose size is \<open>brk\<close> returns what \<open>sbrk\<close> returns and leaves the size that \<open>sbrk\<close> leaves, for an
  answer of the kernel that never grows the process to \<^verbatim>\<open>KERNBASE\<close> or beyond, whatever the argument.
\<close>

lemma growproc_size:
  assumes p: "curproc k = Some p" "p < length (ptable k)" and g: "growproc n k = Inr (r, k')"
  defines "sz \<equiv> psz (proc_at p k)"
  shows "(r = -1 \<and> psz (proc_at p k') = sz \<and> (n > 0 \<or> n < 0 \<and> (if sz + of_int n \<ge> sz then sz else sz + of_int n) = 0))
    \<or> (r = 0 \<and> (if n > 0 then sz + of_int n < KERNBASE \<and> psz (proc_at p k') = (if sz + of_int n < sz then sz else sz + of_int n)
         else if n < 0 then psz (proc_at p k') = (if sz + of_int n \<ge> sz then sz else sz + of_int n)
           \<and> (if sz + of_int n \<ge> sz then sz else sz + of_int n) \<noteq> 0
         else psz (proc_at p k') = sz))"
proof -
  let ?pg = "pgdir (proc_at p k)"
  define m :: "(u32 \<times> bool) kop" where "m = (if n > 0 then bnd (allocuvm ?pg sz (sz + of_int n)) (\<lambda>r. ret (r, r = 0))
          else if n < 0 then bnd (deallocuvm ?pg sz (sz + of_int n)) (\<lambda>r. ret (r, r = 0))
          else ret (sz, False))"
  define t :: "u32 \<Rightarrow> int kop" where "t = (\<lambda>sz. bnd (upd_proc p (\<lambda>x. x\<lparr>psz := sz\<rparr>)) (\<lambda>_.
            bnd (pfld p (\<lambda>x. (kstack x, pgdir x))) (\<lambda>kp.
            bnd (\<lambda>k. bindE (switchuvm (Some kp) k) (\<lambda>k. Inr ((), k))) (\<lambda>_. ret 0))))"
  have "growproc n k = bnd m (\<lambda>(x, f). if f then ret (-1) else t x) k"
    using p(1) unfolding growproc_def m_def t_def sz_def by (simp add: cur_def pfld_def)
  then have "bnd m (\<lambda>(x, f). if f then ret (-1) else t x) k = Inr (r, k')" using g by simp
  then obtain x f k1 where m: "m k = Inr ((x, f), k1)" "(if f then ret (-1) else t x) k1 = Inr (r, k')"
    by (auto simp: bnd_eq_Inr_iff simp del: op_simps)
  have t: "r = 0 \<and> ptable k' = (ptable k1)[p := (ptable k1 ! p)\<lparr>psz := x\<rparr>]" if "t x k1 = Inr (r, k')"
    using that by (auto simp: t_def bnd_eq_Inr_iff bindE_eq_Inr_iff upd_proc_def pfld_def switchuvm_def split: if_splits)
  have a: "ptable k1 = ptable k \<and> (x = 0 \<or> sz + of_int n < KERNBASE \<and> x = (if sz + of_int n < sz then sz else sz + of_int n)) \<and> f = (x = 0)" if "n > 0"
    using m(1) that by (auto simp: m_def bnd_eq_Inr_iff allocuvm_def not_le split: if_splits dest!: alloc_loop_rest ptable_rest)
  have d: "ptable k1 = ptable k \<and> x = (if sz + of_int n \<ge> sz then sz else sz + of_int n) \<and> f = (x = 0)" if "n < 0"
    using m(1) that by (auto simp: m_def bnd_eq_Inr_iff split: if_splits dest!: deallocuvm_rest ptable_rest)
  have z: "ptable k1 = ptable k \<and> x = sz \<and> \<not> f" if "n = 0" using m(1) that by (simp add: m_def)
  have P: "psz (proc_at p k') = (if f then psz (ptable k1 ! p) else x)" "r = (if f then -1 else 0)" if "ptable k1 = ptable k"
    using m(2) t that p(2) by (auto simp: proc_at_def split: if_splits)
  consider "n > 0" | "n < 0" | "n = 0" by linarith
  then show ?thesis
  proof cases
    case 1
    then show ?thesis using P a by (auto simp: proc_at_def sz_def split: if_splits)
  next
    case 2
    then show ?thesis using P d by (auto simp: proc_at_def sz_def split: if_splits)
  next
    case 3
    then show ?thesis using P z by (simp add: proc_at_def sz_def)
  qed
qed

lemma sint_nonneg:
  assumes "0 \<le> sint (n :: u32)"
  shows "unat n < 2 ^ 31"
proof -
  have "even (uint n div 2 ^ 31)" using assms by (simp add: sint_uint signed_take_bit_nonnegative_iff bit_iff_odd)
  moreover have "0 \<le> uint n" "uint n < 2 * 2 ^ 31" using unsigned_less [of n, where 'a = int] by (simp_all only: uint_nonnegative, simp)
  then have "0 \<le> uint n div 2 ^ 31" "uint n div 2 ^ 31 < 2" by (simp_all add: div_less_iff_less_mult pos_imp_zdiv_nonneg_iff)
  ultimately have "uint n div 2 ^ 31 = 0" by (cases "uint n div 2 ^ 31 = 1") auto
  then have "uint n < 2 ^ 31" by (auto simp: zdiv_eq_0_iff)
  then have "nat (uint n) < 2 ^ 31" by (subst nat_less_iff) (simp_all only: uint_nonnegative, simp)
  then show ?thesis by (simp only: nat_uint_eq)
qed

lemma sys_sbrk_serves:
  assumes p: "curproc k = Some p" "p < length (ptable k)" and arg: "argint 0 k = Inr (Some n, k)"
    and sz: "psz (proc_at p k) < KERNBASE" "brk s = psz (proc_at p k)" and run: "sys_sbrk k = Inr (Done r, k')"
  shows "\<exists>grant. limited grant \<and> word_of_int r = fst (sbrk grant n s) \<and> psz (proc_at p k') = brk (snd (sbrk grant n s))"
proof -
  let ?sz = "psz (proc_at p k)"
  obtain g where g: "growproc (sint n) k = Inr (g, k')" "r = (if g < 0 then -1 else sint ?sz)"
    using run p(1) arg by (auto simp: sys_sbrk_def bnd_eq_Inr_iff cur_def pfld_def split: if_splits)
  note G = growproc_size [OF p g(1)]
  have w: "word_of_int (sint n) = n" "word_of_int (sint ?sz) = ?sz" by simp_all
  have k: "unat ?sz < 2 ^ 31" using sz(1) by (simp add: word_less_nat_alt KERNBASE_def)
  show ?thesis
  proof (cases "0 \<le> sint n")
    case pos: True
    then have n: "unat n < 2 ^ 31" by (rule sint_nonneg)
    have add: "unat (?sz + n) = unat ?sz + unat n" using k n by (simp add: unat_plus_if')
    define grant where "grant = (\<lambda>b m. b = ?sz \<and> m = n \<and> g = 0)"
    have low: "unat ?sz + unat n < 2 ^ 31" if "g = 0"
    proof (cases "sint n = 0")
      case True
      then show ?thesis using k w(1) by (metis add_0_right unsigned_0 word_of_int_0)
    next
      case False
      then show ?thesis using G that pos add w(1) by (auto simp: word_less_nat_alt KERNBASE_def)
    qed
    have "limited grant" using low by (auto simp: limited_def grant_def)
    moreover have "\<not> ?sz + n < ?sz" using add by (simp add: word_less_nat_alt)
    moreover have "sint n = 0 \<longleftrightarrow> n = 0" by (metis sint_0 word_of_int_0 w(1))
    ultimately show ?thesis using G g(2) pos w sz(2)
      by (intro exI [of _ grant]) (auto simp: sbrk_def grant_def split: if_splits)
  next
    case False
    then show ?thesis using G g(2) w sz(2)
      by (intro exI [of _ "\<lambda>_ _. False"]) (auto simp: sbrk_def limited_def Let_def split: if_splits)
  qed
qed

end
