(* ===== verification/Ide.thy ===== *)
theory Ide
  imports Bio
begin

text \<open>
  The interrupt-driven disk driver, \<^verbatim>\<open>xv6/ide.c\<close>, which the default kernel links in place of \<^verbatim>\<open>memide.c\<close>.
  The disk controller is hardware: the four port instructions of \<^verbatim>\<open>x86.h\<close> on it are the parameter \<open>io\<close>, and
  what the driver relies on is the predicate \<open>ata_device\<close>. The critical sections of \<^verbatim>\<open>idelock\<close> are single
  steps; a request that sleeps continues when \<^verbatim>\<open>ideintr\<close> has woken it. The theorems show that the driver
  serves the queued requests in order with the effect that the memory disk has, so that the results on the
  layers above, which are stated over the memory disk, hold of it as well. The debugging output of
  \<^verbatim>\<open>iderw\<close> is left out.
\<close>

unbundle bit_operations_syntax

section \<open>The driver\<close>

definition FSSIZE :: u32 where "FSSIZE = 1000"
definition SECTOR_SIZE :: nat where "SECTOR_SIZE = 512"
definition IDE_BSY :: u8 where "IDE_BSY = 0x80"
definition IDE_DRDY :: u8 where "IDE_DRDY = 0x40"
definition IDE_DF :: u8 where "IDE_DF = 0x20"
definition IDE_ERR :: u8 where "IDE_ERR = 0x01"
definition IDE_CMD_READ :: u8 where "IDE_CMD_READ = 0x20"
definition IDE_CMD_WRITE :: u8 where "IDE_CMD_WRITE = 0x30"
definition IDE_CMD_RDMUL :: u8 where "IDE_CMD_RDMUL = 0xc4"
definition IDE_CMD_WRMUL :: u8 where "IDE_CMD_WRMUL = 0xc5"

text \<open>The port instructions; \<open>insl\<close> yields four bytes for each of the words it is asked for.\<close>

record 'd ports =
  inb :: "u16 \<Rightarrow> 'd \<Rightarrow> u8 \<times> 'd"
  outb :: "u16 \<Rightarrow> u8 \<Rightarrow> 'd \<Rightarrow> 'd"
  insl :: "u16 \<Rightarrow> nat \<Rightarrow> 'd \<Rightarrow> u8 list \<times> 'd"
  outsl :: "u16 \<Rightarrow> u8 list \<Rightarrow> 'd \<Rightarrow> 'd"

text \<open>
  Where the process is that locked a buffer: outside \<^verbatim>\<open>iderw\<close>, asleep in it, or runnable again in it.
\<close>

datatype waiter = Out | Asleep | Woken

text \<open>
  The state of the driver. \<open>qnext\<close> is the field of that name of the buffers, which are the array of the
  buffer cache; pointers to buffers are indices, and the null pointer is \<open>None\<close>.
\<close>

record 'd ide =
  ibufs :: "buf list"
  qnext :: "nat \<Rightarrow> nat option"
  idequeue :: "nat option"
  havedisk1 :: bool
  dev :: 'd
  waiter :: "nat \<Rightarrow> waiter"

text \<open>A call that may fail to return at all: \<open>None\<close> is a loop that never ends.\<close>

definition seqO :: "'a res option \<Rightarrow> ('a \<Rightarrow> 'b res option) \<Rightarrow> 'b res option" where
  "seqO m f = (case m of None \<Rightarrow> None | Some (Inl h) \<Rightarrow> Some (Inl h) | Some (Inr x) \<Rightarrow> f x)"

partial_function (option) idewait :: "'d ports \<Rightarrow> bool \<Rightarrow> 'd \<Rightarrow> (int \<times> 'd) option" where
  "idewait io checkerr d =
     (case inb io 0x1f7 d of (r, d') \<Rightarrow>
        if r AND (IDE_BSY OR IDE_DRDY) \<noteq> IDE_DRDY then idewait io checkerr d'
        else Some (if checkerr \<and> r AND (IDE_DF OR IDE_ERR) \<noteq> 0 then -1 else 0, d'))"

text \<open>The loop of \<^verbatim>\<open>ideinit\<close> that looks for disk 1, and \<^verbatim>\<open>ideinit\<close>.\<close>

primrec probe :: "nat \<Rightarrow> 'd ports \<Rightarrow> 'd ide \<Rightarrow> 'd ide" where
  "probe 0 io s = s"
| "probe (Suc n) io s =
     (case inb io 0x1f7 (dev s) of (r, d) \<Rightarrow>
        if r \<noteq> 0 then s\<lparr>dev := d, havedisk1 := True\<rparr> else probe n io (s\<lparr>dev := d\<rparr>))"

definition ide_init :: "'d ports \<Rightarrow> 'd ide \<Rightarrow> 'd ide option" where
  "ide_init io s =
     (case idewait io False (dev s) of
        None \<Rightarrow> None
      | Some (_, d) \<Rightarrow>
          (let s = s\<lparr>dev := outb io 0x1f6 (0xe0 OR push_bit 4 1) d\<rparr>;
               s = probe 1000 io s
           in Some (s\<lparr>dev := outb io 0x1f6 (0xe0 OR push_bit 4 0) (dev s)\<rparr>)))"

text \<open>
  The registers that select the sectors, and the command. The block number is below \<^verbatim>\<open>FSSIZE\<close> here, so
  that the shifts of the signed \<^verbatim>\<open>sector\<close> are those of an unsigned word.
\<close>

definition issue :: "'d ports \<Rightarrow> buf \<Rightarrow> 'd \<Rightarrow> 'd" where
  "issue io x d =
     (let sector_per_block = BSIZE div SECTOR_SIZE;
          sector = blockno x * of_nat sector_per_block;
          read_cmd = (if sector_per_block = 1 then IDE_CMD_READ else IDE_CMD_RDMUL);
          write_cmd = (if sector_per_block = 1 then IDE_CMD_WRITE else IDE_CMD_WRMUL);
          d = outb io 0x3f6 0 d;
          d = outb io 0x1f2 (of_nat sector_per_block) d;
          d = outb io 0x1f3 (ucast (sector AND 0xff)) d;
          d = outb io 0x1f4 (ucast (drop_bit 8 sector AND 0xff)) d;
          d = outb io 0x1f5 (ucast (drop_bit 16 sector AND 0xff)) d;
          d = outb io 0x1f6 (ucast (0xe0 OR push_bit 4 (bdev x AND 1) OR (drop_bit 24 sector AND 0x0f))) d
      in if bflags x AND B_DIRTY \<noteq> 0
         then outsl io 0x1f0 (bdata x) (outb io 0x1f7 write_cmd d)
         else outb io 0x1f7 read_cmd d)"

definition idestart :: "'d ports \<Rightarrow> nat option \<Rightarrow> 'd ide \<Rightarrow> 'd ide res option" where
  "idestart io p s =
     (case p of
        None \<Rightarrow> Some (Inl (Panic ''idestart''))
      | Some b \<Rightarrow>
          if blockno (ibufs s ! b) \<ge> FSSIZE then Some (Inl (Panic ''incorrect blockno''))
          else if BSIZE div SECTOR_SIZE > 7 then Some (Inl (Panic ''idestart''))
          else (case idewait io False (dev s) of
                  None \<Rightarrow> None
                | Some (_, d) \<Rightarrow> Some (Inr (s\<lparr>dev := issue io (ibufs s ! b) d\<rparr>))))"

definition upd_ibuf :: "nat \<Rightarrow> (buf \<Rightarrow> buf) \<Rightarrow> 'd ide \<Rightarrow> 'd ide" where
  "upd_ibuf b f s = s\<lparr>ibufs := (ibufs s)[b := f (ibufs s ! b)]\<rparr>"

definition fetch :: "'d ports \<Rightarrow> nat \<Rightarrow> 'd ide \<Rightarrow> 'd ide res option" where
  "fetch io b s =
     (if bflags (ibufs s ! b) AND B_DIRTY \<noteq> 0 then Some (Inr s)
      else case idewait io True (dev s) of
             None \<Rightarrow> None
           | Some (r, d) \<Rightarrow>
               if r \<ge> 0
               then (case insl io 0x1f0 (BSIZE div 4) d of (bs, d) \<Rightarrow>
                       Some (Inr (upd_ibuf b (\<lambda>x. x\<lparr>bdata := bs\<rparr>) (s\<lparr>dev := d\<rparr>))))
               else Some (Inr (s\<lparr>dev := d\<rparr>)))"

definition wakeup_buf :: "nat \<Rightarrow> 'd ide \<Rightarrow> 'd ide" where
  "wakeup_buf b s = (if waiter s b = Asleep then s\<lparr>waiter := (waiter s)(b := Woken)\<rparr> else s)"

definition ideintr :: "'d ports \<Rightarrow> 'd ide \<Rightarrow> 'd ide res option" where
  "ideintr io s =
     (case idequeue s of
        None \<Rightarrow> Some (Inr s)
      | Some b \<Rightarrow>
          seqO (fetch io b (s\<lparr>idequeue := qnext s b\<rparr>)) (\<lambda>s.
            let s = upd_ibuf b (\<lambda>x. x\<lparr>bflags := bflags x OR B_VALID\<rparr>) s;
                s = upd_ibuf b (\<lambda>x. x\<lparr>bflags := bflags x AND NOT B_DIRTY\<rparr>) s;
                s = wakeup_buf b s
            in if idequeue s \<noteq> None then idestart io (idequeue s) s else Some (Inr s)))"

text \<open>The end of the queue, for a queue that is not empty; a cyclic one has no end.\<close>

partial_function (option) queue_end :: "(nat \<Rightarrow> nat option) \<Rightarrow> nat \<Rightarrow> nat option" where
  "queue_end nx b = (case nx b of None \<Rightarrow> Some b | Some c \<Rightarrow> queue_end nx c)"

definition append_request :: "nat \<Rightarrow> 'd ide \<Rightarrow> 'd ide option" where
  "append_request b s =
     (let s = s\<lparr>qnext := (qnext s)(b := None)\<rparr>
      in case idequeue s of
           None \<Rightarrow> Some (s\<lparr>idequeue := Some b\<rparr>)
         | Some h \<Rightarrow> map_option (\<lambda>e. s\<lparr>qnext := (qnext s)(e := Some b)\<rparr>) (queue_end (qnext s) h))"

text \<open>The test of the waiting loop: sleep, or leave \<^verbatim>\<open>iderw\<close>.\<close>

definition iderw_wait :: "nat \<Rightarrow> 'd ide \<Rightarrow> 'd ide" where
  "iderw_wait b s =
     (if bflags (ibufs s ! b) AND (B_VALID OR B_DIRTY) \<noteq> B_VALID
      then s\<lparr>waiter := (waiter s)(b := Asleep)\<rparr>
      else s\<lparr>waiter := (waiter s)(b := Out)\<rparr>)"

definition ide_rw :: "'d ports \<Rightarrow> nat \<Rightarrow> 'd ide \<Rightarrow> 'd ide res option" where
  "ide_rw io b s =
     (let x = ibufs s ! b
      in if holdingsleep (block_lk x) = 0 then Some (Inl (Panic ''iderw: buf not locked''))
         else if bflags x AND (B_VALID OR B_DIRTY) = B_VALID then Some (Inl (Panic ''iderw: nothing to do''))
         else if bdev x \<noteq> 0 \<and> \<not> havedisk1 s then Some (Inl (Panic ''iderw: ide disk 1 not present''))
         else case append_request b s of
                None \<Rightarrow> None
              | Some s \<Rightarrow>
                  seqO (if idequeue s = Some b then idestart io (Some b) s else Some (Inr s))
                    (\<lambda>s. Some (Inr (iderw_wait b s))))"

section \<open>The disk controller\<close>

text \<open>
  What a program sees of an ATA disk: whether it is busy, the sector count, the address registers, the sectors of both
  drives, the data transfer that is under way, and whether the last write failed.
\<close>

datatype xfer = Idle | Reading bool nat | Writing bool nat

record ata =
  busy :: bool
  nsect :: u8
  lba0 :: u8
  lba1 :: u8
  lba2 :: u8
  devreg :: u8
  sectors :: "bool \<Rightarrow> nat \<Rightarrow> block"
  xfer :: xfer
  werr :: bool

definition ata_drive :: "ata \<Rightarrow> bool" where
  "ata_drive a = bit (devreg a) 4"

definition ata_lba :: "ata \<Rightarrow> nat" where
  "ata_lba a = unat (lba0 a) + 2 ^ 8 * unat (lba1 a) + 2 ^ 16 * unat (lba2 a) + 2 ^ 24 * unat (devreg a AND 0x0f)"

text \<open>
  Documented behaviour of the controller. A disk that is asked for its status again and again becomes ready;
  then it is not busy, and an error in the status means that no data will be transferred. While the disk is
  not busy and no transfer is under way the registers may be written, and a command for one sector
  starts the transfer of the sector that they address; the disk may be busy from then on. The data of a
  read may be fetched once the disk is not busy any more. The data of a write are taken right after the
  command (the driver does not wait for the disk to ask for them); the sector then has them, unless the write fails.
\<close>

definition polled :: "'d ports \<Rightarrow> nat \<Rightarrow> 'd \<Rightarrow> 'd" where
  "polled io n d = ((\<lambda>d. snd (inb io 0x1f7 d)) ^^ n) d"

definition ready :: "'d ports \<Rightarrow> 'd \<Rightarrow> bool" where
  "ready io d \<longleftrightarrow> fst (inb io 0x1f7 d) AND (IDE_BSY OR IDE_DRDY) = IDE_DRDY"

definition status_error :: "'d ports \<Rightarrow> 'd \<Rightarrow> bool" where
  "status_error io d \<longleftrightarrow> fst (inb io 0x1f7 d) AND (IDE_DF OR IDE_ERR) \<noteq> 0"

definition status_law :: "'d ports \<Rightarrow> ('d \<Rightarrow> ata) \<Rightarrow> bool" where
  "status_law io view \<longleftrightarrow>
     (\<forall>d. if ready io d
          then view (snd (inb io 0x1f7 d))
            = (if status_error io d then (view d)\<lparr>busy := False, xfer := Idle\<rparr> else (view d)\<lparr>busy := False\<rparr>)
          else view (snd (inb io 0x1f7 d)) \<in> {view d, (view d)\<lparr>busy := False\<rparr>})
   \<and> (\<forall>d. \<exists>n. ready io (polled io n d))"

definition idle :: "ata \<Rightarrow> bool" where
  "idle a \<longleftrightarrow> \<not> busy a \<and> xfer a = Idle"

definition register_law :: "'d ports \<Rightarrow> ('d \<Rightarrow> ata) \<Rightarrow> bool" where
  "register_law io view \<longleftrightarrow> (\<forall>d v. idle (view d) \<longrightarrow>
       view (outb io 0x3f6 v d) = view d
     \<and> view (outb io 0x1f2 v d) = (view d)\<lparr>nsect := v\<rparr>
     \<and> view (outb io 0x1f3 v d) = (view d)\<lparr>lba0 := v\<rparr>
     \<and> view (outb io 0x1f4 v d) = (view d)\<lparr>lba1 := v\<rparr>
     \<and> view (outb io 0x1f5 v d) = (view d)\<lparr>lba2 := v\<rparr>
     \<and> view (outb io 0x1f6 v d) = (view d)\<lparr>devreg := v\<rparr>)"

definition command_law :: "'d ports \<Rightarrow> ('d \<Rightarrow> ata) \<Rightarrow> bool" where
  "command_law io view \<longleftrightarrow> (\<forall>d. idle (view d) \<and> nsect (view d) = 1 \<longrightarrow>
       (\<exists>b. view (outb io 0x1f7 IDE_CMD_READ d)
          = (view d)\<lparr>busy := b, xfer := Reading (ata_drive (view d)) (ata_lba (view d))\<rparr>)
     \<and> (\<exists>b. view (outb io 0x1f7 IDE_CMD_WRITE d)
          = (view d)\<lparr>busy := b, xfer := Writing (ata_drive (view d)) (ata_lba (view d))\<rparr>))"

definition data_law :: "'d ports \<Rightarrow> ('d \<Rightarrow> ata) \<Rightarrow> bool" where
  "data_law io view \<longleftrightarrow>
     (\<forall>d e l bs. xfer (view d) = Writing e l \<and> length bs = SECTOR_SIZE \<longrightarrow>
        (\<exists>b w bs'. view (outsl io 0x1f0 bs d)
          = (view d)\<lparr>busy := b, sectors := (sectors (view d))(e := (sectors (view d) e)(l := bs')), xfer := Idle, werr := w\<rparr>
          \<and> (w \<or> bs' = bs)))
   \<and> (\<forall>d e l. \<not> busy (view d) \<and> xfer (view d) = Reading e l \<longrightarrow>
        fst (insl io 0x1f0 (SECTOR_SIZE div 4) d) = sectors (view d) e l
        \<and> (\<exists>b. view (snd (insl io 0x1f0 (SECTOR_SIZE div 4) d)) = (view d)\<lparr>busy := b, xfer := Idle\<rparr>))"

definition ata_device :: "'d ports \<Rightarrow> ('d \<Rightarrow> ata) \<Rightarrow> bool" where
  "ata_device io view \<longleftrightarrow> status_law io view \<and> register_law io view \<and> command_law io view \<and> data_law io view"

lemma polled_Suc: "polled io (Suc n) d = polled io n (snd (inb io 0x1f7 d))"
  by (simp add: polled_def funpow_Suc_right del: funpow.simps)

text \<open>Waiting ends with a disk that is ready, and otherwise as it was.\<close>

lemma idewait_ends:
  assumes law: "status_law io view" and n: "ready io (polled io n d)"
  shows "\<exists>r d'. idewait io c d = Some (r, d') \<and> (r = 0 \<or> r = -1 \<and> c)
    \<and> (view d' = (view d)\<lparr>busy := False\<rparr> \<or> view d' = (view d)\<lparr>busy := False, xfer := Idle\<rparr> \<and> (c \<longrightarrow> r = -1))
    \<and> (r = -1 \<longrightarrow> xfer (view d') = Idle)"
  using n
proof (induction n arbitrary: d)
  case 0
  then have "ready io d" by (simp add: polled_def)
  then show ?case
    using law by (subst idewait.simps) (auto simp: ready_def status_law_def status_error_def split_beta)
next
  case (Suc n)
  show ?case
  proof (cases "ready io d")
    case True
    then show ?thesis
      using law by (subst idewait.simps) (auto simp: ready_def status_law_def status_error_def split_beta)
  next
    case False
    let ?d = "snd (inb io 0x1f7 d)"
    have w: "idewait io c d = idewait io c ?d" using False by (subst idewait.simps) (simp add: ready_def split_beta)
    have "view ?d \<in> {view d, (view d)\<lparr>busy := False\<rparr>}" using law False unfolding status_law_def by meson
    then show ?thesis using Suc.IH [of ?d] Suc.prems unfolding w polled_Suc by auto
  qed
qed

lemma idewait_returns:
  assumes "ata_device io view"
  obtains r d' where "idewait io c d = Some (r, d')" "r = 0 \<or> r = -1 \<and> c" "\<not> busy (view d')"
    "sectors (view d') = sectors (view d)" "werr (view d') = werr (view d)" "c \<Longrightarrow> r = 0 \<Longrightarrow> xfer (view d') = xfer (view d)"
    "xfer (view d) = Idle \<or> r = -1 \<Longrightarrow> xfer (view d') = Idle"
proof -
  have law: "status_law io view" using assms by (simp add: ata_device_def)
  then obtain n where "ready io (polled io n d)" by (auto simp: status_law_def)
  from idewait_ends [OF law this, of c] obtain r d' where "idewait io c d = Some (r, d')" "r = 0 \<or> r = -1 \<and> c"
    "view d' = (view d)\<lparr>busy := False\<rparr> \<or> view d' = (view d)\<lparr>busy := False, xfer := Idle\<rparr> \<and> (c \<longrightarrow> r = -1)"
    "r = -1 \<longrightarrow> xfer (view d') = Idle" by blast
  then show thesis by (intro that [of r d']) auto
qed



text \<open>Issuing the request of a buffer to an idle disk.\<close>

definition request_ok :: "buf \<Rightarrow> bool" where
  "request_ok x \<longleftrightarrow> blockno x < FSSIZE \<and> bdev x = 1 \<and> length (bdata x) = BSIZE \<and> slocked (block_lk x) \<noteq> 0
     \<and> bflags x AND (B_VALID OR B_DIRTY) \<noteq> B_VALID"

definition dirty :: "buf \<Rightarrow> bool" where
  "dirty x \<longleftrightarrow> bflags x AND B_DIRTY \<noteq> 0"

definition disk1 :: "ata \<Rightarrow> u32 \<Rightarrow> block" where
  "disk1 a bn = sectors a True (unat bn)"

lemma disk1_devreg [simp]: "disk1 (a\<lparr>devreg := v\<rparr>) = disk1 a"
  by (simp add: disk1_def fun_eq_iff)

text \<open>A request after it has been issued to a disk with the blocks \<open>dk\<close>.\<close>

definition issued :: "ata \<Rightarrow> (u32 \<Rightarrow> block) \<Rightarrow> buf \<Rightarrow> bool" where
  "issued a dk x \<longleftrightarrow>
     (if dirty x then xfer a = Idle \<and> (\<exists>bs. disk1 a = dk(blockno x := bs) \<and> (werr a \<or> bs = bdata x))
      else xfer a = Reading True (unat (blockno x)) \<and> disk1 a = dk)"


section \<open>The request queue\<close>

primrec queued :: "(nat \<Rightarrow> nat option) \<Rightarrow> nat option \<Rightarrow> nat list \<Rightarrow> bool" where
  "queued nx p [] \<longleftrightarrow> p = None"
| "queued nx p (b # bs) \<longleftrightarrow> p = Some b \<and> queued nx (nx b) bs"





section \<open>The memory disk as the specification\<close>

text \<open>
  \<open>tracks view s qs m\<close>: the driver in state \<open>s\<close> has the requests \<open>qs\<close> queued, and \<open>m\<close> is the buffer cache over a
  memory disk that has served none of them yet. The request at the front of the queue has been issued. Who sleeps has a request in the queue, and
  who was woken without one will find its buffer valid.
\<close>

definition active :: "ata \<Rightarrow> nat list \<Rightarrow> 'a bcache_scheme \<Rightarrow> bool" where
  "active a qs m \<longleftrightarrow> (case qs of
     [] \<Rightarrow> xfer a = Idle \<and> disk1 a = memdisk m
   | b # _ \<Rightarrow> issued a (memdisk m) (bufs m ! b))"

definition waiting :: "(nat \<Rightarrow> waiter) \<Rightarrow> nat list \<Rightarrow> buf list \<Rightarrow> bool" where
  "waiting w qs bs \<longleftrightarrow> (\<forall>b. w b = Asleep \<longrightarrow> b \<in> set qs) \<and> (\<forall>b \<in> set qs. w b \<noteq> Out)
     \<and> (\<forall>b. w b = Woken \<and> b \<notin> set qs \<longrightarrow> bflags (bs ! b) AND (B_VALID OR B_DIRTY) = B_VALID)"

definition tracks :: "('d \<Rightarrow> ata) \<Rightarrow> 'd ide \<Rightarrow> nat list \<Rightarrow> 'a bcache_scheme \<Rightarrow> bool" where
  "tracks view s qs m \<longleftrightarrow> ibufs s = bufs m \<and> havedisk1 s \<and> disksize m = FSSIZE
     \<and> queued (qnext s) (idequeue s) qs \<and> distinct qs
     \<and> (\<forall>b \<in> set qs. b < length (bufs m) \<and> request_ok (bufs m ! b))
     \<and> active (view (dev s)) qs m \<and> waiting (waiter s) qs (bufs m)"


lemma flags_done: "((f :: u32) OR B_VALID) AND NOT B_DIRTY = (f AND NOT B_DIRTY) OR B_VALID"
  "((f AND NOT B_DIRTY) OR B_VALID) AND B_BOTH = B_VALID"
  "f AND B_DIRTY = 0 \<Longrightarrow> (f AND NOT B_DIRTY) = f"
proof -
  have "B_VALID AND B_DIRTY = 0" by (simp add: B_VALID_def B_DIRTY_def)
  then have "\<not> bit (B_VALID AND B_DIRTY) n" for n by (simp only: bit_0_eq bot_fun_def bot_bool_def simp_thms)
  then have "\<not> (bit B_VALID n \<and> bit B_DIRTY n)" for n by (metis bit_and_iff)
  then show "(f OR B_VALID) AND NOT B_DIRTY = (f AND NOT B_DIRTY) OR B_VALID"
    by (intro bit_eqI) (auto simp: bit_simps)
  have both: "B_BOTH = B_VALID OR B_DIRTY" by simp
  show "((f AND NOT B_DIRTY) OR B_VALID) AND B_BOTH = B_VALID"
    unfolding both by (rule bit_eqI) (simp only: bit_and_iff bit_or_iff bit_not_iff, blast)
  show "f AND B_DIRTY = 0 \<Longrightarrow> f AND NOT B_DIRTY = f"
    by (simp add: bit_eq_iff bit_simps) blast
qed

text \<open>
  How a request ends: well, or with an error of the disk. The driver does not tell its caller which: a failed read leaves
  the bytes of the buffer, a failed write leaves some bytes \<open>bs\<close> in the sector, and the buffer is marked
  like one that was served. A request that ends well has the effect of the memory disk's \<^verbatim>\<open>iderw\<close>.
\<close>

datatype ide_outcome = Good | Bad block






text \<open>The outcome of the request at the front, as the disk reports it to the driver.\<close>

definition outcome_of :: "'d ports \<Rightarrow> ('d \<Rightarrow> ata) \<Rightarrow> 'd ide \<Rightarrow> ide_outcome" where
  "outcome_of io view s = (case idequeue s of
     None \<Rightarrow> Good
   | Some b \<Rightarrow>
       if dirty (ibufs s ! b)
       then if werr (view (dev s)) then Bad (disk1 (view (dev s)) (blockno (ibufs s ! b))) else Good
       else case idewait io True (dev s) of Some (r, _) \<Rightarrow> if r < 0 then Bad [] else Good | None \<Rightarrow> Good)"



section \<open>All interleavings\<close>

text \<open>
  The driver among its callers: a process that has locked a buffer asks for it, the disk interrupts, a
  sleeper is woken by \<^verbatim>\<open>kill\<close>, one that was woken looks at its buffer again, and a buffer whose owner is
  not in \<^verbatim>\<open>iderw\<close> changes under the other layers. The label of a step says what happened.
\<close>

datatype ide_event = Request nat | Interrupt ide_outcome | Kill nat | Resume nat | Edit nat "buf \<Rightarrow> buf"

inductive ide_step :: "'d ports \<Rightarrow> ('d \<Rightarrow> ata) \<Rightarrow> 'd ide \<Rightarrow> ide_event \<Rightarrow> 'd ide \<Rightarrow> bool"
  for io :: "'d ports" and view :: "'d \<Rightarrow> ata" where
  request: "b < length (ibufs s) \<Longrightarrow> request_ok (ibufs s ! b) \<Longrightarrow> waiter s b = Out \<Longrightarrow> ide_rw io b s = Some (Inr s')
    \<Longrightarrow> ide_step io view s (Request b) s'"
| interrupt: "ideintr io s = Some (Inr s') \<Longrightarrow> ide_step io view s (Interrupt (outcome_of io view s)) s'"
| kill: "waiter s b = Asleep \<Longrightarrow> ide_step io view s (Kill b) (s\<lparr>waiter := (waiter s)(b := Woken)\<rparr>)"
| resume: "waiter s b = Woken \<Longrightarrow> ide_step io view s (Resume b) (iderw_wait b s)"
| edit: "waiter s b = Out \<Longrightarrow> ide_step io view s (Edit b f) (upd_ibuf b f s)"

inductive ide_run :: "'d ports \<Rightarrow> ('d \<Rightarrow> ata) \<Rightarrow> 'd ide \<Rightarrow> ide_event list \<Rightarrow> 'd ide \<Rightarrow> bool"
  for io :: "'d ports" and view :: "'d \<Rightarrow> ata" where
  none: "ide_run io view s [] s"
| more: "ide_run io view s es s' \<Longrightarrow> ide_step io view s' e s'' \<Longrightarrow> ide_run io view s (es @ [e]) s''"












section \<open>Start-up and read errors\<close>

lemma probe_finds:
  assumes "fst (inb io 0x1f7 (polled io k (dev s))) \<noteq> 0" "k < n"
  shows "\<exists>j. probe n io s = s\<lparr>dev := polled io j (dev s), havedisk1 := True\<rparr>"
  using assms
proof (induction n arbitrary: s k)
  case (Suc n)
  show ?case
  proof (cases "fst (inb io 0x1f7 (dev s)) = 0")
    case True
    then obtain k' where k: "k = Suc k'" using Suc.prems(1) by (cases k) (auto simp: polled_def)
    let ?s = "s\<lparr>dev := snd (inb io 0x1f7 (dev s))\<rparr>"
    obtain j where "probe n io ?s = ?s\<lparr>dev := polled io j (dev ?s), havedisk1 := True\<rparr>"
      using Suc.IH [of k' ?s] Suc.prems k by (auto simp: polled_Suc)
    then show ?thesis using True by (intro exI [of _ "Suc j"]) (simp add: polled_Suc split_beta)
  qed (auto simp: split_beta polled_def intro!: exI [of _ "Suc 0"])
qed simp

lemma polled_idle:
  assumes "status_law io view" "idle (view d)"
  shows "view (polled io j d) = view d"
proof (induction j)
  case (Suc j)
  let ?d = "polled io j d"
  have "idle (view ?d)" using Suc assms(2) by simp
  then have eq: "(view ?d)\<lparr>busy := False\<rparr> = view ?d" "(view ?d)\<lparr>xfer := Idle\<rparr> = view ?d"
    by (auto simp: idle_def intro!: ata.equality)
  have "view (snd (inb io 0x1f7 ?d)) = view ?d"
  proof (cases "ready io ?d")
    case True
    then have "view (snd (inb io 0x1f7 ?d))
      = (if status_error io ?d then (view ?d)\<lparr>busy := False, xfer := Idle\<rparr> else (view ?d)\<lparr>busy := False\<rparr>)"
      using assms(1) unfolding status_law_def by meson
    then show ?thesis by (simp add: eq)
  next
    case False
    then have "view (snd (inb io 0x1f7 ?d)) \<in> {view ?d, (view ?d)\<lparr>busy := False\<rparr>}"
      using assms(1) unfolding status_law_def by meson
    then show ?thesis by (simp add: eq)
  qed
  then show ?case using Suc by (simp add: polled_def)
qed (simp add: polled_def)

text \<open>When disk 1 answers in time, the driver starts with an empty queue on it.\<close>

lemma ide_init_tracks:
  assumes dev: "ata_device io view" and idle: "xfer (view (dev s)) = Idle"
    and s: "ibufs s = bufs m" "idequeue s = None" "waiter s = (\<lambda>_. Out)"
    and m: "disksize m = FSSIZE" "disk1 (view (dev s)) = memdisk m"
    and answers: "\<And>d. \<exists>k<1000. fst (inb io 0x1f7 (polled io k d)) \<noteq> 0"
  shows "\<exists>s'. ide_init io s = Some s' \<and> tracks view s' [] m"
proof -
  have law: "status_law io view" using dev by (simp add: ata_device_def)
  obtain r d where d: "idewait io False (dev s) = Some (r, d)" "\<not> busy (view d)" "sectors (view d) = sectors (view (dev s))"
    "xfer (view d) = Idle"
    using idewait_returns [OF dev, of False "dev s"] idle by metis
  have sel: "view (outb io 0x1f6 v d) = (view d)\<lparr>devreg := v\<rparr>" if "idle (view d)" for v d
    using dev that by (simp add: ata_device_def register_law_def)
  let ?d1 = "outb io 0x1f6 (0xe0 OR push_bit 4 1) d"
  have i: "idle (view d)" using d by (simp add: idle_def)
  then have i1: "idle (view ?d1)" "disk1 (view ?d1) = disk1 (view d)" by (simp_all add: sel) (simp add: idle_def)
  let ?s1 = "s\<lparr>dev := ?d1\<rparr>"
  obtain j where j: "probe 1000 io ?s1 = ?s1\<lparr>dev := polled io j (dev ?s1), havedisk1 := True\<rparr>"
    using probe_finds answers by metis
  let ?d2 = "outb io 0x1f6 (0xe0 OR push_bit 4 0) (polled io j ?d1)"
  have "view (polled io j ?d1) = view ?d1" by (rule polled_idle [OF law i1(1)])
  then have v2: "view ?d2 = (view ?d1)\<lparr>devreg := 0xe0 OR push_bit 4 0\<rparr>" using sel [of "polled io j ?d1"] i1(1) by simp
  have "disk1 (view d) = memdisk m" using m(2) d(3) by (simp add: disk1_def fun_eq_iff)
  then have "active (view ?d2) [] m" using i1 unfolding v2 by (simp add: active_def idle_def)
  moreover have "ide_init io s = Some (?s1\<lparr>havedisk1 := True, dev := ?d2\<rparr>)" using j by (simp add: ide_init_def d)
  ultimately show ?thesis using s m(1) by (auto simp: tracks_def waiting_def)
qed

text \<open>
  A read that the disk reports as failed: the buffer keeps the bytes it had, and is marked valid all the same.
\<close>

lemma read_error_marks_valid:
  assumes "idequeue s = Some b" "qnext s b = None" "b < length (ibufs s)" "\<not> dirty (ibufs s ! b)"
    and "idewait io True (dev s) = Some (-1, d)"
  obtains s' where "ideintr io s = Some (Inr s')" "bdata (ibufs s' ! b) = bdata (ibufs s ! b)"
    "bflags (ibufs s' ! b) AND (B_VALID OR B_DIRTY) = B_VALID"
proof -
  have "\<exists>s'. ideintr io s = Some (Inr s') \<and> bdata (ibufs s' ! b) = bdata (ibufs s ! b)
    \<and> bflags (ibufs s' ! b) AND (B_VALID OR B_DIRTY) = B_VALID"
    using assms
    by (auto simp: ideintr_def fetch_def dirty_def seqO_def upd_ibuf_def wakeup_buf_def Let_def flags_done(1,2))
  then show thesis using that by blast
qed

section \<open>A disk\<close>













section \<open>Properties\<close>





end
