(* ===== verification/Spec2Isabelle.thy ===== *)
theory Spec2Isabelle
  imports Uthread Grep LogSpace Upcall Schedule ShellPrint Keyboard NetProps Directory Sbrk Ide
begin

text \<open>
  A model of the xv6 operating system with user-level threads and upcalls (the sources are under
  \<^verbatim>\<open>src/xv6\<close>), and the theorems that make its components correct.

  \<^bold>\<open>The program.\<close> A teaching kernel for the x86: a physical page allocator, page tables, processes with a round
  robin scheduler, spin and sleep locks, pipes, a file system (buffer cache, write-ahead log, inodes, directories),
  system calls, and the user programs that run on top. This version adds a user-level thread package
  (\<^verbatim>\<open>uthread1.c\<close>, \<^verbatim>\<open>uthread_switch.S\<close>), a system call \<^verbatim>\<open>uthread_init\<close> that registers its scheduler with the kernel, and
  an upcall in \<^verbatim>\<open>trap.c\<close>: a timer interrupt in user mode continues the process in the registered scheduler.

  \<^bold>\<open>Theories and sources.\<close>
  \<^item> \<open>Xv6_Prelude\<close>: result type, panics as values, words, first-fit search as a locale.
  \<^item> \<open>Uthread\<close>: \<^verbatim>\<open>uthread1.c\<close>, \<^verbatim>\<open>uthread_switch.S\<close>. Thread table, registers and stack memory are one record;
    \<open>thread_init\<close>, \<open>thread_create\<close>, \<open>thread_schedule\<close>, \<open>thread_exit\<close>, \<open>thread_switch\<close> are the functions of these names,
    \<open>sched_begin\<close> is the part of \<^verbatim>\<open>thread_schedule\<close> before \<^verbatim>\<open>thread_switch\<close>. A run is a sequence of their calls with timer upcalls, which may
    or may not be allowed inside \<^verbatim>\<open>thread_schedule\<close>.
  \<^item> \<open>Memory\<close>: \<^verbatim>\<open>string.c\<close>, \<^verbatim>\<open>x86.h\<close> string instructions, on a memory of bytes with 32-bit addresses.
  \<^item> \<open>Kalloc\<close>: \<^verbatim>\<open>kalloc.c\<close>. The free list is threaded through the memory, as in the code.
  \<^item> \<open>Pipe\<close>: \<^verbatim>\<open>pipe.c\<close>. Passes of the blocking loops are the steps of an interleaving.
  \<^item> \<open>Spinlock\<close>: \<^verbatim>\<open>spinlock.c\<close>, \<^verbatim>\<open>sleeplock.c\<close>, \<^verbatim>\<open>mycpu\<close>, \<^verbatim>\<open>cpuid\<close>, \<^verbatim>\<open>myproc\<close>. The functions are cut at their atomic accesses
    and interleaved over the processors.
  \<^item> \<open>Vm\<close>: \<^verbatim>\<open>vm.c\<close>, \<^verbatim>\<open>mmu.h\<close>, \<^verbatim>\<open>memlayout.h\<close>. Page directories and tables are words in allocator pages.
  \<^item> \<open>Bio\<close>: \<^verbatim>\<open>bio.c\<close>, \<^verbatim>\<open>memide.c\<close>. The LRU list is the pair of link fields of each buffer.
  \<^item> \<open>Ide\<close>: \<^verbatim>\<open>ide.c\<close>, the driver with a request queue and interrupts that replaces \<^verbatim>\<open>memide.c\<close> in the default kernel. The port
    instructions on the disk controller are a parameter; \<open>ata_device\<close> says what the driver relies on: registers, commands and data are
    taken only when the disk is not busy, and a request ends well or with an error.
  \<^item> \<open>Log\<close>, \<open>LogCrash\<close>, \<open>LogSpace\<close>: \<^verbatim>\<open>log.c\<close>, its behaviour under crashes and its space reservation.
  \<^item> \<open>Blocks\<close>: what the file system relies on of the two below it, as the locale \<open>block_store\<close> (a block that is read, changed and
    released inside a transaction behaves like an element of an array), interpreted on \<^verbatim>\<open>bio.c\<close> and \<^verbatim>\<open>log.c\<close>. \<open>BlockAlloc\<close>,
    \<open>FileData\<close> and \<open>Directory\<close> are about \<^verbatim>\<open>balloc\<close> and \<^verbatim>\<open>bfree\<close>, about \<^verbatim>\<open>bmap\<close>, \<^verbatim>\<open>iupdate\<close>, \<^verbatim>\<open>readi\<close> and \<^verbatim>\<open>writei\<close>, and about
    \<^verbatim>\<open>dirlookup\<close> and \<^verbatim>\<open>dirlink\<close>, over that interface.
  \<^item> \<open>Fs\<close>: \<^verbatim>\<open>fs.c\<close>. \<open>File\<close>: \<^verbatim>\<open>file.c\<close> and the parts of \<^verbatim>\<open>pipe.c\<close> that use the file table.
  \<^item> \<open>Kernel\<close>, \<open>Proc\<close>, \<open>Schedule\<close>: \<^verbatim>\<open>proc.c\<close>. The record \<open>kernel\<close> extends the virtual memory state with the process
    table, the open files, the pipes and the file system.
  \<^item> \<open>Syscall\<close>, \<open>Sysfile\<close>, \<open>Exec\<close>: \<^verbatim>\<open>syscall.c\<close>, \<^verbatim>\<open>sysproc.c\<close>, \<^verbatim>\<open>sysfile.c\<close>, \<^verbatim>\<open>exec.c\<close>, \<^verbatim>\<open>trap.c\<close>. \<open>Upcall\<close>: what the timer upcall does.
  \<^item> \<open>Umalloc\<close>: \<^verbatim>\<open>umalloc.c\<close>. The headers are the two fields of the union by address; \<^verbatim>\<open>sbrk\<close> is what a process sees of the system call;
    \<open>Sbrk\<close> shows that \<^verbatim>\<open>sys_sbrk\<close> and \<^verbatim>\<open>growproc\<close> of the kernel give exactly that.
  \<^item> \<open>Userlib\<close>, \<open>Grep\<close>: \<^verbatim>\<open>ulib.c\<close>, \<^verbatim>\<open>printf.c\<close>, \<^verbatim>\<open>cprintf\<close> of \<^verbatim>\<open>console.c\<close>, \<^verbatim>\<open>grep.c\<close>.
  \<^item> \<open>Shell\<close>, \<open>ShellPrint\<close>: the tokenizer and parser of \<^verbatim>\<open>sh.c\<close>. A pointer into the line is an index, the pair of pointers of a
    word a span. \<open>ShellPrint\<close> has commands with their words as strings and a printer for them.
  \<^item> \<open>Font\<close>: \<^verbatim>\<open>graphic.c\<close>, \<^verbatim>\<open>font.c\<close>, \<^verbatim>\<open>font_bin.h\<close>, on the frame buffer in the kernel's memory. \<open>Console\<close>: \<^verbatim>\<open>console.c\<close>; the keys are an
    argument of \<open>consoleintr\<close>, the bytes written to the serial port are recorded. \<open>Keyboard\<close>: \<^verbatim>\<open>kbd.c\<close>, \<^verbatim>\<open>kbd.h\<close>, from scan codes to keys.
  \<^item> \<open>Net\<close>, \<open>NetProps\<close>: \<^verbatim>\<open>eth.c\<close>, \<^verbatim>\<open>arp.c\<close>, \<^verbatim>\<open>ipv4.c\<close>, \<^verbatim>\<open>icmp.c\<close>, \<^verbatim>\<open>tcp.c\<close>, \<^verbatim>\<open>http.c\<close> on packets in memory, and the transmit ring of
    \<^verbatim>\<open>i8254.c\<close>; the registers the driver uses of the card are fields of the record \<open>net\<close>.

  \<^bold>\<open>Conventions.\<close> Machine integers are words of their width. An operation of the kernel is a function from the state to
  \<open>halt + 'a \<times> state\<close>: \<^verbatim>\<open>panic\<close> is \<open>Panic\<close> with its message, an access the C code must not make (a null pointer, an index out
  of range) is \<open>Fault\<close>, and a caller that would sleep inside an operation that is modelled as one step is \<open>Sleeps\<close>. Critical
  sections of spin locks are atomic steps; this rests on the mutual exclusion proved in \<open>Spinlock\<close>. Loops are structural
  recursions over their bound where the code has one (the parser of the shell gets a recursion depth, and four times the
  length of the line and four is shown to be enough; the list scan of \<^verbatim>\<open>bget\<close> gets one step more than there are buffers, so
  that it reaches the head of any ring of buffers; the digit loop of \<^verbatim>\<open>printint\<close> gets as many steps as its buffer has
  bytes, and the theorems show that they are enough), \<open>partial_function (option)\<close> where the code may loop. Device
  interrupt handlers and the disk image are parameters.

  \<^bold>\<open>What is shown.\<close> The thread package: exactly one running thread in every run whose upcalls arrive outside
  the package, and a run with an upcall inside \<^verbatim>\<open>thread_schedule\<close> that leaves two; context switches that preserve every register;
  which thread is picked, and that the two lowest threads starve the others. The kernel: distinct, aligned pages from the
  allocator; string routines that copy what they should for any overlap; page table updates that change exactly the pages
  they should; pipes that are bounded FIFO queues under any interleaving; mutual exclusion of the locks and no lost wake-up;
  a transparent buffer cache; a disk driver that serves its queue with the effect of the memory disk, failed requests apart, and completes every
  request; a log that is atomic under a crash between any two disk writes and whose space reservation is
  enough for operations that keep to their number of different blocks; a file system whose block bitmap gives out free blocks only and whose files are byte strings
  that \<^verbatim>\<open>readi\<close> and \<^verbatim>\<open>writei\<close> read and overwrite, with the disk inode kept up to date, and whose directories are maps; a fair process scheduler; the state in which the timer upcall leaves a process. User
  programs: \<^verbatim>\<open>malloc\<close> and \<^verbatim>\<open>free\<close> end, hand out disjoint blocks and keep the free list ordered and coalesced; the matcher of
  \<^verbatim>\<open>grep\<close> decides its pattern language; numbers are printed within the buffer so that \<^verbatim>\<open>atoi\<close> reads back those that are not negative; the
  shell's parser ends on every line, inverts the printer, and cuts the line into exactly its words. The console: line editing
  refines a queue and an edited line, typing on the keyboard enters the characters on the keys, reading delivers lines, and drawing
  stays inside the frame buffer. The network: the ARP
  table learns bindings and keeps the others, echo replies are well formed with checksums that a receiver accepts.
  Theorems about the places where the code does not do what it means to are stated as such.

  \<^bold>\<open>Not modelled.\<close> Device drivers as far as they are port and register accesses whose meaning is the hardware's: interrupt
  controllers, PCI, the control registers and the receive loop of the network card, the initialisation and input of the UART. \<^verbatim>\<open>runcmd\<close> and
  \<^verbatim>\<open>main\<close> of the shell, which are sequences of system calls. Start-up code (\<^verbatim>\<open>main.c\<close>, \<^verbatim>\<open>bootmain.c\<close>, the assembly entry), which
  only calls the modelled initialisers in order; the UEFI loader package and EDK II, which are firmware services; test programs
  and the host tool \<^verbatim>\<open>mkfs.c\<close>.
\<close>

end
